(* ===== verification/Prelude.thy ===== *)
theory Prelude
  imports Complex_Main "HOL-Library.Word"
begin

unbundle bit_operations_syntax

text \<open>
  Shared vocabulary of the development: the machine integers of the C++ code, the
  exceptions its code throws, bounds-checked access to vectors, the state-and-exception
  computations in which the register-level code is written, and the generic facts on
  lists and on ring indices that several components use.

  \<^item> A C++ \<^verbatim>\<open>throw\<close> is a value \<open>Inl e\<close>; a normal return is \<open>Inr v\<close>.
  \<^item> An access of a \<^verbatim>\<open>std::vector\<close> or array outside its bounds is undefined behaviour in
    C++; here it is the exception value \<open>OutOfBounds\<close>, and a use of an object that was not
    constructed or is already destroyed is \<open>DeadObject\<close>, so that "no undefined behaviour"
    is a statement about results.
  \<^item> Code that reads and writes hardware registers is a function from the hardware state
    to a result and the new hardware state, so that what was written before an exception
    stays written, as it does on the card.
\<close>

section \<open>Types\<close>

type_synonym u8 = "8 word"
type_synonym u16 = "16 word"
type_synonym u32 = "32 word"
type_synonym u64 = "64 word"

datatype exn =
    OutOfBounds
  | DeadObject
  | WrongUnionMember
  | SignedOverflow
  | DivisionByZero
  | AssertionFailed
  | OutOfRange string
  | RuntimeError string
  | StringError string
  | Exception string
  | ParameterException string
  | ParseException string
  | InvalidParameterException string
  | InvalidOptionValueException string
  | InvalidLinkId string
  | TimeoutException string
  | CruException string
  | CrorcException string
  | CrorcArmDataGeneratorException string
  | CrorcCheckLinkException string
  | CrorcFreeFifoException string
  | CrorcDataArrivalException string
  | PdaException string
  | BadLexicalCast

text \<open>
  The exceptions of the ReadoutCard library all derive from its class
  \<^verbatim>\<open>Exception\<close>; a handler for that class catches these and no other.
\<close>

fun is_roc_exception :: "exn \<Rightarrow> bool" where
  "is_roc_exception (Exception _) = True"
| "is_roc_exception (ParameterException _) = True"
| "is_roc_exception (ParseException _) = True"
| "is_roc_exception (InvalidParameterException _) = True"
| "is_roc_exception (InvalidOptionValueException _) = True"
| "is_roc_exception (InvalidLinkId _) = True"
| "is_roc_exception (TimeoutException _) = True"
| "is_roc_exception (CruException _) = True"
| "is_roc_exception (CrorcException _) = True"
| "is_roc_exception (CrorcArmDataGeneratorException _) = True"
| "is_roc_exception (CrorcCheckLinkException _) = True"
| "is_roc_exception (CrorcFreeFifoException _) = True"
| "is_roc_exception (CrorcDataArrivalException _) = True"
| "is_roc_exception (PdaException _) = True"
| "is_roc_exception _ = False"

type_synonym 'a res = "exn + 'a"
type_synonym ('s, 'a) io = "'s \<Rightarrow> (exn + 'a) \<times> 's"

named_theorems io_simps \<open>computation rules of the state-and-exception operations\<close>
named_theorems vec_simps \<open>bounds-checked vector accesses that are in range\<close>
named_theorems ring_simps \<open>arithmetic of ring indices\<close>


section \<open>Results\<close>

fun res_bind :: "'a res \<Rightarrow> ('a \<Rightarrow> 'b res) \<Rightarrow> 'b res" where
  "res_bind (Inl e) f = Inl e"
| "res_bind (Inr x) f = f x"

lemma res_bind_Inr_iff [simp]: "res_bind m f = Inr y \<longleftrightarrow> (\<exists>x. m = Inr x \<and> f x = Inr y)"
  by (cases m) auto

lemma res_bind_Inl_iff: "res_bind m f = Inl e \<longleftrightarrow> m = Inl e \<or> (\<exists>x. m = Inr x \<and> f x = Inl e)"
  by (cases m) auto

lemma res_bind_assoc: "res_bind (res_bind m f) g = res_bind m (\<lambda>x. res_bind (f x) g)"
  by (cases m) auto


section \<open>State-and-exception computations\<close>

definition ret :: "'a \<Rightarrow> ('s, 'a) io" where
  "ret x s = (Inr x, s)"

definition throw :: "exn \<Rightarrow> ('s, 'a) io" where
  "throw e s = (Inl e, s)"

definition bnd :: "('s, 'a) io \<Rightarrow> ('a \<Rightarrow> ('s, 'b) io) \<Rightarrow> ('s, 'b) io" where
  "bnd m f s = (case m s of (Inl e, t) \<Rightarrow> (Inl e, t) | (Inr x, t) \<Rightarrow> f x t)"

definition andThen :: "('s, 'a) io \<Rightarrow> ('s, 'b) io \<Rightarrow> ('s, 'b) io" where
  "andThen m n = bnd m (\<lambda>_. n)"

definition whenM :: "bool \<Rightarrow> ('s, unit) io \<Rightarrow> ('s, unit) io" where
  "whenM b m = (if b then m else ret ())"

text \<open>A handler for one class of exceptions: \<open>catch p m h\<close> runs \<open>h\<close> after an exception
  that satisfies \<open>p\<close>, from the state the exception left behind.\<close>

definition catch :: "(exn \<Rightarrow> bool) \<Rightarrow> ('s, 'a) io \<Rightarrow> (exn \<Rightarrow> ('s, 'a) io) \<Rightarrow> ('s, 'a) io" where
  "catch p m h s = (case m s of (Inl e, t) \<Rightarrow> if p e then h e t else (Inl e, t) | r \<Rightarrow> r)"

fun seqs :: "('s, unit) io list \<Rightarrow> ('s, unit) io" where
  "seqs [] = ret ()"
| "seqs (m # ms) = andThen m (seqs ms)"

lemma ret_apply [io_simps]: "ret x s = (Inr x, s)"
  by (simp add: ret_def)

lemma throw_apply [io_simps]: "throw e s = (Inl e, s)"
  by (simp add: throw_def)

lemma bnd_ok [io_simps]: "m s = (Inr x, t) \<Longrightarrow> bnd m f s = f x t"
  by (simp add: bnd_def)

lemma bnd_exn [io_simps]: "m s = (Inl e, t) \<Longrightarrow> bnd m f s = (Inl e, t)"
  by (simp add: bnd_def)

lemma andThen_ok [io_simps]: "m s = (Inr x, t) \<Longrightarrow> andThen m n s = n t"
  by (simp add: andThen_def bnd_def)

lemma andThen_exn [io_simps]: "m s = (Inl e, t) \<Longrightarrow> andThen m n s = (Inl e, t)"
  by (simp add: andThen_def bnd_def)

lemma whenM_True [io_simps]: "whenM True m = m"
  by (simp add: whenM_def)

lemma whenM_False [io_simps]: "whenM False m = ret ()"
  by (simp add: whenM_def)

lemma bnd_ret_left [simp]: "bnd (ret x) f = f x"
  by (simp add: bnd_def ret_def fun_eq_iff)

lemma bnd_throw_left [simp]: "bnd (throw e) f = throw e"
  by (simp add: bnd_def throw_def fun_eq_iff)

lemma bnd_ret_right [simp]: "bnd m ret = m"
  by (auto simp: bnd_def ret_def fun_eq_iff split: prod.splits sum.splits)

lemma bnd_assoc: "bnd (bnd m f) g = bnd m (\<lambda>x. bnd (f x) g)"
  by (auto simp: bnd_def fun_eq_iff split: prod.splits sum.splits)

lemma bnd_Inr_iff:
  "bnd m f s = (Inr y, u) \<longleftrightarrow> (\<exists>x t. m s = (Inr x, t) \<and> f x t = (Inr y, u))"
  by (auto simp: bnd_def split: prod.splits sum.splits)

lemma andThen_Inr_iff:
  "andThen m n s = (Inr y, u) \<longleftrightarrow> (\<exists>x t. m s = (Inr x, t) \<and> n t = (Inr y, u))"
  by (auto simp: andThen_def bnd_Inr_iff)

lemma seqs_succeeds:
  assumes "\<And>m s. m \<in> set ms \<Longrightarrow> \<exists>t. m s = (Inr (), t)"
  shows "\<exists>t. seqs ms s = (Inr (), t)"
  using assms
proof (induction ms arbitrary: s)
  case Nil
  then show ?case by (simp add: ret_def)
next
  case (Cons m ms)
  obtain t where "m s = (Inr (), t)" using Cons.prems by force
  moreover have "\<exists>u. seqs ms t = (Inr (), u)" using Cons.prems by (intro Cons.IH) auto
  ultimately show ?case by (simp add: io_simps)
qed


section \<open>Bounds-checked vectors\<close>

definition vec_get :: "'a list \<Rightarrow> int \<Rightarrow> 'a res" where
  "vec_get xs i = (if 0 \<le> i \<and> i < int (length xs) then Inr (xs ! nat i) else Inl OutOfBounds)"

definition vec_set :: "'a list \<Rightarrow> int \<Rightarrow> 'a \<Rightarrow> 'a list res" where
  "vec_set xs i x = (if 0 \<le> i \<and> i < int (length xs) then Inr (xs[nat i := x]) else Inl OutOfBounds)"

lemma vec_get_in [vec_simps]: "0 \<le> i \<Longrightarrow> i < int (length xs) \<Longrightarrow> vec_get xs i = Inr (xs ! nat i)"
  by (simp add: vec_get_def)

lemma vec_set_in [vec_simps]:
  "0 \<le> i \<Longrightarrow> i < int (length xs) \<Longrightarrow> vec_set xs i x = Inr (xs[nat i := x])"
  by (simp add: vec_set_def)

lemma vec_set_Inr: "vec_set xs i x = Inr ys \<Longrightarrow> ys = xs[nat i := x] \<and> 0 \<le> i \<and> i < int (length xs)"
  by (auto simp: vec_set_def split: if_splits)

lemma vec_get_Inr: "vec_get xs i = Inr y \<Longrightarrow> y = xs ! nat i \<and> 0 \<le> i \<and> i < int (length xs)"
  by (auto simp: vec_get_def split: if_splits)


section \<open>Ring indices\<close>

text \<open>
  \<open>ring_next n i\<close> is the successor of slot \<open>i\<close> in a ring of slots \<open>0 .. n - 1\<close>, computed as
  the code does it, by an increment and a test, and \<open>ring_dist n i j\<close> the number of steps
  from \<open>i\<close> to \<open>j\<close>. \<open>ring_slice\<close> lists the \<open>k\<close> elements that start at slot \<open>i\<close>.
\<close>

definition ring_next :: "int \<Rightarrow> int \<Rightarrow> int" where
  "ring_next n i = (if i + 1 \<ge> n then 0 else i + 1)"

definition ring_dist :: "int \<Rightarrow> int \<Rightarrow> int \<Rightarrow> int" where
  "ring_dist n i j = (j - i) mod n"

fun ring_slice :: "'a list \<Rightarrow> int \<Rightarrow> nat \<Rightarrow> 'a list" where
  "ring_slice xs i 0 = []"
| "ring_slice xs i (Suc k) = xs ! nat i # ring_slice xs (ring_next (int (length xs)) i) k"

definition in_ring :: "int \<Rightarrow> int \<Rightarrow> bool" where
  "in_ring n i \<longleftrightarrow> 0 \<le> i \<and> i < n"

lemma ring_next_mod:
  assumes "in_ring n i"
  shows "ring_next n i = (i + 1) mod n"
proof (cases "i + 1 \<ge> n")
  case True
  with assms have "i + 1 = n" by (simp add: in_ring_def)
  then show ?thesis by (simp add: ring_next_def)
next
  case False
  with assms show ?thesis by (simp add: ring_next_def in_ring_def)
qed

lemma ring_next_in [simp]: "in_ring n i \<Longrightarrow> in_ring n (ring_next n i)"
  by (auto simp: ring_next_def in_ring_def)

lemma ring_dist_bounds: "0 < n \<Longrightarrow> 0 \<le> ring_dist n i j \<and> ring_dist n i j < n"
  by (simp add: ring_dist_def)

lemma ring_dist_self [simp]: "ring_dist n i i = 0"
  by (simp add: ring_dist_def)

lemma ring_dist_0_iff:
  assumes "in_ring n i" "in_ring n j"
  shows "ring_dist n i j = 0 \<longleftrightarrow> i = j"
proof
  assume "ring_dist n i j = 0"
  then have "n dvd j - i" by (simp add: ring_dist_def mod_eq_0_iff_dvd)
  moreover have "\<bar>j - i\<bar> < n" using assms by (auto simp: in_ring_def)
  ultimately have "j - i = 0" using zdvd_not_zless[of "\<bar>j - i\<bar>" n] by (cases "j - i = 0") auto
  then show "i = j" by simp
qed simp

lemma ring_dist_alt:
  assumes "in_ring n i" "in_ring n j"
  shows "ring_dist n i j = (if i \<le> j then j - i else j - i + n)"
proof (cases "i \<le> j")
  case True
  with assms show ?thesis by (auto simp: ring_dist_def in_ring_def)
next
  case False
  have "(j - i) mod n = (j - i + n) mod n" by simp
  also have "\<dots> = j - i + n" using False assms by (intro mod_pos_pos_trivial) (auto simp: in_ring_def)
  finally show ?thesis using False by (simp add: ring_dist_def)
qed

lemma ring_dist_next_right:
  assumes "in_ring n i" "in_ring n j" "ring_next n j \<noteq> i"
  shows "ring_dist n i (ring_next n j) = ring_dist n i j + 1"
  using assms by (auto simp: ring_dist_alt ring_next_def in_ring_def)

lemma ring_dist_next_left:
  assumes "in_ring n i" "in_ring n j" "i \<noteq> j"
  shows "ring_dist n (ring_next n i) j = ring_dist n i j - 1"
  using assms by (auto simp: ring_dist_alt ring_next_def in_ring_def)

lemma ring_dist_full:
  assumes "in_ring n i" "in_ring n j"
  shows "ring_next n j = i \<longleftrightarrow> ring_dist n i j = n - 1"
  using assms by (auto simp: ring_dist_alt ring_next_def in_ring_def)

lemma ring_dist_next_self:
  assumes "in_ring n i"
  shows "ring_dist n (ring_next n i) i = n - 1"
  using assms ring_dist_alt[of n 0 i] ring_dist_alt[of n "i + 1" i] by (auto simp: ring_next_def in_ring_def)

lemmas ring_dist_facts = ring_dist_bounds ring_dist_0_iff ring_dist_next_right
  ring_dist_next_left ring_dist_full

lemma length_ring_slice [simp]: "length (ring_slice xs i k) = k"
  by (induction k arbitrary: i) auto

lemma ring_slice_nth:
  assumes "in_ring (int (length xs)) i" "j < k"
  shows "ring_slice xs i k ! j = xs ! nat ((i + int j) mod int (length xs))"
  using assms
proof (induction k arbitrary: i j)
  case 0
  then show ?case by simp
next
  case (Suc k)
  show ?case
  proof (cases j)
    case 0
    with Suc.prems show ?thesis by (simp add: in_ring_def)
  next
    case (Suc j')
    let ?n = "int (length xs)"
    have "ring_slice xs (ring_next ?n i) k ! j' = xs ! nat ((ring_next ?n i + int j') mod ?n)"
      using Suc Suc.prems by (intro Suc.IH) auto
    also have "(ring_next ?n i + int j') mod ?n = (i + int j) mod ?n"
      using Suc Suc.prems(1) by (simp add: ring_next_mod mod_add_left_eq add.assoc)
    finally show ?thesis using Suc by simp
  qed
qed

text \<open>Writing into a slot the slice does not reach leaves the slice unchanged; writing the slot
  just after its end extends it.\<close>

lemma ring_slice_update_other:
  assumes "in_ring (int (length xs)) i" "in_ring (int (length xs)) j"
    and "int k \<le> ring_dist (int (length xs)) i j"
  shows "ring_slice (xs[nat j := x]) i k = ring_slice xs i k"
  using assms
proof (induction k arbitrary: i)
  case 0
  then show ?case by simp
next
  case (Suc k)
  let ?n = "int (length xs)"
  have "i \<noteq> j" using Suc.prems by auto
  then have "int k \<le> ring_dist ?n (ring_next ?n i) j"
    using Suc.prems by (simp add: ring_dist_next_left)
  then have "ring_slice (xs[nat j := x]) (ring_next ?n i) k = ring_slice xs (ring_next ?n i) k"
    using Suc.prems by (intro Suc.IH) auto
  moreover have "nat i \<noteq> nat j" using \<open>i \<noteq> j\<close> Suc.prems by (auto simp: in_ring_def)
  ultimately show ?case by simp
qed

lemma ring_slice_snoc:
  assumes "in_ring (int (length xs)) i" "in_ring (int (length xs)) j"
    and "int k = ring_dist (int (length xs)) i j"
  shows "ring_slice (xs[nat j := x]) i (Suc k) = ring_slice xs i k @ [x]"
  using assms
proof (induction k arbitrary: i)
  case 0
  then have "i = j" by (simp add: ring_dist_0_iff)
  with 0 show ?case by (simp add: in_ring_def nat_less_iff)
next
  case (Suc k)
  let ?n = "int (length xs)"
  have ne: "i \<noteq> j" using Suc.prems by auto
  then have "int k = ring_dist ?n (ring_next ?n i) j"
    using Suc.prems by (simp add: ring_dist_next_left)
  then have "ring_slice (xs[nat j := x]) (ring_next ?n i) (Suc k)
      = ring_slice xs (ring_next ?n i) k @ [x]"
    using Suc.prems by (intro Suc.IH) auto
  moreover have "nat i \<noteq> nat j" using ne Suc.prems by (auto simp: in_ring_def)
  ultimately show ?case by simp
qed


section \<open>Words\<close>

lemma len64: "LENGTH(64) = 64"
  by simp

lemma uint_of_int_small:
  "0 \<le> x \<Longrightarrow> x < 2 ^ LENGTH('a) \<Longrightarrow> uint (word_of_int x :: 'a::len word) = x"
  by (simp add: uint_word_of_int)

lemma unat_of_nat_small: "n < 2 ^ LENGTH('a) \<Longrightarrow> unat (of_nat n :: 'a::len word) = n"
  by (simp add: unsigned_of_nat take_bit_nat_eq_self)

lemma unat_less_exp: "unat (w :: 'a::len word) < 2 ^ LENGTH('a)"
  by (rule unsigned_less)

lemma sint_small:
  fixes w :: u32
  assumes "unat w < 2147483648"
  shows "sint w = int (unat w)"
proof -
  have "int (unat w) < 2147483648" using assms by linarith
  then have "int (unat w) < 2 ^ 31" by simp
  moreover have "- (2 ^ 31) \<le> int (unat w)" by (rule order_trans[of _ 0]) simp_all
  ultimately have "signed_take_bit 31 (int (unat w)) = int (unat w)" by (intro signed_take_bit_int_eq_self)
  then show ?thesis by (simp add: sint_uint)
qed

lemma unat_mod_zero: "(x :: 'a::len word) mod y = 0 \<Longrightarrow> unat x mod unat y = 0"
  by (metis unat_0 unat_mod_distrib)

lemma unat_plus_one: "w \<noteq> - 1 \<Longrightarrow> unat (w + 1) = Suc (unat (w :: 'a::len word))"
  using unatSuc[of w] by (metis add.commute add_eq_0_iff)


section \<open>Lists\<close>

lemma sum_list_update_nat:
  fixes xs :: "nat list"
  assumes "i < length xs"
  shows "sum_list (xs[i := y]) + xs ! i = sum_list xs + y"
  using assms
proof (induction xs arbitrary: i)
  case Nil
  then show ?case by simp
next
  case (Cons x xs)
  then show ?case by (cases i) (auto simp: algebra_simps)
qed

lemma in_set_tl: "x \<in> set (tl xs) \<Longrightarrow> x \<in> set xs"
  by (cases xs) auto

lemma distinct_nth_set_update:
  assumes "distinct xs" "i < length xs" "j < length xs" "i \<noteq> j"
  shows "xs ! i \<noteq> xs ! j"
  using assms by (simp add: nth_eq_iff_index_eq)

end
