(* ===== verification/Queue_Interface.thy ===== *)
theory Queue_Interface
  imports Prelude
begin

text \<open>
  The contract of a bounded first-in first-out queue, as the users of
  \<^verbatim>\<open>AliceO2::Common::Fifo\<close> (Readout, Control) and of
  \<^verbatim>\<open>folly::ProducerConsumerQueue\<close> (the DMA benchmark, the ALF server) rely on it. The two
  classes report success with different return codes (\<open>0\<close>/\<open>-1\<close> and \<open>true\<close>/\<open>false\<close>), which are
  the parameters \<open>ok\<close> and \<open>fail\<close>. An undefined access would be a result \<open>Inl _\<close>; the laws
  promise that there is none.

  The clients of the contract are the loops found around queues in the code: filling a
  queue with a list of items, draining it, and an arbitrary sequence of calls by one writer
  and one reader.
\<close>

section \<open>Loops over a queue\<close>

text \<open>\<open>push_each\<close>: a loop that pushes item after item and ignores the return code, as
  \<^verbatim>\<open>ReadoutMemoryHandler\<close> does with the page offsets.\<close>

fun push_each :: "('a \<Rightarrow> 'q \<Rightarrow> ('r \<times> 'q) res) \<Rightarrow> 'a list \<Rightarrow> 'q \<Rightarrow> 'q res" where
  "push_each push [] q = Inr q"
| "push_each push (x # xs) q = res_bind (push x q) (\<lambda>(r, q'). push_each push xs q')"

text \<open>\<open>push_all\<close>: the same loop in a caller that throws on the first refusal, as the DMA
  benchmark does when it fills its queue of free superpages.\<close>

fun push_all :: "exn \<Rightarrow> 'r \<Rightarrow> ('a \<Rightarrow> 'q \<Rightarrow> ('r \<times> 'q) res) \<Rightarrow> 'a list \<Rightarrow> 'q \<Rightarrow> 'q res" where
  "push_all e ok push [] q = Inr q"
| "push_all e ok push (x # xs) q =
     res_bind (push x q) (\<lambda>(r, q'). if r = ok then push_all e ok push xs q' else Inl e)"

text \<open>\<open>drain\<close>: \<^verbatim>\<open>while (!q.pop(x)) { ... }\<close>. Nothing in the loop itself bounds the number of
  iterations, so it is a partial function; \<open>None\<close> is a loop that does not end.\<close>

partial_function (option) drain ::
  "'r \<Rightarrow> ('a \<Rightarrow> 'q \<Rightarrow> ('r \<times> 'a \<times> 'q) res) \<Rightarrow> 'a \<Rightarrow> 'q \<Rightarrow> 'a list \<Rightarrow> ('a list \<times> 'q) res option"
where
  "drain ok pop x q acc =
     (case pop x q of
        Inl e \<Rightarrow> Some (Inl e)
      | Inr (r, y, q') \<Rightarrow> if r = ok then drain ok pop y q' (acc @ [y]) else Some (Inr (acc, q')))"

text \<open>Any sequence of calls: the items accepted and the items delivered, in order.\<close>

datatype 'a qop = Push 'a | Pop

fun run_qops ::
  "'r \<Rightarrow> ('a \<Rightarrow> 'q \<Rightarrow> ('r \<times> 'q) res) \<Rightarrow> ('a \<Rightarrow> 'q \<Rightarrow> ('r \<times> 'a \<times> 'q) res) \<Rightarrow> 'a \<Rightarrow>
   'a qop list \<Rightarrow> 'q \<Rightarrow> ('a list \<times> 'a list \<times> 'q) res"
where
  "run_qops ok push pop z [] q = Inr ([], [], q)"
| "run_qops ok push pop z (Push x # ops) q =
     res_bind (push x q) (\<lambda>(r, q').
     res_bind (run_qops ok push pop z ops q') (\<lambda>(ins, outs, q'').
       Inr (if r = ok then x # ins else ins, outs, q'')))"
| "run_qops ok push pop z (Pop # ops) q =
     res_bind (pop z q) (\<lambda>(r, y, q').
     res_bind (run_qops ok push pop z ops q') (\<lambda>(ins, outs, q'').
       Inr (ins, if r = ok then y # outs else outs, q'')))"


section \<open>The contract\<close>

locale bounded_queue =
  fixes inv :: "'q \<Rightarrow> bool"
    and contents :: "'q \<Rightarrow> 'a list"
    and capacity :: "'q \<Rightarrow> nat"
    and push :: "'a \<Rightarrow> 'q \<Rightarrow> ('r \<times> 'q) res"
    and pop :: "'a \<Rightarrow> 'q \<Rightarrow> ('r \<times> 'a \<times> 'q) res"
    and isEmpty :: "'q \<Rightarrow> bool"
    and isFull :: "'q \<Rightarrow> bool"
    and ok :: 'r
    and fail :: 'r
  assumes ok_fail: "ok \<noteq> fail"
    and length_contents: "inv q \<Longrightarrow> length (contents q) \<le> capacity q"
    and push_space: "inv q \<Longrightarrow> length (contents q) < capacity q \<Longrightarrow>
      \<exists>q'. push x q = Inr (ok, q') \<and> inv q' \<and> contents q' = contents q @ [x] \<and> capacity q' = capacity q"
    and push_full: "inv q \<Longrightarrow> length (contents q) = capacity q \<Longrightarrow> push x q = Inr (fail, q)"
    and pop_item: "inv q \<Longrightarrow> contents q = y # ys \<Longrightarrow>
      \<exists>q'. pop x q = Inr (ok, y, q') \<and> inv q' \<and> contents q' = ys \<and> capacity q' = capacity q"
    and pop_empty: "inv q \<Longrightarrow> contents q = [] \<Longrightarrow> pop x q = Inr (fail, x, q)"
    and isEmpty_iff: "inv q \<Longrightarrow> isEmpty q \<longleftrightarrow> contents q = []"
    and isFull_iff: "inv q \<Longrightarrow> isFull q \<longleftrightarrow> length (contents q) = capacity q"
begin

lemma push_cases:
  assumes "inv q"
  obtains (accepted) q' where "length (contents q) < capacity q" "push x q = Inr (ok, q')" "inv q'"
      "contents q' = contents q @ [x]" "capacity q' = capacity q"
  | (refused) "length (contents q) = capacity q" "push x q = Inr (fail, q)"
  using assms length_contents[OF assms] push_space[OF assms] push_full[OF assms]
  by (cases "length (contents q) < capacity q") force+

lemma pop_cases:
  assumes "inv q"
  obtains (item) y ys q' where "contents q = y # ys" "pop x q = Inr (ok, y, q')" "inv q'"
      "contents q' = ys" "capacity q' = capacity q"
  | (empty) "contents q = []" "pop x q = Inr (fail, x, q)"
  using assms pop_item[OF assms] pop_empty[OF assms] by (cases "contents q") force+

lemma push_defined: "inv q \<Longrightarrow> \<exists>r q'. push x q = Inr (r, q') \<and> inv q' \<and> capacity q' = capacity q"
  by (metis push_cases)

lemma pop_defined: "inv q \<Longrightarrow> \<exists>r y q'. pop x q = Inr (r, y, q') \<and> inv q' \<and> capacity q' = capacity q"
  by (metis pop_cases)

lemma push_each_ok:
  assumes "inv q" "length (contents q) + length xs \<le> capacity q"
  shows "\<exists>q'. push_each push xs q = Inr q' \<and> inv q' \<and> contents q' = contents q @ xs
    \<and> capacity q' = capacity q"
  using assms
proof (induction xs arbitrary: q)
  case Nil
  then show ?case by simp
next
  case (Cons x xs)
  then obtain q' where q': "push x q = Inr (ok, q')" "inv q'" "contents q' = contents q @ [x]"
      "capacity q' = capacity q"
    using push_space[of q x] by auto
  with Cons.prems Cons.IH[of q'] show ?case by auto
qed

lemma push_all_ok:
  assumes "inv q" "length (contents q) + length xs \<le> capacity q"
  shows "\<exists>q'. push_all e ok push xs q = Inr q' \<and> inv q' \<and> contents q' = contents q @ xs
    \<and> capacity q' = capacity q"
  using assms
proof (induction xs arbitrary: q)
  case Nil
  then show ?case by simp
next
  case (Cons x xs)
  then obtain q' where q': "push x q = Inr (ok, q')" "inv q'" "contents q' = contents q @ [x]"
      "capacity q' = capacity q"
    using push_space[of q x] by auto
  with Cons.prems Cons.IH[of q'] show ?case by auto
qed

lemma push_all_too_many:
  assumes "inv q" "capacity q < length (contents q) + length xs"
  shows "push_all e ok push xs q = Inl e"
  using assms
proof (induction xs arbitrary: q)
  case Nil
  then show ?case using length_contents[of q] by simp
next
  case (Cons x xs)
  from Cons.prems(1) show ?case
  proof (cases rule: push_cases[where x = x])
    case (accepted q')
    with Cons.prems Cons.IH[of q'] show ?thesis by simp
  next
    case refused
    then show ?thesis using ok_fail by simp
  qed
qed

lemma drain_returns:
  assumes "inv q"
  shows "\<exists>q'. drain ok pop x q acc = Some (Inr (acc @ contents q, q')) \<and> inv q' \<and> contents q' = []
    \<and> capacity q' = capacity q"
  using assms
proof (induction "contents q" arbitrary: q x acc)
  case Nil
  then have "pop x q = Inr (fail, x, q)" by (simp add: pop_empty)
  with Nil show ?case using ok_fail by (subst drain.simps) simp
next
  case (Cons y ys)
  then obtain q' where q': "pop x q = Inr (ok, y, q')" "inv q'" "contents q' = ys"
      "capacity q' = capacity q"
    using pop_item[of q y ys x] by auto
  then have "\<exists>q''. drain ok pop y q' (acc @ [y]) = Some (Inr ((acc @ [y]) @ contents q', q'')) \<and> inv q''
      \<and> contents q'' = [] \<and> capacity q'' = capacity q'"
    using Cons.hyps(1)[of q' y "acc @ [y]"] by simp
  with q' Cons.hyps(2)[symmetric] show ?case by (subst drain.simps) auto
qed

text \<open>First in, first out: whatever the calls, the items delivered are the items that were in
  the queue and then the items accepted, in order; what is left is still queued.\<close>

lemma run_qops_fifo:
  assumes "inv q"
  shows "\<exists>ins outs q'. run_qops ok push pop z ops q = Inr (ins, outs, q') \<and> inv q'
    \<and> contents q @ ins = outs @ contents q' \<and> capacity q' = capacity q"
  using assms
proof (induction ops arbitrary: q)
  case Nil
  then show ?case by simp
next
  case (Cons op ops)
  show ?case
  proof (cases op)
    case (Push x)
    from Cons.prems show ?thesis
    proof (cases rule: push_cases[where x = x])
      case (accepted q')
      with Cons.IH[of q'] Push show ?thesis by auto
    next
      case refused
      with Cons.IH[of q] Cons.prems Push ok_fail show ?thesis by auto
    qed
  next
    case Pop
    from Cons.prems show ?thesis
    proof (cases rule: pop_cases[where x = z])
      case (item y ys q')
      with Cons.IH[of q'] Pop show ?thesis by auto
    next
      case empty
      with Cons.IH[of q] Cons.prems Pop ok_fail show ?thesis by auto
    qed
  qed
qed

end

end
