(* ===== verification/Fifo.thy ===== *)
theory Fifo
  imports Queue_Interface
begin

text \<open>
  \<^verbatim>\<open>AliceO2::Common::Fifo<T>\<close> (src/Common/include/Common/Fifo.h): a ring of \<open>size + 1\<close> slots in
  which \<open>indexStart\<close> is the slot of the latest element popped and \<open>indexEnd\<close> the slot of the
  latest element pushed. The record has the fields of the class. The template parameter
  is the type variable; \<open>z\<close> is the value that \<^verbatim>\<open>T()\<close> and the literal \<open>0\<close> convert to (a null
  pointer, a null \<^verbatim>\<open>shared_ptr\<close>, the number \<open>0\<close>). Results are return codes \<open>0\<close> and \<open>-1\<close> as in the
  class, together with the changed object and the reference parameter.
\<close>

record 'a fifo =
  fsize :: int
  indexStart :: int
  indexEnd :: int
  data :: "'a list"
  nIn :: u64
  nOut :: u64

definition Fifo_resetStats :: "'a fifo \<Rightarrow> 'a fifo" where
  "Fifo_resetStats f = f\<lparr>nIn := 0, nOut := 0\<rparr>"

definition Fifo_new :: "'a \<Rightarrow> int \<Rightarrow> 'a fifo res" where
  "Fifo_new z s =
     (if s + 1 < 0 then Inl (RuntimeError ''length_error'')
      else Inr (Fifo_resetStats
        \<lparr>fsize = s, indexStart = 0, indexEnd = 0, data = replicate (nat (s + 1)) z, nIn = 0, nOut = 0\<rparr>))"

definition Fifo_isEmpty :: "'a fifo \<Rightarrow> bool" where
  "Fifo_isEmpty f \<longleftrightarrow> indexEnd f = indexStart f"

definition Fifo_isFull :: "'a fifo \<Rightarrow> bool" where
  "Fifo_isFull f \<longleftrightarrow>
     indexEnd f + 1 = indexStart f \<or> (indexEnd f + 1 > fsize f \<and> indexStart f = 0)"

definition Fifo_push :: "'a \<Rightarrow> 'a fifo \<Rightarrow> (int \<times> 'a fifo) res" where
  "Fifo_push item f =
     (let indexEndNew = (if indexEnd f + 1 > fsize f then 0 else indexEnd f + 1)
      in if indexEndNew = indexStart f then Inr (-1, f)
         else res_bind (vec_set (data f) indexEndNew item) (\<lambda>d.
           Inr (0, f\<lparr>data := d, indexEnd := indexEndNew, nIn := nIn f + 1\<rparr>)))"

definition Fifo_pop :: "'a \<Rightarrow> 'a \<Rightarrow> 'a fifo \<Rightarrow> (int \<times> 'a \<times> 'a fifo) res" where
  "Fifo_pop z item f =
     (if Fifo_isEmpty f then Inr (-1, item, f)
      else
        let new_indexStart = (if indexStart f + 1 > fsize f then 0 else indexStart f + 1);
            g = f\<lparr>indexStart := new_indexStart\<rparr>
        in res_bind (vec_get (data g) (indexStart g)) (\<lambda>x.
           res_bind (vec_set (data g) (indexStart g) z) (\<lambda>d.
             Inr (0, x, g\<lparr>data := d, nOut := nOut g + 1\<rparr>))))"

definition Fifo_front :: "'a \<Rightarrow> 'a fifo \<Rightarrow> (int \<times> 'a) res" where
  "Fifo_front item f =
     (if Fifo_isEmpty f then Inr (-1, item)
      else res_bind (vec_get (data f) ((indexStart f + 1) mod (fsize f + 1))) (\<lambda>x. Inr (0, x)))"

definition Fifo_getNumberOfFreeSlots :: "'a fifo \<Rightarrow> int" where
  "Fifo_getNumberOfFreeSlots f =
     (let i1 = indexEnd f; i2 = indexStart f
      in if i1 \<ge> i2 then fsize f - i1 + i2 else i2 - i1 - 1)"

definition Fifo_getNumberOfUsedSlots :: "'a fifo \<Rightarrow> int" where
  "Fifo_getNumberOfUsedSlots f = fsize f - Fifo_getNumberOfFreeSlots f"

definition Fifo_clear :: "'a fifo \<Rightarrow> 'a fifo" where
  "Fifo_clear f = f\<lparr>data := [], indexStart := 0, indexEnd := 0\<rparr>"

definition Fifo_getNumberIn :: "'a fifo \<Rightarrow> u64" where
  "Fifo_getNumberIn f = nIn f"

definition Fifo_getNumberOut :: "'a fifo \<Rightarrow> u64" where
  "Fifo_getNumberOut f = nOut f"


section \<open>Invariant and abstraction\<close>

text \<open>The queued elements are the ring slice that starts after \<open>indexStart\<close> and ends at
  \<open>indexEnd\<close>.\<close>

definition fifo_inv :: "'a fifo \<Rightarrow> bool" where
  "fifo_inv f \<longleftrightarrow> 0 \<le> fsize f \<and> int (length (data f)) = fsize f + 1
     \<and> in_ring (fsize f + 1) (indexStart f) \<and> in_ring (fsize f + 1) (indexEnd f)"

definition fifo_contents :: "'a fifo \<Rightarrow> 'a list" where
  "fifo_contents f = ring_slice (data f) (ring_next (fsize f + 1) (indexStart f))
     (nat (ring_dist (fsize f + 1) (indexStart f) (indexEnd f)))"

definition fifo_capacity :: "'a fifo \<Rightarrow> nat" where
  "fifo_capacity f = nat (fsize f)"

lemma Fifo_push_ring:
  "Fifo_push item f =
     (let e = ring_next (fsize f + 1) (indexEnd f)
      in if e = indexStart f then Inr (-1, f)
         else res_bind (vec_set (data f) e item) (\<lambda>d.
           Inr (0, f\<lparr>data := d, indexEnd := e, nIn := nIn f + 1\<rparr>)))"
  by (simp add: Fifo_push_def ring_next_def)

lemma Fifo_pop_ring:
  "Fifo_pop z item f =
     (if Fifo_isEmpty f then Inr (-1, item, f)
      else let s = ring_next (fsize f + 1) (indexStart f) in
        res_bind (vec_get (data f) s) (\<lambda>x. res_bind (vec_set (data f) s z) (\<lambda>d.
          Inr (0, x, f\<lparr>indexStart := s, data := d, nOut := nOut f + 1\<rparr>))))"
  by (simp add: Fifo_pop_def ring_next_def Let_def)

lemma fifo_contents_length:
  "fifo_inv f \<Longrightarrow> length (fifo_contents f) = nat (ring_dist (fsize f + 1) (indexStart f) (indexEnd f))"
  by (simp add: fifo_contents_def)

lemma fifo_length_le:
  assumes "fifo_inv f"
  shows "length (fifo_contents f) \<le> fifo_capacity f"
proof -
  have "ring_dist (fsize f + 1) (indexStart f) (indexEnd f) < fsize f + 1"
    using assms ring_dist_bounds[of "fsize f + 1"] by (simp add: fifo_inv_def)
  then show ?thesis using assms by (simp add: fifo_contents_length fifo_capacity_def)
qed

lemma fifo_empty_iff:
  assumes "fifo_inv f"
  shows "Fifo_isEmpty f \<longleftrightarrow> fifo_contents f = []"
proof -
  have b: "0 \<le> ring_dist (fsize f + 1) (indexStart f) (indexEnd f)"
    using assms ring_dist_bounds[of "fsize f + 1"] by (simp add: fifo_inv_def)
  have "fifo_contents f = [] \<longleftrightarrow> ring_dist (fsize f + 1) (indexStart f) (indexEnd f) = 0"
    using b by (simp add: fifo_contents_length[OF assms] flip: length_0_conv)
  also have "\<dots> \<longleftrightarrow> indexStart f = indexEnd f"
    using assms by (intro ring_dist_0_iff) (auto simp: fifo_inv_def)
  finally show ?thesis by (auto simp: Fifo_isEmpty_def)
qed

lemma fifo_full_iff:
  assumes "fifo_inv f"
  shows "ring_next (fsize f + 1) (indexEnd f) = indexStart f \<longleftrightarrow> length (fifo_contents f) = fifo_capacity f"
proof -
  have b: "0 \<le> ring_dist (fsize f + 1) (indexStart f) (indexEnd f)"
    using assms ring_dist_bounds[of "fsize f + 1"] by (simp add: fifo_inv_def)
  have "ring_next (fsize f + 1) (indexEnd f) = indexStart f
      \<longleftrightarrow> ring_dist (fsize f + 1) (indexStart f) (indexEnd f) = fsize f"
    using assms ring_dist_full[of "fsize f + 1" "indexStart f" "indexEnd f"] by (simp add: fifo_inv_def)
  then show ?thesis using assms b by (auto simp: fifo_contents_length fifo_capacity_def fifo_inv_def)
qed

lemma Fifo_isFull_iff:
  assumes "fifo_inv f"
  shows "Fifo_isFull f \<longleftrightarrow> length (fifo_contents f) = fifo_capacity f"
proof -
  have "Fifo_isFull f \<longleftrightarrow> ring_next (fsize f + 1) (indexEnd f) = indexStart f"
    using assms by (auto simp: Fifo_isFull_def ring_next_def fifo_inv_def in_ring_def)
  then show ?thesis using assms by (simp add: fifo_full_iff)
qed

lemma Fifo_push_full:
  assumes "fifo_inv f" "length (fifo_contents f) = fifo_capacity f"
  shows "Fifo_push x f = Inr (-1, f)"
  using assms by (simp add: Fifo_push_ring fifo_full_iff Let_def)

lemma Fifo_push_space:
  assumes inv: "fifo_inv f" and space: "length (fifo_contents f) < fifo_capacity f"
  shows "\<exists>g. Fifo_push x f = Inr (0, g) \<and> fifo_inv g \<and> fifo_contents g = fifo_contents f @ [x]
    \<and> fifo_capacity g = fifo_capacity f"
proof -
  let ?n = "fsize f + 1" and ?s = "indexStart f" and ?e = "indexEnd f"
  let ?e' = "ring_next ?n ?e" and ?s' = "ring_next ?n ?s"
  have n: "int (length (data f)) = ?n" and s: "in_ring ?n ?s" and e: "in_ring ?n ?e"
    using inv by (auto simp: fifo_inv_def)
  have ne: "?e' \<noteq> ?s" using inv space by (simp add: fifo_full_iff)
  have e': "in_ring ?n ?e'" and s': "in_ring ?n ?s'" using s e by simp_all
  let ?g = "f\<lparr>data := (data f)[nat ?e' := x], indexEnd := ?e', nIn := nIn f + 1\<rparr>"
  have "Fifo_push x f = Inr (0, ?g)"
    using ne e' n by (simp add: Fifo_push_ring Let_def in_ring_def vec_simps)
  moreover have "fifo_inv ?g" using inv e' by (simp add: fifo_inv_def)
  moreover have "fifo_contents ?g = fifo_contents f @ [x]"
  proof -
    let ?k = "nat (ring_dist ?n ?s ?e)"
    have d: "ring_dist ?n ?s ?e' = ring_dist ?n ?s ?e + 1"
      using s e ne by (rule ring_dist_next_right)
    have d0: "0 \<le> ring_dist ?n ?s ?e"
      using inv ring_dist_bounds[of ?n] by (simp add: fifo_inv_def)
    have "ring_dist ?n ?s' ?e' = ring_dist ?n ?s ?e' - 1"
      using s e' ne by (intro ring_dist_next_left) auto
    then have "int ?k = ring_dist (int (length (data f))) ?s' ?e'"
      using d d0 n by simp
    from ring_slice_snoc[OF _ _ this, of x] s' e' n
    have "ring_slice ((data f)[nat ?e' := x]) ?s' (Suc ?k) = ring_slice (data f) ?s' ?k @ [x]"
      by simp
    moreover have "nat (ring_dist ?n ?s ?e') = Suc ?k" using d d0 by simp
    ultimately show ?thesis by (simp del: ring_slice.simps add: fifo_contents_def)
  qed
  ultimately show ?thesis by (auto simp: fifo_capacity_def)
qed

lemma fifo_contents_Cons:
  assumes inv: "fifo_inv f" and ne: "fifo_contents f = y # ys"
  shows "y = data f ! nat (ring_next (fsize f + 1) (indexStart f))"
    and "ys = ring_slice (data f) (ring_next (fsize f + 1) (ring_next (fsize f + 1) (indexStart f)))
      (nat (ring_dist (fsize f + 1) (indexStart f) (indexEnd f) - 1))"
proof -
  let ?n = "fsize f + 1"
  have n: "int (length (data f)) = ?n" using inv by (simp add: fifo_inv_def)
  have "nat (ring_dist ?n (indexStart f) (indexEnd f)) \<noteq> 0"
    using ne fifo_contents_length[OF inv] by simp
  then obtain k where k: "nat (ring_dist ?n (indexStart f) (indexEnd f)) = Suc k"
    using not0_implies_Suc by blast
  then have "k = nat (ring_dist ?n (indexStart f) (indexEnd f) - 1)" by simp
  then show "y = data f ! nat (ring_next ?n (indexStart f))"
    and "ys = ring_slice (data f) (ring_next ?n (ring_next ?n (indexStart f)))
      (nat (ring_dist ?n (indexStart f) (indexEnd f) - 1))"
    using ne k n by (simp_all add: fifo_contents_def)
qed

lemma Fifo_pop_item:
  assumes inv: "fifo_inv f" and ne: "fifo_contents f = y # ys"
  shows "\<exists>g. Fifo_pop z x f = Inr (0, y, g) \<and> fifo_inv g \<and> fifo_contents g = ys
    \<and> fifo_capacity g = fifo_capacity f"
proof -
  let ?n = "fsize f + 1" and ?s = "indexStart f" and ?e = "indexEnd f"
  let ?s' = "ring_next ?n ?s"
  have n: "int (length (data f)) = ?n" and s: "in_ring ?n ?s" and e: "in_ring ?n ?e"
    using inv by (auto simp: fifo_inv_def)
  have s': "in_ring ?n ?s'" "in_ring ?n (ring_next ?n ?s')" using s by simp_all
  have nE: "\<not> Fifo_isEmpty f" using inv ne by (simp add: fifo_empty_iff)
  then have se: "?s \<noteq> ?e" by (auto simp: Fifo_isEmpty_def)
  let ?g = "f\<lparr>indexStart := ?s', data := (data f)[nat ?s' := z], nOut := nOut f + 1\<rparr>"
  have "Fifo_pop z x f = Inr (0, y, ?g)"
    using nE s' n fifo_contents_Cons(1)[OF inv ne]
    by (simp add: Fifo_pop_ring Let_def in_ring_def vec_simps)
  moreover have "fifo_inv ?g" using inv s' by (simp add: fifo_inv_def)
  moreover have "fifo_contents ?g = ys"
  proof -
    let ?k = "nat (ring_dist ?n ?s ?e - 1)"
    have d: "ring_dist ?n ?s' ?e = ring_dist ?n ?s ?e - 1"
      using s e se by (rule ring_dist_next_left)
    have len: "1 \<le> length (data f)" using n inv by (simp add: fifo_inv_def)
    have "int ?k \<le> ring_dist ?n (ring_next ?n ?s') ?s'"
    proof -
      have "ring_dist ?n ?s ?e < ?n" using inv ring_dist_bounds[of ?n] by (simp add: fifo_inv_def)
      moreover have "0 \<le> ring_dist ?n ?s' ?e" using inv ring_dist_bounds[of ?n] by (simp add: fifo_inv_def)
      moreover have "ring_dist ?n (ring_next ?n ?s') ?s' = ?n - 1"
        using s' by (simp add: ring_dist_next_self)
      ultimately show ?thesis using d by simp
    qed
    then have "ring_slice ((data f)[nat ?s' := z]) (ring_next ?n ?s') ?k
        = ring_slice (data f) (ring_next ?n ?s') ?k"
      using s' n by (intro ring_slice_update_other) auto
    then show ?thesis using d fifo_contents_Cons(2)[OF inv ne] by (simp add: fifo_contents_def)
  qed
  ultimately show ?thesis by (auto simp: fifo_capacity_def)
qed

lemma Fifo_pop_empty: "fifo_inv f \<Longrightarrow> fifo_contents f = [] \<Longrightarrow> Fifo_pop z x f = Inr (-1, x, f)"
  by (simp add: Fifo_pop_def fifo_empty_iff)

text \<open>The class provides the bounded-queue contract.\<close>

interpretation fq: bounded_queue fifo_inv fifo_contents fifo_capacity Fifo_push "Fifo_pop z"
  Fifo_isEmpty Fifo_isFull "0 :: int" "-1" for z
  by unfold_locales
    (simp_all add: fifo_length_le Fifo_push_space Fifo_push_full Fifo_pop_item Fifo_pop_empty
      fifo_empty_iff Fifo_isFull_iff)

lemma Fifo_front_item:
  assumes inv: "fifo_inv f" and ne: "fifo_contents f = y # ys"
  shows "Fifo_front x f = Inr (0, y)"
proof -
  have s: "in_ring (fsize f + 1) (indexStart f)" using inv by (simp add: fifo_inv_def)
  have "\<not> Fifo_isEmpty f" using inv ne by (simp add: fifo_empty_iff)
  moreover have "in_ring (fsize f + 1) (ring_next (fsize f + 1) (indexStart f))" using s by simp
  ultimately show ?thesis
    using inv fifo_contents_Cons(1)[OF inv ne]
    by (simp add: Fifo_front_def vec_get_def fifo_inv_def in_ring_def flip: ring_next_mod[OF s])
qed

lemma Fifo_front_empty: "fifo_inv f \<Longrightarrow> fifo_contents f = [] \<Longrightarrow> Fifo_front x f = Inr (-1, x)"
  by (simp add: Fifo_front_def fifo_empty_iff)

lemma Fifo_front_cases:
  "fifo_inv f \<Longrightarrow> Fifo_front x f = (case fifo_contents f of [] \<Rightarrow> Inr (-1, x) | y # _ \<Rightarrow> Inr (0, y))"
  by (cases "fifo_contents f") (simp_all add: Fifo_front_item Fifo_front_empty)

lemma Fifo_new_inv:
  assumes "0 \<le> s"
  shows "\<exists>f. Fifo_new z s = Inr f \<and> fifo_inv f \<and> fifo_contents f = [] \<and> fifo_capacity f = nat s"
  using assms
  by (auto simp: Fifo_new_def Fifo_resetStats_def fifo_inv_def in_ring_def fifo_contents_def
      fifo_capacity_def)

end
