(* ===== verification/Fifo_Concurrent.thy ===== *)
theory Fifo_Concurrent
  imports Fifo
begin

text \<open>
  One writer thread and one reader thread on the same \<^verbatim>\<open>Fifo\<close>, without a lock, as the Readout
  process uses it: an equipment thread pushes data blocks that the aggregator thread pops.
  The statements of \<^verbatim>\<open>Fifo<T>::push\<close> and \<^verbatim>\<open>Fifo<T>::pop\<close> are split at every access to a shared
  field, in program order, and the two threads interleave freely. \<open>indexStart\<close> and \<open>indexEnd\<close> are
  \<^verbatim>\<open>std::atomic<int>\<close> with the default sequentially consistent accesses, so an interleaving
  semantics is the right one as long as there is no data race on the vector; that is one of
  the things shown here.

  Each thread is a program counter with the local variables that are live there. The history
  variables \<open>accepted\<close> and \<open>delivered\<close> record the items of the pushes that returned \<open>0\<close> from the
  point where they become visible, and the items the reader has fetched.
\<close>

datatype 'a wpc =
    WIdle
  | WSlot 'a int
  | WStored 'a int
  | WPublished

datatype rpc =
    RIdle
  | RNonEmpty
  | RAdvanced
  | RFetched
  | RCleared

record 'a system =
  ring :: "'a fifo"
  writer :: "'a wpc"
  reader :: rpc
  accepted :: "'a list"
  delivered :: "'a list"

definition initial_system :: "'a fifo \<Rightarrow> 'a system" where
  "initial_system f = \<lparr>ring = f, writer = WIdle, reader = RIdle, accepted = [], delivered = []\<rparr>"

text \<open>The writer calls \<^verbatim>\<open>push\<close> with any items; the reader calls \<^verbatim>\<open>pop\<close> at any time. \<open>z\<close> is the
  value the popped slot is reset to.\<close>

inductive fifo_step :: "'a \<Rightarrow> 'a system \<Rightarrow> 'a system \<Rightarrow> bool" for z where
  push_full: "writer c = WIdle \<Longrightarrow> e = (if indexEnd (ring c) + 1 > fsize (ring c) then 0 else indexEnd (ring c) + 1) \<Longrightarrow>
    e = indexStart (ring c) \<Longrightarrow> fifo_step z c c"
| push_check: "writer c = WIdle \<Longrightarrow> e = (if indexEnd (ring c) + 1 > fsize (ring c) then 0 else indexEnd (ring c) + 1) \<Longrightarrow>
    e \<noteq> indexStart (ring c) \<Longrightarrow> fifo_step z c (c\<lparr>writer := WSlot x e\<rparr>)"
| push_store: "writer c = WSlot x e \<Longrightarrow> vec_set (data (ring c)) e x = Inr d \<Longrightarrow>
    fifo_step z c (c\<lparr>ring := (ring c)\<lparr>data := d\<rparr>, writer := WStored x e\<rparr>)"
| push_publish: "writer c = WStored x e \<Longrightarrow>
    fifo_step z c (c\<lparr>ring := (ring c)\<lparr>indexEnd := e\<rparr>, writer := WPublished, accepted := accepted c @ [x]\<rparr>)"
| push_count: "writer c = WPublished \<Longrightarrow>
    fifo_step z c (c\<lparr>ring := (ring c)\<lparr>nIn := nIn (ring c) + 1\<rparr>, writer := WIdle\<rparr>)"
| pop_empty: "reader c = RIdle \<Longrightarrow> Fifo_isEmpty (ring c) \<Longrightarrow> fifo_step z c c"
| pop_check: "reader c = RIdle \<Longrightarrow> \<not> Fifo_isEmpty (ring c) \<Longrightarrow> fifo_step z c (c\<lparr>reader := RNonEmpty\<rparr>)"
| pop_advance: "reader c = RNonEmpty \<Longrightarrow>
    s = (if indexStart (ring c) + 1 > fsize (ring c) then 0 else indexStart (ring c) + 1) \<Longrightarrow>
    fifo_step z c (c\<lparr>ring := (ring c)\<lparr>indexStart := s\<rparr>, reader := RAdvanced\<rparr>)"
| pop_fetch: "reader c = RAdvanced \<Longrightarrow> vec_get (data (ring c)) (indexStart (ring c)) = Inr y \<Longrightarrow>
    fifo_step z c (c\<lparr>reader := RFetched, delivered := delivered c @ [y]\<rparr>)"
| pop_clear: "reader c = RFetched \<Longrightarrow> vec_set (data (ring c)) (indexStart (ring c)) z = Inr d \<Longrightarrow>
    fifo_step z c (c\<lparr>ring := (ring c)\<lparr>data := d\<rparr>, reader := RCleared\<rparr>)"
| pop_count: "reader c = RCleared \<Longrightarrow>
    fifo_step z c (c\<lparr>ring := (ring c)\<lparr>nOut := nOut (ring c) + 1\<rparr>, reader := RIdle\<rparr>)"

inductive_cases fifo_step_cases: "fifo_step z c c'"

text \<open>The slot of the vector that a thread's next statement accesses.\<close>

fun writer_slot :: "'a wpc \<Rightarrow> int option" where
  "writer_slot (WSlot x e) = Some e"
| "writer_slot _ = None"

definition reader_slot :: "'a system \<Rightarrow> int option" where
  "reader_slot c = (if reader c = RAdvanced \<or> reader c = RFetched then Some (indexStart (ring c)) else None)"


section \<open>The invariant\<close>

fun writer_ok :: "'a fifo \<Rightarrow> 'a wpc \<Rightarrow> bool" where
  "writer_ok f (WSlot x e) \<longleftrightarrow> e = ring_next (fsize f + 1) (indexEnd f) \<and> e \<noteq> indexStart f"
| "writer_ok f (WStored x e) \<longleftrightarrow> e = ring_next (fsize f + 1) (indexEnd f) \<and> e \<noteq> indexStart f
     \<and> data f ! nat e = x"
| "writer_ok f _ \<longleftrightarrow> True"

definition in_flight :: "'a system \<Rightarrow> 'a list" where
  "in_flight c = (if reader c = RAdvanced then [data (ring c) ! nat (indexStart (ring c))] else [])"

definition system_inv :: "'a system \<Rightarrow> bool" where
  "system_inv c \<longleftrightarrow> fifo_inv (ring c) \<and> writer_ok (ring c) (writer c)
     \<and> (reader c = RNonEmpty \<longrightarrow> \<not> Fifo_isEmpty (ring c))
     \<and> accepted c = delivered c @ in_flight c @ fifo_contents (ring c)"

text \<open>Effect on the contents of the single assignments of \<^verbatim>\<open>push\<close> and \<^verbatim>\<open>pop\<close>.\<close>

lemma fifo_contents_store_free:
  assumes inv: "fifo_inv f" and e: "e = ring_next (fsize f + 1) (indexEnd f)"
    and ne: "e \<noteq> indexStart f"
  shows "fifo_contents (f\<lparr>data := (data f)[nat e := x]\<rparr>) = fifo_contents f"
proof -
  let ?n = "fsize f + 1" and ?s = "indexStart f"
  have n: "int (length (data f)) = ?n" and s: "in_ring ?n ?s" and i: "in_ring ?n (indexEnd f)"
    using inv by (auto simp: fifo_inv_def)
  have e': "in_ring ?n e" using e i by simp
  have "ring_dist ?n (ring_next ?n ?s) e = ring_dist ?n ?s (indexEnd f)"
    using s e' ne i e by (simp add: ring_dist_next_left ring_dist_next_right)
  moreover have "0 \<le> ring_dist ?n ?s (indexEnd f)"
    using inv ring_dist_bounds[of ?n] by (simp add: fifo_inv_def)
  ultimately have "int (nat (ring_dist ?n ?s (indexEnd f))) \<le> ring_dist ?n (ring_next ?n ?s) e" by simp
  then have "ring_slice ((data f)[nat e := x]) (ring_next ?n ?s) (nat (ring_dist ?n ?s (indexEnd f)))
      = ring_slice (data f) (ring_next ?n ?s) (nat (ring_dist ?n ?s (indexEnd f)))"
    using s e' n by (intro ring_slice_update_other) auto
  then show ?thesis by (simp add: fifo_contents_def)
qed

lemma fifo_contents_clear_start:
  assumes inv: "fifo_inv f"
  shows "fifo_contents (f\<lparr>data := (data f)[nat (indexStart f) := z]\<rparr>) = fifo_contents f"
proof -
  let ?n = "fsize f + 1" and ?s = "indexStart f"
  have n: "int (length (data f)) = ?n" and s: "in_ring ?n ?s" and i: "in_ring ?n (indexEnd f)"
    using inv by (auto simp: fifo_inv_def)
  have "ring_dist ?n (ring_next ?n ?s) ?s = ?n - 1"
    using s by (rule ring_dist_next_self)
  moreover have "0 \<le> ring_dist ?n ?s (indexEnd f) \<and> ring_dist ?n ?s (indexEnd f) < ?n"
    using inv ring_dist_bounds[of ?n] by (simp add: fifo_inv_def)
  ultimately have "int (nat (ring_dist ?n ?s (indexEnd f))) \<le> ring_dist ?n (ring_next ?n ?s) ?s" by simp
  then have "ring_slice ((data f)[nat ?s := z]) (ring_next ?n ?s) (nat (ring_dist ?n ?s (indexEnd f)))
      = ring_slice (data f) (ring_next ?n ?s) (nat (ring_dist ?n ?s (indexEnd f)))"
    using s n by (intro ring_slice_update_other) auto
  then show ?thesis by (simp add: fifo_contents_def)
qed

lemma fifo_contents_publish:
  assumes inv: "fifo_inv f" and e: "e = ring_next (fsize f + 1) (indexEnd f)"
    and ne: "e \<noteq> indexStart f" and x: "data f ! nat e = x"
  shows "fifo_contents (f\<lparr>indexEnd := e\<rparr>) = fifo_contents f @ [x]"
proof -
  have e': "in_ring (fsize f + 1) e" using inv e by (simp add: fifo_inv_def)
  have "length (fifo_contents f) < fifo_capacity f"
    using inv ne e fifo_full_iff[OF inv] fifo_length_le[OF inv] by simp
  from Fifo_push_space[OF inv this, of x] obtain g
    where g: "Fifo_push x f = Inr (0, g)" "fifo_contents g = fifo_contents f @ [x]" by auto
  moreover have "g = f\<lparr>data := (data f)[nat e := x], indexEnd := e, nIn := nIn f + 1\<rparr>"
    using g(1) ne e' inv unfolding Fifo_push_ring e[symmetric]
    by (auto simp: Let_def dest: vec_set_Inr)
  moreover have "(data f)[nat e := x] = data f" using x by auto
  ultimately show ?thesis by (simp add: fifo_contents_def)
qed

lemma fifo_contents_advance:
  assumes inv: "fifo_inv f" and ne: "\<not> Fifo_isEmpty f"
    and s: "s = ring_next (fsize f + 1) (indexStart f)"
  shows "fifo_contents f = data f ! nat s # fifo_contents (f\<lparr>indexStart := s\<rparr>)"
proof -
  obtain y ys where c: "fifo_contents f = y # ys"
    using ne fifo_empty_iff[OF inv] by (cases "fifo_contents f") auto
  have "ring_dist (fsize f + 1) s (indexEnd f) = ring_dist (fsize f + 1) (indexStart f) (indexEnd f) - 1"
    using inv ne s by (simp add: fifo_inv_def Fifo_isEmpty_def ring_dist_next_left)
  then show ?thesis using fifo_contents_Cons[OF inv c] c s by (simp add: fifo_contents_def)
qed



lemma system_inv_initial: "fifo_inv f \<Longrightarrow> fifo_contents f = [] \<Longrightarrow> system_inv (initial_system f)"
  by (simp add: system_inv_def initial_system_def in_flight_def)

lemma next_slot: "(if i + 1 > s then 0 else i + 1) = ring_next (s + 1) (i :: int)"
  by (simp add: ring_next_def)

lemma fifo_inv_data: "fifo_inv f \<Longrightarrow> length d = length (data f) \<Longrightarrow> fifo_inv (f\<lparr>data := d\<rparr>)"
  by (simp add: fifo_inv_def)

lemma system_inv_store:
  assumes inv: "system_inv c" and w: "writer c = WSlot x e" and d: "vec_set (data (ring c)) e x = Inr d"
  shows "system_inv (c\<lparr>ring := (ring c)\<lparr>data := d\<rparr>, writer := WStored x e\<rparr>)"
proof -
  have f: "fifo_inv (ring c)" and e: "e = ring_next (fsize (ring c) + 1) (indexEnd (ring c))"
    and ne: "e \<noteq> indexStart (ring c)" using inv w by (auto simp: system_inv_def)
  have d': "d = (data (ring c))[nat e := x]" "0 \<le> e" "e < int (length (data (ring c)))"
    using vec_set_Inr[OF d] by auto
  have "0 \<le> indexStart (ring c)" using f by (simp add: fifo_inv_def in_ring_def)
  then have "nat e \<noteq> nat (indexStart (ring c))" using ne d' by auto
  then show ?thesis
    using inv w d' fifo_contents_store_free[OF f e ne, of x] fifo_inv_data[OF f, of d] e ne
    by (simp add: system_inv_def in_flight_def Fifo_isEmpty_def nat_less_iff)
qed

lemma system_inv_publish:
  assumes inv: "system_inv c" and w: "writer c = WStored x e"
  shows "system_inv (c\<lparr>ring := (ring c)\<lparr>indexEnd := e\<rparr>, writer := WPublished, accepted := accepted c @ [x]\<rparr>)"
proof -
  have f: "fifo_inv (ring c)" and e: "e = ring_next (fsize (ring c) + 1) (indexEnd (ring c))"
    and ne: "e \<noteq> indexStart (ring c)" and x: "data (ring c) ! nat e = x"
    using inv w by (auto simp: system_inv_def)
  have "fifo_inv ((ring c)\<lparr>indexEnd := e\<rparr>)" using f e by (simp add: fifo_inv_def)
  then show ?thesis
    using inv fifo_contents_publish[OF f e ne x] ne
    by (simp add: system_inv_def in_flight_def Fifo_isEmpty_def)
qed

lemma system_inv_advance:
  assumes inv: "system_inv c" and r: "reader c = RNonEmpty"
    and s: "s = ring_next (fsize (ring c) + 1) (indexStart (ring c))"
  shows "system_inv (c\<lparr>ring := (ring c)\<lparr>indexStart := s\<rparr>, reader := RAdvanced\<rparr>)"
proof -
  have f: "fifo_inv (ring c)" and ne: "\<not> Fifo_isEmpty (ring c)" using inv r by (auto simp: system_inv_def)
  have ends: "in_ring (fsize (ring c) + 1) (indexStart (ring c))" "in_ring (fsize (ring c) + 1) (indexEnd (ring c))"
    using f by (auto simp: fifo_inv_def)
  have "ring_next (fsize (ring c) + 1) (indexEnd (ring c)) \<noteq> s"
    using ends ne s by (auto simp: ring_next_def in_ring_def Fifo_isEmpty_def split: if_splits)
  then have "writer_ok ((ring c)\<lparr>indexStart := s\<rparr>) (writer c)"
    using inv by (cases "writer c") (auto simp: system_inv_def)
  moreover have "fifo_inv ((ring c)\<lparr>indexStart := s\<rparr>)" using f s by (simp add: fifo_inv_def)
  ultimately show ?thesis
    using inv r fifo_contents_advance[OF f ne s] by (simp add: system_inv_def in_flight_def)
qed

lemma system_inv_clear:
  assumes inv: "system_inv c" and r: "reader c = RFetched"
    and d: "vec_set (data (ring c)) (indexStart (ring c)) z = Inr d"
  shows "system_inv (c\<lparr>ring := (ring c)\<lparr>data := d\<rparr>, reader := RCleared\<rparr>)"
proof -
  have f: "fifo_inv (ring c)" using inv by (simp add: system_inv_def)
  have d': "d = (data (ring c))[nat (indexStart (ring c)) := z]" using vec_set_Inr[OF d] by simp
  have "in_ring (fsize (ring c) + 1) (ring_next (fsize (ring c) + 1) (indexEnd (ring c)))"
    "0 \<le> indexStart (ring c)" using f by (auto simp: fifo_inv_def in_ring_def[of _ "indexStart (ring c)"])
  then have "writer_ok ((ring c)\<lparr>data := d\<rparr>) (writer c)"
    using inv d' by (cases "writer c") (auto simp: system_inv_def in_ring_def)
  then show ?thesis
    using inv r d' fifo_contents_clear_start[OF f, of z] fifo_inv_data[OF f, of d]
    by (simp add: system_inv_def in_flight_def)
qed

lemma writer_ok_counters [simp]:
  "writer_ok (f\<lparr>nIn := n\<rparr>) w = writer_ok f w" "writer_ok (f\<lparr>nOut := n\<rparr>) w = writer_ok f w"
  by (cases w; simp)+

lemma fifo_counters [simp]:
  "fifo_inv (f\<lparr>nIn := n\<rparr>) = fifo_inv f" "fifo_inv (f\<lparr>nOut := n\<rparr>) = fifo_inv f"
  "fifo_contents (f\<lparr>nIn := n\<rparr>) = fifo_contents f" "fifo_contents (f\<lparr>nOut := n\<rparr>) = fifo_contents f"
  "Fifo_isEmpty (f\<lparr>nIn := n\<rparr>) = Fifo_isEmpty f" "Fifo_isEmpty (f\<lparr>nOut := n\<rparr>) = Fifo_isEmpty f"
  by (simp_all add: fifo_inv_def fifo_contents_def Fifo_isEmpty_def)

lemma fifo_step_inv: "fifo_step z c c' \<Longrightarrow> system_inv c \<Longrightarrow> system_inv c'"
proof (induction rule: fifo_step.induct)
  case (push_check c e x)
  then show ?case unfolding next_slot by (simp add: system_inv_def in_flight_def)
next
  case (pop_advance c s)
  then show ?case unfolding next_slot by (intro system_inv_advance)
next
  case (pop_fetch c y)
  then show ?case by (auto simp: system_inv_def in_flight_def dest: vec_get_Inr)
qed (simp_all add: system_inv_store system_inv_publish system_inv_clear, simp_all add: system_inv_def in_flight_def)

lemma fifo_reachable_inv: "(fifo_step z)\<^sup>*\<^sup>* c c' \<Longrightarrow> system_inv c \<Longrightarrow> system_inv c'"
  by (induction rule: rtranclp_induct) (auto intro: fifo_step_inv)



section \<open>The steps compose to the sequential operations\<close>

text \<open>A thread that runs alone performs exactly \<open>Fifo_push\<close> and \<open>Fifo_pop\<close>.\<close>

lemma push_runs:
  assumes p: "Fifo_push x (ring c) = Inr (r, g)" and w: "writer c = WIdle"
  shows "(fifo_step z)\<^sup>*\<^sup>* c (c\<lparr>ring := g, accepted := accepted c @ (if r = 0 then [x] else [])\<rparr>)"
proof -
  let ?f = "ring c"
  define e where "e = (if indexEnd ?f + 1 > fsize ?f then 0 else indexEnd ?f + 1)"
  show ?thesis
  proof (cases "e = indexStart ?f")
    case True
    then have "r = -1 \<and> g = ring c" using p[unfolded Fifo_push_def, folded e_def] by simp
    then have "c\<lparr>ring := g, accepted := accepted c @ (if r = 0 then [x] else [])\<rparr> = c" by simp
    then show ?thesis by simp
  next
    case False
    then obtain d where d: "vec_set (data ?f) e x = Inr d" "r = 0"
        "g = ?f\<lparr>data := d, indexEnd := e, nIn := nIn ?f + 1\<rparr>"
      using p[unfolded Fifo_push_def, folded e_def] by auto
    let ?c1 = "c\<lparr>writer := WSlot x e\<rparr>"
    let ?c2 = "?c1\<lparr>ring := (ring ?c1)\<lparr>data := d\<rparr>, writer := WStored x e\<rparr>"
    let ?c3 = "?c2\<lparr>ring := (ring ?c2)\<lparr>indexEnd := e\<rparr>, writer := WPublished, accepted := accepted ?c2 @ [x]\<rparr>"
    let ?c4 = "?c3\<lparr>ring := (ring ?c3)\<lparr>nIn := nIn (ring ?c3) + 1\<rparr>, writer := WIdle\<rparr>"
    have "fifo_step z c ?c1" using w e_def False by (rule fifo_step.push_check)
    moreover have "fifo_step z ?c1 ?c2" using d by (intro fifo_step.push_store) auto
    moreover have "fifo_step z ?c2 ?c3" by (rule fifo_step.push_publish) simp
    moreover have "fifo_step z ?c3 ?c4" by (rule fifo_step.push_count) simp
    moreover have "?c4 = c\<lparr>ring := g, accepted := accepted c @ (if r = 0 then [x] else [])\<rparr>"
      using w d by simp
    ultimately show ?thesis by (metis (no_types, lifting) converse_rtranclp_into_rtranclp rtranclp.rtrancl_refl)
  qed
qed

lemma pop_runs:
  assumes p: "Fifo_pop z x (ring c) = Inr (r, y, g)" and w: "reader c = RIdle"
  shows "(fifo_step z)\<^sup>*\<^sup>* c (c\<lparr>ring := g, delivered := delivered c @ (if r = 0 then [y] else [])\<rparr>)"
proof -
  let ?f = "ring c"
  define s where "s = (if indexStart ?f + 1 > fsize ?f then 0 else indexStart ?f + 1)"
  show ?thesis
  proof (cases "Fifo_isEmpty ?f")
    case True
    then have "r = -1 \<and> g = ring c" using p by (simp add: Fifo_pop_def)
    then have "c\<lparr>ring := g, delivered := delivered c @ (if r = 0 then [y] else [])\<rparr> = c" by simp
    then show ?thesis by simp
  next
    case False
    then obtain d where d: "vec_get (data ?f) s = Inr y" "vec_set (data ?f) s z = Inr d" "r = 0"
        "g = ?f\<lparr>indexStart := s, data := d, nOut := nOut ?f + 1\<rparr>"
      using p[unfolded Fifo_pop_def, folded s_def] by (auto simp: Let_def)
    let ?c1 = "c\<lparr>reader := RNonEmpty\<rparr>"
    let ?c2 = "?c1\<lparr>ring := (ring ?c1)\<lparr>indexStart := s\<rparr>, reader := RAdvanced\<rparr>"
    let ?c3 = "?c2\<lparr>reader := RFetched, delivered := delivered ?c2 @ [y]\<rparr>"
    let ?c4 = "?c3\<lparr>ring := (ring ?c3)\<lparr>data := d\<rparr>, reader := RCleared\<rparr>"
    let ?c5 = "?c4\<lparr>ring := (ring ?c4)\<lparr>nOut := nOut (ring ?c4) + 1\<rparr>, reader := RIdle\<rparr>"
    have "fifo_step z c ?c1" using w False by (rule fifo_step.pop_check)
    moreover have "fifo_step z ?c1 ?c2" by (rule fifo_step.pop_advance) (simp_all add: s_def)
    moreover have "fifo_step z ?c2 ?c3" using d by (intro fifo_step.pop_fetch) auto
    moreover have "fifo_step z ?c3 ?c4" using d by (intro fifo_step.pop_clear) auto
    moreover have "fifo_step z ?c4 ?c5" by (rule fifo_step.pop_count) simp
    moreover have "?c5 = c\<lparr>ring := g, delivered := delivered c @ (if r = 0 then [y] else [])\<rparr>"
      using w d by simp
    ultimately show ?thesis by (metis (no_types, lifting) converse_rtranclp_into_rtranclp rtranclp.rtrancl_refl)
  qed
qed

text \<open>No statement of either thread is ever blocked, in particular no vector access is out of
  bounds.\<close>

lemma fifo_writer_progress:
  assumes inv: "system_inv c"
  shows "\<exists>c'. fifo_step z c c' \<and> (writer c \<noteq> WIdle \<longrightarrow> writer c' \<noteq> writer c)"
proof (cases "writer c")
  case WIdle
  then show ?thesis using fifo_step.push_full[of c] fifo_step.push_check[of c] by metis
next
  case (WSlot x e)
  then have "in_ring (int (length (data (ring c)))) e"
    using inv by (simp add: system_inv_def fifo_inv_def)
  then have "vec_set (data (ring c)) e x = Inr ((data (ring c))[nat e := x])"
    by (simp add: vec_set_def in_ring_def)
  from fifo_step.push_store[OF WSlot this] WSlot show ?thesis by force
next
  case (WStored x e)
  from fifo_step.push_publish[OF this] WStored show ?thesis by force
next
  case WPublished
  from fifo_step.push_count[OF this] WPublished show ?thesis by force
qed

lemma fifo_reader_progress:
  assumes inv: "system_inv c"
  shows "\<exists>c'. fifo_step z c c' \<and> (reader c \<noteq> RIdle \<longrightarrow> reader c' \<noteq> reader c)"
proof -
  have b: "0 \<le> indexStart (ring c)" "indexStart (ring c) < int (length (data (ring c)))"
    using inv by (auto simp: system_inv_def fifo_inv_def in_ring_def)
  show ?thesis
  proof (cases "reader c")
    case RIdle
    then show ?thesis using fifo_step.pop_empty[of c] fifo_step.pop_check[of c] by metis
  next
    case RNonEmpty
    from fifo_step.pop_advance[OF this refl] RNonEmpty show ?thesis by force
  next
    case RAdvanced
    from fifo_step.pop_fetch[OF this vec_get_in[OF b]] RAdvanced show ?thesis by force
  next
    case RFetched
    from fifo_step.pop_clear[OF this vec_set_in[OF b]] RFetched show ?thesis by force
  next
    case RCleared
    from fifo_step.pop_count[OF this] RCleared show ?thesis by force
  qed
qed

lemma new_system_inv:
  assumes "0 \<le> n" "Fifo_new z n = Inr f"
  shows "system_inv (initial_system f)"
  using Fifo_new_inv[OF assms(1), of z] assms(2) by (auto intro: system_inv_initial)

end
