(* ===== verification/ProducerConsumerQueue.thy ===== *)
theory ProducerConsumerQueue
  imports Queue_Interface
begin

text \<open>
  \<^verbatim>\<open>folly::ProducerConsumerQueue<T>\<close> (src/RORC/src/folly/ProducerConsumerQueue.h), the queue of the
  DMA benchmark and of the ALF server. The records are raw storage: a slot holds \<open>Some x\<close> while
  an object lives in it and \<open>None\<close> before the placement \<^verbatim>\<open>new\<close> and after the destructor call.
  Indices and size are \<^verbatim>\<open>unsigned int\<close>, so they are words. \<open>PCQ_write\<close> and \<open>PCQ_read\<close> return the
  code's \<^verbatim>\<open>bool\<close>.
\<close>

record 'a pcq =
  pcq_size :: u32
  records :: "'a option list"
  readIndex :: u32
  writeIndex :: u32

definition PCQ_new :: "u32 \<Rightarrow> 'a pcq res" where
  "PCQ_new s = (if s \<ge> 2 then Inr \<lparr>pcq_size = s, records = replicate (unat s) None, readIndex = 0, writeIndex = 0\<rparr>
     else Inl AssertionFailed)"

definition nextRecord :: "'a pcq \<Rightarrow> u32 \<Rightarrow> u32" where
  "nextRecord q i = (if i + 1 = pcq_size q then 0 else i + 1)"

text \<open>A destructor call or a move out of a slot needs a live object there.\<close>

definition live :: "'a pcq \<Rightarrow> u32 \<Rightarrow> 'a res" where
  "live q i = res_bind (vec_get (records q) (uint i)) (\<lambda>r. case r of None \<Rightarrow> Inl DeadObject | Some x \<Rightarrow> Inr x)"

definition PCQ_write :: "'a \<Rightarrow> 'a pcq \<Rightarrow> (bool \<times> 'a pcq) res" where
  "PCQ_write x q =
     (let currentWrite = writeIndex q; next = nextRecord q currentWrite
      in if next \<noteq> readIndex q
         then res_bind (vec_set (records q) (uint currentWrite) (Some x)) (\<lambda>rs.
                Inr (True, q\<lparr>records := rs, writeIndex := next\<rparr>))
         else Inr (False, q))"

definition PCQ_read :: "'a \<Rightarrow> 'a pcq \<Rightarrow> (bool \<times> 'a \<times> 'a pcq) res" where
  "PCQ_read x q =
     (let currentRead = readIndex q
      in if currentRead = writeIndex q then Inr (False, x, q)
         else let next = nextRecord q currentRead
              in res_bind (live q currentRead) (\<lambda>y.
                 res_bind (vec_set (records q) (uint currentRead) None) (\<lambda>rs.
                   Inr (True, y, q\<lparr>records := rs, readIndex := next\<rparr>))))"

text \<open>\<^verbatim>\<open>frontPtr\<close> returns a pointer into the storage; the model returns what it points to.\<close>

definition PCQ_frontPtr :: "'a pcq \<Rightarrow> 'a option res" where
  "PCQ_frontPtr q =
     (if readIndex q = writeIndex q then Inr None else res_bind (live q (readIndex q)) (\<lambda>x. Inr (Some x)))"

definition PCQ_popFront :: "'a pcq \<Rightarrow> 'a pcq res" where
  "PCQ_popFront q =
     (let currentRead = readIndex q
      in if currentRead = writeIndex q then Inl AssertionFailed
         else let next = nextRecord q currentRead
              in res_bind (live q currentRead) (\<lambda>_.
                 res_bind (vec_set (records q) (uint currentRead) None) (\<lambda>rs.
                   Inr (q\<lparr>records := rs, readIndex := next\<rparr>))))"

definition PCQ_isEmpty :: "'a pcq \<Rightarrow> bool" where
  "PCQ_isEmpty q \<longleftrightarrow> readIndex q = writeIndex q"

definition PCQ_isFull :: "'a pcq \<Rightarrow> bool" where
  "PCQ_isFull q \<longleftrightarrow> \<not> (nextRecord q (writeIndex q) \<noteq> readIndex q)"

text \<open>The unsigned difference is stored into an \<^verbatim>\<open>int\<close>, tested, and returned as a \<^verbatim>\<open>size_t\<close>.\<close>

definition PCQ_sizeGuess :: "'a pcq \<Rightarrow> u64" where
  "PCQ_sizeGuess q =
     (let r = writeIndex q - readIndex q;
          r' = (if sint r < 0 then r + pcq_size q else r)
      in word_of_int (sint r'))"


section \<open>Invariant and abstraction\<close>

definition pcq_slice :: "'a pcq \<Rightarrow> 'a option list" where
  "pcq_slice q = ring_slice (records q) (uint (readIndex q))
     (nat (ring_dist (uint (pcq_size q)) (uint (readIndex q)) (uint (writeIndex q))))"

definition pcq_inv :: "'a pcq \<Rightarrow> bool" where
  "pcq_inv q \<longleftrightarrow> 2 \<le> uint (pcq_size q) \<and> int (length (records q)) = uint (pcq_size q)
     \<and> in_ring (uint (pcq_size q)) (uint (readIndex q)) \<and> in_ring (uint (pcq_size q)) (uint (writeIndex q))
     \<and> None \<notin> set (pcq_slice q)"

definition pcq_contents :: "'a pcq \<Rightarrow> 'a list" where
  "pcq_contents q = map the (pcq_slice q)"

definition pcq_capacity :: "'a pcq \<Rightarrow> nat" where
  "pcq_capacity q = nat (uint (pcq_size q) - 1)"

lemma uint_nextRecord:
  assumes "in_ring (uint (pcq_size q)) (uint i)"
  shows "uint (nextRecord q i) = ring_next (uint (pcq_size q)) (uint i)"
proof -
  have lt: "uint i + 1 \<le> uint (pcq_size q)" using assms by (simp add: in_ring_def)
  moreover have "uint (pcq_size q) < 2 ^ 32" using uint_lt2p[of "pcq_size q"] by simp
  ultimately have u: "uint (i + 1) = uint i + 1"
    by (simp add: uint_word_ariths)
  have "i + 1 = pcq_size q \<longleftrightarrow> uint i + 1 = uint (pcq_size q)"
    using u by (metis word_uint_eq_iff)
  then show ?thesis using lt u by (simp add: nextRecord_def ring_next_def)
qed


text \<open>The shape of the storage that every proof below uses.\<close>

lemma pcq_shape:
  assumes "pcq_inv q"
  shows "int (length (records q)) = uint (pcq_size q)" "0 < uint (pcq_size q)"
    "in_ring (int (length (records q))) (uint (readIndex q))"
    "in_ring (int (length (records q))) (uint (writeIndex q))"
  using assms by (auto simp: pcq_inv_def)

lemma pcq_contents_length:
  "length (pcq_contents q) = nat (ring_dist (uint (pcq_size q)) (uint (readIndex q)) (uint (writeIndex q)))"
  by (simp add: pcq_contents_def pcq_slice_def)

lemma pcq_length_less:
  assumes "pcq_inv q"
  shows "length (pcq_contents q) \<le> pcq_capacity q"
  using ring_dist_bounds[OF pcq_shape(2)[OF assms], of "uint (readIndex q)" "uint (writeIndex q)"]
  by (simp add: pcq_contents_length pcq_capacity_def nat_mono)

lemma pcq_full_iff:
  assumes "pcq_inv q"
  shows "nextRecord q (writeIndex q) = readIndex q \<longleftrightarrow> length (pcq_contents q) = pcq_capacity q"
proof -
  let ?n = "uint (pcq_size q)"
  have r: "in_ring ?n (uint (readIndex q))" "in_ring ?n (uint (writeIndex q))"
    using assms by (auto simp: pcq_inv_def)
  have "nextRecord q (writeIndex q) = readIndex q \<longleftrightarrow> ring_next ?n (uint (writeIndex q)) = uint (readIndex q)"
    using uint_nextRecord[OF r(2)] by (metis word_uint_eq_iff)
  also have "\<dots> \<longleftrightarrow> ring_dist ?n (uint (readIndex q)) (uint (writeIndex q)) = ?n - 1"
    using r by (rule ring_dist_full)
  finally show ?thesis
    using ring_dist_bounds[OF pcq_shape(2)[OF assms], of "uint (readIndex q)" "uint (writeIndex q)"]
    by (auto simp: pcq_contents_length pcq_capacity_def)
qed

lemma pcq_empty_iff:
  assumes "pcq_inv q"
  shows "readIndex q = writeIndex q \<longleftrightarrow> pcq_contents q = []"
proof -
  have "pcq_contents q = [] \<longleftrightarrow> ring_dist (uint (pcq_size q)) (uint (readIndex q)) (uint (writeIndex q)) = 0"
    using ring_dist_bounds[OF pcq_shape(2)[OF assms], of "uint (readIndex q)" "uint (writeIndex q)"]
    by (simp add: pcq_contents_length order_eq_iff[of _ "0 :: int"] flip: length_0_conv)
  also have "\<dots> \<longleftrightarrow> uint (readIndex q) = uint (writeIndex q)"
    using assms by (intro ring_dist_0_iff) (auto simp: pcq_inv_def)
  finally show ?thesis by (simp add: word_uint_eq_iff)
qed

lemma PCQ_write_space:
  assumes inv: "pcq_inv q" and space: "length (pcq_contents q) < pcq_capacity q"
  shows "\<exists>q'. PCQ_write x q = Inr (True, q') \<and> pcq_inv q' \<and> pcq_contents q' = pcq_contents q @ [x]
    \<and> pcq_capacity q' = pcq_capacity q"
proof -
  let ?n = "uint (pcq_size q)" and ?r = "uint (readIndex q)" and ?w = "uint (writeIndex q)"
  note sh = pcq_shape[OF inv]
  have rw: "in_ring ?n ?r" "in_ring ?n ?w" using sh by auto
  have ne: "nextRecord q (writeIndex q) \<noteq> readIndex q" using inv space by (simp add: pcq_full_iff)
  have nw: "uint (nextRecord q (writeIndex q)) = ring_next ?n ?w" using rw by (intro uint_nextRecord)
  then have ne': "ring_next ?n ?w \<noteq> ?r" using ne by (metis word_uint_eq_iff)
  let ?q = "q\<lparr>records := (records q)[nat ?w := Some x], writeIndex := nextRecord q (writeIndex q)\<rparr>"
  have "PCQ_write x q = Inr (True, ?q)"
    using ne rw sh(1) by (simp add: PCQ_write_def Let_def vec_set_def in_ring_def)
  moreover have sl: "pcq_slice ?q = pcq_slice q @ [Some x]"
  proof -
    have d0: "0 \<le> ring_dist ?n ?r ?w" using ring_dist_bounds[OF sh(2)] by blast
    then have "nat (ring_dist ?n ?r (ring_next ?n ?w)) = Suc (nat (ring_dist ?n ?r ?w))"
      using ring_dist_next_right[OF rw ne'] by simp
    moreover have "int (nat (ring_dist ?n ?r ?w)) = ring_dist (int (length (records q))) ?r ?w"
      using d0 sh(1) by simp
    ultimately show ?thesis
      using ring_slice_snoc[OF sh(3,4), of "nat (ring_dist ?n ?r ?w)" "Some x"]
      by (simp del: ring_slice.simps add: pcq_slice_def nw)
  qed
  moreover have "pcq_inv ?q"
    using inv rw nw sl by (simp add: pcq_inv_def)
  ultimately show ?thesis by (auto simp: pcq_contents_def pcq_capacity_def)
qed

lemma pcq_take_front:
  assumes inv: "pcq_inv q" and ne: "pcq_contents q = y # ys"
  defines "q' \<equiv> q\<lparr>records := (records q)[nat (uint (readIndex q)) := None], readIndex := nextRecord q (readIndex q)\<rparr>"
  shows "live q (readIndex q) = Inr y"
    and "vec_set (records q) (uint (readIndex q)) None = Inr (records q')"
    and "pcq_inv q'" and "pcq_contents q' = ys" and "pcq_capacity q' = pcq_capacity q"
proof -
  let ?n = "uint (pcq_size q)" and ?r = "uint (readIndex q)" and ?w = "uint (writeIndex q)"
  note sh = pcq_shape[OF inv]
  have rw: "in_ring ?n ?r" "in_ring ?n ?w" using sh by auto
  have rne: "?r \<noteq> ?w" using pcq_empty_iff[OF inv] ne by (auto simp: word_uint_eq_iff)
  have nr: "uint (nextRecord q (readIndex q)) = ring_next ?n ?r" using rw by (intro uint_nextRecord)
  have d: "ring_dist ?n (ring_next ?n ?r) ?w = ring_dist ?n ?r ?w - 1" using rw rne by (rule ring_dist_next_left)
  have b: "0 \<le> ring_dist ?n (ring_next ?n ?r) ?w" "ring_dist ?n ?r ?w < ?n"
    using ring_dist_bounds[OF sh(2)] by auto
  define k where "k = nat (ring_dist ?n (ring_next ?n ?r) ?w)"
  have "nat (ring_dist ?n ?r ?w) = Suc k" using d b by (simp add: k_def)
  then have sl: "pcq_slice q = records q ! nat ?r # ring_slice (records q) (ring_next ?n ?r) k"
    using sh(1) by (simp add: pcq_slice_def)
  have "int k \<le> ring_dist ?n (ring_next ?n ?r) ?r"
  proof -
    have "ring_dist ?n (ring_next ?n ?r) ?r = ?n - 1"
      using rw(1) by (rule ring_dist_next_self)
    then show ?thesis using b d by (simp add: k_def)
  qed
  then have sl': "pcq_slice q' = ring_slice (records q) (ring_next ?n ?r) k"
    using sh rw ring_slice_update_other[of "records q" "ring_next ?n ?r" ?r k None]
    by (simp add: pcq_slice_def q'_def nr flip: k_def)
  have n0: "records q ! nat ?r \<noteq> None" using inv sl by (metis list.set_intros(1) pcq_inv_def)
  then show "live q (readIndex q) = Inr y"
    using ne sl rw sh(1) by (auto simp: live_def vec_get_def in_ring_def pcq_contents_def split: option.split)
  show "vec_set (records q) ?r None = Inr (records q')"
    using rw sh(1) by (simp add: vec_set_def in_ring_def q'_def)
  show "pcq_contents q' = ys" using ne sl sl' by (simp add: pcq_contents_def)
  show "pcq_capacity q' = pcq_capacity q" by (simp add: pcq_capacity_def q'_def)
  have "None \<notin> set (pcq_slice q')" using inv sl sl' by (simp add: pcq_inv_def)
  then show "pcq_inv q'" using inv rw nr unfolding pcq_inv_def by (simp add: q'_def)
qed

lemma PCQ_read_item:
  assumes "pcq_inv q" "pcq_contents q = y # ys"
  shows "\<exists>q'. PCQ_read x q = Inr (True, y, q') \<and> pcq_inv q' \<and> pcq_contents q' = ys
    \<and> pcq_capacity q' = pcq_capacity q"
  using pcq_take_front[OF assms] pcq_empty_iff[OF assms(1)] assms(2)
  by (simp add: PCQ_read_def Let_def)

lemma PCQ_popFront_item:
  assumes "pcq_inv q" "pcq_contents q = y # ys"
  shows "\<exists>q'. PCQ_popFront q = Inr q' \<and> pcq_inv q' \<and> pcq_contents q' = ys
    \<and> pcq_capacity q' = pcq_capacity q"
  using pcq_take_front[OF assms] pcq_empty_iff[OF assms(1)] assms(2)
  by (simp add: PCQ_popFront_def Let_def)

lemma PCQ_frontPtr_contents:
  assumes "pcq_inv q"
  shows "PCQ_frontPtr q = Inr (case pcq_contents q of [] \<Rightarrow> None | y # _ \<Rightarrow> Some y)"
  using pcq_take_front(1)[OF assms] pcq_empty_iff[OF assms]
  by (cases "pcq_contents q") (simp_all add: PCQ_frontPtr_def)

interpretation pq: bounded_queue pcq_inv pcq_contents pcq_capacity PCQ_write PCQ_read
  PCQ_isEmpty PCQ_isFull True False
proof unfold_locales
  fix q :: "'a pcq" and x
  show "pcq_inv q \<Longrightarrow> length (pcq_contents q) = pcq_capacity q \<Longrightarrow> PCQ_write x q = Inr (False, q)"
    by (simp add: PCQ_write_def Let_def pcq_full_iff)
  show "pcq_inv q \<Longrightarrow> pcq_contents q = [] \<Longrightarrow> PCQ_read x q = Inr (False, x, q)"
    by (simp add: PCQ_read_def Let_def pcq_empty_iff)
qed (simp_all add: pcq_length_less PCQ_write_space PCQ_read_item PCQ_isEmpty_def PCQ_isFull_def
    pcq_full_iff pcq_empty_iff)

lemma PCQ_new_inv:
  assumes "2 \<le> s"
  shows "\<exists>q. PCQ_new s = Inr q \<and> pcq_inv q \<and> pcq_contents q = [] \<and> pcq_capacity q = nat (uint s - 1)"
  using assms
  by (auto simp: PCQ_new_def pcq_inv_def pcq_slice_def pcq_contents_def pcq_capacity_def in_ring_def
      word_le_def)

end
