(* ===== verification/Queue_Properties.thy ===== *)
theory Queue_Properties
  imports Fifo_Concurrent ProducerConsumerQueue
begin

text \<open>
  The properties of the two queues: \<^verbatim>\<open>Common::Fifo\<close> under concurrency and as an abstract queue, and
  \<^verbatim>\<open>folly::ProducerConsumerQueue\<close>.
\<close>

text \<open>A ring of two slots and runs on it that the witnesses below use.\<close>

definition ring2 :: "int fifo" where
  "ring2 = \<lparr>fsize = 2, indexStart = 0, indexEnd = 0, data = [0, 0, 0], nIn = 0, nOut = 0\<rparr>"

definition busy_system :: "int system" where
  "busy_system = \<lparr>ring = \<lparr>fsize = 2, indexStart = 1, indexEnd = 1, data = [0, 5, 0], nIn = 1, nOut = 0\<rparr>,
     writer = WSlot 6 2, reader = RAdvanced, accepted = [5], delivered = []\<rparr>"

lemma ring2_new: "Fifo_new 0 2 = Inr ring2"
  by (simp add: Fifo_new_def Fifo_resetStats_def ring2_def numeral_eq_Suc)

lemma busy_reachable: "(fifo_step 0)\<^sup>*\<^sup>* (initial_system ring2) busy_system"
proof -
  let ?f = "ring2\<lparr>data := [0, 5, 0], indexEnd := 1, nIn := 1\<rparr>"
  let ?c1 = "\<lparr>ring = ?f, writer = WIdle, reader = RIdle, accepted = [5], delivered = []\<rparr>"
  let ?c2 = "?c1\<lparr>writer := WSlot 6 2\<rparr>"
  let ?c3 = "?c2\<lparr>reader := RNonEmpty\<rparr>"
  have "Fifo_push 5 (ring (initial_system ring2)) = Inr (0, ?f)"
    by (simp add: Fifo_push_def ring2_def initial_system_def vec_set_def)
  from push_runs[OF this, of 0] have "(fifo_step 0)\<^sup>*\<^sup>* (initial_system ring2) ?c1"
    unfolding initial_system_def by simp
  moreover have "fifo_step 0 ?c1 ?c2" by (rule fifo_step.push_check) (simp_all add: ring2_def)
  moreover have "fifo_step 0 ?c2 ?c3" by (rule fifo_step.pop_check) (simp_all add: ring2_def Fifo_isEmpty_def)
  moreover have "fifo_step 0 ?c3 busy_system"
    using fifo_step.pop_advance[of ?c3 1 0] by (simp add: ring2_def busy_system_def)
  ultimately show ?thesis by (metis (no_types, lifting) rtranclp.rtrancl_into_rtrancl)
qed


section \<open>Fifo shared by a writer and a reader\<close>

text \<open>(C1) Whatever the interleaving of one writer thread and one reader thread, the items whose
  push returned success are, in order, the items the reader has fetched, the one it is about to
  fetch, and the contents of the ring; the ring never holds more than its size. No item is lost,
  duplicated or reordered.\<close>

theorem fifo_spsc_exact:
  assumes "0 \<le> n" "Fifo_new z n = Inr f" "(fifo_step z)\<^sup>*\<^sup>* (initial_system f) c"
  shows "accepted c = delivered c @ in_flight c @ fifo_contents (ring c)
    \<and> int (length (fifo_contents (ring c))) \<le> fsize (ring c)"
proof -
  have "system_inv c" using assms(3) new_system_inv[OF assms(1,2)] by (rule fifo_reachable_inv)
  then show ?thesis
    using fifo_length_le[of "ring c"] by (simp add: system_inv_def fifo_capacity_def fifo_inv_def nat_le_iff le_nat_iff)
qed

theorem fifo_spsc_exact_witness:
  "accepted busy_system = delivered busy_system @ in_flight busy_system @ fifo_contents (ring busy_system)
    \<and> int (length (fifo_contents (ring busy_system))) \<le> fsize (ring busy_system)
    \<and> accepted busy_system = [5] \<and> in_flight busy_system = [5]"
  using fifo_spsc_exact[OF _ ring2_new busy_reachable] by (simp add: busy_system_def in_flight_def)

text \<open>(C10) The writer and the reader never touch the same slot of the vector, and both slots are
  inside it: the accesses to the vector are free of data races although only the indices are
  atomic.\<close>

theorem fifo_no_data_race:
  assumes "0 \<le> n" "Fifo_new z n = Inr f" "(fifo_step z)\<^sup>*\<^sup>* (initial_system f) c"
    and "writer_slot (writer c) = Some e" "reader_slot c = Some s"
  shows "e \<noteq> s \<and> in_ring (int (length (data (ring c)))) e \<and> in_ring (int (length (data (ring c)))) s"
proof -
  have inv: "system_inv c" using assms(3) new_system_inv[OF assms(1,2)] by (rule fifo_reachable_inv)
  have "s = indexStart (ring c)" using assms(5) by (simp add: reader_slot_def split: if_splits)
  then show ?thesis using inv assms(4) by (cases "writer c") (auto simp: system_inv_def fifo_inv_def)
qed

theorem fifo_no_data_race_witness:
  "writer_slot (writer busy_system) = Some 2 \<and> reader_slot busy_system = Some 1 \<and> (2 :: int) \<noteq> 1
    \<and> in_ring (int (length (data (ring busy_system)))) 2 \<and> in_ring (int (length (data (ring busy_system)))) 1"
  using fifo_no_data_race[OF _ ring2_new busy_reachable, of 2 1] by (simp add: busy_system_def reader_slot_def)

text \<open>(C12) Neither thread can get stuck inside \<^verbatim>\<open>push\<close> or \<^verbatim>\<open>pop\<close>: in every reachable state the next
  statement of either thread can be executed, and it moves the thread on when it is inside a
  call. (An access out of the bounds of the vector would be a state without a next step.)\<close>

theorem fifo_threads_progress:
  assumes "0 \<le> n" "Fifo_new z n = Inr f" "(fifo_step z)\<^sup>*\<^sup>* (initial_system f) c"
  shows "(\<exists>c'. fifo_step z c c' \<and> (writer c = WIdle \<or> writer c' \<noteq> writer c))
    \<and> (\<exists>c'. fifo_step z c c' \<and> (reader c = RIdle \<or> reader c' \<noteq> reader c))"
proof -
  have "system_inv c" using assms(3) new_system_inv[OF assms(1,2)] by (rule fifo_reachable_inv)
  then show ?thesis using fifo_writer_progress[of c z] fifo_reader_progress[of c z] by blast
qed

theorem fifo_threads_progress_witness:
  "(\<exists>c'. fifo_step 0 busy_system c' \<and> (writer busy_system = WIdle \<or> writer c' \<noteq> writer busy_system))
    \<and> (\<exists>c'. fifo_step 0 busy_system c' \<and> (reader busy_system = RIdle \<or> reader c' \<noteq> reader busy_system))"
  using fifo_threads_progress[OF _ ring2_new busy_reachable] by simp


section \<open>Fifo as a bounded queue\<close>

text \<open>(C21) Any sequence of calls of \<^verbatim>\<open>push\<close> and \<^verbatim>\<open>pop\<close> on a new Fifo is defined (no access out of
  bounds) and behaves as a queue: what was accepted is what was delivered followed by what is
  still in the Fifo, which \<^verbatim>\<open>isEmpty\<close>, \<^verbatim>\<open>isFull\<close> and \<^verbatim>\<open>front\<close> describe.\<close>

theorem fifo_refines_queue:
  assumes "0 \<le> n"
  shows "\<exists>f ins outs g. Fifo_new z n = Inr f \<and> run_qops 0 Fifo_push (Fifo_pop z) x ops f = Inr (ins, outs, g)
    \<and> ins = outs @ fifo_contents g \<and> length (fifo_contents g) \<le> nat n
    \<and> (Fifo_isEmpty g \<longleftrightarrow> fifo_contents g = []) \<and> (Fifo_isFull g \<longleftrightarrow> length (fifo_contents g) = nat n)
    \<and> Fifo_front x g = (case fifo_contents g of [] \<Rightarrow> Inr (-1, x) | y # _ \<Rightarrow> Inr (0, y))"
proof -
  obtain f where f: "Fifo_new z n = Inr f" "fifo_inv f" "fifo_contents f = []" "fifo_capacity f = nat n"
    using Fifo_new_inv[OF assms, of z] by blast
  obtain ins outs g where g: "run_qops 0 Fifo_push (Fifo_pop z) x ops f = Inr (ins, outs, g)" "fifo_inv g"
      "fifo_contents f @ ins = outs @ fifo_contents g" "fifo_capacity g = fifo_capacity f"
    using fq.run_qops_fifo[OF f(2), of z x ops] by blast
  then show ?thesis
    using f fq.isEmpty_iff[OF g(2)] fq.isFull_iff[OF g(2)] fq.length_contents[OF g(2)] Fifo_front_cases[OF g(2)] by auto
qed

theorem fifo_refines_queue_witness:
  "\<exists>f ins outs g. Fifo_new 0 2 = Inr f
    \<and> run_qops 0 Fifo_push (Fifo_pop 0) 0 [Push 1, Push 2, Push 3, Pop, Push 4] f = Inr (ins, outs, g)
    \<and> ins = outs @ fifo_contents (g :: int fifo) \<and> length (fifo_contents g) \<le> nat 2
    \<and> (Fifo_isEmpty g \<longleftrightarrow> fifo_contents g = []) \<and> (Fifo_isFull g \<longleftrightarrow> length (fifo_contents g) = nat 2)
    \<and> Fifo_front 0 g = (case fifo_contents g of [] \<Rightarrow> Inr (-1, 0) | y # _ \<Rightarrow> Inr (0, y))"
  by (rule fifo_refines_queue) simp


text \<open>The free and used slot counters agree with the contents in every state that calls of
  \<^verbatim>\<open>push\<close> and \<^verbatim>\<open>pop\<close> can reach.\<close>

lemma fifo_slot_counters:
  assumes "0 \<le> n" "Fifo_new z n = Inr f" "run_qops 0 Fifo_push (Fifo_pop z) x ops f = Inr (ins, outs, g)"
  shows "Fifo_getNumberOfUsedSlots g = int (length (fifo_contents g))
    \<and> Fifo_getNumberOfFreeSlots g = fsize g - int (length (fifo_contents g))"
proof -
  have "fifo_inv f" using Fifo_new_inv[OF assms(1), of z] assms(2) by auto
  then have inv: "fifo_inv g" using fq.run_qops_fifo[of f z x ops] assms(3) by auto
  then have r: "in_ring (fsize g + 1) (indexStart g)" "in_ring (fsize g + 1) (indexEnd g)" by (simp_all add: fifo_inv_def)
  have "int (length (fifo_contents g)) = ring_dist (fsize g + 1) (indexStart g) (indexEnd g)"
    using fifo_contents_length[OF inv] ring_dist_bounds[of "fsize g + 1"] inv by (simp add: fifo_inv_def)
  then show ?thesis
    by (simp add: Fifo_getNumberOfUsedSlots_def Fifo_getNumberOfFreeSlots_def Let_def ring_dist_alt[OF r])
qed

text \<open>\<^verbatim>\<open>clear\<close> empties the vector itself and keeps the size, so the object is unusable
  afterwards: on any Fifo of positive size the next \<^verbatim>\<open>push\<close> writes outside the vector.\<close>

lemma fifo_clear_breaks_push:
  assumes "0 < fsize f"
  shows "Fifo_push x (Fifo_clear f) = Inl OutOfBounds"
  using assms by (simp add: Fifo_push_def Fifo_clear_def vec_set_def)

section \<open>ProducerConsumerQueue\<close>

text \<open>(C24) A \<^verbatim>\<open>ProducerConsumerQueue\<close> built with size \<open>s\<close> is a queue of \<open>s - 1\<close> elements: any sequence
  of calls of \<^verbatim>\<open>write\<close> and \<^verbatim>\<open>read\<close> is defined (no dead object is moved from or destroyed), delivers
  in order, and a write is refused exactly when \<open>s - 1\<close> elements are queued.\<close>

theorem pcq_refines_queue:
  assumes "2 \<le> s"
  shows "\<exists>(q :: 'a pcq) ins outs q'. PCQ_new s = Inr q \<and> run_qops True PCQ_write PCQ_read x ops q = Inr (ins, outs, q')
    \<and> ins = outs @ pcq_contents q' \<and> length (pcq_contents q') \<le> nat (uint s - 1)
    \<and> (PCQ_isFull q' \<longleftrightarrow> length (pcq_contents q') = nat (uint s - 1))
    \<and> (\<forall>y. (\<exists>q''. PCQ_write y q' = Inr (False, q'')) \<longleftrightarrow> length (pcq_contents q') = nat (uint s - 1))
    \<and> PCQ_frontPtr q' = Inr (case pcq_contents q' of [] \<Rightarrow> None | y # _ \<Rightarrow> Some y)"
proof -
  obtain q :: "'a pcq" where q: "PCQ_new s = Inr q" "pcq_inv q" "pcq_contents q = []" "pcq_capacity q = nat (uint s - 1)"
    using PCQ_new_inv[OF assms] by blast
  obtain ins outs q' where q': "run_qops True PCQ_write PCQ_read x ops q = Inr (ins, outs, q')" "pcq_inv q'"
      "pcq_contents q @ ins = outs @ pcq_contents q'" "pcq_capacity q' = pcq_capacity q"
    using pq.run_qops_fifo[OF q(2), of x ops] by blast
  have "(\<exists>q''. PCQ_write y q' = Inr (False, q'')) \<longleftrightarrow> length (pcq_contents q') = pcq_capacity q'" for y
    using pq.push_cases[OF q'(2), of y "(\<exists>q''. PCQ_write y q' = Inr (False, q'')) \<longleftrightarrow> length (pcq_contents q') = pcq_capacity q'"]
    by fastforce
  then show ?thesis
    using q q' pq.isFull_iff[OF q'(2)] pq.length_contents[OF q'(2)] PCQ_frontPtr_contents[OF q'(2)] by auto
qed

theorem pcq_refines_queue_witness:
  "\<exists>q ins outs q'. PCQ_new 3 = Inr q
    \<and> run_qops True PCQ_write PCQ_read 0 [Push 1, Push 2, Push 3, Pop] q = Inr (ins, outs, q')
    \<and> ins = outs @ pcq_contents q' \<and> length (pcq_contents q') \<le> nat (uint (3 :: u32) - 1)
    \<and> (PCQ_isFull q' \<longleftrightarrow> length (pcq_contents q') = nat (uint (3 :: u32) - 1))
    \<and> (\<forall>y :: int. (\<exists>q''. PCQ_write y q' = Inr (False, q'')) \<longleftrightarrow> length (pcq_contents q') = nat (uint (3 :: u32) - 1))
    \<and> PCQ_frontPtr q' = Inr (case pcq_contents q' of [] \<Rightarrow> None | y # _ \<Rightarrow> Some y)"
  by (rule pcq_refines_queue) simp

end
