(* ===== verification/Page_Pool.thy ===== *)
theory Page_Pool
  imports Prelude
begin

text \<open>
  The contract of a pool of pages: taking a page yields one that nobody holds, and a page given
  back can be taken again. \<^verbatim>\<open>MemPool\<close> (flag table) and the offset queue of
  \<^verbatim>\<open>ReadoutMemoryHandler\<close> both provide it. \<open>used\<close> is the set of pages handed out. The clients are
  block containers, whose constructor takes a page and whose destructor gives it back.
\<close>

fun take_pages :: "('p \<Rightarrow> ('a option \<times> 'p) res) \<Rightarrow> nat \<Rightarrow> 'p \<Rightarrow> ('a list \<times> 'p) res" where
  "take_pages get 0 p = Inr ([], p)"
| "take_pages get (Suc n) p =
     res_bind (get p) (\<lambda>(r, p'). case r of
        None \<Rightarrow> Inr ([], p')
      | Some a \<Rightarrow> res_bind (take_pages get n p') (\<lambda>(as, p''). Inr (a # as, p'')))"

fun release_pages :: "('a \<Rightarrow> 'p \<Rightarrow> 'p res) \<Rightarrow> 'a list \<Rightarrow> 'p \<Rightarrow> 'p res" where
  "release_pages rel [] p = Inr p"
| "release_pages rel (a # as) p = res_bind (rel a p) (release_pages rel as)"

locale page_pool =
  fixes inv :: "'p \<Rightarrow> bool"
    and pages :: "'p \<Rightarrow> 'a set"
    and used :: "'p \<Rightarrow> 'a set"
    and get :: "'p \<Rightarrow> ('a option \<times> 'p) res"
    and rel :: "'a \<Rightarrow> 'p \<Rightarrow> 'p res"
  assumes finite_pages: "inv p \<Longrightarrow> finite (pages p)"
    and used_pages: "inv p \<Longrightarrow> used p \<subseteq> pages p"
    and get_free: "inv p \<Longrightarrow> used p \<noteq> pages p \<Longrightarrow>
      \<exists>a p'. get p = Inr (Some a, p') \<and> inv p' \<and> a \<in> pages p - used p
        \<and> used p' = insert a (used p) \<and> pages p' = pages p"
    and get_exhausted: "inv p \<Longrightarrow> used p = pages p \<Longrightarrow> get p = Inr (None, p)"
    and rel_used: "inv p \<Longrightarrow> a \<in> used p \<Longrightarrow>
      \<exists>p'. rel a p = Inr p' \<and> inv p' \<and> used p' = used p - {a} \<and> pages p' = pages p"
begin

lemma take_pages_distinct:
  assumes "inv p" "card (used p) + n \<le> card (pages p)"
  shows "\<exists>as p'. take_pages get n p = Inr (as, p') \<and> inv p' \<and> length as = n \<and> distinct as
    \<and> set as \<subseteq> pages p \<and> set as \<inter> used p = {} \<and> used p' = used p \<union> set as \<and> pages p' = pages p"
  using assms
proof (induction n arbitrary: p)
  case 0
  then show ?case by simp
next
  case (Suc n)
  then have "used p \<noteq> pages p" by auto
  then obtain a p' where g: "get p = Inr (Some a, p')" "inv p'" "a \<in> pages p - used p"
      "used p' = insert a (used p)" "pages p' = pages p"
    using get_free[OF Suc.prems(1)] by blast
  have "finite (used p)" using Suc.prems(1) finite_pages used_pages finite_subset by blast
  then have "card (used p') + n \<le> card (pages p')" using g Suc.prems(2) by simp
  from Suc.IH[OF g(2) this] g show ?case by auto
qed

lemma take_then_release:
  assumes "inv p" "used p \<noteq> pages p"
  shows "\<exists>a p' p''. get p = Inr (Some a, p') \<and> a \<notin> used p \<and> rel a p' = Inr p'' \<and> inv p''
    \<and> used p'' = used p \<and> pages p'' = pages p"
proof -
  obtain a p' where g: "get p = Inr (Some a, p')" "inv p'" "a \<in> pages p - used p"
      "used p' = insert a (used p)" "pages p' = pages p"
    using get_free[OF assms] by blast
  moreover obtain p'' where "rel a p' = Inr p''" "inv p''" "used p'' = used p' - {a}" "pages p'' = pages p'"
    using rel_used[OF g(2), of a] g(4) by blast
  ultimately show ?thesis by fastforce
qed

lemma release_pages_all:
  assumes "inv p" "distinct as" "set as \<subseteq> used p"
  shows "\<exists>p'. release_pages rel as p = Inr p' \<and> inv p' \<and> used p' = used p - set as \<and> pages p' = pages p"
  using assms
proof (induction as arbitrary: p)
  case Nil
  then show ?case by simp
next
  case (Cons a as)
  then obtain p' where r: "rel a p = Inr p'" "inv p'" "used p' = used p - {a}" "pages p' = pages p"
    using rel_used[of p a] by auto
  have "set as \<subseteq> used p'" using Cons.prems r(3) by auto
  with Cons.IH[of p'] Cons.prems r show ?case by auto
qed

end

end
