(* ===== verification/MemPool.thy ===== *)
theory MemPool
  imports Page_Pool
begin

text \<open>
  \<^verbatim>\<open>MemPool\<close> and the block containers that own its pages (src/DataFormat/src/MemPool.cxx,
  src/DataFormat/src/DataBlockContainer.cxx). Pages are addresses, with \<open>0\<close> for \<^verbatim>\<open>NULL\<close>. The two
  arrays of the class are lists; the null pointer they are set to by \<^verbatim>\<open>deletePages\<close> is the empty
  list. \<^verbatim>\<open>posix_memalign\<close> is a function of the number of the call: the \<open>k\<close>-th call of the
  constructor returns the address \<open>alloc k\<close>, or fails when that is \<open>None\<close>.
\<close>

record mempool =
  numberOfPages :: int
  mpPageSize :: int
  pageTable :: "nat list"
  pageIsUsed :: "bool list"
  lastPageIndexGet :: int
  lastPageIndexRelease :: int

text \<open>\<^verbatim>\<open>deletePages\<close> returns the addresses it frees and the number of pages that were still in
  use, which it reports on the standard error stream.\<close>

definition MemPool_deletePages :: "mempool \<Rightarrow> nat list \<times> nat \<times> mempool" where
  "MemPool_deletePages p =
     (let slots = filter (\<lambda>(page, used). page \<noteq> 0) (zip (pageTable p) (pageIsUsed p))
      in (map fst slots, length (filter snd slots), p\<lparr>pageTable := [], pageIsUsed := []\<rparr>))"

text \<open>The allocation loop: the table filled up to the first failure, and the index of that
  failure or \<open>-1\<close>.\<close>

fun alloc_pages :: "(nat \<Rightarrow> nat option) \<Rightarrow> nat \<Rightarrow> nat \<Rightarrow> nat list \<times> int" where
  "alloc_pages alloc i 0 = ([], -1)"
| "alloc_pages alloc i (Suc n) =
     (case alloc i of
        None \<Rightarrow> (replicate (Suc n) 0, int i)
      | Some a \<Rightarrow> (let (ps, e) = alloc_pages alloc (Suc i) n in (a # ps, e)))"

definition MemPool_new :: "(nat \<Rightarrow> nat option) \<Rightarrow> int \<Rightarrow> int \<Rightarrow> mempool res" where
  "MemPool_new alloc n v_pageSize =
     (if n < 0 then Inl (RuntimeError ''bad_array_new_length'')
      else
        let (table, errorIx) = alloc_pages alloc 0 (nat n)
        in if errorIx \<ge> 0 then Inl (StringError ''Failed to allocate page'')
           else Inr \<lparr>numberOfPages = n, mpPageSize = v_pageSize, pageTable = table,
                  pageIsUsed = replicate (nat n) False, lastPageIndexGet = -1,
                  lastPageIndexRelease = -1\<rparr>)"

function getPage_scan :: "mempool \<Rightarrow> int \<Rightarrow> (nat \<times> mempool) res" where
  "getPage_scan p i =
     (if i < numberOfPages p
      then let newIx = (lastPageIndexGet p + 1 + i) mod numberOfPages p
           in res_bind (vec_get (pageIsUsed p) newIx) (\<lambda>used.
              if \<not> used
              then res_bind (vec_set (pageIsUsed p) newIx True) (\<lambda>flags.
                   res_bind (vec_get (pageTable p) newIx) (\<lambda>page.
                     Inr (page, p\<lparr>pageIsUsed := flags, lastPageIndexGet := newIx\<rparr>)))
              else getPage_scan p (i + 1))
      else Inr (0, p))"
  by pat_completeness auto
termination
  by (relation "measure (\<lambda>(p, i). nat (numberOfPages p - i))") auto

declare getPage_scan.simps [simp del]

definition MemPool_getPage :: "mempool \<Rightarrow> (nat \<times> mempool) res" where
  "MemPool_getPage p = getPage_scan p 0"

function releasePage_scan :: "nat \<Rightarrow> mempool \<Rightarrow> int \<Rightarrow> mempool res" where
  "releasePage_scan pagePtr p i =
     (if i < numberOfPages p
      then let pageIx = (lastPageIndexRelease p + i + 1) mod numberOfPages p
           in res_bind (vec_get (pageTable p) pageIx) (\<lambda>page.
              if pagePtr = page
              then res_bind (vec_set (pageIsUsed p) pageIx False) (\<lambda>flags.
                     Inr (p\<lparr>pageIsUsed := flags, lastPageIndexRelease := pageIx\<rparr>))
              else releasePage_scan pagePtr p (i + 1))
      else Inr p)"
  by pat_completeness auto
termination
  by (relation "measure (\<lambda>(a, p, i). nat (numberOfPages p - i))") auto

declare releasePage_scan.simps [simp del]

definition MemPool_releasePage :: "nat \<Rightarrow> mempool \<Rightarrow> mempool res" where
  "MemPool_releasePage pagePtr p = releasePage_scan pagePtr p 0"

definition MemPool_getPageSize :: "mempool \<Rightarrow> int" where
  "MemPool_getPageSize p = mpPageSize p"


section \<open>Block containers\<close>

text \<open>A container holds the address of its block. The constructor takes a page from the pool
  unless it is given a block; the pool argument is a pointer that may be null (\<open>None\<close>). The
  destructor gives the page back.\<close>

type_synonym container = nat

definition DataBlockContainerFromMemPool_new :: "mempool option \<Rightarrow> nat \<Rightarrow> (container \<times> mempool) res" where
  "DataBlockContainerFromMemPool_new pool v_data =
     (case pool of
        None \<Rightarrow> Inl (StringError ''NULL argument'')
      | Some mp \<Rightarrow>
          if v_data = 0
          then res_bind (MemPool_getPage mp) (\<lambda>(d, mp').
                 if d = 0 then Inl (StringError ''No page available'') else Inr (d, mp'))
          else Inr (v_data, mp))"

definition DataBlockContainer_getData :: "container \<Rightarrow> nat" where
  "DataBlockContainer_getData c = c"

definition DataBlockContainerFromMemPool_delete :: "container \<Rightarrow> mempool \<Rightarrow> mempool res" where
  "DataBlockContainerFromMemPool_delete c mp = (if c \<noteq> 0 then MemPool_releasePage c mp else Inr mp)"


section \<open>Invariant, free and used pages\<close>

definition pool_inv :: "mempool \<Rightarrow> bool" where
  "pool_inv p \<longleftrightarrow> 0 \<le> numberOfPages p
     \<and> int (length (pageTable p)) = numberOfPages p \<and> length (pageIsUsed p) = length (pageTable p)
     \<and> distinct (pageTable p) \<and> 0 \<notin> set (pageTable p)
     \<and> -1 \<le> lastPageIndexGet p \<and> -1 \<le> lastPageIndexRelease p"

definition pool_pages :: "mempool \<Rightarrow> nat set" where
  "pool_pages p = set (pageTable p)"

definition pool_used :: "mempool \<Rightarrow> nat set" where
  "pool_used p = {pageTable p ! i |i. i < length (pageTable p) \<and> pageIsUsed p ! i}"

text \<open>The scan visits every index once: the offset at which index \<open>j\<close> comes up.\<close>

lemma scan_offset:
  fixes n k :: int
  assumes "0 \<le> j" "j < n"
  shows "0 \<le> (j - k) mod n" "(j - k) mod n < n" "(k + (j - k) mod n) mod n = j"
  using assms by (auto simp: mod_simps)

lemma in_range_scan:
  assumes "pool_inv p" "0 < numberOfPages p"
  shows "0 \<le> k mod numberOfPages p" "k mod numberOfPages p < int (length (pageTable p))"
    "k mod numberOfPages p < int (length (pageIsUsed p))"
    "nat (k mod numberOfPages p) < length (pageTable p)"
  using assms by (auto simp: pool_inv_def nat_less_iff)


definition get_index :: "mempool \<Rightarrow> int \<Rightarrow> int" where
  "get_index p m = (lastPageIndexGet p + 1 + m) mod numberOfPages p"

definition release_index :: "mempool \<Rightarrow> int \<Rightarrow> int" where
  "release_index p m = (lastPageIndexRelease p + m + 1) mod numberOfPages p"

text \<open>The two scans find the first index, in scan order, that is free or that holds the page.\<close>

lemma getPage_scan_found:
  assumes "pool_inv p" "0 \<le> i" "i \<le> m" "m < numberOfPages p"
    and "\<not> pageIsUsed p ! nat (get_index p m)"
    and "\<And>k. i \<le> k \<Longrightarrow> k < m \<Longrightarrow> pageIsUsed p ! nat (get_index p k)"
  shows "getPage_scan p i = Inr (pageTable p ! nat (get_index p m),
    p\<lparr>pageIsUsed := (pageIsUsed p)[nat (get_index p m) := True], lastPageIndexGet := get_index p m\<rparr>)"
  using assms
proof (induction p i rule: getPage_scan.induct)
  case (1 p i)
  have n: "0 < numberOfPages p" "i < numberOfPages p" using 1 by auto
  note rng = in_range_scan[OF 1(2) n(1)]
  show ?case
  proof (cases "i = m")
    case True
    then show ?thesis
      using rng n "1.prems"(5)
      by (subst getPage_scan.simps) (simp add: vec_simps get_index_def Let_def)
  next
    case False
    then have used: "pageIsUsed p ! nat (get_index p i)" using "1.prems" by simp
    then have "getPage_scan p i = getPage_scan p (i + 1)"
      using rng n by (subst getPage_scan.simps) (simp add: vec_simps get_index_def Let_def)
    also have "\<dots> = Inr (pageTable p ! nat (get_index p m),
        p\<lparr>pageIsUsed := (pageIsUsed p)[nat (get_index p m) := True], lastPageIndexGet := get_index p m\<rparr>)"
      using "1.prems" False used rng n by (intro "1.IH"[OF n(2) refl]) (auto simp: vec_simps get_index_def)
    finally show ?thesis .
  qed
qed

lemma getPage_scan_exhausted:
  assumes "pool_inv p" "0 \<le> i" and "\<And>k. i \<le> k \<Longrightarrow> k < numberOfPages p \<Longrightarrow> pageIsUsed p ! nat (get_index p k)"
  shows "getPage_scan p i = Inr (0, p)"
  using assms
proof (induction p i rule: getPage_scan.induct)
  case (1 p i)
  show ?case
  proof (cases "i < numberOfPages p")
    case True
    then have n: "0 < numberOfPages p" using 1 by simp
    note rng = in_range_scan[OF 1(2) n]
    have used: "pageIsUsed p ! nat (get_index p i)" using 1 True by simp
    then have "getPage_scan p i = getPage_scan p (i + 1)"
      using rng True by (subst getPage_scan.simps) (simp add: vec_simps get_index_def Let_def)
    also have "\<dots> = Inr (0, p)"
      using "1.prems" True used rng by (intro "1.IH"[OF True refl]) (auto simp: vec_simps get_index_def)
    finally show ?thesis .
  next
    case False
    then show ?thesis by (subst getPage_scan.simps) simp
  qed
qed

lemma releasePage_scan_found:
  assumes "pool_inv p" "0 \<le> i" "i \<le> m" "m < numberOfPages p"
    and "pageTable p ! nat (release_index p m) = a"
    and "\<And>k. i \<le> k \<Longrightarrow> k < m \<Longrightarrow> pageTable p ! nat (release_index p k) \<noteq> a"
  shows "releasePage_scan a p i = Inr (p\<lparr>pageIsUsed := (pageIsUsed p)[nat (release_index p m) := False],
    lastPageIndexRelease := release_index p m\<rparr>)"
  using assms
proof (induction a p i rule: releasePage_scan.induct)
  case (1 a p i)
  have n: "0 < numberOfPages p" "i < numberOfPages p" using 1 by auto
  note rng = in_range_scan[OF 1(2) n(1)]
  show ?case
  proof (cases "i = m")
    case True
    then show ?thesis
      using rng n "1.prems"(5)
      by (subst releasePage_scan.simps) (simp add: vec_simps release_index_def Let_def)
  next
    case False
    then have other: "a \<noteq> pageTable p ! nat (release_index p i)"
      using "1.prems"(3) "1.prems"(6)[of i] by (simp add: eq_commute)
    then have "releasePage_scan a p i = releasePage_scan a p (i + 1)"
      using rng n by (subst releasePage_scan.simps) (simp add: vec_simps release_index_def Let_def)
    also have "\<dots> = Inr (p\<lparr>pageIsUsed := (pageIsUsed p)[nat (release_index p m) := False],
        lastPageIndexRelease := release_index p m\<rparr>)"
      using "1.prems" False other rng n
      by (intro "1.IH"[OF n(2) refl]) (auto simp: vec_simps release_index_def)
    finally show ?thesis .
  qed
qed

lemma releasePage_scan_unknown:
  assumes "pool_inv p" "0 \<le> i" "a \<notin> set (pageTable p)"
  shows "releasePage_scan a p i = Inr p"
  using assms
proof (induction a p i rule: releasePage_scan.induct)
  case (1 a p i)
  show ?case
  proof (cases "i < numberOfPages p")
    case True
    then have n: "0 < numberOfPages p" using 1 by simp
    note rng = in_range_scan[OF 1(2) n]
    have other: "a \<noteq> pageTable p ! nat ((lastPageIndexRelease p + i + 1) mod numberOfPages p)"
      using "1.prems"(3) rng(4) nth_mem by metis
    then have "releasePage_scan a p i = releasePage_scan a p (i + 1)"
      using rng True by (subst releasePage_scan.simps) (simp add: vec_simps Let_def)
    also have "\<dots> = Inr p"
      using "1.prems" True other rng by (intro "1.IH"[OF True refl]) (auto simp: vec_simps)
    finally show ?thesis .
  next
    case False
    then show ?thesis by (subst releasePage_scan.simps) simp
  qed
qed


section \<open>Allocation and release\<close>

lemma pool_used_update:
  assumes "pool_inv p" "i < length (pageTable p)"
  shows "pool_used (p\<lparr>pageIsUsed := (pageIsUsed p)[i := True], lastPageIndexGet := g\<rparr>)
      = insert (pageTable p ! i) (pool_used p)"
    and "pool_used (p\<lparr>pageIsUsed := (pageIsUsed p)[i := False], lastPageIndexRelease := g\<rparr>)
      = pool_used p - {pageTable p ! i}"
  using assms
  by (auto simp: pool_used_def pool_inv_def nth_list_update nth_eq_iff_index_eq split: if_splits)

lemma pool_used_subset: "pool_inv p \<Longrightarrow> pool_used p \<subseteq> pool_pages p"
  by (auto simp: pool_used_def pool_pages_def)

lemma pool_all_used_iff:
  assumes "pool_inv p"
  shows "pool_used p = pool_pages p \<longleftrightarrow> (\<forall>i < length (pageTable p). pageIsUsed p ! i)"
proof
  assume eq: "pool_used p = pool_pages p"
  show "\<forall>i < length (pageTable p). pageIsUsed p ! i"
  proof (intro allI impI)
    fix i assume i: "i < length (pageTable p)"
    then have "pageTable p ! i \<in> pool_used p" using eq by (simp add: pool_pages_def)
    then show "pageIsUsed p ! i"
      using assms i by (auto simp: pool_used_def pool_inv_def nth_eq_iff_index_eq)
  qed
next
  assume all: "\<forall>i < length (pageTable p). pageIsUsed p ! i"
  then have "pool_pages p \<subseteq> pool_used p" unfolding pool_used_def pool_pages_def set_conv_nth by blast
  then show "pool_used p = pool_pages p" using pool_used_subset[OF assms] by blast
qed

lemma get_index_onto:
  assumes "pool_inv p" "i < length (pageTable p)"
  obtains m where "0 \<le> m" "m < numberOfPages p" "nat (get_index p m) = i"
proof
  let ?m = "(int i - (lastPageIndexGet p + 1)) mod numberOfPages p"
  have "0 \<le> int i" "int i < numberOfPages p" using assms by (auto simp: pool_inv_def)
  from scan_offset[OF this, of "lastPageIndexGet p + 1"]
  show "0 \<le> ?m" "?m < numberOfPages p" "nat (get_index p ?m) = i" by (simp_all add: get_index_def)
qed

lemma release_index_onto:
  assumes "pool_inv p" "i < length (pageTable p)"
  obtains m where "0 \<le> m" "m < numberOfPages p" "nat (release_index p m) = i"
proof
  let ?m = "(int i - (lastPageIndexRelease p + 1)) mod numberOfPages p"
  have "0 \<le> int i" "int i < numberOfPages p" using assms by (auto simp: pool_inv_def)
  from scan_offset[OF this, of "lastPageIndexRelease p + 1"]
  show "0 \<le> ?m" "?m < numberOfPages p" "nat (release_index p ?m) = i"
    by (simp_all add: release_index_def algebra_simps)
qed

text \<open>The least offset with a property, as the scans find it.\<close>

lemma least_offset:
  fixes m :: int
  assumes "0 \<le> m" "P m"
  obtains l where "0 \<le> l" "l \<le> m" "P l" "\<And>k. 0 \<le> k \<Longrightarrow> k < l \<Longrightarrow> \<not> P k"
proof -
  define l where "l = (LEAST n. P (int n))"
  have ex: "P (int (nat m))" using assms by simp
  have "P (int l)" unfolding l_def using ex by (rule LeastI)
  moreover have "l \<le> nat m" unfolding l_def using ex by (rule Least_le)
  moreover have "\<not> P k" if "0 \<le> k" "k < int l" for k
    using that not_less_Least[of "nat k" "\<lambda>n. P (int n)"] by (simp add: l_def nat_less_iff)
  ultimately show ?thesis using that[of "int l"] assms by simp
qed

lemma getPage_round_robin:
  assumes inv: "pool_inv p" and free: "pool_used p \<noteq> pool_pages p"
  obtains m where "0 \<le> m" "m < numberOfPages p" "\<not> pageIsUsed p ! nat (get_index p m)"
    "\<And>k. 0 \<le> k \<Longrightarrow> k < m \<Longrightarrow> pageIsUsed p ! nat (get_index p k)"
    "MemPool_getPage p = Inr (pageTable p ! nat (get_index p m),
       p\<lparr>pageIsUsed := (pageIsUsed p)[nat (get_index p m) := True], lastPageIndexGet := get_index p m\<rparr>)"
proof -
  obtain i where i: "i < length (pageTable p)" "\<not> pageIsUsed p ! i"
    using free pool_all_used_iff[OF inv] by auto
  obtain m where m: "0 \<le> m" "m < numberOfPages p" "nat (get_index p m) = i"
    using get_index_onto[OF inv i(1)] by blast
  from least_offset[of m "\<lambda>k. \<not> pageIsUsed p ! nat (get_index p k)"] m i(2)
  obtain l where l: "0 \<le> l" "l \<le> m" "\<not> pageIsUsed p ! nat (get_index p l)"
    "\<And>k. 0 \<le> k \<Longrightarrow> k < l \<Longrightarrow> pageIsUsed p ! nat (get_index p k)"
    by (metis (mono_tags, lifting))
  from that[of l] l m getPage_scan_found[OF inv, of 0 l] show ?thesis
    unfolding MemPool_getPage_def by simp
qed

lemma getPage_free:
  assumes inv: "pool_inv p" and free: "pool_used p \<noteq> pool_pages p"
  shows "\<exists>a p'. MemPool_getPage p = Inr (a, p') \<and> pool_inv p' \<and> a \<noteq> 0 \<and> a \<in> pool_pages p - pool_used p
    \<and> pool_used p' = insert a (pool_used p) \<and> pool_pages p' = pool_pages p"
proof -
  obtain m where m: "0 \<le> m" "m < numberOfPages p" "\<not> pageIsUsed p ! nat (get_index p m)"
    and g: "MemPool_getPage p = Inr (pageTable p ! nat (get_index p m),
       p\<lparr>pageIsUsed := (pageIsUsed p)[nat (get_index p m) := True], lastPageIndexGet := get_index p m\<rparr>)"
    using getPage_round_robin[OF inv free] by metis
  have n: "0 < numberOfPages p" using m by simp
  have r: "nat (get_index p m) < length (pageTable p)" "0 \<le> get_index p m"
    using in_range_scan[OF inv n] by (auto simp: get_index_def)
  have page: "pageTable p ! nat (get_index p m) \<in> set (pageTable p)" using r by simp
  then have "pageTable p ! nat (get_index p m) \<notin> pool_used p"
    using inv m(3) r by (auto simp: pool_used_def pool_inv_def nth_eq_iff_index_eq)
  moreover have "pageTable p ! nat (get_index p m) \<noteq> 0" using page inv by (metis pool_inv_def)
  moreover have "pool_inv (p\<lparr>pageIsUsed := (pageIsUsed p)[nat (get_index p m) := True],
      lastPageIndexGet := get_index p m\<rparr>)" using inv r by (simp add: pool_inv_def)
  ultimately show ?thesis
    using g page pool_used_update(1)[OF inv r(1)] by (simp add: pool_pages_def)
qed

lemma getPage_exhausted:
  assumes inv: "pool_inv p" and full: "pool_used p = pool_pages p"
  shows "MemPool_getPage p = Inr (0, p)"
  unfolding MemPool_getPage_def
proof (rule getPage_scan_exhausted[OF inv])
  fix k :: int assume "0 \<le> k" "k < numberOfPages p"
  then have "nat (get_index p k) < length (pageTable p)"
    using in_range_scan[OF inv] by (simp add: get_index_def)
  then show "pageIsUsed p ! nat (get_index p k)" using full pool_all_used_iff[OF inv] by simp
qed simp

lemma releasePage_spec:
  assumes inv: "pool_inv p"
  shows "\<exists>p'. MemPool_releasePage a p = Inr p' \<and> pool_inv p' \<and> pool_used p' = pool_used p - {a}
    \<and> pool_pages p' = pool_pages p"
proof (cases "a \<in> set (pageTable p)")
  case False
  then have "pool_used p - {a} = pool_used p" using pool_used_subset[OF inv] by (auto simp: pool_pages_def)
  then show ?thesis
    using inv False releasePage_scan_unknown[OF inv, of 0] by (simp add: MemPool_releasePage_def)
next
  case True
  then obtain i where i: "i < length (pageTable p)" "pageTable p ! i = a" by (auto simp: in_set_conv_nth)
  obtain m where m: "0 \<le> m" "m < numberOfPages p" "nat (release_index p m) = i"
    using release_index_onto[OF inv i(1)] by blast
  from least_offset[of m "\<lambda>k. pageTable p ! nat (release_index p k) = a"] m i(2)
  obtain l where l: "0 \<le> l" "l \<le> m" "pageTable p ! nat (release_index p l) = a"
    "\<And>k. 0 \<le> k \<Longrightarrow> k < l \<Longrightarrow> pageTable p ! nat (release_index p k) \<noteq> a"
    by (metis (mono_tags, lifting))
  have n: "0 < numberOfPages p" using m by simp
  have r: "nat (release_index p l) < length (pageTable p)" "0 \<le> release_index p l"
    using in_range_scan[OF inv n] by (auto simp: release_index_def)
  have "pool_inv (p\<lparr>pageIsUsed := (pageIsUsed p)[nat (release_index p l) := False],
      lastPageIndexRelease := release_index p l\<rparr>)" using inv r by (simp add: pool_inv_def)
  then show ?thesis
    using releasePage_scan_found[OF inv, of 0 l a] l m pool_used_update(2)[OF inv r(1)]
    by (simp add: MemPool_releasePage_def pool_pages_def)
qed

text \<open>\<^verbatim>\<open>getPage\<close> with its null result read as "no page".\<close>

definition pool_get :: "mempool \<Rightarrow> (nat option \<times> mempool) res" where
  "pool_get p = res_bind (MemPool_getPage p) (\<lambda>(a, p'). Inr (if a = 0 then None else Some a, p'))"

interpretation mp: page_pool pool_inv pool_pages pool_used pool_get MemPool_releasePage
proof unfold_locales
  fix p
  assume inv: "pool_inv p"
  show "finite (pool_pages p)" by (simp add: pool_pages_def)
  show "pool_used p \<noteq> pool_pages p \<Longrightarrow> \<exists>a p'. pool_get p = Inr (Some a, p') \<and> pool_inv p'
      \<and> a \<in> pool_pages p - pool_used p \<and> pool_used p' = insert a (pool_used p) \<and> pool_pages p' = pool_pages p"
    by (drule getPage_free[OF inv]) (auto simp: pool_get_def)
  show "pool_used p = pool_pages p \<Longrightarrow> pool_get p = Inr (None, p)"
    using getPage_exhausted[OF inv] by (simp add: pool_get_def)
  show "\<exists>p'. MemPool_releasePage a p = Inr p' \<and> pool_inv p' \<and> pool_used p' = pool_used p - {a}
      \<and> pool_pages p' = pool_pages p" for a
    using releasePage_spec[OF inv] by blast
qed (rule pool_used_subset)


section \<open>Construction, destruction and containers\<close>

text \<open>What \<^verbatim>\<open>posix_memalign\<close> promises of the calls that succeed: addresses that are not null, and
  a block that is still allocated is not returned again.\<close>

definition alloc_ok :: "(nat \<Rightarrow> nat option) \<Rightarrow> bool" where
  "alloc_ok alloc \<longleftrightarrow> (\<forall>i. alloc i \<noteq> Some 0) \<and> (\<forall>i j a. alloc i = Some a \<longrightarrow> alloc j = Some a \<longrightarrow> i = j)"

lemma alloc_pages_success:
  assumes "\<And>k. i \<le> k \<Longrightarrow> k < i + n \<Longrightarrow> alloc k \<noteq> None"
  shows "alloc_pages alloc i n = (map (\<lambda>k. the (alloc k)) [i..<i + n], -1)"
  using assms
proof (induction n arbitrary: i)
  case 0
  then show ?case by simp
next
  case (Suc n)
  obtain a where a: "alloc i = Some a" using Suc.prems[of i] by auto
  have "alloc_pages alloc (Suc i) n = (map (\<lambda>k. the (alloc k)) [Suc i..<Suc i + n], -1)"
    using Suc.prems by (intro Suc.IH) auto
  then show ?case using a by (simp add: upt_conv_Cons del: upt_Suc)
qed

lemma alloc_pages_failure:
  assumes "i \<le> k" "k < i + n" "alloc k = None"
  shows "0 \<le> snd (alloc_pages alloc i n)"
  using assms
proof (induction n arbitrary: i)
  case 0
  then show ?case by simp
next
  case (Suc n)
  show ?case
  proof (cases "alloc i")
    case None
    then show ?thesis by simp
  next
    case (Some a)
    then have "i \<noteq> k" using Suc.prems by auto
    then have "0 \<le> snd (alloc_pages alloc (Suc i) n)" using Suc.prems by (intro Suc.IH) auto
    then show ?thesis using Some by (simp add: case_prod_beta)
  qed
qed

lemma MemPool_new_ok:
  assumes a: "alloc_ok alloc" and n: "0 \<le> n" and all: "\<And>k. k < nat n \<Longrightarrow> alloc k \<noteq> None"
  shows "\<exists>p. MemPool_new alloc n v_pageSize = Inr p \<and> pool_inv p \<and> pool_used p = {}
    \<and> card (pool_pages p) = nat n \<and> MemPool_getPageSize p = v_pageSize"
proof -
  let ?t = "map (\<lambda>k. the (alloc k)) [0..<nat n]"
  have t: "alloc_pages alloc 0 (nat n) = (?t, -1)" using alloc_pages_success[of 0 "nat n" alloc] all by simp
  have inj: "inj_on (\<lambda>k. the (alloc k)) {0..<nat n}"
    using a all unfolding inj_on_def alloc_ok_def by (metis atLeastLessThan_iff option.collapse)
  then have d: "distinct ?t" by (simp add: distinct_map)
  have "0 \<notin> set ?t" using a all unfolding alloc_ok_def by (auto, metis option.collapse)
  then show ?thesis
    using t n d by (simp add: MemPool_new_def pool_inv_def pool_used_def pool_pages_def
        MemPool_getPageSize_def card_image[OF inj])
qed

lemma MemPool_new_failure:
  assumes "0 \<le> n" "k < nat n" "alloc k = None"
  shows "MemPool_new alloc n v_pageSize = Inl (StringError ''Failed to allocate page'')"
  using alloc_pages_failure[of 0 k "nat n" alloc] assms by (simp add: MemPool_new_def case_prod_beta)

text \<open>\<^verbatim>\<open>deletePages\<close> frees every page exactly once and counts the pages still handed out.\<close>

lemma deletePages_spec:
  assumes inv: "pool_inv p"
  shows "fst (MemPool_deletePages p) = pageTable p"
    and "fst (snd (MemPool_deletePages p)) = card (pool_used p)"
proof -
  have len: "length (pageIsUsed p) = length (pageTable p)" and nz: "0 \<notin> set (pageTable p)"
    and dist: "distinct (pageTable p)" using inv by (auto simp: pool_inv_def)
  let ?z = "zip (pageTable p) (pageIsUsed p)"
  have all: "filter (\<lambda>(page, used). page \<noteq> 0) ?z = ?z"
    using nz by (intro filter_True) (auto dest!: set_zip_leftD intro: gr0I)
  then show "fst (MemPool_deletePages p) = pageTable p"
    using len by (simp add: MemPool_deletePages_def Let_def)
  have "pool_used p = fst ` set (filter snd ?z)"
    using len by (force simp: pool_used_def set_zip)
  moreover have "distinct (map fst (filter snd ?z))"
    using dist len by (metis distinct_map_filter map_fst_zip)
  ultimately have "card (pool_used p) = length (filter snd ?z)"
    by (metis distinct_card length_map list.set_map)
  then show "fst (snd (MemPool_deletePages p)) = card (pool_used p)"
    using all by (simp add: MemPool_deletePages_def Let_def)
qed

lemma container_new_cases:
  assumes inv: "pool_inv p"
  shows "pool_used p = pool_pages p \<Longrightarrow>
      DataBlockContainerFromMemPool_new (Some p) 0 = Inl (StringError ''No page available'')"
    and "pool_used p \<noteq> pool_pages p \<Longrightarrow>
      \<exists>c p'. DataBlockContainerFromMemPool_new (Some p) 0 = Inr (c, p') \<and> pool_inv p'
        \<and> DataBlockContainer_getData c \<in> pool_pages p - pool_used p
        \<and> pool_used p' = insert (DataBlockContainer_getData c) (pool_used p) \<and> pool_pages p' = pool_pages p"
   apply (simp add: DataBlockContainerFromMemPool_new_def getPage_exhausted[OF inv])
  apply (drule getPage_free[OF inv])
  apply (auto simp: DataBlockContainerFromMemPool_new_def DataBlockContainer_getData_def)
  done

end
