(* ===== verification/MemPool_Concurrent.thy ===== *)
theory MemPool_Concurrent
  imports MemPool
begin

text \<open>
  \<^verbatim>\<open>MemPool::getPage\<close> and \<^verbatim>\<open>MemPool::releasePage\<close> called in parallel, which src/DataFormat/include/DataFormat/MemPool.h
  declares to be safe. Every access to one of the atomic variables (\<open>lastPageIndexGet\<close>,
  \<open>lastPageIndexRelease\<close>, one flag of \<open>pageIsUsed\<close>) is a step of its own; any number of threads
  interleave. In particular each iteration of the two loops loads the shared start index
  again. \<open>held t\<close> is the set of pages thread \<open>t\<close> owns; \<open>leaked\<close> collects the pages whose owner
  returned from \<^verbatim>\<open>releasePage\<close> without the flag having been cleared.
\<close>

datatype pool_pc =
    PIdle
  | GetLoad int
  | GetTest int int
  | GetStore int
  | RelLoad nat int
  | RelClear nat int
  | RelStore int

record pool_system =
  pool :: mempool
  pcs :: "nat \<Rightarrow> pool_pc"
  held :: "nat \<Rightarrow> nat set"
  leaked :: "nat set"

inductive pool_step :: "pool_system \<Rightarrow> pool_system \<Rightarrow> bool" where
  get_call: "pcs c t = PIdle \<Longrightarrow> pool_step c (c\<lparr>pcs := (pcs c)(t := GetLoad 0)\<rparr>)"
| get_load: "pcs c t = GetLoad i \<Longrightarrow> i < numberOfPages (pool c) \<Longrightarrow>
    pool_step c (c\<lparr>pcs := (pcs c)(t := GetTest i ((lastPageIndexGet (pool c) + 1 + i) mod numberOfPages (pool c)))\<rparr>)"
| get_used: "pcs c t = GetTest i ix \<Longrightarrow> vec_get (pageIsUsed (pool c)) ix = Inr True \<Longrightarrow>
    pool_step c (c\<lparr>pcs := (pcs c)(t := GetLoad (i + 1))\<rparr>)"
| get_free: "pcs c t = GetTest i ix \<Longrightarrow> vec_get (pageIsUsed (pool c)) ix = Inr False \<Longrightarrow>
    vec_set (pageIsUsed (pool c)) ix True = Inr flags \<Longrightarrow>
    pool_step c (c\<lparr>pool := (pool c)\<lparr>pageIsUsed := flags\<rparr>, pcs := (pcs c)(t := GetStore ix),
      held := (held c)(t := insert (pageTable (pool c) ! nat ix) (held c t))\<rparr>)"
| get_return: "pcs c t = GetStore ix \<Longrightarrow>
    pool_step c (c\<lparr>pool := (pool c)\<lparr>lastPageIndexGet := ix\<rparr>, pcs := (pcs c)(t := PIdle)\<rparr>)"
| get_null: "pcs c t = GetLoad i \<Longrightarrow> \<not> i < numberOfPages (pool c) \<Longrightarrow>
    pool_step c (c\<lparr>pcs := (pcs c)(t := PIdle)\<rparr>)"
| rel_call: "pcs c t = PIdle \<Longrightarrow> a \<in> held c t \<Longrightarrow> pool_step c (c\<lparr>pcs := (pcs c)(t := RelLoad a 0)\<rparr>)"
| rel_other: "pcs c t = RelLoad a i \<Longrightarrow> i < numberOfPages (pool c) \<Longrightarrow>
    vec_get (pageTable (pool c)) ((lastPageIndexRelease (pool c) + i + 1) mod numberOfPages (pool c)) = Inr b \<Longrightarrow>
    a \<noteq> b \<Longrightarrow> pool_step c (c\<lparr>pcs := (pcs c)(t := RelLoad a (i + 1))\<rparr>)"
| rel_found: "pcs c t = RelLoad a i \<Longrightarrow> i < numberOfPages (pool c) \<Longrightarrow>
    ix = (lastPageIndexRelease (pool c) + i + 1) mod numberOfPages (pool c) \<Longrightarrow>
    vec_get (pageTable (pool c)) ix = Inr b \<Longrightarrow> a = b \<Longrightarrow>
    pool_step c (c\<lparr>pcs := (pcs c)(t := RelClear a ix)\<rparr>)"
| rel_clear: "pcs c t = RelClear a ix \<Longrightarrow> vec_set (pageIsUsed (pool c)) ix False = Inr flags \<Longrightarrow>
    pool_step c (c\<lparr>pool := (pool c)\<lparr>pageIsUsed := flags\<rparr>, pcs := (pcs c)(t := RelStore ix),
      held := (held c)(t := held c t - {a})\<rparr>)"
| rel_return: "pcs c t = RelStore ix \<Longrightarrow>
    pool_step c (c\<lparr>pool := (pool c)\<lparr>lastPageIndexRelease := ix\<rparr>, pcs := (pcs c)(t := PIdle)\<rparr>)"
| rel_missed: "pcs c t = RelLoad a i \<Longrightarrow> \<not> i < numberOfPages (pool c) \<Longrightarrow>
    pool_step c (c\<lparr>pcs := (pcs c)(t := PIdle), held := (held c)(t := held c t - {a}),
      leaked := insert a (leaked c)\<rparr>)"

definition initial_pool_system :: "mempool \<Rightarrow> pool_system" where
  "initial_pool_system p = \<lparr>pool = p, pcs = (\<lambda>_. PIdle), held = (\<lambda>_. {}), leaked = {}\<rparr>"


section \<open>Ownership\<close>

definition slot_of :: "mempool \<Rightarrow> int \<Rightarrow> bool" where
  "slot_of p ix \<longleftrightarrow> 0 \<le> ix \<and> ix < int (length (pageTable p))"

fun pc_ok :: "mempool \<Rightarrow> nat set \<Rightarrow> pool_pc \<Rightarrow> bool" where
  "pc_ok p h (GetLoad i) \<longleftrightarrow> 0 \<le> i"
| "pc_ok p h (GetTest i ix) \<longleftrightarrow> 0 \<le> i \<and> slot_of p ix"
| "pc_ok p h (GetStore ix) \<longleftrightarrow> slot_of p ix"
| "pc_ok p h (RelLoad a i) \<longleftrightarrow> a \<in> h \<and> 0 \<le> i"
| "pc_ok p h (RelClear a ix) \<longleftrightarrow> a \<in> h \<and> slot_of p ix \<and> pageTable p ! nat ix = a"
| "pc_ok p h (RelStore ix) \<longleftrightarrow> slot_of p ix"
| "pc_ok p h PIdle \<longleftrightarrow> True"

text \<open>The pages flagged as used are those owned by some thread and those leaked, and nothing is
  owned twice.\<close>

definition owned_once :: "nat set \<Rightarrow> (nat \<Rightarrow> nat set) \<Rightarrow> nat set \<Rightarrow> bool" where
  "owned_once U h l \<longleftrightarrow> (\<forall>a. a \<in> U \<longleftrightarrow> (\<exists>t. a \<in> h t) \<or> a \<in> l)
     \<and> (\<forall>a t u. a \<in> h t \<longrightarrow> a \<in> h u \<longrightarrow> t = u) \<and> (\<forall>a t. a \<in> h t \<longrightarrow> a \<notin> l)"

definition ownership :: "pool_system \<Rightarrow> bool" where
  "ownership c \<longleftrightarrow> pool_inv (pool c) \<and> (\<forall>t. pc_ok (pool c) (held c t) (pcs c t))
     \<and> owned_once (pool_used (pool c)) (held c) (leaked c)"

lemma owned_once_take:
  "owned_once U h l \<Longrightarrow> a \<notin> U \<Longrightarrow> owned_once (insert a U) (h(t := insert a (h t))) l"
  unfolding owned_once_def by (elim conjE, intro conjI allI; simp; metis)

lemma owned_once_give:
  "owned_once U h l \<Longrightarrow> a \<in> h t \<Longrightarrow> owned_once (U - {a}) (h(t := h t - {a})) l"
  unfolding owned_once_def by (elim conjE, intro conjI allI; simp; metis)

lemma owned_once_lose:
  "owned_once U h l \<Longrightarrow> a \<in> h t \<Longrightarrow> owned_once U (h(t := h t - {a})) (insert a l)"
  unfolding owned_once_def by (elim conjE, intro conjI allI; simp; metis)

lemma pool_used_flags:
  assumes "pool_inv p" "slot_of p ix"
  shows "pool_used (p\<lparr>pageIsUsed := (pageIsUsed p)[nat ix := True]\<rparr>) = insert (pageTable p ! nat ix) (pool_used p)"
    and "pool_used (p\<lparr>pageIsUsed := (pageIsUsed p)[nat ix := False]\<rparr>) = pool_used p - {pageTable p ! nat ix}"
  using pool_used_update[OF assms(1), of "nat ix"] assms(2)
  by (simp_all add: slot_of_def pool_used_def nat_less_iff)

lemma pool_used_indices [simp]:
  "pool_used (p\<lparr>lastPageIndexGet := i\<rparr>) = pool_used p" "pool_used (p\<lparr>lastPageIndexRelease := i\<rparr>) = pool_used p"
  by (simp_all add: pool_used_def)

lemma pc_ok_same_table:
  "pageTable p' = pageTable p \<Longrightarrow> pc_ok p' h pc = pc_ok p h pc"
  by (cases pc) (auto simp: slot_of_def)

lemma pc_ok_mono: "pc_ok p h pc \<Longrightarrow> h \<subseteq> h' \<Longrightarrow> pc_ok p h' pc"
  by (cases pc) auto

lemma free_slot_not_used:
  assumes "pool_inv p" "vec_get (pageIsUsed p) ix = Inr False"
  shows "slot_of p ix" "pageTable p ! nat ix \<notin> pool_used p"
  using assms vec_get_Inr[OF assms(2)]
  by (auto simp: slot_of_def pool_used_def pool_inv_def nth_eq_iff_index_eq nat_less_iff)

lemma ownership_pc:
  "ownership c \<Longrightarrow> pcs c t = pc \<Longrightarrow> pc_ok (pool c) (held c t) pc"
  by (auto simp: ownership_def)

lemma pc_ok_others:
  assumes "ownership c" "pageTable p = pageTable (pool c)" "pc_ok (pool c) h pc"
  shows "pc_ok p (((held c)(t := h)) u) (((pcs c)(t := pc)) u)"
  using assms by (auto simp: ownership_def pc_ok_same_table[of p "pool c"])

lemma ownership_pcs:
  "ownership c \<Longrightarrow> pc_ok (pool c) (held c t) pc \<Longrightarrow> ownership (c\<lparr>pcs := (pcs c)(t := pc)\<rparr>)"
  by (simp add: ownership_def)

lemma ownership_index:
  assumes "ownership c" "pool_inv p" "pageTable p = pageTable (pool c)" "pool_used p = pool_used (pool c)"
  shows "ownership (c\<lparr>pool := p, pcs := (pcs c)(t := PIdle)\<rparr>)"
  using assms by (simp add: ownership_def pc_ok_same_table[of p "pool c"])

lemma ownership_get_free:
  assumes own: "ownership c" and f: "vec_get (pageIsUsed (pool c)) ix = Inr False"
    and s: "vec_set (pageIsUsed (pool c)) ix True = Inr flags"
  shows "ownership (c\<lparr>pool := (pool c)\<lparr>pageIsUsed := flags\<rparr>, pcs := (pcs c)(t := GetStore ix),
      held := (held c)(t := insert (pageTable (pool c) ! nat ix) (held c t))\<rparr>)"
proof -
  let ?a = "pageTable (pool c) ! nat ix"
  have inv: "pool_inv (pool c)" using own by (simp add: ownership_def)
  have slot: "slot_of (pool c) ix" and new: "?a \<notin> pool_used (pool c)"
    using free_slot_not_used[OF inv f] by auto
  have fl: "flags = (pageIsUsed (pool c))[nat ix := True]" using vec_set_Inr[OF s] by simp
  have "owned_once (insert ?a (pool_used (pool c))) ((held c)(t := insert ?a (held c t))) (leaked c)"
    using own new by (intro owned_once_take) (simp_all add: ownership_def)
  moreover have "pool_inv ((pool c)\<lparr>pageIsUsed := flags\<rparr>)" using inv fl by (simp add: pool_inv_def)
  moreover note pc_ok_others[OF own, of "(pool c)\<lparr>pageIsUsed := flags\<rparr>" "insert ?a (held c t)" "GetStore ix" t]
  ultimately show ?thesis
    using slot pool_used_flags(1)[OF inv slot] fl by (simp add: ownership_def)
qed

lemma ownership_rel_clear:
  assumes own: "ownership c" and pc: "pcs c t = RelClear a ix"
    and s: "vec_set (pageIsUsed (pool c)) ix False = Inr flags"
  shows "ownership (c\<lparr>pool := (pool c)\<lparr>pageIsUsed := flags\<rparr>, pcs := (pcs c)(t := RelStore ix),
      held := (held c)(t := held c t - {a})\<rparr>)"
proof -
  have inv: "pool_inv (pool c)" using own by (simp add: ownership_def)
  have a: "a \<in> held c t" "slot_of (pool c) ix" "pageTable (pool c) ! nat ix = a"
    using ownership_pc[OF own pc] by auto
  have fl: "flags = (pageIsUsed (pool c))[nat ix := False]" using vec_set_Inr[OF s] by simp
  have "owned_once (pool_used (pool c) - {a}) ((held c)(t := held c t - {a})) (leaked c)"
    using own a(1) by (intro owned_once_give) (simp_all add: ownership_def)
  moreover have "pool_inv ((pool c)\<lparr>pageIsUsed := flags\<rparr>)" using inv fl by (simp add: pool_inv_def)
  moreover note pc_ok_others[OF own, of "(pool c)\<lparr>pageIsUsed := flags\<rparr>" "held c t - {a}" "RelStore ix" t]
  ultimately show ?thesis
    using a pool_used_flags(2)[OF inv a(2)] fl by (simp add: ownership_def)
qed

lemma ownership_rel_missed:
  assumes own: "ownership c" and pc: "pcs c t = RelLoad a i"
  shows "ownership (c\<lparr>pcs := (pcs c)(t := PIdle), held := (held c)(t := held c t - {a}),
      leaked := insert a (leaked c)\<rparr>)"
  using own ownership_pc[OF own pc] pc_ok_others[OF own refl, of "held c t - {a}" PIdle t]
    owned_once_lose[of "pool_used (pool c)" "held c" "leaked c" a t]
  by (simp add: ownership_def)

lemma mod_slot: "pool_inv p \<Longrightarrow> 0 \<le> i \<Longrightarrow> i < numberOfPages p \<Longrightarrow> slot_of p (k mod numberOfPages p)"
  using in_range_scan[of p k] by (simp add: slot_of_def)

lemma pool_step_ownership: "pool_step c c' \<Longrightarrow> ownership c \<Longrightarrow> ownership c'"
proof (induction rule: pool_step.induct)
  case (get_load c t i)
  moreover have "0 \<le> i" using ownership_pc get_load by fastforce
  ultimately show ?case by (intro ownership_pcs) (auto simp: ownership_def intro: mod_slot)
next
  case (get_used c t i ix)
  then show ?case using ownership_pc[of c t] by (intro ownership_pcs) auto
next
  case (get_return c t ix)
  then show ?case using ownership_pc[OF get_return(2,1)]
    by (intro ownership_index) (auto simp: ownership_def pool_inv_def slot_of_def)
next
  case (rel_other c t a i b)
  then show ?case using ownership_pc[of c t] by (intro ownership_pcs) auto
next
  case (rel_found c t a i ix b)
  then show ?case using ownership_pc[of c t] vec_get_Inr[OF rel_found(4)]
    by (intro ownership_pcs) (auto simp: slot_of_def)
next
  case (rel_return c t ix)
  then show ?case using ownership_pc[OF rel_return(2,1)]
    by (intro ownership_index) (auto simp: ownership_def pool_inv_def slot_of_def)
qed (simp_all add: ownership_pcs ownership_get_free ownership_rel_clear ownership_rel_missed)

lemma pool_reachable_ownership: "pool_step\<^sup>*\<^sup>* c c' \<Longrightarrow> ownership c \<Longrightarrow> ownership c'"
  by (induction rule: rtranclp_induct) (auto intro: pool_step_ownership)

lemma initial_ownership: "pool_inv p \<Longrightarrow> pool_used p = {} \<Longrightarrow> ownership (initial_pool_system p)"
  by (simp add: ownership_def initial_pool_system_def owned_once_def)


section \<open>Running a schedule\<close>

text \<open>The step of one thread is determined by the state, apart from what it calls next. A schedule
  lists the thread that moves and the call it makes if it is idle.\<close>

datatype pool_call = CallGet | CallRelease nat

definition pool_next :: "nat \<times> pool_call \<Rightarrow> pool_system \<Rightarrow> pool_system" where
  "pool_next tc c = (case tc of (t, call) \<Rightarrow> (let p = pool c in case pcs c t of
     PIdle \<Rightarrow> (case call of
        CallGet \<Rightarrow> c\<lparr>pcs := (pcs c)(t := GetLoad 0)\<rparr>
      | CallRelease a \<Rightarrow> if a \<in> held c t then c\<lparr>pcs := (pcs c)(t := RelLoad a 0)\<rparr> else c)
   | GetLoad i \<Rightarrow> if i < numberOfPages p
       then c\<lparr>pcs := (pcs c)(t := GetTest i ((lastPageIndexGet p + 1 + i) mod numberOfPages p))\<rparr>
       else c\<lparr>pcs := (pcs c)(t := PIdle)\<rparr>
   | GetTest i ix \<Rightarrow> if pageIsUsed p ! nat ix then c\<lparr>pcs := (pcs c)(t := GetLoad (i + 1))\<rparr>
       else c\<lparr>pool := p\<lparr>pageIsUsed := (pageIsUsed p)[nat ix := True]\<rparr>, pcs := (pcs c)(t := GetStore ix),
              held := (held c)(t := insert (pageTable p ! nat ix) (held c t))\<rparr>
   | GetStore ix \<Rightarrow> c\<lparr>pool := p\<lparr>lastPageIndexGet := ix\<rparr>, pcs := (pcs c)(t := PIdle)\<rparr>
   | RelLoad a i \<Rightarrow> if i < numberOfPages p
       then (let ix = (lastPageIndexRelease p + i + 1) mod numberOfPages p
             in if a = pageTable p ! nat ix then c\<lparr>pcs := (pcs c)(t := RelClear a ix)\<rparr>
                else c\<lparr>pcs := (pcs c)(t := RelLoad a (i + 1))\<rparr>)
       else c\<lparr>pcs := (pcs c)(t := PIdle), held := (held c)(t := held c t - {a}), leaked := insert a (leaked c)\<rparr>
   | RelClear a ix \<Rightarrow> c\<lparr>pool := p\<lparr>pageIsUsed := (pageIsUsed p)[nat ix := False]\<rparr>,
       pcs := (pcs c)(t := RelStore ix), held := (held c)(t := held c t - {a})\<rparr>
   | RelStore ix \<Rightarrow> c\<lparr>pool := p\<lparr>lastPageIndexRelease := ix\<rparr>, pcs := (pcs c)(t := PIdle)\<rparr>))"

lemma slot_flags:
  assumes "pool_inv p" "slot_of p ix"
  shows "vec_get (pageIsUsed p) ix = Inr (pageIsUsed p ! nat ix)"
    "vec_set (pageIsUsed p) ix b = Inr ((pageIsUsed p)[nat ix := b])"
    "vec_get (pageTable p) ix = Inr (pageTable p ! nat ix)"
  using assms by (auto simp: vec_get_def vec_set_def slot_of_def pool_inv_def)

lemma pool_next_step:
  assumes own: "ownership c"
  shows "pool_step\<^sup>*\<^sup>* c (pool_next (t, call) c)"
proof -
  have inv: "pool_inv (pool c)" using own by (simp add: ownership_def)
  have ok: "pc_ok (pool c) (held c t) (pcs c t)" using own by (simp add: ownership_def)
  have "pool_next (t, call) c = c \<or> pool_step c (pool_next (t, call) c)"
  proof (cases "pcs c t")
    case PIdle
    then show ?thesis by (auto simp: pool_next_def intro: pool_step.intros split: pool_call.split)
  next
    case (GetLoad i)
    then show ?thesis by (auto simp: pool_next_def Let_def intro: pool_step.intros)
  next
    case (GetTest i ix)
    then have "slot_of (pool c) ix" using ok by simp
    from slot_flags[OF inv this] GetTest show ?thesis
      by (auto simp: pool_next_def Let_def intro: pool_step.intros)
  next
    case (RelLoad a i)
    then have "i < numberOfPages (pool c) \<Longrightarrow>
        slot_of (pool c) ((lastPageIndexRelease (pool c) + i + 1) mod numberOfPages (pool c))"
      using ok inv by (auto intro: mod_slot)
    with slot_flags(3)[OF inv] RelLoad show ?thesis
      by (auto simp: pool_next_def Let_def intro: pool_step.intros)
  next
    case (RelClear a ix)
    then have "slot_of (pool c) ix" using ok by simp
    from slot_flags[OF inv this] RelClear show ?thesis
      by (auto simp: pool_next_def Let_def intro: pool_step.intros)
  qed (auto simp: pool_next_def Let_def intro: pool_step.intros)
  then show ?thesis by auto
qed

lemma pool_schedule_reachable:
  "ownership c \<Longrightarrow> pool_step\<^sup>*\<^sup>* c (fold pool_next sched c)"
proof (induction sched arbitrary: c)
  case Nil
  then show ?case by simp
next
  case (Cons tc sched)
  then have "pool_step\<^sup>*\<^sup>* c (pool_next tc c)" using pool_next_step by (cases tc) auto
  moreover from this have "ownership (pool_next tc c)" using Cons.prems pool_reachable_ownership by blast
  ultimately show ?case using Cons.IH by (auto intro: rtranclp_trans)
qed

text \<open>Two pages, two threads. Thread 1 compares its page with slot 0 and moves on; thread 0
  releases the page of slot 0, which moves the shared start index; thread 1 computes slot 0
  once more for its second iteration and leaves the loop.\<close>

definition leak_schedule :: "(nat \<times> pool_call) list" where
  "leak_schedule = replicate 4 (0, CallGet) @ replicate 4 (1, CallGet)
     @ replicate 2 (1, CallRelease 32) @ replicate 4 (0, CallRelease 16) @ replicate 2 (1, CallGet)"

definition two_pages :: mempool where
  "two_pages = \<lparr>numberOfPages = 2, mpPageSize = 16, pageTable = [16, 32], pageIsUsed = [False, False],
     lastPageIndexGet = -1, lastPageIndexRelease = -1\<rparr>"

lemma two_pages_new: "MemPool_new (\<lambda>k. if k < 2 then Some (16 * Suc k) else None) 2 16 = Inr two_pages"
  by (simp add: MemPool_new_def two_pages_def numeral_2_eq_2)

lemma two_pages_inv: "pool_inv two_pages" "pool_used two_pages = {}"
  by (auto simp: two_pages_def pool_inv_def pool_used_def less_Suc_eq numeral_2_eq_2 nth_Cons' split: if_splits)

lemma leak_run:
  defines "c \<equiv> fold pool_next leak_schedule (initial_pool_system two_pages)"
  shows "leaked c = {32}" "pool c = two_pages\<lparr>pageIsUsed := [False, True], lastPageIndexGet := 1,
      lastPageIndexRelease := 0\<rparr>" "pcs c 0 = PIdle" "pcs c 1 = PIdle" "held c 0 = {}" "held c 1 = {}"
  unfolding c_def leak_schedule_def
  by (simp_all add: initial_pool_system_def two_pages_def pool_next_def numeral_eq_Suc Let_def)

end
