(* ===== verification/Pool_Properties.thy ===== *)
theory Pool_Properties
  imports MemPool_Concurrent "HOL-Library.Multiset"
begin

text \<open>
  The properties of the page pool: sequential use, use by several threads, and its containers.
\<close>

abbreviation two_allocs :: "nat \<Rightarrow> nat option" where
  "two_allocs \<equiv> \<lambda>k. if k < 2 then Some (16 * Suc k) else None"

lemma two_allocs_ok: "alloc_ok two_allocs"
  by (auto simp: alloc_ok_def split: if_splits)


section \<open>Several threads\<close>

text \<open>(C9) When any number of threads take and release pages of one pool in parallel, no page is
  ever owned by two of them: a page that a thread holds is flagged as used in the pool and no
  other thread holds it.\<close>

theorem mempool_exclusive_ownership:
  assumes "alloc_ok alloc" "MemPool_new alloc n sz = Inr p" "pool_step\<^sup>*\<^sup>* (initial_pool_system p) c"
    and "a \<in> held c t"
  shows "a \<in> pool_used (pool c) \<and> (\<forall>u. a \<in> held c u \<longrightarrow> u = t)"
proof -
  have "0 \<le> n \<and> (\<forall>k < nat n. alloc k \<noteq> None)"
    using assms(2) MemPool_new_failure[of n _ alloc sz] by (cases "n < 0") (auto simp: MemPool_new_def)
  then have "pool_inv p \<and> pool_used p = {}" using MemPool_new_ok[OF assms(1), of n sz] assms(2) by auto
  then have "ownership c" using pool_reachable_ownership[OF assms(3)] initial_ownership by blast
  then show ?thesis using assms(4) unfolding ownership_def owned_once_def by blast
qed

theorem mempool_exclusive_ownership_witness:
  "let c = fold pool_next (replicate 4 (0, CallGet) @ replicate 4 (1, CallGet)) (initial_pool_system two_pages)
   in 16 \<in> held c 0 \<and> 32 \<in> held c 1 \<and> 16 \<in> pool_used (pool c) \<and> (\<forall>u. 16 \<in> held c u \<longrightarrow> u = 0)"
proof -
  let ?c = "fold pool_next (replicate 4 (0, CallGet) @ replicate 4 (1, CallGet)) (initial_pool_system two_pages)"
  have h: "16 \<in> held ?c 0" "32 \<in> held ?c 1"
    by (simp_all add: initial_pool_system_def two_pages_def pool_next_def numeral_eq_Suc Let_def)
  have "pool_step\<^sup>*\<^sup>* (initial_pool_system two_pages) ?c"
    using initial_ownership[OF two_pages_inv] by (rule pool_schedule_reachable)
  from mempool_exclusive_ownership[OF two_allocs_ok two_pages_new this h(1)] h show ?thesis by (simp only: Let_def) blast
qed



section \<open>Sequential use\<close>

text \<open>(C25) A pool of \<open>n\<close> pages hands out \<open>n\<close> different pages, then none; after they are given back,
  in any order, the pool is as free as before.\<close>

theorem mempool_hands_out_all:
  assumes "alloc_ok alloc" "0 \<le> n" "\<And>k. k < nat n \<Longrightarrow> alloc k \<noteq> None"
  shows "\<exists>p as p'. MemPool_new alloc n sz = Inr p \<and> take_pages pool_get (nat n) p = Inr (as, p')
    \<and> length as = nat n \<and> distinct as \<and> 0 \<notin> set as \<and> MemPool_getPage p' = Inr (0, p')
    \<and> (\<forall>bs. mset bs = mset as \<longrightarrow> (\<exists>p''. release_pages MemPool_releasePage bs p' = Inr p'' \<and> pool_used p'' = {}
          \<and> pool_pages p'' = pool_pages p))"
proof -
  obtain p where p: "MemPool_new alloc n sz = Inr p" "pool_inv p" "pool_used p = {}" "card (pool_pages p) = nat n"
    using MemPool_new_ok[OF assms, of sz] by blast
  obtain as p' where t: "take_pages pool_get (nat n) p = Inr (as, p')" "pool_inv p'" "length as = nat n" "distinct as"
      "set as \<subseteq> pool_pages p" "pool_used p' = set as" "pool_pages p' = pool_pages p"
    using mp.take_pages_distinct[OF p(2), of "nat n"] p by auto
  have "set as = pool_pages p"
    using t p by (intro card_subset_eq) (auto simp: distinct_card pool_pages_def)
  then have all: "pool_used p' = pool_pages p'" using t by simp
  have "0 \<notin> set as" using t(5) p(2) by (auto simp: pool_inv_def pool_pages_def)
  moreover have "\<exists>p''. release_pages MemPool_releasePage bs p' = Inr p'' \<and> pool_used p'' = {} \<and> pool_pages p'' = pool_pages p"
    if "mset bs = mset as" for bs
  proof -
    have "distinct bs" "set bs = set as" using that t(4) mset_eq_imp_distinct_iff[OF that] mset_eq_setD[OF that] by auto
    then show ?thesis using mp.release_pages_all[OF t(2), of bs] t(6,7) by auto
  qed
  ultimately show ?thesis using p t getPage_exhausted[OF t(2) all] by blast
qed

theorem mempool_hands_out_all_witness:
  "\<exists>p as p'. MemPool_new two_allocs 2 16 = Inr p \<and> take_pages pool_get (nat 2) p = Inr (as, p')
    \<and> length as = nat 2 \<and> distinct as \<and> 0 \<notin> set as \<and> MemPool_getPage p' = Inr (0, p')
    \<and> (\<forall>bs. mset bs = mset as \<longrightarrow> (\<exists>p''. release_pages MemPool_releasePage bs p' = Inr p'' \<and> pool_used p'' = {}
          \<and> pool_pages p'' = pool_pages p))"
  using mempool_hands_out_all[OF two_allocs_ok, of 2 16] by (simp split: if_splits)

text \<open>The constructor either allocates every page or throws: it throws as soon as one
  allocation fails, and a pool it builds has the requested number of pages, all free. Deleting the
  pages frees each of them once and reports the number still in use.\<close>

lemma mempool_construction:
  assumes "alloc_ok alloc" "0 \<le> n"
  shows "(case MemPool_new alloc n sz of
      Inl e \<Rightarrow> e = StringError ''Failed to allocate page'' \<and> (\<exists>k < nat n. alloc k = None)
    | Inr p \<Rightarrow> (\<forall>k < nat n. alloc k \<noteq> None) \<and> pool_inv p \<and> card (pool_pages p) = nat n \<and> pool_used p = {}
        \<and> fst (MemPool_deletePages p) = pageTable p \<and> distinct (pageTable p))"
proof (cases "\<exists>k < nat n. alloc k = None")
  case True
  then show ?thesis using MemPool_new_failure[OF assms(2), of _ alloc sz] by auto
next
  case False
  then have "\<And>k. k < nat n \<Longrightarrow> alloc k \<noteq> None" by auto
  from MemPool_new_ok[OF assms this, of sz] False show ?thesis
    using deletePages_spec(1) by (auto simp: pool_inv_def)
qed

text \<open>A container takes a free page of the pool when it is built and gives back exactly that
  page when it is destroyed; without a free page its constructor throws and the pool is untouched.\<close>

lemma container_owns_one_page:
  assumes "alloc_ok alloc" "MemPool_new alloc n sz = Inr p0" "take_pages pool_get m p0 = Inr (as, p)" "m \<le> nat n"
  shows "(m = nat n \<longrightarrow> DataBlockContainerFromMemPool_new (Some p) 0 = Inl (StringError ''No page available''))
    \<and> (m < nat n \<longrightarrow> (\<exists>c p' p''. DataBlockContainerFromMemPool_new (Some p) 0 = Inr (c, p')
          \<and> DataBlockContainer_getData c \<notin> set as \<and> pool_used p' = insert (DataBlockContainer_getData c) (set as)
          \<and> DataBlockContainerFromMemPool_delete c p' = Inr p'' \<and> pool_used p'' = set as))"
proof -
  have "0 \<le> n \<and> (\<forall>k < nat n. alloc k \<noteq> None)"
    using assms(2) MemPool_new_failure[of n _ alloc sz] by (cases "n < 0") (auto simp: MemPool_new_def)
  then have p0: "pool_inv p0" "pool_used p0 = {}" "card (pool_pages p0) = nat n"
    using MemPool_new_ok[OF assms(1), of n sz] assms(2) by auto
  have t: "pool_inv p" "length as = m" "distinct as" "pool_used p = set as" "set as \<subseteq> pool_pages p0" "pool_pages p = pool_pages p0"
    using mp.take_pages_distinct[OF p0(1), of m] p0 assms(3,4) by auto
  have fin: "finite (pool_pages p)" by (simp add: pool_pages_def)
  have card: "card (pool_used p) = m" using t distinct_card by fastforce
  show ?thesis
  proof (intro conjI impI)
    assume "m = nat n"
    then have "pool_used p = pool_pages p" using t p0(3) card fin by (intro card_subset_eq) auto
    then show "DataBlockContainerFromMemPool_new (Some p) 0 = Inl (StringError ''No page available'')"
      by (rule container_new_cases(1)[OF t(1)])
  next
    assume "m < nat n"
    then have "pool_used p \<noteq> pool_pages p" using card t(6) p0(3) by auto
    then obtain c p' where c: "DataBlockContainerFromMemPool_new (Some p) 0 = Inr (c, p')" "pool_inv p'"
        "DataBlockContainer_getData c \<in> pool_pages p - pool_used p"
        "pool_used p' = insert (DataBlockContainer_getData c) (pool_used p)"
      using container_new_cases(2)[OF t(1)] by blast
    moreover have "c \<noteq> 0"
      using c(3) t(1) by (metis DataBlockContainer_getData_def DiffD1 pool_inv_def pool_pages_def)
    moreover obtain p'' where "MemPool_releasePage c p' = Inr p''" "pool_used p'' = pool_used p' - {c}"
      using releasePage_spec[OF c(2), of c] by blast
    ultimately show "\<exists>c p' p''. DataBlockContainerFromMemPool_new (Some p) 0 = Inr (c, p')
          \<and> DataBlockContainer_getData c \<notin> set as \<and> pool_used p' = insert (DataBlockContainer_getData c) (set as)
          \<and> DataBlockContainerFromMemPool_delete c p' = Inr p'' \<and> pool_used p'' = set as"
      using t(4) by (auto simp: DataBlockContainer_getData_def DataBlockContainerFromMemPool_delete_def)
  qed
qed

end
