(* ===== verification/RocUtil.thy ===== *)
theory RocUtil
  imports Prelude
begin

text \<open>
  The bit and byte helpers of the ReadoutCard library (src/RORC/src/Utilities/Util.h), at the
  widths at which the library uses them, and the \<^verbatim>\<open>Superpage\<close> record of its interface
  (src/RORC/include/ReadoutCard/Superpage.h).
\<close>

section \<open>Util.h\<close>

definition isMultiple :: "u64 \<Rightarrow> u64 \<Rightarrow> bool" where
  "isMultiple x y \<longleftrightarrow> x \<ge> y \<and> x mod y = 0"

definition getLower32Bits :: "u64 \<Rightarrow> u32" where
  "getLower32Bits x = ucast (x AND 0xFFFFFFFF)"

definition getUpper32Bits :: "u64 \<Rightarrow> u32" where
  "getUpper32Bits x = ucast (drop_bit 32 x AND 0xFFFFFFFF)"

definition getBit :: "u32 \<Rightarrow> nat \<Rightarrow> u32" where
  "getBit x index = drop_bit index x AND 1"

definition setBitTo :: "u32 \<Rightarrow> nat \<Rightarrow> bool \<Rightarrow> u32" where
  "setBitTo bits index value =
     (if value then bits OR push_bit index 1 else bits AND NOT (push_bit index 1))"

definition getBits :: "u32 \<Rightarrow> nat \<Rightarrow> nat \<Rightarrow> u32 res" where
  "getBits x lsb msb =
     (if lsb < msb then Inr (drop_bit lsb x AND NOT (push_bit (msb - lsb + 1) (NOT 0)))
      else Inl AssertionFailed)"

definition offsetBytes :: "u64 \<Rightarrow> u64 \<Rightarrow> u64" where
  "offsetBytes pointer bytes = pointer + bytes"

definition pointerDiff :: "u64 \<Rightarrow> u64 \<Rightarrow> int" where
  "pointerDiff a b = sint (a - b)"

text \<open>\<^verbatim>\<open>std::rand()\<close> is the first argument. The code's \<^verbatim>\<open>%\<close> truncates, but \<^verbatim>\<open>rand()\<close> is not
  negative and neither is \<open>max\<close> where it is used.\<close>

definition getRandRange :: "nat \<Rightarrow> int \<Rightarrow> int \<Rightarrow> int" where
  "getRandRange rand lo hi = (int rand mod hi - lo) + lo"

definition checkAlignment :: "u64 \<Rightarrow> u64 \<Rightarrow> bool" where
  "checkAlignment address alignment \<longleftrightarrow> address mod alignment = 0"


lemma mask32: "(0xFFFFFFFF :: u64) = mask 32"
  by (simp add: mask_eq_exp_minus_1)

lemma getLower32Bits_bit: "bit (getLower32Bits x) n \<longleftrightarrow> n < 32 \<and> bit x n"
  unfolding getLower32Bits_def mask32 by (auto simp: bit_simps)

lemma getUpper32Bits_bit: "bit (getUpper32Bits x) n \<longleftrightarrow> n < 32 \<and> bit x (32 + n)"
  unfolding getUpper32Bits_def mask32 by (auto simp: bit_simps)

lemma bits_reassemble:
  "push_bit 32 (ucast (getUpper32Bits x) :: u64) OR ucast (getLower32Bits x) = x"
proof (rule bit_word_eqI)
  fix n assume "n < LENGTH(64)"
  then show "bit (push_bit 32 (ucast (getUpper32Bits x) :: u64) OR ucast (getLower32Bits x)) n = bit x n"
    by (cases "n < 32") (auto simp: bit_simps getLower32Bits_bit getUpper32Bits_bit)
qed

lemma getBits_bit:
  assumes "getBits x lsb msb = Inr y" "msb < 32"
  shows "bit y n \<longleftrightarrow> n \<le> msb - lsb \<and> bit x (lsb + n)"
  using assms bit_imp_le_length[of x "lsb + n"]
  by (auto simp: getBits_def bit_simps split: if_splits)

lemma getBit_eq: "getBit x i = (if bit x i then 1 else 0)"
  by (simp add: getBit_def and_one_eq odd_iff_mod_2_eq_one bit_iff_odd_drop_bit flip: of_bool_def)

lemma setBitTo_bit: "i < 32 \<Longrightarrow> bit (setBitTo x i v) n \<longleftrightarrow> (if n = i then v else bit x n)"
  using bit_imp_le_length[of x n] by (auto simp: setBitTo_def bit_simps)

lemma getBit_setBitTo:
  "i < 32 \<Longrightarrow> j < 32 \<Longrightarrow> getBit (setBitTo x i v) j = (if i = j then of_bool v else getBit x j)"
  by (auto simp: getBit_eq setBitTo_bit)


section \<open>Superpage.h\<close>

record superpage =
  sp_offset :: u64
  sp_size :: u64
  sp_userData :: u64
  sp_received :: u64
  sp_ready :: bool

definition Superpage_default :: superpage where
  "Superpage_default = \<lparr>sp_offset = 0, sp_size = 0, sp_userData = 0, sp_received = 0, sp_ready = False\<rparr>"

definition Superpage_new :: "u64 \<Rightarrow> u64 \<Rightarrow> u64 \<Rightarrow> superpage" where
  "Superpage_new offset sz userData =
     Superpage_default\<lparr>sp_offset := offset, sp_size := sz, sp_userData := userData\<rparr>"

definition Superpage_isReady :: "superpage \<Rightarrow> bool" where
  "Superpage_isReady s = sp_ready s"

definition Superpage_isFilled :: "superpage \<Rightarrow> bool" where
  "Superpage_isFilled s \<longleftrightarrow> sp_received s = sp_size s"

end
