(* ===== verification/Parameters.thy ===== *)
theory Parameters
  imports RocUtil
begin

text \<open>
  The parameter types of the ReadoutCard library and the \<^verbatim>\<open>Parameters\<close> class: enumerations with their
  string converters (src/RORC/src/Utilities/Enum.h, src/RORC/src/ParameterTypes, src/RORC/src/CardType.cxx),
  \<^verbatim>\<open>PciAddress\<close>, the parameter map and the parser of link masks (src/RORC/src/Parameters.cxx).
  \<^verbatim>\<open>boost::lexical_cast\<close> and the \<^verbatim>\<open>boost::spirit\<close> grammar of PCI addresses are arguments of the
  definitions that call them.
\<close>

section \<open>Enumerations\<close>

datatype generator_pattern = PatUnknown | PatConstant | PatAlternating | PatFlying0 | PatFlying1
  | PatIncremental | PatDecremental | PatRandom

datatype loopback_mode = LoopNone | LoopDiu | LoopSiu | LoopInternal

datatype reset_level = ResetNothing | ResetInternal | ResetInternalDiu | ResetInternalDiuSiu

datatype readout_mode = ReadoutContinuous

datatype card_type = CardUnknown | CardCrorc | CardCru | CardDummy

text \<open>\<^verbatim>\<open>boost::iequals\<close>: equality up to the case of ASCII letters.\<close>

definition to_upper :: "char \<Rightarrow> char" where
  "to_upper c = (let n = of_char c :: nat in if 97 \<le> n \<and> n \<le> 122 then char_of (n - 32) else c)"

definition iequals :: "string \<Rightarrow> string \<Rightarrow> bool" where
  "iequals s t \<longleftrightarrow> map to_upper s = map to_upper t"

fun EnumConverter_toString :: "('e \<times> string) list \<Rightarrow> 'e \<Rightarrow> string res" where
  "EnumConverter_toString [] e = Inl (RuntimeError ''Invalid conversion'')"
| "EnumConverter_toString ((x, s) # m) e = (if e = x then Inr s else EnumConverter_toString m e)"

fun EnumConverter_fromString :: "('e \<times> string) list \<Rightarrow> string \<Rightarrow> 'e res" where
  "EnumConverter_fromString [] str = Inl (RuntimeError ''Invalid conversion'')"
| "EnumConverter_fromString ((x, s) # m) str = (if iequals str s then Inr x else EnumConverter_fromString m str)"

definition GeneratorPattern_converter :: "(generator_pattern \<times> string) list" where
  "GeneratorPattern_converter =
    [(PatAlternating, ''ALTERNATING''), (PatConstant, ''CONSTANT''), (PatDecremental, ''DECREMENTAL''),
     (PatFlying0, ''FLYING_0''), (PatFlying1, ''FLYING_1''), (PatIncremental, ''INCREMENTAL''),
     (PatRandom, ''RANDOM''), (PatUnknown, ''UNKNOWN'')]"

definition LoopbackMode_converter :: "(loopback_mode \<times> string) list" where
  "LoopbackMode_converter =
    [(LoopNone, ''NONE''), (LoopInternal, ''INTERNAL''), (LoopDiu, ''DIU''), (LoopSiu, ''SIU'')]"

definition ResetLevel_converter :: "(reset_level \<times> string) list" where
  "ResetLevel_converter =
    [(ResetNothing, ''NOTHING''), (ResetInternal, ''INTERNAL''), (ResetInternalDiu, ''INTERNAL_DIU''),
     (ResetInternalDiuSiu, ''INTERNAL_DIU_SIU'')]"

definition ReadoutMode_converter :: "(readout_mode \<times> string) list" where
  "ReadoutMode_converter = [(ReadoutContinuous, ''CONTINUOUS'')]"

definition CardType_converter :: "(card_type \<times> string) list" where
  "CardType_converter =
    [(CardUnknown, ''UNKNOWN''), (CardCrorc, ''CRORC''), (CardCru, ''CRU''), (CardDummy, ''DUMMY'')]"

definition LoopbackMode_isExternal :: "loopback_mode \<Rightarrow> bool" where
  "LoopbackMode_isExternal m \<longleftrightarrow> m = LoopSiu \<or> m = LoopDiu"

definition ResetLevel_includesExternal :: "reset_level \<Rightarrow> bool" where
  "ResetLevel_includesExternal m \<longleftrightarrow> m = ResetInternalDiu \<or> m = ResetInternalDiuSiu"

text \<open>Printing and parsing are inverse, in either letter case, for a table that lists each value
  once with strings that differ by more than case.\<close>

definition converter_ok :: "('e \<times> string) list \<Rightarrow> bool" where
  "converter_ok m \<longleftrightarrow> distinct (map fst m) \<and> distinct (map (\<lambda>p. map to_upper (snd p)) m)"

lemma toString_mem: "EnumConverter_toString m e = Inr s \<Longrightarrow> (e, s) \<in> set m"
  by (induction m e rule: EnumConverter_toString.induct) (auto split: if_splits)

lemma fromString_mem:
  "converter_ok m \<Longrightarrow> (e, s) \<in> set m \<Longrightarrow> iequals str s \<Longrightarrow> EnumConverter_fromString m str = Inr e"
  by (induction m str rule: EnumConverter_fromString.induct)
    (force simp: converter_ok_def iequals_def)+

lemma toString_defined: "e \<in> fst ` set m \<Longrightarrow> \<exists>s. EnumConverter_toString m e = Inr s"
  by (induction m e rule: EnumConverter_toString.induct) auto

lemma converter_round_trip:
  assumes "converter_ok m" "e \<in> fst ` set m"
  shows "\<exists>s. EnumConverter_toString m e = Inr s
    \<and> (\<forall>str. iequals str s \<longrightarrow> EnumConverter_fromString m str = Inr e)"
  using toString_defined[OF assms(2)] toString_mem fromString_mem[OF assms(1)] by metis

lemma to_upper_idem_table:
  "converter_ok GeneratorPattern_converter" "converter_ok LoopbackMode_converter"
  "converter_ok ResetLevel_converter" "converter_ok ReadoutMode_converter" "converter_ok CardType_converter"
  by code_simp+


section \<open>PciAddress\<close>

record pci_address =
  pci_bus :: int
  pci_slot :: int
  pci_function :: int

definition PciAddress_checkRanges :: "int \<Rightarrow> int \<Rightarrow> int \<Rightarrow> unit res" where
  "PciAddress_checkRanges bus slot function =
     (if bus < 0 \<or> bus > 0xff then Inl (ParameterException ''Bus number out of range'')
      else if slot < 0 \<or> slot > 0x1f then Inl (ParameterException ''Slot number out of range'')
      else if function < 0 \<or> function > 7 then Inl (ParameterException ''Function number out of range'')
      else Inr ())"

definition PciAddress_new :: "int \<Rightarrow> int \<Rightarrow> int \<Rightarrow> pci_address res" where
  "PciAddress_new bus slot function =
     res_bind (PciAddress_checkRanges bus slot function) (\<lambda>_.
       Inr \<lparr>pci_bus = bus, pci_slot = slot, pci_function = function\<rparr>)"

text \<open>\<open>parse\<close> is \<^verbatim>\<open>parseLspciFormat\<close>: the three numbers, or \<open>None\<close> when the grammar does not match.\<close>

definition PciAddress_newString :: "(string \<Rightarrow> (int \<times> int \<times> int) option) \<Rightarrow> string \<Rightarrow> pci_address res" where
  "PciAddress_newString parse s =
     (case parse s of
        None \<Rightarrow> Inl (ParseException ''Parsing PCI address failed'')
      | Some (b, sl, f) \<Rightarrow> PciAddress_new b sl f)"

definition hex_digit :: "nat \<Rightarrow> char" where
  "hex_digit n = ''0123456789abcdef'' ! n"

fun hex_string :: "nat \<Rightarrow> string" where
  "hex_string n = (if n < 16 then [hex_digit n] else hex_string (n div 16) @ [hex_digit (n mod 16)])"

declare hex_string.simps [simp del]

definition pad0 :: "nat \<Rightarrow> string \<Rightarrow> string" where
  "pad0 w s = replicate (w - length s) CHR ''0'' @ s"

definition PciAddress_toString :: "pci_address \<Rightarrow> string" where
  "PciAddress_toString a = pad0 2 (hex_string (nat (pci_bus a))) @ '':'' @ pad0 2 (hex_string (nat (pci_slot a)))
     @ ''.'' @ pad0 1 (hex_string (nat (pci_function a)))"

text \<open>Only a parse error is caught; an address that parses but is out of range throws.\<close>

definition PciAddress_fromString :: "(string \<Rightarrow> (int \<times> int \<times> int) option) \<Rightarrow> string \<Rightarrow> pci_address option res" where
  "PciAddress_fromString parse s =
     (case PciAddress_newString parse s of
        Inr a \<Rightarrow> Inr (Some a)
      | Inl (ParseException _) \<Rightarrow> Inr None
      | Inl e \<Rightarrow> Inl e)"



section \<open>Link masks\<close>

text \<open>\<^verbatim>\<open>boost::split\<close> on one separator character, without token compression.\<close>

fun split_on :: "char \<Rightarrow> string \<Rightarrow> string list" where
  "split_on c [] = [[]]"
| "split_on c (x # xs) = (if x = c then [] # split_on c xs
     else case split_on c xs of [] \<Rightarrow> [[x]] | t # ts \<Rightarrow> (x # t) # ts)"

text \<open>The loop \<^verbatim>\<open>for (uint32_t i = start; i <= end; ++i)\<close>.\<close>

partial_function (option) insert_range :: "u32 \<Rightarrow> u32 \<Rightarrow> u32 set \<Rightarrow> u32 set option" where
  "insert_range i e links = (if i \<le> e then insert_range (i + 1) e (insert i links) else Some links)"

text \<open>One comma separated part. \<open>lexc\<close> is \<^verbatim>\<open>boost::lexical_cast<uint32_t>\<close>, \<open>None\<close> its exception.\<close>

definition linkMask_part :: "(string \<Rightarrow> u32 option) \<Rightarrow> string \<Rightarrow> u32 set \<Rightarrow> u32 set res option" where
  "linkMask_part lexc part links =
     (if CHR ''-'' \<in> set part
      then case split_on CHR ''-'' part of
          [a, b] \<Rightarrow> (case lexc a of
              None \<Rightarrow> Some (Inl BadLexicalCast)
            | Some start \<Rightarrow> (case lexc b of
                None \<Rightarrow> Some (Inl BadLexicalCast)
              | Some end_link \<Rightarrow> map_option Inr (insert_range start end_link links)))
        | _ \<Rightarrow> Some (Inl (ParseException ''Invalid link string format''))
      else case lexc part of
          None \<Rightarrow> Some (Inl BadLexicalCast)
        | Some l \<Rightarrow> Some (Inr (insert l links)))"

fun linkMask_parts :: "(string \<Rightarrow> u32 option) \<Rightarrow> string list \<Rightarrow> u32 set \<Rightarrow> u32 set res option" where
  "linkMask_parts lexc [] links = Some (Inr links)"
| "linkMask_parts lexc (p # ps) links =
     (case linkMask_part lexc p links of
        None \<Rightarrow> None
      | Some (Inl e) \<Rightarrow> Some (Inl e)
      | Some (Inr links') \<Rightarrow> linkMask_parts lexc ps links')"

definition Parameters_linkMaskFromString :: "(string \<Rightarrow> u32 option) \<Rightarrow> string \<Rightarrow> u32 set res option" where
  "Parameters_linkMaskFromString lexc s =
     map_option (\<lambda>r. case r of Inl BadLexicalCast \<Rightarrow> Inl (ParseException ''Invalid link string format'') | _ \<Rightarrow> r)
       (linkMask_parts lexc (split_on CHR '','' s) {})"

lemma insert_range_returns:
  assumes "e \<noteq> - 1"
  shows "insert_range i e links = Some (links \<union> {i..e})"
proof (induction "unat (e + 1 - i)" arbitrary: i links rule: less_induct)
  case less
  show ?case
  proof (cases "i \<le> e")
    case False
    then show ?thesis by (subst insert_range.simps) (auto simp: not_le)
  next
    case True
    have i: "i \<noteq> (- 1)" using True assms by (metis word_order.extremum_uniqueI)
    have ui: "unat (i + 1) = Suc (unat i)" using i by (rule unat_plus_one)
    have "insert_range i e links = insert_range (i + 1) e (insert i links)"
      using True by (subst insert_range.simps) simp
    also have "\<dots> = Some (insert i links \<union> {i + 1..e})"
    proof (rule less.hyps)
      have e: "unat (e + 1) = Suc (unat e)" using assms by (rule unat_plus_one)
      have le: "unat i \<le> unat e" using True by (simp only: word_le_nat_alt)
      have le1: "i + 1 \<le> e + 1" unfolding word_le_nat_alt ui e using le by simp
      have le2: "i \<le> e + 1" unfolding word_le_nat_alt e using le by simp
      show "unat (e + 1 - (i + 1)) < unat (e + 1 - i)"
        unfolding unat_sub[OF le1] unat_sub[OF le2] ui e using le by simp
    qed
    also have "insert i links \<union> {i + 1..e} = links \<union> {i..e}"
    proof -
      have "x \<in> {i..e} \<longleftrightarrow> x = i \<or> x \<in> {i + 1..e}" for x
        unfolding atLeastAtMost_iff word_le_nat_alt ui word_unat_eq_iff[of x i]
        using True by (auto simp only: word_le_nat_alt)
      then show ?thesis by blast
    qed
    finally show ?thesis .
  qed
qed

lemma insert_range_endless: "insert_range i (- 1) links = None"
proof -
  have "e \<noteq> - 1" if "insert_range i e links = Some r" for i e links r
    by (rule insert_range.raw_induct[of "\<lambda>i e links r. e \<noteq> - 1", OF _ that]) (auto split: if_splits)
  then show ?thesis by (cases "insert_range i (- 1) links") auto
qed

lemma split_on_no_sep: "c \<notin> set s \<Longrightarrow> split_on c s = [s]"
  by (induction s) auto

lemma split_on_append: "c \<notin> set s \<Longrightarrow> split_on c (s @ c # t) = s # split_on c t"
  by (induction s) auto

text \<open>What one comma separated part contributes, in closed form.\<close>

lemma linkMask_single:
  assumes "CHR ''-'' \<notin> set p" "lexc p = Some l"
  shows "linkMask_part lexc p links = Some (Inr (insert l links))"
  using assms by (simp add: linkMask_part_def)

lemma linkMask_range:
  assumes "CHR ''-'' \<notin> set p" "CHR ''-'' \<notin> set q" "lexc p = Some a" "lexc q = Some b" "b \<noteq> - 1"
  shows "linkMask_part lexc (p @ ''-'' @ q) links = Some (Inr (links \<union> {a..b}))"
  using assms split_on_append[of "CHR ''-''" p q] split_on_no_sep[of "CHR ''-''" q]
  by (simp add: linkMask_part_def insert_range_returns)



section \<open>The parameter map\<close>

text \<open>A card is named by a serial number or a PCI address, a buffer is a memory block or a file.
  The map holds variants; the getter of a parameter selects the alternative of its type. The keys
  are string literals.\<close>

datatype card_id = SerialNumber int | CardAddress pci_address

datatype buffer_parameters = BufferMemory u64 u64 | BufferFile string u64

datatype variant =
    VSize u64
  | VInt int
  | VBool bool
  | VBuffer buffer_parameters
  | VCardId card_id
  | VLoopback loopback_mode
  | VPattern generator_pattern
  | VReadoutMode readout_mode
  | VLinkMask "u32 set"

type_synonym params = "string \<rightharpoonup> variant"

fun get_size :: "variant \<Rightarrow> u64 option" where
  "get_size (VSize x) = Some x" | "get_size _ = None"

fun get_int :: "variant \<Rightarrow> int option" where
  "get_int (VInt x) = Some x" | "get_int _ = None"

fun get_bool :: "variant \<Rightarrow> bool option" where
  "get_bool (VBool x) = Some x" | "get_bool _ = None"

fun get_pattern :: "variant \<Rightarrow> generator_pattern option" where
  "get_pattern (VPattern x) = Some x" | "get_pattern _ = None"

fun get_loopback :: "variant \<Rightarrow> loopback_mode option" where
  "get_loopback (VLoopback x) = Some x" | "get_loopback _ = None"

fun get_linkMask :: "variant \<Rightarrow> u32 set option" where
  "get_linkMask (VLinkMask x) = Some x" | "get_linkMask _ = None"

fun get_readoutMode :: "variant \<Rightarrow> readout_mode option" where
  "get_readoutMode (VReadoutMode x) = Some x" | "get_readoutMode _ = None"

definition setParam :: "params \<Rightarrow> string \<Rightarrow> variant \<Rightarrow> params" where
  "setParam m key v = m(key \<mapsto> v)"

definition getParam :: "(variant \<Rightarrow> 'a option) \<Rightarrow> params \<Rightarrow> string \<Rightarrow> 'a option res" where
  "getParam get m key =
     (case m key of
        None \<Rightarrow> Inr None
      | Some v \<Rightarrow> (case get v of None \<Rightarrow> Inl (RuntimeError ''bad_get'') | Some x \<Rightarrow> Inr (Some x)))"

definition getParamRequired :: "(variant \<Rightarrow> 'a option) \<Rightarrow> params \<Rightarrow> string \<Rightarrow> 'a res" where
  "getParamRequired get m key =
     res_bind (getParam get m key) (\<lambda>r. case r of
        Some x \<Rightarrow> Inr x
      | None \<Rightarrow> Inl (ParameterException ''Parameter was not set''))"

definition Parameters_cardIdFromString ::
  "(string \<Rightarrow> (int \<times> int \<times> int) option) \<Rightarrow> (string \<Rightarrow> int option) \<Rightarrow> string \<Rightarrow> card_id res" where
  "Parameters_cardIdFromString parse convert s =
     res_bind (PciAddress_fromString parse s) (\<lambda>a. case a of
        Some address \<Rightarrow> Inr (CardAddress address)
      | None \<Rightarrow> (case convert s of
            None \<Rightarrow> Inl (ParseException ''Failed to parse card ID as either PCI address or serial number'')
          | Some serial \<Rightarrow> Inr (SerialNumber serial)))"

lemma getParam_setParam:
  "getParam get (setParam m k v) k' =
     (if k' = k then (case get v of None \<Rightarrow> Inl (RuntimeError ''bad_get'') | Some x \<Rightarrow> Inr (Some x))
      else getParam get m k')"
  by (simp add: getParam_def setParam_def)

end
