(* ===== verification/Dma_Channel.thy ===== *)
theory Dma_Channel
  imports Parameters "HOL-Library.Multiset"
begin

text \<open>
  The common part of the DMA channels: the contract of \<^verbatim>\<open>DmaChannelInterface\<close>
  (src/RORC/include/ReadoutCard/DmaChannelInterface.h) as its users rely on it, the state handling
  that \<^verbatim>\<open>DmaChannelPdaBase\<close> puts in front of the card specific code, the checks on a superpage
  that is pushed, and \<^verbatim>\<open>PdaBar\<close>, the access to the registers of a card.

  Operations run in \<open>io\<close>: they return a value or throw, and the state of the channel after an
  exception is part of the result.
\<close>

section \<open>Superpage identity\<close>

text \<open>What identifies a superpage for its user: offset, size and user data. The channel changes
  the fields \<open>received\<close> and \<open>ready\<close> only.\<close>

type_synonym ticket = "u64 \<times> u64 \<times> u64"

definition ticket :: "superpage \<Rightarrow> ticket" where
  "ticket s = (sp_offset s, sp_size s, sp_userData s)"

lemma ticket_update [simp]:
  "ticket (s\<lparr>sp_ready := r\<rparr>) = ticket s" "ticket (s\<lparr>sp_received := n\<rparr>) = ticket s"
  by (simp_all add: ticket_def)


section \<open>Checks on a superpage\<close>

definition checkSuperpage :: "u64 \<Rightarrow> superpage \<Rightarrow> unit res" where
  "checkSuperpage bufferSize s =
     (if sp_size s = 0 then Inl (Exception ''Could not enqueue superpage, size == 0'')
      else if \<not> isMultiple (sp_size s) (32 * 1024)
      then Inl (Exception ''Could not enqueue superpage, size not a multiple of 32 KiB'')
      else if sp_offset s + sp_size s > bufferSize then Inl (Exception ''Superpage out of range'')
      else if sp_offset s mod 4 \<noteq> 0 then Inl (Exception ''Superpage offset not 32-bit aligned'')
      else Inr ())"

lemma checkSuperpage_ok_iff:
  "checkSuperpage n s = Inr () \<longleftrightarrow> sp_size s \<noteq> 0 \<and> isMultiple (sp_size s) (32 * 1024)
     \<and> sp_offset s + sp_size s \<le> n \<and> sp_offset s mod 4 = 0"
  by (auto simp: checkSuperpage_def not_le not_less)

text \<open>When the sum does not wrap around, a superpage that passes lies inside the buffer.\<close>

lemma checkSuperpage_inside:
  assumes "checkSuperpage n s = Inr ()" "uint (sp_offset s) + uint (sp_size s) < 2 ^ 64"
  shows "uint (sp_offset s) + uint (sp_size s) \<le> uint n"
proof -
  have "uint (sp_offset s + sp_size s) = uint (sp_offset s) + uint (sp_size s)"
    using assms(2) by (simp add: uint_word_ariths)
  then show ?thesis using assms(1) by (simp add: checkSuperpage_ok_iff word_le_def)
qed


section \<open>DMA state\<close>

datatype dma_state = DMA_UNKNOWN | DMA_STOPPED | DMA_STARTED


text \<open>The state of the base class is paired with the state \<open>'c\<close> of the device, and the device
  specific operations are arguments.\<close>

definition lift_device :: "('c, 'a) io \<Rightarrow> (dma_state \<times> 'c, 'a) io" where
  "lift_device m s = (case m (snd s) of (r, c) \<Rightarrow> (r, (fst s, c)))"

definition set_dma_state :: "dma_state \<Rightarrow> (dma_state \<times> 'c, unit) io" where
  "set_dma_state d s = (Inr (), (d, snd s))"

definition DmaChannelPdaBase_startDma :: "('c, unit) io \<Rightarrow> (dma_state \<times> 'c, unit) io" where
  "DmaChannelPdaBase_startDma deviceStartDma s =
     andThen
       (if fst s = DMA_UNKNOWN then ret ()
        else if fst s = DMA_STARTED then ret ()
        else lift_device deviceStartDma)
       (set_dma_state DMA_STARTED) s"

definition DmaChannelPdaBase_stopDma :: "('c, unit) io \<Rightarrow> (dma_state \<times> 'c, unit) io" where
  "DmaChannelPdaBase_stopDma deviceStopDma s =
     andThen
       (if fst s = DMA_UNKNOWN then ret ()
        else if fst s = DMA_STOPPED then ret ()
        else lift_device deviceStopDma)
       (set_dma_state DMA_STOPPED) s"

definition DmaChannelPdaBase_resetChannel ::
  "(reset_level \<Rightarrow> ('c, unit) io) \<Rightarrow> reset_level \<Rightarrow> (dma_state \<times> 'c, unit) io" where
  "DmaChannelPdaBase_resetChannel deviceResetChannel level s =
     (if fst s = DMA_UNKNOWN then throw (Exception ''Reset channel failed: DMA in unknown state'')
      else if fst s \<noteq> DMA_STOPPED then throw (Exception ''Reset channel failed: DMA was not stopped'')
      else lift_device (deviceResetChannel level)) s"

text \<open>A call of one of the three functions, and any sequence of calls whose exceptions the
  caller handles.\<close>

datatype base_call = StartDma | StopDma | ResetChannel reset_level

fun base_step ::
  "('c, unit) io \<Rightarrow> ('c, unit) io \<Rightarrow> (reset_level \<Rightarrow> ('c, unit) io) \<Rightarrow> base_call \<Rightarrow> (dma_state \<times> 'c, unit) io"
where
  "base_step start stop reset StartDma = DmaChannelPdaBase_startDma start"
| "base_step start stop reset StopDma = DmaChannelPdaBase_stopDma stop"
| "base_step start stop reset (ResetChannel l) = DmaChannelPdaBase_resetChannel reset l"

fun base_run ::
  "('c, unit) io \<Rightarrow> ('c, unit) io \<Rightarrow> (reset_level \<Rightarrow> ('c, unit) io) \<Rightarrow> base_call list \<Rightarrow> dma_state \<times> 'c \<Rightarrow> dma_state \<times> 'c"
where
  "base_run start stop reset [] s = s"
| "base_run start stop reset (x # xs) s = base_run start stop reset xs (snd (base_step start stop reset x s))"

lemma lift_device_apply: "lift_device m (d, c) = (let (r, c') = m c in (r, (d, c')))"
  by (simp add: lift_device_def)

lemma startDma_cases:
  "DmaChannelPdaBase_startDma m (d, c) =
     (if d = DMA_STOPPED then (case m c of (Inl e, c') \<Rightarrow> (Inl e, (d, c')) | (Inr _, c') \<Rightarrow> (Inr (), (DMA_STARTED, c')))
      else (Inr (), (DMA_STARTED, c)))"
  by (cases d) (auto simp: DmaChannelPdaBase_startDma_def andThen_def bnd_def ret_def lift_device_def
      set_dma_state_def split: prod.splits sum.splits)

lemma stopDma_cases:
  "DmaChannelPdaBase_stopDma m (d, c) =
     (if d = DMA_STARTED then (case m c of (Inl e, c') \<Rightarrow> (Inl e, (d, c')) | (Inr _, c') \<Rightarrow> (Inr (), (DMA_STOPPED, c')))
      else (Inr (), (DMA_STOPPED, c)))"
  by (cases d) (auto simp: DmaChannelPdaBase_stopDma_def andThen_def bnd_def ret_def lift_device_def
      set_dma_state_def split: prod.splits sum.splits)

lemma base_run_known: "d \<noteq> DMA_UNKNOWN \<Longrightarrow> fst (base_run start stop reset calls (d, c)) \<noteq> DMA_UNKNOWN"
proof (induction calls arbitrary: d c)
  case Nil
  then show ?case by simp
next
  case (Cons x xs)
  obtain d' c' where s: "snd (base_step start stop reset x (d, c)) = (d', c')" by fastforce
  then have "d' \<noteq> DMA_UNKNOWN"
    using Cons.prems
    by (cases x) (auto simp: startDma_cases stopDma_cases DmaChannelPdaBase_resetChannel_def throw_def
        lift_device_def split: if_splits prod.splits sum.splits)
  then show ?case using Cons.IH s by simp
qed



section \<open>The channel contract\<close>

text \<open>
  What a user of a channel relies on: a push that returns takes a slot of the transfer queue and
  adds the superpage to those the channel holds (the user keeps to superpages that satisfy \<open>okSp\<close>), driver business moves superpages around inside
  the channel and loses none, and what \<^verbatim>\<open>getSuperpage\<close> shows is what \<^verbatim>\<open>popSuperpage\<close> hands out.
  Superpages are counted as a multiset of tickets: a channel with several links does not keep
  them in one order.
\<close>

datatype chan_call = PushSuperpage superpage | PopSuperpage | FillSuperpages

fun run_channel ::
  "(superpage \<Rightarrow> ('c, unit) io) \<Rightarrow> ('c, superpage) io \<Rightarrow> ('c, unit) io \<Rightarrow> chan_call list \<Rightarrow>
   ('c, superpage list \<times> superpage list) io"
where
  "run_channel push pop fill [] = ret ([], [])"
| "run_channel push pop fill (PushSuperpage s # xs) =
     andThen (push s) (bnd (run_channel push pop fill xs) (\<lambda>(ins, outs). ret (s # ins, outs)))"
| "run_channel push pop fill (PopSuperpage # xs) =
     bnd pop (\<lambda>s. bnd (run_channel push pop fill xs) (\<lambda>(ins, outs). ret (ins, s # outs)))"
| "run_channel push pop fill (FillSuperpages # xs) = andThen fill (run_channel push pop fill xs)"

locale dma_channel =
  fixes okSp :: "superpage \<Rightarrow> bool"
    and inv :: "'c \<Rightarrow> bool"
    and tickets :: "'c \<Rightarrow> ticket multiset"
    and avail :: "'c \<Rightarrow> int"
    and readySize :: "'c \<Rightarrow> int"
    and push :: "superpage \<Rightarrow> ('c, unit) io"
    and getSp :: "('c, superpage) io"
    and pop :: "('c, superpage) io"
    and fill :: "('c, unit) io"
  assumes avail_ge: "inv c \<Longrightarrow> 0 \<le> avail c"
    and ready_ge: "inv c \<Longrightarrow> 0 \<le> readySize c"
    and push_ret: "inv c \<Longrightarrow> okSp s \<Longrightarrow> push s c = (Inr (), c') \<Longrightarrow> inv c' \<and> 0 < avail c
      \<and> avail c' = avail c - 1 \<and> readySize c' = readySize c
      \<and> tickets c' = add_mset (ticket s) (tickets c)"
    and push_no_space: "inv c \<Longrightarrow> avail c = 0 \<Longrightarrow> \<exists>e. push s c = (Inl e, c)"
    and ready_front: "inv c \<Longrightarrow> 0 < readySize c \<Longrightarrow> \<exists>s c'. getSp c = (Inr s, c) \<and> pop c = (Inr s, c')
      \<and> inv c' \<and> tickets c = add_mset (ticket s) (tickets c') \<and> readySize c' = readySize c - 1"
    and pop_empty: "inv c \<Longrightarrow> readySize c = 0 \<Longrightarrow> \<exists>e. pop c = (Inl e, c)"
    and fill_ret: "inv c \<Longrightarrow> fill c = (Inr (), c') \<Longrightarrow> inv c' \<and> tickets c' = tickets c"
begin

lemma pop_ret:
  assumes "inv c" "pop c = (Inr s, c')"
  shows "getSp c = (Inr s, c) \<and> inv c' \<and> tickets c = add_mset (ticket s) (tickets c')
    \<and> readySize c' = readySize c - 1"
  using assms ready_ge[OF assms(1)] ready_front[OF assms(1)] pop_empty[OF assms(1)]
  by (cases "readySize c = 0") force+

text \<open>No superpage is lost or made up: what was in the channel and what was pushed is what was
  popped and what is in the channel.\<close>

lemma run_channel_conserves:
  assumes "inv c" "\<And>s. PushSuperpage s \<in> set calls \<Longrightarrow> okSp s"
    and "run_channel push pop fill calls c = (Inr (ins, outs), c')"
  shows "inv c' \<and> tickets c + mset (map ticket ins) = tickets c' + mset (map ticket outs)"
  using assms
proof (induction calls arbitrary: c ins outs)
  case Nil
  then show ?case by (simp add: ret_def)
next
  case (Cons x xs)
  show ?case
  proof (cases x)
    case (PushSuperpage s)
    then obtain d ins' where p: "push s c = (Inr (), d)" and ins: "ins = s # ins'"
      and r: "run_channel push pop fill xs d = (Inr (ins', outs), c')"
      using Cons.prems(3) by (auto simp: andThen_Inr_iff bnd_Inr_iff ret_def)
    with push_ret[OF Cons.prems(1) _ p] Cons.IH[OF _ _ r] Cons.prems(2) PushSuperpage show ?thesis by simp
  next
    case PopSuperpage
    then obtain s d outs' where p: "pop c = (Inr s, d)" and outs: "outs = s # outs'"
      and r: "run_channel push pop fill xs d = (Inr (ins, outs'), c')"
      using Cons.prems(3) by (auto simp: bnd_Inr_iff ret_def)
    with pop_ret[OF Cons.prems(1) p] Cons.IH[OF _ _ r] Cons.prems(2) show ?thesis by simp
  next
    case FillSuperpages
    then obtain d where f: "fill c = (Inr (), d)"
      and r: "run_channel push pop fill xs d = (Inr (ins, outs), c')"
      using Cons.prems(3) by (auto simp: andThen_Inr_iff)
    with fill_ret[OF Cons.prems(1) f] Cons.IH[OF _ _ r] Cons.prems(2) show ?thesis by simp
  qed
qed

end

end
