(* ===== verification/SuperpageQueue.thy ===== *)
theory SuperpageQueue
  imports RocUtil "HOL-Library.Sublist"
begin

text \<open>
  \<^verbatim>\<open>SuperpageQueue<MAX_SUPERPAGES>\<close> (src/RORC/src/SuperpageQueue.h), the bookkeeping of the C-RORC
  channel: a registry of entries and three queues of registry indices. The template argument is
  the parameter \<open>M\<close>. The checks compiled without \<^verbatim>\<open>NDEBUG\<close> are part of the model.
  \<^verbatim>\<open>boost::circular_buffer::push_back\<close> overwrites the oldest element of a full buffer; that is
  \<open>cb_push\<close>. \<^verbatim>\<open>front()\<close> of an empty buffer is undefined behaviour (\<open>OutOfBounds\<close>). \<^verbatim>\<open>getEntry\<close>
  returns a reference; a client's assignment through it is \<open>SuperpageQueue_setEntry\<close>.
\<close>

record sq_entry =
  e_superpage :: superpage
  e_busAddress :: u64
  e_pushedPages :: int
  e_maxPages :: int

record sq =
  mNumberOfEntries :: int
  mNextId :: nat
  mRegistry :: "sq_entry list"
  mPushing :: "nat list"
  mArrivals :: "nat list"
  mFilled :: "nat list"

definition cb_push :: "nat \<Rightarrow> 'a \<Rightarrow> 'a list \<Rightarrow> 'a list" where
  "cb_push cap x xs = (if cap = 0 then xs else if length xs = cap then tl xs @ [x] else xs @ [x])"

definition cb_front :: "'a list \<Rightarrow> 'a res" where
  "cb_front xs = (case xs of [] \<Rightarrow> Inl OutOfBounds | x # _ \<Rightarrow> Inr x)"

definition Entry_isPushed :: "sq_entry \<Rightarrow> bool" where
  "Entry_isPushed e \<longleftrightarrow> e_pushedPages e = e_maxPages e"

definition Entry_getUnpushedPages :: "sq_entry \<Rightarrow> int" where
  "Entry_getUnpushedPages e = e_maxPages e - e_pushedPages e"

definition SuperpageQueue_resetEntry :: "sq_entry \<Rightarrow> sq_entry" where
  "SuperpageQueue_resetEntry e = e\<lparr>e_pushedPages := -1\<rparr>"

definition SuperpageQueue_isValidEntry :: "sq_entry \<Rightarrow> bool" where
  "SuperpageQueue_isValidEntry e \<longleftrightarrow> e_pushedPages e \<noteq> -1"

definition SuperpageQueue_clear :: "sq \<Rightarrow> sq" where
  "SuperpageQueue_clear q = q\<lparr>mRegistry := map SuperpageQueue_resetEntry (mRegistry q), mPushing := [],
     mArrivals := [], mFilled := [], mNumberOfEntries := 0, mNextId := 0\<rparr>"

text \<open>The registry array of a new object holds indeterminate entries; the constructor clears it.\<close>

definition SuperpageQueue_new :: "sq_entry list \<Rightarrow> sq" where
  "SuperpageQueue_new garbage = SuperpageQueue_clear
     \<lparr>mNumberOfEntries = 0, mNextId = 0, mRegistry = garbage, mPushing = [], mArrivals = [], mFilled = []\<rparr>"

definition SuperpageQueue_getQueueCount :: "sq \<Rightarrow> int" where
  "SuperpageQueue_getQueueCount q = mNumberOfEntries q"

definition SuperpageQueue_getQueueAvailable :: "nat \<Rightarrow> sq \<Rightarrow> int" where
  "SuperpageQueue_getQueueAvailable M q = int M - SuperpageQueue_getQueueCount q"

definition SuperpageQueue_isEmpty :: "sq \<Rightarrow> bool" where
  "SuperpageQueue_isEmpty q \<longleftrightarrow> SuperpageQueue_getQueueCount q = 0"

definition SuperpageQueue_isFull :: "nat \<Rightarrow> sq \<Rightarrow> bool" where
  "SuperpageQueue_isFull M q \<longleftrightarrow> SuperpageQueue_getQueueCount q = int M"

definition SuperpageQueue_getEntry :: "nat \<Rightarrow> sq \<Rightarrow> sq_entry res" where
  "SuperpageQueue_getEntry i q =
     (if i < length (mRegistry q)
      then if SuperpageQueue_isValidEntry (mRegistry q ! i) then Inr (mRegistry q ! i)
           else Inl (Exception ''Invalid entry'')
      else Inl (OutOfRange ''array::at''))"

definition SuperpageQueue_setEntry :: "nat \<Rightarrow> sq_entry \<Rightarrow> sq \<Rightarrow> sq" where
  "SuperpageQueue_setEntry i e q = q\<lparr>mRegistry := (mRegistry q)[i := e]\<rparr>"

definition SuperpageQueue_getBackSuperpageId :: "sq \<Rightarrow> nat res" where
  "SuperpageQueue_getBackSuperpageId q =
     (if mPushing q \<noteq> [] then Inr (last (mPushing q))
      else if mArrivals q \<noteq> [] then Inr (last (mArrivals q))
      else if mFilled q \<noteq> [] then Inr (last (mFilled q))
      else Inl (Exception ''Could not get back superpage, queues were empty''))"

definition SuperpageQueue_getFrontSuperpageId :: "sq \<Rightarrow> nat res" where
  "SuperpageQueue_getFrontSuperpageId q =
     (if mFilled q \<noteq> [] then Inr (hd (mFilled q))
      else if mArrivals q \<noteq> [] then Inr (hd (mArrivals q))
      else if mPushing q \<noteq> [] then Inr (hd (mPushing q))
      else Inl (Exception ''Could not get front superpage, queues were empty''))"

definition SuperpageQueue_getFrontSuperpage :: "sq \<Rightarrow> superpage res" where
  "SuperpageQueue_getFrontSuperpage q =
     (if SuperpageQueue_getQueueCount q = 0
      then Inl (Exception ''Could not get superpage status, queue was empty'')
      else res_bind (SuperpageQueue_getFrontSuperpageId q) (\<lambda>i.
           res_bind (SuperpageQueue_getEntry i q) (\<lambda>e. Inr (e_superpage e))))"

definition SuperpageQueue_addToQueue :: "nat \<Rightarrow> sq_entry \<Rightarrow> sq \<Rightarrow> (nat \<times> sq) res" where
  "SuperpageQueue_addToQueue M entry q =
     (if SuperpageQueue_isFull M q then Inl (Exception ''Could not enqueue superpage, queue full'')
      else
        let i = mNextId q
        in if \<not> i < length (mRegistry q) then Inl (OutOfRange ''array::at'')
           else if SuperpageQueue_isValidEntry (mRegistry q ! i)
           then Inl (Exception ''Could not enqueue superpage, would overwrite index ID already in use'')
           else Inr (i, q\<lparr>mRegistry := (mRegistry q)[i := entry],
                  mNextId := (mNextId q + 1) mod M,
                  mNumberOfEntries := mNumberOfEntries q + 1,
                  mPushing := cb_push M i (mPushing q),
                  mArrivals := cb_push M i (mArrivals q)\<rparr>))"

definition SuperpageQueue_removeFromPushingQueue :: "sq \<Rightarrow> (nat \<times> sq) res" where
  "SuperpageQueue_removeFromPushingQueue q =
     (case mPushing q of
        [] \<Rightarrow> Inl (Exception ''Could not remove from pushing queue, pushing queue was empty'')
      | i # rest \<Rightarrow> res_bind (SuperpageQueue_getEntry i q) (\<lambda>entry.
          if \<not> Entry_isPushed entry
          then Inl (Exception ''Could not remove from pushing queue, entry was not completely pushed'')
          else Inr (i, q\<lparr>mPushing := rest\<rparr>)))"

definition SuperpageQueue_moveFromArrivalsToFilledQueue :: "nat \<Rightarrow> sq \<Rightarrow> (nat \<times> sq) res" where
  "SuperpageQueue_moveFromArrivalsToFilledQueue M q =
     (case mArrivals q of
        [] \<Rightarrow> Inl (Exception ''Could not move from arrivals to filled, arrivals was empty'')
      | i # rest \<Rightarrow> res_bind (SuperpageQueue_getEntry i q) (\<lambda>entry.
          if \<not> Superpage_isReady (e_superpage entry)
          then Inl (Exception ''Could not move arrivals to filled, superpage was not filled'')
          else Inr (i, q\<lparr>mFilled := cb_push M i (mFilled q), mArrivals := rest\<rparr>)))"

definition SuperpageQueue_removeFromFilledQueue :: "sq \<Rightarrow> (sq_entry \<times> sq) res" where
  "SuperpageQueue_removeFromFilledQueue q =
     (case mFilled q of
        [] \<Rightarrow> Inl (Exception ''Could not pop superpage, filled queue was empty'')
      | i # rest \<Rightarrow> res_bind (SuperpageQueue_getEntry i q) (\<lambda>entry.
          Inr (entry, q\<lparr>mRegistry := (mRegistry q)[i := SuperpageQueue_resetEntry (mRegistry q ! i)],
            mNumberOfEntries := mNumberOfEntries q - 1, mFilled := rest\<rparr>)))"

definition SuperpageQueue_getPushingFrontEntry :: "sq \<Rightarrow> (nat \<times> sq_entry) res" where
  "SuperpageQueue_getPushingFrontEntry q =
     res_bind (cb_front (mPushing q)) (\<lambda>i.
     res_bind (SuperpageQueue_getEntry i q) (\<lambda>e. Inr (i, e)))"

definition SuperpageQueue_getArrivalsFrontEntry :: "sq \<Rightarrow> (nat \<times> sq_entry) res" where
  "SuperpageQueue_getArrivalsFrontEntry q =
     res_bind (cb_front (mArrivals q)) (\<lambda>i.
     res_bind (SuperpageQueue_getEntry i q) (\<lambda>e. Inr (i, e)))"



section \<open>Invariant\<close>

text \<open>The indices in use, oldest first, are \<open>mFilled @ mArrivals\<close>. They are consecutive modulo \<open>M\<close>,
  end just before \<open>mNextId\<close>, and are exactly the valid registry entries; the superpages still
  being pushed are the youngest of them.\<close>

definition ring_ids :: "nat \<Rightarrow> nat \<Rightarrow> nat \<Rightarrow> nat list" where
  "ring_ids M b n = map (\<lambda>k. (b + k) mod M) [0..<n]"

definition sq_live :: "sq \<Rightarrow> nat list" where
  "sq_live q = mFilled q @ mArrivals q"

definition sq_inv :: "nat \<Rightarrow> sq \<Rightarrow> bool" where
  "sq_inv M q \<longleftrightarrow> 0 < M \<and> M \<le> 256 \<and> length (mRegistry q) = M
     \<and> mNumberOfEntries q = int (length (sq_live q)) \<and> length (sq_live q) \<le> M
     \<and> (\<exists>b < M. sq_live q = ring_ids M b (length (sq_live q)) \<and> mNextId q = (b + length (sq_live q)) mod M)
     \<and> suffix (mPushing q) (sq_live q)
     \<and> (\<forall>i < M. SuperpageQueue_isValidEntry (mRegistry q ! i) \<longleftrightarrow> i \<in> set (sq_live q))"

text \<open>The abstract queue: the entries in use, oldest first.\<close>

definition sq_entries :: "sq \<Rightarrow> sq_entry list" where
  "sq_entries q = map (\<lambda>i. mRegistry q ! i) (sq_live q)"

lemma length_ring_ids [simp]: "length (ring_ids M b n) = n"
  by (simp add: ring_ids_def)

lemma ring_ids_Suc: "ring_ids M b (Suc n) = ring_ids M b n @ [(b + n) mod M]"
  by (simp add: ring_ids_def)

lemma ring_ids_Cons: "b < M \<Longrightarrow> ring_ids M b (Suc n) = b # ring_ids M ((b + 1) mod M) n"
  unfolding ring_ids_def map_upt_Suc
  by (simp add: comp_def mod_simps)

lemma mod_shift_inj:
  fixes b :: nat
  assumes "j < M" "k < M" "(b + j) mod M = (b + k) mod M"
  shows "j = k"
proof -
  have "(int b + int j) mod int M = (int b + int k) mod int M"
    using assms(3) by (metis of_nat_add zmod_int)
  then have "int j mod int M = int k mod int M" by (metis add_diff_cancel_left' mod_diff_left_eq)
  then show ?thesis using assms(1,2) by simp
qed

lemma ring_ids_distinct: "n \<le> M \<Longrightarrow> distinct (ring_ids M b n)"
  by (auto simp: ring_ids_def distinct_map inj_on_def dest: mod_shift_inj[rotated 2])

lemma ring_ids_next_fresh: "n < M \<Longrightarrow> (b + n) mod M \<notin> set (ring_ids M b n)"
  using ring_ids_distinct[of "Suc n" M b] by (simp add: ring_ids_Suc)

lemma sq_inv_facts:
  assumes "sq_inv M q"
  shows "distinct (sq_live q)" "set (mPushing q) \<subseteq> set (sq_live q)" "\<And>i. i \<in> set (sq_live q) \<Longrightarrow> i < M"
    "\<And>i. i \<in> set (sq_live q) \<Longrightarrow> SuperpageQueue_getEntry i q = Inr (mRegistry q ! i)"
proof -
  obtain b where b: "b < M" "sq_live q = ring_ids M b (length (sq_live q))" "length (sq_live q) \<le> M"
    using assms by (auto simp: sq_inv_def)
  show "distinct (sq_live q)" using b ring_ids_distinct by metis
  show "set (mPushing q) \<subseteq> set (sq_live q)" using assms set_mono_suffix by (auto simp: sq_inv_def)
  have lt: "i < M" if "i \<in> set (sq_live q)" for i
  proof -
    have "i \<in> set (ring_ids M b (length (sq_live q)))" using that b(2) by simp
    then show ?thesis using b(1) by (auto simp: ring_ids_def)
  qed
  then show "\<And>i. i \<in> set (sq_live q) \<Longrightarrow> i < M" .
  show "\<And>i. i \<in> set (sq_live q) \<Longrightarrow> SuperpageQueue_getEntry i q = Inr (mRegistry q ! i)"
    using assms lt by (auto simp: sq_inv_def SuperpageQueue_getEntry_def)
qed

lemma sq_inv_sizes:
  assumes "sq_inv M q"
  shows "0 < M" "M \<le> 256" "length (mRegistry q) = M" "mNumberOfEntries q = int (length (sq_live q))"
    "length (sq_live q) \<le> M"
  using assms by (simp_all add: sq_inv_def)

lemma cb_push_space: "length xs < cap \<Longrightarrow> cb_push cap x xs = xs @ [x]"
  by (simp add: cb_push_def)

lemma sq_inv_new:
  assumes "0 < M" "M \<le> 256" "length garbage = M"
  shows "sq_inv M (SuperpageQueue_new garbage)" "sq_entries (SuperpageQueue_new garbage) = []"
  using assms
  by (auto simp: sq_inv_def SuperpageQueue_new_def SuperpageQueue_clear_def sq_live_def sq_entries_def
      ring_ids_def SuperpageQueue_isValidEntry_def SuperpageQueue_resetEntry_def)

lemma sq_inv_clear:
  assumes "sq_inv M q"
  shows "sq_inv M (SuperpageQueue_clear q)" "sq_entries (SuperpageQueue_clear q) = []"
  using assms
  by (auto simp: sq_inv_def SuperpageQueue_clear_def sq_live_def sq_entries_def
      ring_ids_def SuperpageQueue_isValidEntry_def SuperpageQueue_resetEntry_def)

lemma sq_isFull_iff: "sq_inv M q \<Longrightarrow> SuperpageQueue_isFull M q \<longleftrightarrow> length (sq_entries q) = M"
  by (auto simp: SuperpageQueue_isFull_def SuperpageQueue_getQueueCount_def sq_inv_def sq_entries_def)

lemma sq_isEmpty_iff: "sq_inv M q \<Longrightarrow> SuperpageQueue_isEmpty q \<longleftrightarrow> sq_entries q = []"
  by (auto simp: SuperpageQueue_isEmpty_def SuperpageQueue_getQueueCount_def sq_inv_def sq_entries_def)

lemma sq_available: "sq_inv M q \<Longrightarrow> SuperpageQueue_getQueueAvailable M q = int (M - length (sq_entries q))"
  by (auto simp: SuperpageQueue_getQueueAvailable_def SuperpageQueue_getQueueCount_def sq_inv_def sq_entries_def)



section \<open>Operations\<close>

lemma sq_front:
  assumes inv: "sq_inv M q" and ne: "sq_entries q = e # es"
  shows "SuperpageQueue_getFrontSuperpage q = Inr (e_superpage e)"
proof -
  obtain i js where live: "sq_live q = i # js" "mRegistry q ! i = e"
    using ne by (cases "sq_live q") (auto simp: sq_entries_def)
  then have "SuperpageQueue_getFrontSuperpageId q = Inr i"
    by (cases "mFilled q"; cases "mArrivals q")
      (auto simp: sq_live_def SuperpageQueue_getFrontSuperpageId_def)
  moreover have "SuperpageQueue_getQueueCount q \<noteq> 0"
    using inv live by (simp add: sq_inv_def SuperpageQueue_getQueueCount_def)
  ultimately show ?thesis
    using sq_inv_facts(4)[OF inv, of i] live by (simp add: SuperpageQueue_getFrontSuperpage_def)
qed

lemma sq_front_empty:
  "sq_inv M q \<Longrightarrow> sq_entries q = [] \<Longrightarrow>
     SuperpageQueue_getFrontSuperpage q = Inl (Exception ''Could not get superpage status, queue was empty'')"
  by (simp add: SuperpageQueue_getFrontSuperpage_def SuperpageQueue_getQueueCount_def sq_inv_def sq_entries_def)

lemma registry_untouched: "i \<notin> set js \<Longrightarrow> map (\<lambda>j. rs[i := e] ! j) js = map (\<lambda>j. rs ! j) js"
  by (auto intro: nth_list_update_neq)

lemma sq_add:
  assumes inv: "sq_inv M q" and space: "length (sq_entries q) < M"
    and valid: "SuperpageQueue_isValidEntry e"
  shows "\<exists>q'. SuperpageQueue_addToQueue M e q = Inr (mNextId q, q') \<and> sq_inv M q'
    \<and> sq_entries q' = sq_entries q @ [e] \<and> mPushing q' = mPushing q @ [mNextId q]
    \<and> mArrivals q' = mArrivals q @ [mNextId q] \<and> mFilled q' = mFilled q"
proof -
  let ?n = "length (sq_live q)" and ?i = "mNextId q"
  have n: "?n < M" using space by (simp add: sq_entries_def)
  obtain b where b: "b < M" "sq_live q = ring_ids M b ?n" "?i = (b + ?n) mod M"
    using inv by (auto simp: sq_inv_def)
  have i: "?i < M" "?i \<notin> set (sq_live q)"
    using b n ring_ids_next_fresh[OF n, of b] by auto
  have sfx: "suffix (mPushing q) (sq_live q)" using inv by (simp add: sq_inv_def)
  then have "length (mPushing q) < M" using n by (metis suffix_length_le le_less_trans)
  moreover have "length (mArrivals q) < M" using n by (simp add: sq_live_def)
  moreover have "\<not> SuperpageQueue_isFull M q" using inv space sq_isFull_iff by auto
  ultimately have add: "SuperpageQueue_addToQueue M e q = Inr (?i, q\<lparr>mRegistry := (mRegistry q)[?i := e],
      mNextId := (?i + 1) mod M, mNumberOfEntries := mNumberOfEntries q + 1,
      mPushing := mPushing q @ [?i], mArrivals := mArrivals q @ [?i]\<rparr>)" (is "_ = Inr (?i, ?q)")
    using inv i by (simp add: SuperpageQueue_addToQueue_def cb_push_space sq_inv_def Let_def)
  have live: "sq_live ?q = sq_live q @ [?i]" by (simp add: sq_live_def)
  have "sq_live ?q = ring_ids M b (Suc ?n)" using live b by (simp add: ring_ids_Suc)
  moreover have "mNextId ?q = (b + Suc ?n) mod M" using b by (simp add: mod_Suc_eq)
  ultimately have "\<exists>b<M. sq_live ?q = ring_ids M b (length (sq_live ?q)) \<and> mNextId ?q = (b + length (sq_live ?q)) mod M"
    using b(1) live by (intro exI[of _ b]) simp
  moreover have "suffix (mPushing ?q) (sq_live ?q)" using sfx live by (auto simp: suffix_def)
  moreover have "\<forall>j<M. SuperpageQueue_isValidEntry (mRegistry ?q ! j) \<longleftrightarrow> j \<in> set (sq_live ?q)"
    using inv i valid live by (auto simp: sq_inv_def nth_list_update)
  ultimately have "sq_inv M ?q" using inv n live unfolding sq_inv_def by simp
  moreover have "sq_entries ?q = sq_entries q @ [e]"
    using i live registry_untouched[of ?i "sq_live q" "mRegistry q" e] inv by (simp add: sq_entries_def sq_inv_def)
  ultimately show ?thesis using add by simp
qed

lemma sq_add_full:
  "sq_inv M q \<Longrightarrow> length (sq_entries q) = M \<Longrightarrow>
     SuperpageQueue_addToQueue M e q = Inl (Exception ''Could not enqueue superpage, queue full'')"
  by (simp add: SuperpageQueue_addToQueue_def sq_isFull_iff)

lemma sq_removeFromPushing:
  assumes inv: "sq_inv M q" and p: "mPushing q = i # js" and pushed: "Entry_isPushed (mRegistry q ! i)"
  shows "SuperpageQueue_removeFromPushingQueue q = Inr (i, q\<lparr>mPushing := js\<rparr>)"
    and "sq_inv M (q\<lparr>mPushing := js\<rparr>)" and "sq_entries (q\<lparr>mPushing := js\<rparr>) = sq_entries q"
proof -
  have "i \<in> set (sq_live q)" using sq_inv_facts(2)[OF inv] p by auto
  then show "SuperpageQueue_removeFromPushingQueue q = Inr (i, q\<lparr>mPushing := js\<rparr>)"
    using sq_inv_facts(4)[OF inv] p pushed by (simp add: SuperpageQueue_removeFromPushingQueue_def)
  show "sq_inv M (q\<lparr>mPushing := js\<rparr>)"
    using inv p by (auto simp: sq_inv_def sq_live_def intro: suffix_ConsD)
  show "sq_entries (q\<lparr>mPushing := js\<rparr>) = sq_entries q" by (simp add: sq_entries_def sq_live_def)
qed

lemma sq_moveToFilled:
  assumes inv: "sq_inv M q" and a: "mArrivals q = i # js"
    and ready: "Superpage_isReady (e_superpage (mRegistry q ! i))"
  defines "q' \<equiv> q\<lparr>mFilled := mFilled q @ [i], mArrivals := js\<rparr>"
  shows "SuperpageQueue_moveFromArrivalsToFilledQueue M q = Inr (i, q')"
    and "sq_inv M q'" and "sq_entries q' = sq_entries q"
proof -
  have "i \<in> set (sq_live q)" using a by (simp add: sq_live_def)
  moreover have "length (mFilled q) < M" using inv a by (simp add: sq_inv_def sq_live_def)
  ultimately show "SuperpageQueue_moveFromArrivalsToFilledQueue M q = Inr (i, q')"
    using sq_inv_facts(4)[OF inv] a ready
    by (simp add: SuperpageQueue_moveFromArrivalsToFilledQueue_def cb_push_space q'_def)
  have live: "sq_live q' = sq_live q" using a by (simp add: sq_live_def q'_def)
  then show "sq_entries q' = sq_entries q" by (simp add: sq_entries_def q'_def)
  show "sq_inv M q'" using inv live unfolding sq_inv_def by (simp add: q'_def)
qed

lemma sq_removeFromFilled:
  assumes inv: "sq_inv M q" and f: "mFilled q = i # js" and gone: "length (mPushing q) < length (sq_live q)"
  shows "\<exists>q'. SuperpageQueue_removeFromFilledQueue q = Inr (mRegistry q ! i, q') \<and> sq_inv M q'
    \<and> sq_entries q = mRegistry q ! i # sq_entries q' \<and> mPushing q' = mPushing q
    \<and> mArrivals q' = mArrivals q \<and> mFilled q' = js"
proof -
  let ?q = "q\<lparr>mRegistry := (mRegistry q)[i := SuperpageQueue_resetEntry (mRegistry q ! i)],
    mNumberOfEntries := mNumberOfEntries q - 1, mFilled := js\<rparr>"
  have live: "sq_live q = i # sq_live ?q" using f by (simp add: sq_live_def)
  have i: "i < M" "i \<notin> set (sq_live ?q)" "i \<in> set (sq_live q)" using sq_inv_facts(1,3)[OF inv] live by auto
  have rem: "SuperpageQueue_removeFromFilledQueue q = Inr (mRegistry q ! i, ?q)"
    using sq_inv_facts(4)[OF inv i(3)] f by (simp add: SuperpageQueue_removeFromFilledQueue_def)
  obtain b where b: "b < M" "sq_live q = ring_ids M b (length (sq_live q))"
      "mNextId q = (b + length (sq_live q)) mod M" using inv by (auto simp: sq_inv_def)
  have len: "length (sq_live q) = Suc (length (sq_live ?q))" using live by simp
  have "i # sq_live ?q = b # ring_ids M ((b + 1) mod M) (length (sq_live ?q))"
    using b(2) live unfolding len ring_ids_Cons[OF b(1)] by metis
  then have "sq_live ?q = ring_ids M ((b + 1) mod M) (length (sq_live ?q))" by blast
  moreover have "mNextId ?q = ((b + 1) mod M + length (sq_live ?q)) mod M"
    using b(3) unfolding len by (simp add: mod_simps)
  ultimately have "\<exists>b<M. sq_live ?q = ring_ids M b (length (sq_live ?q)) \<and> mNextId ?q = (b + length (sq_live ?q)) mod M"
    using b(1) by (intro exI[of _ "(b + 1) mod M"]) simp
  moreover have "suffix (mPushing ?q) (sq_live ?q)"
  proof -
    have "suffix (mPushing q) (i # sq_live ?q)" using inv live by (simp add: sq_inv_def)
    then have "mPushing q = i # sq_live ?q \<or> suffix (mPushing q) (sq_live ?q)" by (simp add: suffix_Cons)
    then show ?thesis using gone live by auto
  qed
  moreover have "\<forall>j<M. SuperpageQueue_isValidEntry (mRegistry ?q ! j) \<longleftrightarrow> j \<in> set (sq_live ?q)"
  proof (intro allI impI)
    fix j assume j: "j < M"
    have len': "length (mRegistry q) = M"
      and v: "SuperpageQueue_isValidEntry (mRegistry q ! j) \<longleftrightarrow> j \<in> insert i (set (sq_live ?q))"
      using inv j live unfolding sq_inv_def by auto
    show "SuperpageQueue_isValidEntry (mRegistry ?q ! j) \<longleftrightarrow> j \<in> set (sq_live ?q)"
    proof (cases "j = i")
      case True
      then show ?thesis
        using i(1,2) len' by (simp add: SuperpageQueue_isValidEntry_def SuperpageQueue_resetEntry_def)
    next
      case False
      then show ?thesis using v by simp
    qed
  qed
  moreover have "0 < M \<and> M \<le> 256 \<and> length (mRegistry ?q) = M
      \<and> mNumberOfEntries ?q = int (length (sq_live ?q)) \<and> length (sq_live ?q) \<le> M"
    using sq_inv_sizes[OF inv] len by simp
  ultimately have "sq_inv M ?q" unfolding sq_inv_def by blast
  moreover have "sq_entries q = mRegistry q ! i # sq_entries ?q"
    using live registry_untouched[OF i(2), of "mRegistry q" "SuperpageQueue_resetEntry (mRegistry q ! i)"]
    by (simp add: sq_entries_def)
  ultimately show ?thesis using rem by simp
qed

lemma sq_setEntry:
  assumes inv: "sq_inv M q" and i: "i \<in> set (sq_live q)" and v: "SuperpageQueue_isValidEntry e"
  shows "sq_inv M (SuperpageQueue_setEntry i e q)"
    and "sq_live (SuperpageQueue_setEntry i e q) = sq_live q"
  using assms sq_inv_facts(3)[OF inv i]
  by (auto simp: sq_inv_def sq_live_def SuperpageQueue_setEntry_def nth_list_update)

end
