(* ===== verification/DummyDmaChannel.thy ===== *)
theory DummyDmaChannel
  imports Dma_Channel SuperpageQueue
begin

text \<open>
  The software-only channel used for testing (src/RORC/src/Dummy/DummyDmaChannel.cxx). Both queues
  are \<^verbatim>\<open>boost::circular_buffer<Superpage>\<close> of fixed capacity. \<open>bufferSize\<close> is the size of the buffer
  provider.
\<close>

record dummy_channel =
  dummy_bufferSize :: u64
  mTransferQueue :: "superpage list"
  mReadyQueue :: "superpage list"

definition TRANSFER_QUEUE_SIZE :: nat where
  "TRANSFER_QUEUE_SIZE = 16"

definition READY_QUEUE_SIZE :: nat where
  "READY_QUEUE_SIZE = 32"

definition DummyDmaChannel_new :: "u64 \<Rightarrow> dummy_channel" where
  "DummyDmaChannel_new n = \<lparr>dummy_bufferSize = n, mTransferQueue = [], mReadyQueue = []\<rparr>"

definition DummyDmaChannel_startDma :: "(dummy_channel, unit) io" where
  "DummyDmaChannel_startDma c = (Inr (), c\<lparr>mTransferQueue := [], mReadyQueue := []\<rparr>)"

definition DummyDmaChannel_getTransferQueueAvailable :: "dummy_channel \<Rightarrow> int" where
  "DummyDmaChannel_getTransferQueueAvailable c = int TRANSFER_QUEUE_SIZE - int (length (mTransferQueue c))"

definition DummyDmaChannel_getReadyQueueSize :: "dummy_channel \<Rightarrow> int" where
  "DummyDmaChannel_getReadyQueueSize c = int (length (mReadyQueue c))"

definition DummyDmaChannel_pushSuperpage :: "superpage \<Rightarrow> (dummy_channel, unit) io" where
  "DummyDmaChannel_pushSuperpage s c =
     (if DummyDmaChannel_getTransferQueueAvailable c = 0
      then (Inl (Exception ''Could not push superpage, transfer queue was full''), c)
      else if sp_size s = 0 then (Inl (Exception ''Could not enqueue superpage, size == 0''), c)
      else if \<not> isMultiple (sp_size s) (32 * 1024)
      then (Inl (Exception ''Could not enqueue superpage, size not a multiple of 32 KiB''), c)
      else if sp_offset s + sp_size s > dummy_bufferSize c then (Inl (Exception ''Superpage out of range''), c)
      else if sp_offset s mod 4 \<noteq> 0 then (Inl (Exception ''Superpage offset not 32-bit aligned''), c)
      else (Inr (), c\<lparr>mTransferQueue := cb_push TRANSFER_QUEUE_SIZE s (mTransferQueue c)\<rparr>))"

definition DummyDmaChannel_getSuperpage :: "(dummy_channel, superpage) io" where
  "DummyDmaChannel_getSuperpage c = (cb_front (mReadyQueue c), c)"

definition DummyDmaChannel_popSuperpage :: "(dummy_channel, superpage) io" where
  "DummyDmaChannel_popSuperpage c =
     (case mReadyQueue c of
        [] \<Rightarrow> (Inl (Exception ''Could not pop superpage, ready queue was empty''), c)
      | s # rest \<Rightarrow> (Inr s, c\<lparr>mReadyQueue := rest\<rparr>))"

text \<open>The loop runs as often as there were superpages at its start, or until the ready queue is
  full.\<close>

fun dummy_fill_loop :: "nat \<Rightarrow> dummy_channel \<Rightarrow> unit res \<times> dummy_channel" where
  "dummy_fill_loop 0 c = (Inr (), c)"
| "dummy_fill_loop (Suc n) c =
     (if length (mReadyQueue c) = READY_QUEUE_SIZE then (Inr (), c)
      else case mTransferQueue c of
          [] \<Rightarrow> (Inl OutOfBounds, c)
        | s # rest \<Rightarrow> dummy_fill_loop n
            (c\<lparr>mReadyQueue := cb_push READY_QUEUE_SIZE (s\<lparr>sp_ready := True, sp_received := sp_size s\<rparr>) (mReadyQueue c),
               mTransferQueue := rest\<rparr>))"

definition DummyDmaChannel_fillSuperpages :: "(dummy_channel, unit) io" where
  "DummyDmaChannel_fillSuperpages c = dummy_fill_loop (length (mTransferQueue c)) c"


section \<open>The contract\<close>

definition dummy_inv :: "dummy_channel \<Rightarrow> bool" where
  "dummy_inv c \<longleftrightarrow> length (mTransferQueue c) \<le> TRANSFER_QUEUE_SIZE \<and> length (mReadyQueue c) \<le> READY_QUEUE_SIZE
     \<and> (\<forall>s \<in> set (mReadyQueue c). Superpage_isReady s \<and> Superpage_isFilled s)"

definition dummy_tickets :: "dummy_channel \<Rightarrow> ticket multiset" where
  "dummy_tickets c = mset (map ticket (mTransferQueue c @ mReadyQueue c))"

lemma dummy_push_checks:
  assumes "DummyDmaChannel_getTransferQueueAvailable c \<noteq> 0"
  shows "DummyDmaChannel_pushSuperpage s c =
     (case checkSuperpage (dummy_bufferSize c) s of
        Inl e \<Rightarrow> (Inl e, c)
      | Inr _ \<Rightarrow> (Inr (), c\<lparr>mTransferQueue := cb_push TRANSFER_QUEUE_SIZE s (mTransferQueue c)\<rparr>))"
  using assms by (simp add: DummyDmaChannel_pushSuperpage_def checkSuperpage_def)

text \<open>What one call of \<^verbatim>\<open>fillSuperpages\<close> does: it moves as many superpages as fit, in order,
  marked as filled.\<close>

definition filled :: "superpage \<Rightarrow> superpage" where
  "filled s = s\<lparr>sp_ready := True, sp_received := sp_size s\<rparr>"

lemma ticket_filled [simp]: "ticket (filled s) = ticket s"
  by (simp add: filled_def)

lemma dummy_fill_loop_eq:
  assumes "dummy_inv c" "n \<le> length (mTransferQueue c)"
  defines "k \<equiv> min n (READY_QUEUE_SIZE - length (mReadyQueue c))"
  shows "dummy_fill_loop n c = (Inr (), c\<lparr>mReadyQueue := mReadyQueue c @ map filled (take k (mTransferQueue c)),
    mTransferQueue := drop k (mTransferQueue c)\<rparr>)"
  using assms(1,2) unfolding k_def
proof (induction n arbitrary: c)
  case 0
  then show ?case by simp
next
  case (Suc n)
  then obtain s rest where t: "mTransferQueue c = s # rest" by (cases "mTransferQueue c") auto
  show ?case
  proof (cases "length (mReadyQueue c) = READY_QUEUE_SIZE")
    case True
    then show ?thesis by simp
  next
    case False
    let ?d = "c\<lparr>mReadyQueue := mReadyQueue c @ [filled s], mTransferQueue := rest\<rparr>"
    have lt: "length (mReadyQueue c) < READY_QUEUE_SIZE" using False Suc.prems by (simp add: dummy_inv_def)
    then have step: "dummy_fill_loop (Suc n) c = dummy_fill_loop n ?d"
      using t False by (simp add: cb_push_space filled_def)
    have "dummy_inv ?d" using Suc.prems t lt
      by (auto simp: dummy_inv_def filled_def Superpage_isReady_def Superpage_isFilled_def)
    from Suc.IH[OF this] Suc.prems t
    have "dummy_fill_loop n ?d = (Inr (), ?d\<lparr>mReadyQueue := mReadyQueue ?d @ map filled (take (min n (READY_QUEUE_SIZE - length (mReadyQueue ?d))) (mTransferQueue ?d)),
      mTransferQueue := drop (min n (READY_QUEUE_SIZE - length (mReadyQueue ?d))) (mTransferQueue ?d)\<rparr>)" by simp
    moreover have "min (Suc n) (READY_QUEUE_SIZE - length (mReadyQueue c)) = Suc (min n (READY_QUEUE_SIZE - length (mReadyQueue ?d)))"
      using lt by simp
    ultimately show ?thesis using step t by simp
  qed
qed

lemma dummy_fill_eq:
  assumes "dummy_inv c"
  defines "k \<equiv> min (length (mTransferQueue c)) (READY_QUEUE_SIZE - length (mReadyQueue c))"
  shows "DummyDmaChannel_fillSuperpages c = (Inr (), c\<lparr>mReadyQueue := mReadyQueue c @ map filled (take k (mTransferQueue c)),
    mTransferQueue := drop k (mTransferQueue c)\<rparr>)"
  using dummy_fill_loop_eq[OF assms(1), of "length (mTransferQueue c)"]
  by (simp add: DummyDmaChannel_fillSuperpages_def k_def)

lemma dummy_fill_inv:
  assumes inv: "dummy_inv c" and f: "DummyDmaChannel_fillSuperpages c = (Inr (), c')"
  shows "dummy_inv c' \<and> dummy_tickets c' = dummy_tickets c"
proof -
  define k where "k = min (length (mTransferQueue c)) (READY_QUEUE_SIZE - length (mReadyQueue c))"
  have c': "c' = c\<lparr>mReadyQueue := mReadyQueue c @ map filled (take k (mTransferQueue c)),
      mTransferQueue := drop k (mTransferQueue c)\<rparr>"
    using f dummy_fill_eq[OF inv] by (simp add: k_def)
  have "mset (map ticket (drop k (mTransferQueue c) @ take k (mTransferQueue c))) = mset (map ticket (mTransferQueue c))"
    by (metis append_take_drop_id map_append mset_append union_commute)
  then show ?thesis using inv c'
    by (auto simp: dummy_inv_def dummy_tickets_def filled_def Superpage_isReady_def Superpage_isFilled_def k_def
        comp_def add_ac)
qed

interpretation dummyc: dma_channel "\<lambda>_. True" dummy_inv dummy_tickets DummyDmaChannel_getTransferQueueAvailable
  DummyDmaChannel_getReadyQueueSize DummyDmaChannel_pushSuperpage DummyDmaChannel_getSuperpage
  DummyDmaChannel_popSuperpage DummyDmaChannel_fillSuperpages
proof unfold_locales
  fix c c' :: dummy_channel and s
  assume inv: "dummy_inv c"
  show "0 \<le> DummyDmaChannel_getTransferQueueAvailable c"
    using inv by (simp add: dummy_inv_def DummyDmaChannel_getTransferQueueAvailable_def)
  show "0 \<le> DummyDmaChannel_getReadyQueueSize c" by (simp add: DummyDmaChannel_getReadyQueueSize_def)
  show "\<exists>e. DummyDmaChannel_pushSuperpage s c = (Inl e, c)" if "DummyDmaChannel_getTransferQueueAvailable c = 0"
    using that by (simp add: DummyDmaChannel_pushSuperpage_def)
  show "DummyDmaChannel_getReadyQueueSize c = 0 \<Longrightarrow> \<exists>e. DummyDmaChannel_popSuperpage c = (Inl e, c)"
    by (simp add: DummyDmaChannel_popSuperpage_def DummyDmaChannel_getReadyQueueSize_def)
  show "DummyDmaChannel_fillSuperpages c = (Inr (), c') \<Longrightarrow> dummy_inv c' \<and> dummy_tickets c' = dummy_tickets c"
    using dummy_fill_inv[OF inv] .
  show "0 < DummyDmaChannel_getReadyQueueSize c \<Longrightarrow>
      \<exists>s c'. DummyDmaChannel_getSuperpage c = (Inr s, c) \<and> DummyDmaChannel_popSuperpage c = (Inr s, c')
        \<and> dummy_inv c' \<and> dummy_tickets c = add_mset (ticket s) (dummy_tickets c')
        \<and> DummyDmaChannel_getReadyQueueSize c' = DummyDmaChannel_getReadyQueueSize c - 1"
    using inv by (cases "mReadyQueue c")
      (auto simp: DummyDmaChannel_getReadyQueueSize_def DummyDmaChannel_getSuperpage_def cb_front_def
        DummyDmaChannel_popSuperpage_def dummy_inv_def dummy_tickets_def)
  assume p: "DummyDmaChannel_pushSuperpage s c = (Inr (), c')"
  then have a: "DummyDmaChannel_getTransferQueueAvailable c \<noteq> 0"
    by (auto simp: DummyDmaChannel_pushSuperpage_def)
  then have "length (mTransferQueue c) < TRANSFER_QUEUE_SIZE"
    using inv by (simp add: dummy_inv_def DummyDmaChannel_getTransferQueueAvailable_def)
  then show "dummy_inv c' \<and> 0 < DummyDmaChannel_getTransferQueueAvailable c
      \<and> DummyDmaChannel_getTransferQueueAvailable c' = DummyDmaChannel_getTransferQueueAvailable c - 1
      \<and> DummyDmaChannel_getReadyQueueSize c' = DummyDmaChannel_getReadyQueueSize c
      \<and> dummy_tickets c' = add_mset (ticket s) (dummy_tickets c)"
    using inv p dummy_push_checks[OF a, of s]
    by (auto simp: dummy_inv_def dummy_tickets_def cb_push_space DummyDmaChannel_getTransferQueueAvailable_def
        DummyDmaChannel_getReadyQueueSize_def split: sum.splits)
qed

end
