(* ===== verification/Pda.thy ===== *)
theory Pda
  imports RocUtil
begin

text \<open>
  The wrappers around the PDA kernel driver library (src/RORC/src/Pda): \<^verbatim>\<open>PdaBar\<close>, the access to the
  memory mapped registers of a card, and \<^verbatim>\<open>PdaDmaBuffer\<close>, which translates offsets in the user's
  buffer to addresses on the PCI bus with the scatter-gather list of the buffer. The PDA library
  itself is not part of the sources; the results of its calls are arguments. Mapped memory is an
  argument too: \<open>load\<close> and \<open>store\<close> act on the state \<open>'b\<close> of the card.
\<close>

section \<open>PdaBar\<close>

record pda_bar =
  mBarLength :: u64
  mBarNumber :: int
  mUserspaceAddress :: u64

text \<open>The constructor: the results of \<^verbatim>\<open>PciDevice_getBar\<close> and \<^verbatim>\<open>Bar_getMap\<close> are \<open>getBar\<close> and
  \<open>getMap\<close> (address and length).\<close>

definition PdaBar_new :: "(u8 \<Rightarrow> bool) \<Rightarrow> (u8 \<Rightarrow> (u64 \<times> u64) option) \<Rightarrow> int \<Rightarrow> pda_bar res" where
  "PdaBar_new getBar getMap barNumberInt =
     (let barNumber = word_of_int barNumberInt
      in if barNumberInt > 255 then Inl (Exception ''BAR number out of range (max 256)'')
         else if \<not> getBar barNumber then Inl (Exception ''Failed to get BAR'')
         else case getMap barNumber of
             None \<Rightarrow> Inl (Exception ''Failed to map BAR'')
           | Some (address, len) \<Rightarrow> Inr \<lparr>mBarLength = len, mBarNumber = barNumberInt, mUserspaceAddress = address\<rparr>)"

definition PdaBar_isInRange :: "u64 \<Rightarrow> pda_bar \<Rightarrow> u64 \<Rightarrow> bool" where
  "PdaBar_isInRange szT bar offset \<longleftrightarrow>
     mUserspaceAddress bar + offset + szT < mUserspaceAddress bar + mBarLength bar"

definition PdaBar_assertRange :: "u64 \<Rightarrow> pda_bar \<Rightarrow> u64 \<Rightarrow> ('b, unit) io" where
  "PdaBar_assertRange szT bar offset =
     (if \<not> PdaBar_isInRange szT bar offset then throw (Exception ''BAR offset out of range'') else ret ())"

definition PdaBar_getOffsetAddress :: "pda_bar \<Rightarrow> u64 \<Rightarrow> u64" where
  "PdaBar_getOffsetAddress bar byteOffset = mUserspaceAddress bar + byteOffset"

definition PdaBar_barRead :: "(u64 \<Rightarrow> ('b, u32) io) \<Rightarrow> pda_bar \<Rightarrow> u64 \<Rightarrow> ('b, u32) io" where
  "PdaBar_barRead load bar byteOffset =
     andThen (PdaBar_assertRange 4 bar byteOffset) (load (PdaBar_getOffsetAddress bar byteOffset))"

definition PdaBar_barWrite :: "(u64 \<Rightarrow> u32 \<Rightarrow> ('b, unit) io) \<Rightarrow> pda_bar \<Rightarrow> u64 \<Rightarrow> u32 \<Rightarrow> ('b, unit) io" where
  "PdaBar_barWrite store bar byteOffset v =
     andThen (PdaBar_assertRange 4 bar byteOffset) (store (PdaBar_getOffsetAddress bar byteOffset) v)"

text \<open>\<^verbatim>\<open>index * sizeof(uint32_t)\<close> converts the \<^verbatim>\<open>int\<close> to the unsigned 64-bit type first.\<close>

definition PdaBar_readRegister :: "(u64 \<Rightarrow> ('b, u32) io) \<Rightarrow> pda_bar \<Rightarrow> int \<Rightarrow> ('b, u32) io" where
  "PdaBar_readRegister load bar index = PdaBar_barRead load bar (word_of_int index * 4)"

definition PdaBar_writeRegister :: "(u64 \<Rightarrow> u32 \<Rightarrow> ('b, unit) io) \<Rightarrow> pda_bar \<Rightarrow> int \<Rightarrow> u32 \<Rightarrow> ('b, unit) io" where
  "PdaBar_writeRegister store bar index v = PdaBar_barWrite store bar (word_of_int index * 4) v"

definition PdaBar_getIndex :: "pda_bar \<Rightarrow> int" where
  "PdaBar_getIndex bar = mBarNumber bar"

definition PdaBar_getSize :: "pda_bar \<Rightarrow> u64" where
  "PdaBar_getSize bar = word_of_int (mBarNumber bar)"

definition PdaBar_getBarLength :: "pda_bar \<Rightarrow> u64" where
  "PdaBar_getBarLength bar = mBarLength bar"

text \<open>A mapping lies below the end of the address space.\<close>

definition bar_mapped :: "pda_bar \<Rightarrow> bool" where
  "bar_mapped bar \<longleftrightarrow> uint (mUserspaceAddress bar) + uint (mBarLength bar) < 2 ^ 64"

lemma isInRange_iff:
  assumes m: "bar_mapped bar" and i: "0 \<le> index" "4 * index + 4 \<le> uint (mBarLength bar)"
  shows "PdaBar_isInRange 4 bar (word_of_int index * 4) \<longleftrightarrow> 4 * index + 4 < uint (mBarLength bar)"
proof -
  have len: "uint (mUserspaceAddress bar) + uint (mBarLength bar) < 2 ^ 64"
    using m by (simp add: bar_mapped_def)
  have "uint (word_of_int index * 4 :: u64) = 4 * index"
  proof -
    have "4 * index < 2 ^ 64" using i len uint_ge_0[of "mUserspaceAddress bar"] by linarith
    then show ?thesis using i by (simp add: uint_word_ariths uint_word_of_int mod_simps mult.commute)
  qed
  moreover from this have "uint (mUserspaceAddress bar + word_of_int index * 4 + 4)
      = uint (mUserspaceAddress bar) + 4 * index + 4"
    using i len uint_ge_0[of "mUserspaceAddress bar"] by (simp add: uint_word_ariths mod_simps)
  moreover have "uint (mUserspaceAddress bar + mBarLength bar) = uint (mUserspaceAddress bar) + uint (mBarLength bar)"
    using len by (simp add: uint_word_ariths)
  ultimately show ?thesis by (simp add: PdaBar_isInRange_def word_less_def)
qed


section \<open>PdaDmaBuffer\<close>

record sg_entry =
  sg_size :: u64
  sg_addressUser :: u64
  sg_addressBus :: u64
  sg_addressKernel :: u64

text \<open>The constructor. The arguments are the results of the PDA calls, in the order in which
  they are made: registration, lookup and deletion of a previous buffer, second registration, and
  the scatter-gather list of the registered buffer. A failed registration throws, but the handler
  in the constructor does not rethrow, so that the list of an uninitialised buffer pointer is read
  next.\<close>

definition PdaDmaBuffer_register :: "bool \<Rightarrow> bool \<Rightarrow> bool \<Rightarrow> bool \<Rightarrow> unit res" where
  "PdaDmaBuffer_register register1 getPrevious deletePrevious register2 =
     (if register1 then Inr ()
      else if \<not> getPrevious then Inl (PdaException ''Failed to register external DMA buffer; Failed to get previous buffer for cleanup'')
      else if \<not> deletePrevious then Inl (PdaException ''Failed to register external DMA buffer; Failed to delete previous buffer for cleanup'')
      else if \<not> register2 then Inl (PdaException ''Failed to register external DMA buffer; Failed retry after automatic cleanup of previous buffer'')
      else Inr ())"

definition PdaDmaBuffer_new ::
  "bool \<Rightarrow> bool \<Rightarrow> bool \<Rightarrow> bool \<Rightarrow> sg_entry list option \<Rightarrow> sg_entry list res" where
  "PdaDmaBuffer_new register1 getPrevious deletePrevious register2 sgList =
     (case PdaDmaBuffer_register register1 getPrevious deletePrevious register2 of
        Inl _ \<Rightarrow> Inl DeadObject
      | Inr _ \<Rightarrow> (case sgList of
            None \<Rightarrow> Inl (PdaException ''Failed to get scatter-gather list'')
          | Some nodes \<Rightarrow>
              if nodes = [] then Inl (PdaException ''Failed to initialize scatter-gather list, was empty'')
              else Inr nodes))"

fun sg_search :: "u64 \<Rightarrow> sg_entry list \<Rightarrow> u64 res" where
  "sg_search userWithOffset [] = Inl (Exception ''Physical offset address out of range'')"
| "sg_search userWithOffset (e # es) =
     (let entryUserStartAddress = sg_addressUser e;
          entryUserEndAddress = entryUserStartAddress + sg_size e
      in if userWithOffset \<ge> entryUserStartAddress \<and> userWithOffset < entryUserEndAddress
         then Inr (sg_addressBus e + (userWithOffset - entryUserStartAddress))
         else sg_search userWithOffset es)"

definition PdaDmaBuffer_getBusOffsetAddress :: "sg_entry list \<Rightarrow> u64 \<Rightarrow> u64 res" where
  "PdaDmaBuffer_getBusOffsetAddress sgl offset =
     (case sgl of
        [] \<Rightarrow> Inl (OutOfRange ''vector::at'')
      | e # es \<Rightarrow> sg_search (sg_addressUser e + offset) sgl)"

text \<open>The user addresses of the list are contiguous and do not reach the end of the address
  space.\<close>

fun sg_contiguous :: "sg_entry list \<Rightarrow> int \<Rightarrow> bool" where
  "sg_contiguous [] a \<longleftrightarrow> True"
| "sg_contiguous (e # es) a \<longleftrightarrow> uint (sg_addressUser e) = a \<and> a + uint (sg_size e) < 2 ^ 64
     \<and> sg_contiguous es (a + uint (sg_size e))"

definition sg_total :: "sg_entry list \<Rightarrow> int" where
  "sg_total es = (\<Sum>e\<leftarrow>es. uint (sg_size e))"

text \<open>The specification: walk down the list, taking off the size of each entry.\<close>

fun sg_spec :: "sg_entry list \<Rightarrow> int \<Rightarrow> u64 option" where
  "sg_spec [] off = None"
| "sg_spec (e # es) off =
     (if off < uint (sg_size e) then Some (sg_addressBus e + word_of_int off)
      else sg_spec es (off - uint (sg_size e)))"

lemma sg_search_contiguous:
  assumes "sg_contiguous es a" "0 \<le> off" "a + off < 2 ^ 64" "0 \<le> a"
  shows "sg_search (word_of_int (a + off)) es = (case sg_spec es off of
      None \<Rightarrow> Inl (Exception ''Physical offset address out of range'') | Some x \<Rightarrow> Inr x)"
  using assms
proof (induction es arbitrary: a off)
  case Nil
  then show ?case by simp
next
  case (Cons e es)
  let ?u = "word_of_int (a + off) :: u64"
  have u: "uint ?u = a + off" using Cons.prems by (intro uint_of_int_small) auto
  have s: "uint (sg_addressUser e) = a" "a + uint (sg_size e) < 2 ^ 64" using Cons.prems by auto
  have end_addr: "uint (sg_addressUser e + sg_size e) = a + uint (sg_size e)"
    using s Cons.prems(4) by (simp add: uint_word_ariths mod_pos_pos_trivial)
  have inside: "?u \<ge> sg_addressUser e \<and> ?u < sg_addressUser e + sg_size e \<longleftrightarrow> off < uint (sg_size e)"
    using u s end_addr Cons.prems by (simp add: word_le_def word_less_def)
  have diff: "?u - sg_addressUser e = word_of_int off"
  proof -
    have "sg_addressUser e = word_of_int a" using s(1) by (metis word_of_int_uint)
    then show ?thesis by simp
  qed
  show ?case
  proof (cases "off < uint (sg_size e)")
    case True
    then show ?thesis using inside diff by (simp add: Let_def)
  next
    case False
    have "sg_search ?u es = sg_search (word_of_int (a + uint (sg_size e) + (off - uint (sg_size e)))) es" by simp
    also have "\<dots> = (case sg_spec es (off - uint (sg_size e)) of
        None \<Rightarrow> Inl (Exception ''Physical offset address out of range'') | Some x \<Rightarrow> Inr x)"
      using Cons.prems False by (intro Cons.IH) auto
    finally show ?thesis using inside False by (auto simp: Let_def)
  qed
qed

lemma sg_spec_defined_iff: "0 \<le> off \<Longrightarrow> sg_spec es off \<noteq> None \<longleftrightarrow> off < sg_total es"
proof (induction es arbitrary: off)
  case Nil
  then show ?case by (simp add: sg_total_def)
next
  case (Cons e es)
  have "0 \<le> sg_total es" by (induction es) (simp_all add: sg_total_def)
  then show ?case using Cons.IH[of "off - uint (sg_size e)"] Cons.prems by (auto simp: sg_total_def)
qed

lemma sg_contiguous_total:
  "sg_contiguous es a \<Longrightarrow> es \<noteq> [] \<Longrightarrow> a + sg_total es < 2 ^ 64"
proof (induction es arbitrary: a)
  case (Cons e es)
  then show ?case by (cases "es = []") (force simp: sg_total_def add.assoc)+
qed simp

end
