(* ===== verification/Cru_Bar.thy ===== *)
theory Cru_Bar
  imports Dma_Channel Pda
begin

text \<open>
  \<^verbatim>\<open>Cru::BarAccessor\<close> (src/RORC/src/Cru/BarAccessor.h): the register interface of the CRU card. The BAR is an
  argument: \<open>rd\<close> and \<open>wr\<close> are the virtual functions \<^verbatim>\<open>readRegister\<close> and \<^verbatim>\<open>writeRegister\<close> on the state
  \<open>'b\<close> of the card, \<open>ix\<close> is \<^verbatim>\<open>getIndex()\<close>. Nothing is assumed of what the card answers.
\<close>

type_synonym 'b reader = "int \<Rightarrow> ('b, u32) io"
type_synonym 'b writer = "int \<Rightarrow> u32 \<Rightarrow> ('b, unit) io"

section \<open>Registers\<close>

definition MAX_SUPERPAGE_DESCRIPTORS :: nat where "MAX_SUPERPAGE_DESCRIPTORS = 32"
definition MAX_LINKS :: nat where "MAX_LINKS = 24"
definition DMA_PAGE_SIZE :: u64 where "DMA_PAGE_SIZE = 8 * 1024"
definition DMA_CONTROL :: int where "DMA_CONTROL = 0x200 div 4"
definition LINK_BASE_SUPERPAGE_ADDRESS_HIGH :: int where "LINK_BASE_SUPERPAGE_ADDRESS_HIGH = 0x204 div 4"
definition LINK_BASE_SUPERPAGE_ADDRESS_LOW :: int where "LINK_BASE_SUPERPAGE_ADDRESS_LOW = 0x208 div 4"
definition LINK_BASE_SUPERPAGE_SIZE :: int where "LINK_BASE_SUPERPAGE_SIZE = 0x20c div 4"
definition LINK_BASE_SUPERPAGES_PUSHED :: int where "LINK_BASE_SUPERPAGES_PUSHED = 0x210 div 4"
definition LINK_SUPERPAGE_OFFSET :: int where "LINK_SUPERPAGE_OFFSET = 0x10 div 4"
definition DATA_GENERATOR_CONTROL :: int where "DATA_GENERATOR_CONTROL = 0x420 div 4"
definition DATA_GENERATOR_CONTROL_CMD_INJECT_ERROR :: u32 where "DATA_GENERATOR_CONTROL_CMD_INJECT_ERROR = 0x8"
definition SERIAL_NUMBER :: int where "SERIAL_NUMBER = 524299"
definition FIRMWARE_COMPILE_INFO :: int where "FIRMWARE_COMPILE_INFO = 160"
definition FIRMWARE_FEATURES :: int where "FIRMWARE_FEATURES = 0x41C div 4"
definition RESET_CONTROL :: int where "RESET_CONTROL = 0x400 div 4"
definition TEMPERATURE :: int where "TEMPERATURE = 524298"
definition FIRMWARE_GIT_HASH :: int where "FIRMWARE_GIT_HASH = 1"
definition FIRMWARE_EPOCH :: int where "FIRMWARE_EPOCH = 7"
definition FIRMWARE_DATE :: int where "FIRMWARE_DATE = 8"
definition FIRMWARE_TIME :: int where "FIRMWARE_TIME = 9"

lemmas cru_registers = DMA_CONTROL_def LINK_BASE_SUPERPAGE_ADDRESS_HIGH_def
  LINK_BASE_SUPERPAGE_ADDRESS_LOW_def LINK_BASE_SUPERPAGE_SIZE_def LINK_BASE_SUPERPAGES_PUSHED_def
  LINK_SUPERPAGE_OFFSET_def DATA_GENERATOR_CONTROL_def RESET_CONTROL_def


section \<open>Bit fields of the data generator register\<close>

definition setDataGeneratorPatternBits :: "u32 \<Rightarrow> generator_pattern \<Rightarrow> u32 res" where
  "setDataGeneratorPatternBits bits pattern =
     (case pattern of
        PatIncremental \<Rightarrow> Inr (setBitTo (setBitTo bits 1 True) 2 False)
      | PatAlternating \<Rightarrow> Inr (setBitTo (setBitTo bits 1 False) 2 True)
      | PatConstant \<Rightarrow> Inr (setBitTo (setBitTo bits 1 True) 2 True)
      | _ \<Rightarrow> Inl (Exception ''Unsupported generator pattern for CRU''))"

definition setDataGeneratorSizeBits :: "u32 \<Rightarrow> u64 \<Rightarrow> u32 res" where
  "setDataGeneratorSizeBits bits sz =
     (if \<not> isMultiple sz 32
      then Inl (Exception ''Unsupported generator data size for CRU; must be multiple of 32 bytes'')
      else if sz < 32 \<or> sz > DMA_PAGE_SIZE
      then Inl (Exception ''Unsupported generator data size for CRU; must be >= 32 bytes and <= 8 KiB'')
      else let sizeValue = ucast (push_bit 8 (sz div 32 - 1)) :: u32
           in Inr ((bits AND NOT 0xff00) + sizeValue))"

definition setDataGeneratorEnableBits :: "u32 \<Rightarrow> bool \<Rightarrow> u32" where
  "setDataGeneratorEnableBits bits enabled = setBitTo bits 0 enabled"

definition setDataGeneratorRandomSizeBits :: "u32 \<Rightarrow> bool \<Rightarrow> u32" where
  "setDataGeneratorRandomSizeBits bits enabled = setBitTo bits 16 enabled"

record firmware_features =
  standalone :: bool
  serial :: bool
  firmwareInfo :: bool
  dataSelection :: bool
  temperature :: bool

definition convertToFirmwareFeatures :: "u32 \<Rightarrow> firmware_features res" where
  "convertToFirmwareFeatures reg =
     res_bind (getBits reg 0 15) (\<lambda>safeword.
       if safeword = 0x5afe
       then let enabled = (\<lambda>i. getBit reg i = 0)
            in Inr \<lparr>standalone = True, serial = enabled 18, firmwareInfo = enabled 19,
                 dataSelection = enabled 16, temperature = enabled 17\<rparr>
       else Inr \<lparr>standalone = False, serial = True, firmwareInfo = True, dataSelection = True, temperature = True\<rparr>)"


section \<open>Register accesses\<close>

definition liftR :: "'a res \<Rightarrow> ('s, 'a) io" where
  "liftR r = (case r of Inl e \<Rightarrow> throw e | Inr x \<Rightarrow> ret x)"

definition BarAccessor_assertBarIndex :: "int \<Rightarrow> int \<Rightarrow> string \<Rightarrow> ('b, unit) io" where
  "BarAccessor_assertBarIndex ix index message = (if ix \<noteq> index then throw (Exception message) else ret ())"

definition BarAccessor_pushSuperpageDescriptor :: "'b writer \<Rightarrow> u32 \<Rightarrow> u32 \<Rightarrow> u64 \<Rightarrow> ('b, unit) io" where
  "BarAccessor_pushSuperpageDescriptor wr link pages busAddress =
     (let offset = LINK_SUPERPAGE_OFFSET * uint link
      in seqs [wr (offset + LINK_BASE_SUPERPAGE_ADDRESS_HIGH) (getUpper32Bits busAddress),
               wr (offset + LINK_BASE_SUPERPAGE_ADDRESS_LOW) (getLower32Bits busAddress),
               wr (offset + LINK_BASE_SUPERPAGE_SIZE) pages])"

definition BarAccessor_getSuperpageCount :: "'b reader \<Rightarrow> u32 \<Rightarrow> ('b, u32) io" where
  "BarAccessor_getSuperpageCount rd link = rd (LINK_SUPERPAGE_OFFSET * uint link + LINK_BASE_SUPERPAGES_PUSHED)"

definition BarAccessor_setDataEmulatorEnabled :: "'b reader \<Rightarrow> 'b writer \<Rightarrow> bool \<Rightarrow> ('b, unit) io" where
  "BarAccessor_setDataEmulatorEnabled rd wr enabled =
     andThen (wr DMA_CONTROL (if enabled then 1 else 0))
       (bnd (rd DATA_GENERATOR_CONTROL) (\<lambda>bits.
          wr DATA_GENERATOR_CONTROL (setDataGeneratorEnableBits bits enabled)))"

definition BarAccessor_resetDataGeneratorCounter :: "'b writer \<Rightarrow> ('b, unit) io" where
  "BarAccessor_resetDataGeneratorCounter wr = wr RESET_CONTROL 2"

definition BarAccessor_resetCard :: "'b writer \<Rightarrow> ('b, unit) io" where
  "BarAccessor_resetCard wr = wr RESET_CONTROL 1"

definition BarAccessor_setDataGeneratorPattern ::
  "'b reader \<Rightarrow> 'b writer \<Rightarrow> generator_pattern \<Rightarrow> u64 \<Rightarrow> bool \<Rightarrow> ('b, unit) io" where
  "BarAccessor_setDataGeneratorPattern rd wr pattern sz randomEnabled =
     bnd (rd DATA_GENERATOR_CONTROL) (\<lambda>bits.
     bnd (liftR (setDataGeneratorPatternBits bits pattern)) (\<lambda>bits.
     bnd (liftR (setDataGeneratorSizeBits bits sz)) (\<lambda>bits.
       wr DATA_GENERATOR_CONTROL (setDataGeneratorRandomSizeBits bits randomEnabled))))"

definition BarAccessor_dataGeneratorInjectError :: "'b writer \<Rightarrow> ('b, unit) io" where
  "BarAccessor_dataGeneratorInjectError wr = wr DATA_GENERATOR_CONTROL DATA_GENERATOR_CONTROL_CMD_INJECT_ERROR"

definition BarAccessor_getSerialNumber :: "'b reader \<Rightarrow> int \<Rightarrow> ('b, u32) io" where
  "BarAccessor_getSerialNumber rd ix =
     andThen (BarAccessor_assertBarIndex ix 2 ''Can only get serial number from BAR 2'')
       (bnd (rd SERIAL_NUMBER) (\<lambda>serial.
          if serial = 0xffffffff
          then throw (Exception ''CRU reported invalid serial number 0xffffffff, a fatal error may have occurred'')
          else ret serial))"

definition BarAccessor_getTemperatureRaw :: "'b reader \<Rightarrow> int \<Rightarrow> ('b, u32) io" where
  "BarAccessor_getTemperatureRaw rd ix =
     andThen (BarAccessor_assertBarIndex ix 2 ''Can only get temperature from BAR 2'')
       (bnd (rd TEMPERATURE) (\<lambda>t. ret (t AND 0x3ff)))"

text \<open>The temperature is computed in single precision; the model gives the exact rational value.\<close>

definition BarAccessor_convertTemperatureRaw :: "u32 \<Rightarrow> rat option" where
  "BarAccessor_convertTemperatureRaw registerValue =
     (if registerValue = 0 \<or> registerValue > 1023 then None
      else Some (693 * of_int (uint registerValue) / 1024 - 265))"

definition BarAccessor_getTemperatureCelsius :: "'b reader \<Rightarrow> int \<Rightarrow> ('b, rat option) io" where
  "BarAccessor_getTemperatureCelsius rd ix =
     bnd (BarAccessor_getTemperatureRaw rd ix) (\<lambda>t. ret (BarAccessor_convertTemperatureRaw t))"

definition BarAccessor_getFirmwareCompileInfo :: "'b reader \<Rightarrow> int \<Rightarrow> ('b, u32) io" where
  "BarAccessor_getFirmwareCompileInfo rd ix =
     andThen (BarAccessor_assertBarIndex ix 0 ''Can only get firmware compile info from BAR 0'') (rd FIRMWARE_COMPILE_INFO)"

definition BarAccessor_getFirmwareGitHash :: "'b reader \<Rightarrow> int \<Rightarrow> ('b, u32) io" where
  "BarAccessor_getFirmwareGitHash rd ix =
     andThen (BarAccessor_assertBarIndex ix 2 ''Can only get git hash from BAR 2'') (rd FIRMWARE_GIT_HASH)"

definition BarAccessor_getFirmwareDateEpoch :: "'b reader \<Rightarrow> int \<Rightarrow> ('b, u32) io" where
  "BarAccessor_getFirmwareDateEpoch rd ix =
     andThen (BarAccessor_assertBarIndex ix 2 ''Can only get firmware epoch from BAR 2'') (rd FIRMWARE_EPOCH)"

definition BarAccessor_getFirmwareDate :: "'b reader \<Rightarrow> int \<Rightarrow> ('b, u32) io" where
  "BarAccessor_getFirmwareDate rd ix =
     andThen (BarAccessor_assertBarIndex ix 2 ''Can only get firmware date from BAR 2'') (rd FIRMWARE_DATE)"

definition BarAccessor_getFirmwareTime :: "'b reader \<Rightarrow> int \<Rightarrow> ('b, u32) io" where
  "BarAccessor_getFirmwareTime rd ix =
     andThen (BarAccessor_assertBarIndex ix 2 ''Can only get firmware time from BAR 2'') (rd FIRMWARE_TIME)"

definition BarAccessor_getFirmwareFeatures :: "'b reader \<Rightarrow> int \<Rightarrow> ('b, firmware_features) io" where
  "BarAccessor_getFirmwareFeatures rd ix =
     andThen (BarAccessor_assertBarIndex ix 0 ''Can only get firmware features from BAR 0'')
       (bnd (rd FIRMWARE_FEATURES) (\<lambda>reg. liftR (convertToFirmwareFeatures reg)))"



section \<open>The data generator register\<close>

lemma size_field_small:
  assumes "isMultiple sz 32" "\<not> sz < 32" "\<not> sz > DMA_PAGE_SIZE"
  shows "uint (sz div 32 - 1) < 256" "(uint (sz div 32 - 1) + 1) * 32 = uint sz"
proof -
  have b: "32 \<le> uint sz" "uint sz \<le> 8192"
    using assms(2,3) by (simp_all add: DMA_PAGE_SIZE_def word_less_def)
  have d: "uint (sz div 32) = uint sz div 32" by (simp add: uint_div)
  have m: "uint sz mod 32 = 0"
  proof -
    have "uint (sz mod 32) = 0" using assms(1) by (simp add: isMultiple_def)
    then show ?thesis by (simp add: uint_mod)
  qed
  have "1 \<le> uint (sz div 32)" using b d by simp
  then have s: "uint (sz div 32 - 1) = uint sz div 32 - 1"
    using d uint_sub_if'[of "sz div 32" 1] by simp
  show "uint (sz div 32 - 1) < 256" using s b by simp
  show "(uint (sz div 32 - 1) + 1) * 32 = uint sz"
    using s m div_mult_mod_eq[of "uint sz" 32] by simp
qed

lemma small_word_bits: "uint (w :: 'a::len word) < 2 ^ k \<Longrightarrow> k \<le> n \<Longrightarrow> \<not> bit w n"
proof
  assume a: "uint w < 2 ^ k" "k \<le> n" "bit w n"
  have "(2::int) ^ k \<le> 2 ^ n" using a(2) by (intro power_increasing) auto
  then have "uint w < 2 ^ n" using a(1) by linarith
  then have "uint w div 2 ^ n = 0" by (intro div_pos_pos_trivial) auto
  then have "\<not> odd (uint w div 2 ^ n)" by simp
  then have "\<not> bit (uint w) n" by (simp add: bit_iff_odd)
  then show False using a(3) by (simp add: bit_uint_iff bit_imp_le_length)
qed

lemma sizeBits_bit:
  assumes "setDataGeneratorSizeBits bits sz = Inr b"
  shows "bit b n \<longleftrightarrow> (if 8 \<le> n \<and> n < 16 then bit (sz div 32 - 1) (n - 8) else bit bits n)"
proof -
  have c: "isMultiple sz 32" "\<not> sz < 32" "\<not> sz > DMA_PAGE_SIZE"
    and b: "b = (bits AND NOT 0xff00) + ucast (push_bit 8 (sz div 32 - 1))"
    using assms by (auto simp: setDataGeneratorSizeBits_def Let_def split: if_splits)
  let ?v = "ucast (push_bit 8 (sz div 32 - 1)) :: u32"
  have mask: "(0xff00 :: u32) = push_bit 8 (mask 8)" by (simp add: mask_eq_exp_minus_1 push_bit_eq_mult)
  have high: "8 \<le> k \<Longrightarrow> \<not> bit (sz div 32 - 1) k" for k
    using small_word_bits[of "sz div 32 - 1" 8 k] size_field_small(1)[OF c] by simp
  have v: "bit ?v k \<longleftrightarrow> 8 \<le> k \<and> k < 16 \<and> bit (sz div 32 - 1) (k - 8)" for k
    using high[of "k - 8"] by (cases "k < 16") (auto simp: bit_simps)
  have a: "bit (bits AND NOT 0xff00) k \<longleftrightarrow> bit bits k \<and> \<not> (8 \<le> k \<and> k < 16)" for k
    using bit_imp_le_length[of bits k] unfolding mask by (auto simp: bit_simps)
  have "b = (bits AND NOT 0xff00) OR ?v"
    unfolding b using a v by (intro disjunctive_add) blast
  then show ?thesis using a[of n] v[of n] by (auto simp: bit_or_iff)
qed

lemma size_field_decodes:
  assumes "setDataGeneratorSizeBits bits sz = Inr b" "getBits b 8 15 = Inr f"
  shows "(uint f + 1) * 32 = uint sz"
proof -
  have c: "isMultiple sz 32" "\<not> sz < 32" "\<not> sz > DMA_PAGE_SIZE"
    using assms(1) by (auto simp: setDataGeneratorSizeBits_def Let_def split: if_splits)
  have "bit (uint f) n \<longleftrightarrow> bit (uint (sz div 32 - 1)) n" for n
  proof -
    have "bit f n \<longleftrightarrow> n \<le> 7 \<and> bit (sz div 32 - 1) n"
      using getBits_bit[OF assms(2)] sizeBits_bit[OF assms(1)] by auto
    moreover have "8 \<le> n \<Longrightarrow> \<not> bit (sz div 32 - 1) n"
      using small_word_bits[of "sz div 32 - 1" 8 n] size_field_small(1)[OF c] by simp
    ultimately show ?thesis by (auto simp: bit_uint_iff)
  qed
  then have "uint f = uint (sz div 32 - 1)" by (intro bit_eqI) auto
  then show ?thesis using size_field_small(2)[OF c] by simp
qed

lemma generator_register:
  assumes "setDataGeneratorPatternBits bits pattern = Inr b1" "setDataGeneratorSizeBits b1 sz = Inr b2"
    and "b3 = setDataGeneratorRandomSizeBits b2 random"
  shows "bit b3 n \<longleftrightarrow>
    (if n = 1 then pattern = PatIncremental \<or> pattern = PatConstant
     else if n = 2 then pattern = PatAlternating \<or> pattern = PatConstant
     else if 8 \<le> n \<and> n < 16 then bit (sz div 32 - 1) (n - 8)
     else if n = 16 then random
     else bit bits n)"
proof -
  have b1: "bit b1 k \<longleftrightarrow> (if k = 1 then pattern = PatIncremental \<or> pattern = PatConstant
     else if k = 2 then pattern = PatAlternating \<or> pattern = PatConstant else bit bits k)" for k
    using assms(1) by (cases pattern) (auto simp: setDataGeneratorPatternBits_def setBitTo_bit)
  show ?thesis
    unfolding assms(3) setDataGeneratorRandomSizeBits_def
    using sizeBits_bit[OF assms(2), of n] b1[of n] by (auto simp: setBitTo_bit)
qed

end
