(* ===== verification/CruDmaChannel.thy ===== *)
theory CruDmaChannel
  imports Cru_Bar SuperpageQueue
begin

text \<open>
  The DMA channel of the CRU card (src/RORC/src/Cru/CruDmaChannel.cxx). Each link of the card has a queue of
  superpages; a push goes to the link with the shortest queue; \<^verbatim>\<open>fillSuperpages\<close> reads, for each
  link, how many superpages the firmware has completed and moves that many to the ready queue.
  BAR 0 and BAR 2 are pairs of register functions on the state \<open>'b\<close> of the card; sleeps have no
  effect on the state of the program and are left out. The scatter-gather list of the buffer gives
  the bus addresses.
\<close>

record link =
  link_id :: u8
  superpageCounter :: u32
  queue :: "superpage list"

record 'b cru =
  mLinks :: "link list"
  mLinkQueuesTotalAvailable :: int
  cruReadyQueue :: "superpage list"
  mFeatures :: firmware_features
  mGeneratorEnabled :: bool
  mGeneratorPattern :: generator_pattern
  mGeneratorDataSizeRandomEnabled :: bool
  mGeneratorDataSize :: u64
  cru_bufferSize :: u64
  cru_sgl :: "sg_entry list"
  cru_hw :: 'b

abbreviation LINK_QUEUE_CAPACITY :: nat where
  "LINK_QUEUE_CAPACITY \<equiv> MAX_SUPERPAGE_DESCRIPTORS"

definition READY_QUEUE_CAPACITY :: nat where
  "READY_QUEUE_CAPACITY = 32"

definition onHw :: "('b, 'a) io \<Rightarrow> ('b cru, 'a) io" where
  "onHw m c = (case m (cru_hw c) of (r, b) \<Rightarrow> (r, c\<lparr>cru_hw := b\<rparr>))"


section \<open>Construction\<close>

fun cru_insert_links :: "u32 list \<Rightarrow> link list \<Rightarrow> link list res" where
  "cru_insert_links [] links = Inr links"
| "cru_insert_links (i # ids) links =
     (if uint i \<ge> int MAX_LINKS then Inl (InvalidLinkId ''CRU does not support given link ID'')
      else cru_insert_links ids (links @ [\<lparr>link_id = ucast i, superpageCounter = 0, queue = []\<rparr>]))"

text \<open>The parameter checks and the links of the constructor. \<open>garbage\<close> is the indeterminate initial
  value of \<open>mLinkQueuesTotalAvailable\<close>, which the constructor does not set.\<close>

definition CruDmaChannel_new ::
  "params \<Rightarrow> firmware_features \<Rightarrow> u64 \<Rightarrow> sg_entry list \<Rightarrow> int \<Rightarrow> 'b \<Rightarrow> 'b cru res" where
  "CruDmaChannel_new p features bufferSize sgl garbage hw =
     res_bind (getParam get_bool p ''generator_enabled'') (\<lambda>generatorEnabled.
     res_bind (getParam get_pattern p ''generator_pattern'') (\<lambda>pattern.
     res_bind (getParam get_bool p ''generator_random_size_enabled'') (\<lambda>random.
     res_bind (getParam get_size p ''generator_data_size'') (\<lambda>dataSize.
     res_bind (getParam get_size p ''dma_page_size'') (\<lambda>pageSize.
       if pageSize \<noteq> None \<and> the pageSize \<noteq> DMA_PAGE_SIZE
       then Inl (CruException ''CRU only supports an 8KiB page size'')
       else if generatorEnabled = Some False
       then Inl (CruException ''CRU currently only supports operation with data generator'')
       else
         res_bind (getParam get_linkMask p ''link_mask'') (\<lambda>linkMask.
         res_bind (cru_insert_links (sorted_list_of_set (case linkMask of None \<Rightarrow> {0} | Some m \<Rightarrow> m)) []) (\<lambda>links.
           Inr \<lparr>mLinks = links, mLinkQueuesTotalAvailable = garbage, cruReadyQueue = [], mFeatures = features,
             mGeneratorEnabled = (case generatorEnabled of None \<Rightarrow> True | Some b \<Rightarrow> b),
             mGeneratorPattern = (case pattern of None \<Rightarrow> PatIncremental | Some g \<Rightarrow> g),
             mGeneratorDataSizeRandomEnabled = (case random of None \<Rightarrow> False | Some b \<Rightarrow> b),
             mGeneratorDataSize = (case dataSize of None \<Rightarrow> DMA_PAGE_SIZE | Some n \<Rightarrow> n),
             cru_bufferSize = bufferSize, cru_sgl = sgl, cru_hw = hw\<rparr>)))))))"


section \<open>Starting and stopping\<close>

definition CruDmaChannel_resetCru :: "'b writer \<Rightarrow> ('b cru, unit) io" where
  "CruDmaChannel_resetCru wr0 =
     andThen (onHw (BarAccessor_resetDataGeneratorCounter wr0)) (onHw (BarAccessor_resetCard wr0))"

definition CruDmaChannel_initCru :: "'b reader \<Rightarrow> 'b writer \<Rightarrow> ('b cru, unit) io" where
  "CruDmaChannel_initCru rd0 wr0 c =
     whenM (mGeneratorEnabled c)
       (onHw (BarAccessor_setDataGeneratorPattern rd0 wr0 (mGeneratorPattern c) (mGeneratorDataSize c)
          (mGeneratorDataSizeRandomEnabled c))) c"

definition CruDmaChannel_setBufferReady :: "'b reader \<Rightarrow> 'b writer \<Rightarrow> ('b cru, unit) io" where
  "CruDmaChannel_setBufferReady rd0 wr0 = onHw (BarAccessor_setDataEmulatorEnabled rd0 wr0 True)"

definition CruDmaChannel_setBufferNonReady :: "'b reader \<Rightarrow> 'b writer \<Rightarrow> ('b cru, unit) io" where
  "CruDmaChannel_setBufferNonReady rd0 wr0 = onHw (BarAccessor_setDataEmulatorEnabled rd0 wr0 False)"

definition cru_clear_queues :: "('b cru, unit) io" where
  "cru_clear_queues c = (Inr (), c\<lparr>mLinks := map (\<lambda>l. l\<lparr>queue := [], superpageCounter := 0\<rparr>) (mLinks c),
     cruReadyQueue := [], mLinkQueuesTotalAvailable := int LINK_QUEUE_CAPACITY * int (length (mLinks c))\<rparr>)"

definition CruDmaChannel_deviceStartDma :: "'b reader \<Rightarrow> 'b writer \<Rightarrow> 'b writer \<Rightarrow> ('b cru, unit) io" where
  "CruDmaChannel_deviceStartDma rd0 wr0 wr2 =
     seqs [CruDmaChannel_resetCru wr0,
           CruDmaChannel_initCru rd0 wr0,
           CruDmaChannel_setBufferReady rd0 wr0,
           (\<lambda>c. whenM (dataSelection (mFeatures c)) (onHw (wr2 (0x8000020 div 4) 1)) c),
           cru_clear_queues]"

definition CruDmaChannel_deviceStopDma :: "'b reader \<Rightarrow> 'b writer \<Rightarrow> ('b cru, unit) io" where
  "CruDmaChannel_deviceStopDma rd0 wr0 = CruDmaChannel_setBufferNonReady rd0 wr0"

definition CruDmaChannel_deviceResetChannel :: "'b writer \<Rightarrow> reset_level \<Rightarrow> ('b cru, unit) io" where
  "CruDmaChannel_deviceResetChannel wr0 resetLevel =
     (if resetLevel = ResetNothing then ret () else CruDmaChannel_resetCru wr0)"


section \<open>Superpages\<close>

text \<open>The scan for the shortest queue: the first of the shortest ones, or 255 without links.\<close>

fun next_link_scan :: "nat \<Rightarrow> nat list \<Rightarrow> nat \<Rightarrow> nat option \<Rightarrow> nat" where
  "next_link_scan i [] smallestIndex smallestSize = smallestIndex"
| "next_link_scan i (n # ns) smallestIndex smallestSize =
     (if (case smallestSize of None \<Rightarrow> True | Some m \<Rightarrow> n < m) then next_link_scan (Suc i) ns i (Some n)
      else next_link_scan (Suc i) ns smallestIndex smallestSize)"

definition CruDmaChannel_getNextLinkIndex :: "'b cru \<Rightarrow> nat" where
  "CruDmaChannel_getNextLinkIndex c = next_link_scan 0 (map (\<lambda>l. length (queue l)) (mLinks c)) 255 None"

definition CruDmaChannel_pushSuperpage :: "'b writer \<Rightarrow> superpage \<Rightarrow> ('b cru, unit) io" where
  "CruDmaChannel_pushSuperpage wr0 s c =
     (case checkSuperpage (cru_bufferSize c) s of
        Inl e \<Rightarrow> (Inl e, c)
      | Inr _ \<Rightarrow>
          if mLinkQueuesTotalAvailable c = 0
          then (Inl (Exception ''Could not push superpage, transfer queue was full''), c)
          else let i = CruDmaChannel_getNextLinkIndex c
               in if \<not> i < length (mLinks c) then (Inl OutOfBounds, c)
                  else let link = mLinks c ! i
                       in if length (queue link) \<ge> LINK_QUEUE_CAPACITY
                          then (Inl (Exception ''Could not push superpage, link queue was full''), c)
                          else
                            let c' = c\<lparr>mLinkQueuesTotalAvailable := mLinkQueuesTotalAvailable c - 1,
                                       mLinks := (mLinks c)[i := link\<lparr>queue := cb_push LINK_QUEUE_CAPACITY s (queue link)\<rparr>]\<rparr>;
                                maxPages = sp_size s div DMA_PAGE_SIZE
                            in case PdaDmaBuffer_getBusOffsetAddress (cru_sgl c) (sp_offset s) of
                                 Inl e \<Rightarrow> (Inl e, c')
                               | Inr busAddress \<Rightarrow>
                                   onHw (BarAccessor_pushSuperpageDescriptor wr0 (ucast (link_id link)) (ucast maxPages) busAddress) c')"

definition CruDmaChannel_getSuperpage :: "('b cru, superpage) io" where
  "CruDmaChannel_getSuperpage c =
     (case cruReadyQueue c of
        [] \<Rightarrow> (Inl (Exception ''Could not get superpage, ready queue was empty''), c)
      | s # _ \<Rightarrow> (Inr s, c))"

definition CruDmaChannel_popSuperpage :: "('b cru, superpage) io" where
  "CruDmaChannel_popSuperpage c =
     (case cruReadyQueue c of
        [] \<Rightarrow> (Inl (Exception ''Could not pop superpage, ready queue was empty''), c)
      | s # rest \<Rightarrow> (Inr s, c\<lparr>cruReadyQueue := rest\<rparr>))"

text \<open>The inner loop of \<^verbatim>\<open>fillSuperpages\<close>, for the link with index \<open>i\<close>: at most \<open>n\<close> superpages, until
  the ready queue is full.\<close>

fun cru_move_arrived :: "nat \<Rightarrow> nat \<Rightarrow> ('b cru, unit) io" where
  "cru_move_arrived i 0 c = (Inr (), c)"
| "cru_move_arrived i (Suc n) c =
     (if length (cruReadyQueue c) \<ge> READY_QUEUE_CAPACITY then (Inr (), c)
      else let link = mLinks c ! i
           in case queue link of
                [] \<Rightarrow> (Inl OutOfBounds, c)
              | s # rest \<Rightarrow>
                  cru_move_arrived i n
                    (c\<lparr>cruReadyQueue := cb_push READY_QUEUE_CAPACITY (s\<lparr>sp_ready := True, sp_received := sp_size s\<rparr>) (cruReadyQueue c),
                       mLinkQueuesTotalAvailable := mLinkQueuesTotalAvailable c + 1,
                       mLinks := (mLinks c)[i := link\<lparr>queue := rest, superpageCounter := superpageCounter link + 1\<rparr>]\<rparr>))"

definition cru_fill_link :: "'b reader \<Rightarrow> nat \<Rightarrow> ('b cru, unit) io" where
  "cru_fill_link rd0 i c =
     bnd (onHw (BarAccessor_getSuperpageCount rd0 (ucast (link_id (mLinks c ! i))))) (\<lambda>superpageCount c.
       let link = mLinks c ! i
       in if superpageCount > superpageCounter link
          then let amountAvailable = superpageCount - superpageCounter link
               in if unat amountAvailable > length (queue link)
                  then (Inl (Exception ''FATAL: Firmware reported more superpages available than should be present in FIFO''), c)
                  else cru_move_arrived i (unat amountAvailable) c
          else (Inr (), c)) c"

definition CruDmaChannel_fillSuperpages :: "'b reader \<Rightarrow> ('b cru, unit) io" where
  "CruDmaChannel_fillSuperpages rd0 c = seqs (map (cru_fill_link rd0) [0..<length (mLinks c)]) c"

definition CruDmaChannel_getTransferQueueAvailable :: "'b cru \<Rightarrow> int" where
  "CruDmaChannel_getTransferQueueAvailable c = mLinkQueuesTotalAvailable c"

definition CruDmaChannel_getReadyQueueSize :: "'b cru \<Rightarrow> int" where
  "CruDmaChannel_getReadyQueueSize c = int (length (cruReadyQueue c))"

definition CruDmaChannel_injectError :: "'b writer \<Rightarrow> ('b cru, bool) io" where
  "CruDmaChannel_injectError wr0 c =
     (if mGeneratorEnabled c then andThen (onHw (BarAccessor_dataGeneratorInjectError wr0)) (ret True) c
      else (Inr False, c))"

definition CruDmaChannel_getSerial :: "'b reader \<Rightarrow> ('b cru, u32 option) io" where
  "CruDmaChannel_getSerial rd2 c =
     (if serial (mFeatures c) then bnd (onHw (BarAccessor_getSerialNumber rd2 2)) (\<lambda>n. ret (Some n)) c else (Inr None, c))"

definition CruDmaChannel_getTemperature :: "'b reader \<Rightarrow> ('b cru, rat option) io" where
  "CruDmaChannel_getTemperature rd2 c =
     (if temperature (mFeatures c) then onHw (BarAccessor_getTemperatureCelsius rd2 2) c else (Inr None, c))"



section \<open>Invariant\<close>

definition link_free :: "link \<Rightarrow> int" where
  "link_free l = int LINK_QUEUE_CAPACITY - int (length (queue l))"

definition cru_inv :: "'b cru \<Rightarrow> bool" where
  "cru_inv c \<longleftrightarrow> (\<forall>l \<in> set (mLinks c). length (queue l) \<le> LINK_QUEUE_CAPACITY)
     \<and> mLinkQueuesTotalAvailable c = (\<Sum>l\<leftarrow>mLinks c. link_free l)
     \<and> length (cruReadyQueue c) \<le> READY_QUEUE_CAPACITY"

definition cru_tickets :: "'b cru \<Rightarrow> ticket multiset" where
  "cru_tickets c = (\<Sum>l\<leftarrow>mLinks c. mset (map ticket (queue l))) + mset (map ticket (cruReadyQueue c))"

lemma sum_list_map_update:
  fixes f :: "'a \<Rightarrow> 'm::comm_monoid_add"
  assumes "i < length xs"
  shows "(\<Sum>x\<leftarrow>xs[i := y]. f x) + f (xs ! i) = (\<Sum>x\<leftarrow>xs. f x) + f y"
  using assms
proof (induction xs arbitrary: i)
  case Nil
  then show ?case by simp
next
  case (Cons x xs)
  then show ?case by (cases i) (auto simp: ac_simps)
qed

lemma next_link_scan_spec:
  assumes "i = length pre" "a < i" "m = pre ! a" "\<forall>j<i. m \<le> pre ! j" "\<forall>j<a. m < pre ! j"
  shows "let r = next_link_scan i ns a (Some m) in r < length (pre @ ns)
    \<and> (\<forall>j < length (pre @ ns). (pre @ ns) ! r \<le> (pre @ ns) ! j) \<and> (\<forall>j < r. (pre @ ns) ! r < (pre @ ns) ! j)"
  using assms
proof (induction ns arbitrary: i pre a m)
  case Nil
  then show ?case by (simp add: Let_def)
next
  case (Cons n ns)
  have app: "pre @ n # ns = (pre @ [n]) @ ns" by simp
  show ?case
  proof (cases "n < m")
    case True
    have "next_link_scan i (n # ns) a (Some m) = next_link_scan (Suc i) ns i (Some n)" using True by simp
    moreover have "\<forall>j < Suc i. n \<le> (pre @ [n]) ! j" "\<forall>j < i. n < (pre @ [n]) ! j"
      using Cons.prems True by (auto simp: nth_append less_Suc_eq)
    ultimately show ?thesis using Cons.IH[of "Suc i" "pre @ [n]" i n] Cons.prems(1) unfolding app by (simp add: nth_append)
  next
    case False
    have "next_link_scan i (n # ns) a (Some m) = next_link_scan (Suc i) ns a (Some m)" using False by simp
    moreover have "\<forall>j < Suc i. m \<le> (pre @ [n]) ! j" "\<forall>j < a. m < (pre @ [n]) ! j" "m = (pre @ [n]) ! a"
      using Cons.prems False by (auto simp: nth_append less_Suc_eq)
    ultimately show ?thesis using Cons.IH[of "Suc i" "pre @ [n]" a m] Cons.prems(1,2) unfolding app by simp
  qed
qed

lemma getNextLinkIndex_shortest:
  assumes "mLinks c \<noteq> []"
  defines "len \<equiv> \<lambda>j. length (queue (mLinks c ! j))" and "r \<equiv> CruDmaChannel_getNextLinkIndex c"
  shows "r < length (mLinks c)" "\<And>j. j < length (mLinks c) \<Longrightarrow> len r \<le> len j" "\<And>j. j < r \<Longrightarrow> len r < len j"
proof -
  let ?ns = "map (\<lambda>l. length (queue l)) (mLinks c)"
  obtain n ns where ns: "?ns = n # ns" using assms(1) by (cases "mLinks c") auto
  have r: "r = next_link_scan 1 ns 0 (Some n)"
    unfolding r_def CruDmaChannel_getNextLinkIndex_def ns by simp
  have "let r = next_link_scan 1 ns 0 (Some n) in r < length ([n] @ ns)
    \<and> (\<forall>j < length ([n] @ ns). ([n] @ ns) ! r \<le> ([n] @ ns) ! j) \<and> (\<forall>j < r. ([n] @ ns) ! r < ([n] @ ns) ! j)"
    by (rule next_link_scan_spec) auto
  then have all: "r < length ?ns" "\<forall>j < length ?ns. ?ns ! r \<le> ?ns ! j" "\<forall>j < r. ?ns ! r < ?ns ! j"
    using r ns by (simp_all add: Let_def)
  then show l: "r < length (mLinks c)" by simp
  show "\<And>j. j < length (mLinks c) \<Longrightarrow> len r \<le> len j" using all l by (simp add: len_def)
  show "\<And>j. j < r \<Longrightarrow> len r < len j" using all l by (simp add: len_def)
qed

lemma cru_space:
  assumes inv: "cru_inv c" and a: "mLinkQueuesTotalAvailable c \<noteq> 0"
  shows "CruDmaChannel_getNextLinkIndex c < length (mLinks c)"
    and "length (queue (mLinks c ! CruDmaChannel_getNextLinkIndex c)) < LINK_QUEUE_CAPACITY"
    and "0 < mLinkQueuesTotalAvailable c"
proof -
  have ne: "mLinks c \<noteq> []" using inv a by (auto simp: cru_inv_def)
  note short = getNextLinkIndex_shortest[OF ne]
  show lt: "CruDmaChannel_getNextLinkIndex c < length (mLinks c)" by (rule short(1))
  have free: "\<forall>l \<in> set (mLinks c). 0 \<le> link_free l" using inv by (auto simp: cru_inv_def link_free_def)
  have sum: "mLinkQueuesTotalAvailable c = (\<Sum>l\<leftarrow>mLinks c. link_free l)" using inv by (simp add: cru_inv_def)
  have "0 \<le> (\<Sum>l\<leftarrow>mLinks c. link_free l)" using free by (intro sum_list_nonneg) auto
  then show "0 < mLinkQueuesTotalAvailable c" using a sum by simp
  show "length (queue (mLinks c ! CruDmaChannel_getNextLinkIndex c)) < LINK_QUEUE_CAPACITY"
  proof (rule ccontr)
    assume full: "\<not> ?thesis"
    have "link_free l = 0" if l: "l \<in> set (mLinks c)" for l
    proof -
      obtain j where j: "j < length (mLinks c)" "mLinks c ! j = l" using l by (auto simp: in_set_conv_nth)
      have "LINK_QUEUE_CAPACITY \<le> length (queue l)" using short(2)[OF j(1)] full j(2) by simp
      then show ?thesis using inv l by (force simp: cru_inv_def link_free_def)
    qed
    then have "map link_free (mLinks c) = map (\<lambda>_. 0) (mLinks c)" by simp
    then show False using a sum by (metis sum_list_0)
  qed
qed



section \<open>Preservation\<close>

lemma cru_update_link:
  assumes inv: "cru_inv c" and i: "i < length (mLinks c)" and l: "length (queue l) \<le> LINK_QUEUE_CAPACITY"
    and t: "t = mLinkQueuesTotalAvailable c + link_free l - link_free (mLinks c ! i)"
    and r: "length rq \<le> READY_QUEUE_CAPACITY"
  shows "cru_inv (c\<lparr>mLinks := (mLinks c)[i := l], mLinkQueuesTotalAvailable := t, cruReadyQueue := rq\<rparr>)"
proof -
  have "(\<Sum>x\<leftarrow>(mLinks c)[i := l]. link_free x) + link_free (mLinks c ! i) = (\<Sum>x\<leftarrow>mLinks c. link_free x) + link_free l"
    using i by (rule sum_list_map_update)
  moreover have "\<forall>x \<in> set ((mLinks c)[i := l]). length (queue x) \<le> LINK_QUEUE_CAPACITY"
    using inv l set_update_subset_insert[of "mLinks c" i l] by (auto simp: cru_inv_def)
  ultimately show ?thesis using inv t r by (simp add: cru_inv_def)
qed

lemma cru_tickets_update:
  assumes "i < length (mLinks c)"
  shows "cru_tickets (c\<lparr>mLinks := (mLinks c)[i := l], mLinkQueuesTotalAvailable := t, cruReadyQueue := rq\<rparr>)
      + mset (map ticket (queue (mLinks c ! i))) + mset (map ticket (cruReadyQueue c))
    = cru_tickets c + mset (map ticket (queue l)) + mset (map ticket rq)"
  using sum_list_map_update[OF assms, of "\<lambda>l. mset (map ticket (queue l))" l]
  by (simp add: cru_tickets_def ac_simps)

lemma cru_hw [simp]:
  "cru_inv (c\<lparr>cru_hw := b\<rparr>) = cru_inv c" "cru_tickets (c\<lparr>cru_hw := b\<rparr>) = cru_tickets c"
  by (simp_all add: cru_inv_def cru_tickets_def)

lemma onHw_fields:
  assumes "onHw m c = (r, c')"
  shows "\<exists>b. c' = c\<lparr>cru_hw := b\<rparr> \<and> m (cru_hw c) = (r, b)"
  using assms by (auto simp: onHw_def split: prod.splits)

text \<open>A push that passes the checks puts the superpage at the end of the shortest queue and hands
  its bus address and size to the firmware, in both cases counted, whatever the card does.\<close>

definition cru_queued :: "superpage \<Rightarrow> 'b cru \<Rightarrow> 'b cru" where
  "cru_queued s c = (let i = CruDmaChannel_getNextLinkIndex c; link = mLinks c ! i in
     c\<lparr>mLinkQueuesTotalAvailable := mLinkQueuesTotalAvailable c - 1,
       mLinks := (mLinks c)[i := link\<lparr>queue := queue link @ [s]\<rparr>]\<rparr>)"

lemma cru_push_eq:
  assumes inv: "cru_inv c" and ok: "checkSuperpage (cru_bufferSize c) s = Inr ()"
    and a: "mLinkQueuesTotalAvailable c \<noteq> 0"
  shows "CruDmaChannel_pushSuperpage wr0 s c =
    (case PdaDmaBuffer_getBusOffsetAddress (cru_sgl c) (sp_offset s) of
       Inl e \<Rightarrow> (Inl e, cru_queued s c)
     | Inr busAddress \<Rightarrow> onHw (BarAccessor_pushSuperpageDescriptor wr0
         (ucast (link_id (mLinks c ! CruDmaChannel_getNextLinkIndex c)))
         (ucast (sp_size s div DMA_PAGE_SIZE)) busAddress) (cru_queued s c))"
  using ok a cru_space[OF inv a]
  by (simp add: CruDmaChannel_pushSuperpage_def Let_def cb_push_space cru_queued_def split: sum.split)

lemma cru_queued_inv:
  assumes inv: "cru_inv c" and a: "mLinkQueuesTotalAvailable c \<noteq> 0"
  shows "cru_inv (cru_queued s c)" "cru_tickets (cru_queued s c) = add_mset (ticket s) (cru_tickets c)"
    "mLinkQueuesTotalAvailable (cru_queued s c) = mLinkQueuesTotalAvailable c - 1"
    "cruReadyQueue (cru_queued s c) = cruReadyQueue c"
proof -
  let ?i = "CruDmaChannel_getNextLinkIndex c"
  let ?l = "mLinks c ! ?i"
  have upd: "cru_queued s c = c\<lparr>mLinks := (mLinks c)[?i := ?l\<lparr>queue := queue ?l @ [s]\<rparr>],
      mLinkQueuesTotalAvailable := mLinkQueuesTotalAvailable c - 1, cruReadyQueue := cruReadyQueue c\<rparr>"
    by (cases c) (simp add: cru_queued_def Let_def)
  note sp = cru_space[OF inv a]
  show "cru_inv (cru_queued s c)"
    unfolding upd using inv sp by (intro cru_update_link) (auto simp: link_free_def cru_inv_def)
  show "cru_tickets (cru_queued s c) = add_mset (ticket s) (cru_tickets c)"
    using cru_tickets_update[OF sp(1), where l = "?l\<lparr>queue := queue ?l @ [s]\<rparr>" and rq = "cruReadyQueue c"
        and t = "mLinkQueuesTotalAvailable c - 1"]
    unfolding upd by simp
  show "mLinkQueuesTotalAvailable (cru_queued s c) = mLinkQueuesTotalAvailable c - 1"
    "cruReadyQueue (cru_queued s c) = cruReadyQueue c" by (simp_all add: cru_queued_def Let_def)
qed

lemma cru_move_arrived_inv:
  assumes "cru_inv c" "i < length (mLinks c)" "n \<le> length (queue (mLinks c ! i))"
  shows "\<exists>c'. cru_move_arrived i n c = (Inr (), c') \<and> cru_inv c' \<and> cru_tickets c' = cru_tickets c
    \<and> length (mLinks c') = length (mLinks c)"
  using assms
proof (induction n arbitrary: c)
  case 0
  then show ?case by simp
next
  case (Suc n)
  show ?case
  proof (cases "length (cruReadyQueue c) \<ge> READY_QUEUE_CAPACITY")
    case True
    then show ?thesis using Suc.prems by simp
  next
    case False
    let ?l = "mLinks c ! i"
    obtain s rest where q: "queue ?l = s # rest" using Suc.prems by (cases "queue ?l") auto
    let ?f = "s\<lparr>sp_ready := True, sp_received := sp_size s\<rparr>"
    let ?l' = "?l\<lparr>queue := rest, superpageCounter := superpageCounter ?l + 1\<rparr>"
    let ?c = "c\<lparr>mLinks := (mLinks c)[i := ?l'], mLinkQueuesTotalAvailable := mLinkQueuesTotalAvailable c + 1,
      cruReadyQueue := cruReadyQueue c @ [?f]\<rparr>"
    have order: "c\<lparr>cruReadyQueue := cruReadyQueue c @ [?f],
        mLinkQueuesTotalAvailable := mLinkQueuesTotalAvailable c + 1, mLinks := (mLinks c)[i := ?l']\<rparr> = ?c"
      by (cases c) simp
    have step: "cru_move_arrived i (Suc n) c = cru_move_arrived i n ?c"
      using False q by (simp add: Let_def cb_push_space flip: order)
    have "length (queue ?l) \<le> LINK_QUEUE_CAPACITY" using Suc.prems by (simp add: cru_inv_def)
    then have inv: "cru_inv ?c"
      using Suc.prems False q by (intro cru_update_link) (auto simp: link_free_def)
    have tk: "cru_tickets ?c = cru_tickets c"
      using cru_tickets_update[OF Suc.prems(2), where l = ?l' and rq = "cruReadyQueue c @ [?f]"
          and t = "mLinkQueuesTotalAvailable c + 1"] q
      by simp
    show ?thesis using Suc.IH[OF inv] step tk Suc.prems q by simp
  qed
qed

lemma cru_fill_link_inv:
  assumes inv: "cru_inv c" and i: "i < length (mLinks c)" and f: "cru_fill_link rd0 i c = (r, c')"
  shows "cru_inv c' \<and> cru_tickets c' = cru_tickets c \<and> length (mLinks c') = length (mLinks c)"
proof -
  let ?m = "onHw (BarAccessor_getSuperpageCount rd0 (ucast (link_id (mLinks c ! i))))"
  obtain v d where m: "?m c = (v, d)" by fastforce
  then obtain b where d: "d = c\<lparr>cru_hw := b\<rparr>" using onHw_fields by blast
  show ?thesis
  proof (cases v)
    case (Inl e)
    then show ?thesis using f m d inv by (auto simp: cru_fill_link_def bnd_def)
  next
    case (Inr cnt)
    have inv_d: "cru_inv d" "i < length (mLinks d)" using inv i d by simp_all
    let ?l = "mLinks c ! i"
    have "cnt > superpageCounter ?l \<Longrightarrow> \<not> unat (cnt - superpageCounter ?l) > length (queue ?l) \<Longrightarrow>
        \<exists>c'. cru_move_arrived i (unat (cnt - superpageCounter ?l)) d = (Inr (), c') \<and> cru_inv c'
          \<and> cru_tickets c' = cru_tickets d \<and> length (mLinks c') = length (mLinks d)"
      using d by (intro cru_move_arrived_inv[OF inv_d]) simp
    then show ?thesis using f m d inv Inr by (auto simp: cru_fill_link_def bnd_def Let_def split: if_splits)
  qed
qed

lemma cru_fill_links_inv:
  assumes "cru_inv c" "\<forall>i \<in> set js. i < length (mLinks c)" "seqs (map (cru_fill_link rd0) js) c = (r, c')"
  shows "cru_inv c' \<and> cru_tickets c' = cru_tickets c"
  using assms
proof (induction js arbitrary: c)
  case Nil
  then show ?case by (simp add: ret_def)
next
  case (Cons i js)
  obtain v d where m: "cru_fill_link rd0 i c = (v, d)" by fastforce
  have d: "cru_inv d \<and> cru_tickets d = cru_tickets c \<and> length (mLinks d) = length (mLinks c)"
    using cru_fill_link_inv[OF Cons.prems(1) _ m] Cons.prems(2) by simp
  show ?case
  proof (cases v)
    case (Inl e)
    then show ?thesis using Cons.prems(3) m d by (simp add: andThen_def bnd_def)
  next
    case (Inr u)
    then show ?thesis using Cons.prems(2,3) m d Cons.IH[of d] by (simp add: andThen_def bnd_def)
  qed
qed

lemma cru_fill_inv:
  "cru_inv c \<Longrightarrow> CruDmaChannel_fillSuperpages rd0 c = (r, c') \<Longrightarrow> cru_inv c' \<and> cru_tickets c' = cru_tickets c"
  unfolding CruDmaChannel_fillSuperpages_def by (rule cru_fill_links_inv) auto


text \<open>Starting the DMA establishes the invariant, from any state of the object.\<close>

lemma cru_clear_inv:
  "cru_clear_queues c = (r, c') \<Longrightarrow> r = Inr () \<and> cru_inv c' \<and> cru_tickets c' = {#}"
  by (auto simp: cru_clear_queues_def cru_inv_def cru_tickets_def link_free_def sum_list_triv comp_def)

lemma cru_start_inv:
  assumes "CruDmaChannel_deviceStartDma rd0 wr0 wr2 c = (Inr (), c')"
  shows "cru_inv c' \<and> cru_tickets c' = {#}"
proof -
  obtain d where "cru_clear_queues d = (Inr (), c')"
    using assms by (auto simp: CruDmaChannel_deviceStartDma_def andThen_Inr_iff ret_def)
  then show ?thesis using cru_clear_inv by blast
qed

interpretation cruc: dma_channel "\<lambda>_. True" cru_inv cru_tickets CruDmaChannel_getTransferQueueAvailable
  CruDmaChannel_getReadyQueueSize "CruDmaChannel_pushSuperpage wr0" CruDmaChannel_getSuperpage
  CruDmaChannel_popSuperpage "CruDmaChannel_fillSuperpages rd0"
  for rd0 :: "'b reader" and wr0
proof unfold_locales
  fix c c' :: "'b cru" and s
  assume inv: "cru_inv c"
  have "0 \<le> (\<Sum>l\<leftarrow>mLinks c. link_free l)"
    using inv by (intro sum_list_nonneg) (auto simp: cru_inv_def link_free_def)
  then show "0 \<le> CruDmaChannel_getTransferQueueAvailable c"
    using inv by (simp add: cru_inv_def CruDmaChannel_getTransferQueueAvailable_def)
  show "0 \<le> CruDmaChannel_getReadyQueueSize c" by (simp add: CruDmaChannel_getReadyQueueSize_def)
  show "\<exists>e. CruDmaChannel_pushSuperpage wr0 s c = (Inl e, c)" if "CruDmaChannel_getTransferQueueAvailable c = 0"
    using that by (simp add: CruDmaChannel_pushSuperpage_def CruDmaChannel_getTransferQueueAvailable_def split: sum.split)
  show "CruDmaChannel_getReadyQueueSize c = 0 \<Longrightarrow> \<exists>e. CruDmaChannel_popSuperpage c = (Inl e, c)"
    by (simp add: CruDmaChannel_popSuperpage_def CruDmaChannel_getReadyQueueSize_def)
  show "CruDmaChannel_fillSuperpages rd0 c = (Inr (), c') \<Longrightarrow> cru_inv c' \<and> cru_tickets c' = cru_tickets c"
    using cru_fill_inv[OF inv] .
  show "0 < CruDmaChannel_getReadyQueueSize c \<Longrightarrow>
      \<exists>s c'. CruDmaChannel_getSuperpage c = (Inr s, c) \<and> CruDmaChannel_popSuperpage c = (Inr s, c')
        \<and> cru_inv c' \<and> cru_tickets c = add_mset (ticket s) (cru_tickets c')
        \<and> CruDmaChannel_getReadyQueueSize c' = CruDmaChannel_getReadyQueueSize c - 1"
    using inv by (cases "cruReadyQueue c")
      (auto simp: CruDmaChannel_getReadyQueueSize_def CruDmaChannel_getSuperpage_def
        CruDmaChannel_popSuperpage_def cru_inv_def cru_tickets_def)
  assume p: "CruDmaChannel_pushSuperpage wr0 s c = (Inr (), c')"
  then have ok: "checkSuperpage (cru_bufferSize c) s = Inr ()" and a: "mLinkQueuesTotalAvailable c \<noteq> 0"
    by (auto simp: CruDmaChannel_pushSuperpage_def split: sum.splits if_splits)
  then obtain b where "c' = (cru_queued s c)\<lparr>cru_hw := b\<rparr>"
    using p cru_push_eq[OF inv ok a, of wr0] by (auto split: sum.splits dest!: onHw_fields)
  then show "cru_inv c' \<and> 0 < CruDmaChannel_getTransferQueueAvailable c
      \<and> CruDmaChannel_getTransferQueueAvailable c' = CruDmaChannel_getTransferQueueAvailable c - 1
      \<and> CruDmaChannel_getReadyQueueSize c' = CruDmaChannel_getReadyQueueSize c
      \<and> cru_tickets c' = add_mset (ticket s) (cru_tickets c)"
    using cru_queued_inv[OF inv a] cru_space(3)[OF inv a]
    by (simp add: CruDmaChannel_getTransferQueueAvailable_def CruDmaChannel_getReadyQueueSize_def)
qed

text \<open>With a card whose register accesses succeed, a superpage that passes the checks and lies in
  the scatter-gather list is accepted whenever the transfer queue has space: the exception "link
  queue was full" does not occur.\<close>

lemma pushDescriptor_succeeds:
  assumes "\<And>i v b. fst (wr i v b) = Inr ()"
  shows "\<exists>b'. BarAccessor_pushSuperpageDescriptor wr link pages a b = (Inr (), b')"
proof -
  have wr: "\<exists>b'. wr i v b = (Inr (), b')" for i v b using assms[of i v b] by (cases "wr i v b") auto
  show ?thesis
    unfolding BarAccessor_pushSuperpageDescriptor_def Let_def by (rule seqs_succeeds) (auto intro: wr)
qed


lemma cru_push_succeeds:
  assumes inv: "cru_inv c" and a: "CruDmaChannel_getTransferQueueAvailable c \<noteq> 0"
    and ok: "checkSuperpage (cru_bufferSize c) s = Inr ()"
    and bus: "PdaDmaBuffer_getBusOffsetAddress (cru_sgl c) (sp_offset s) = Inr a"
    and wr: "\<And>i v b. fst (wr0 i v b) = Inr ()"
  shows "\<exists>b. CruDmaChannel_pushSuperpage wr0 s c = (Inr (), (cru_queued s c)\<lparr>cru_hw := b\<rparr>)"
proof -
  have "mLinkQueuesTotalAvailable c \<noteq> 0" using a by (simp add: CruDmaChannel_getTransferQueueAvailable_def)
  moreover obtain b where "BarAccessor_pushSuperpageDescriptor wr0
      (ucast (link_id (mLinks c ! CruDmaChannel_getNextLinkIndex c))) (ucast (sp_size s div DMA_PAGE_SIZE)) a
      (cru_hw (cru_queued s c)) = (Inr (), b)"
    using pushDescriptor_succeeds[of wr0] wr by meson
  ultimately show ?thesis using cru_push_eq[OF inv ok, of wr0] bus by (auto simp: onHw_def)
qed

text \<open>The counters of completed superpages are 32 bits wide and compared without regard to
  wrap-around.\<close>

lemma cru_fill_link_wrapped:
  assumes "superpageCounter (mLinks c ! i) = - 1" "\<And>b. fst (rd0 (LINK_SUPERPAGE_OFFSET * uint (ucast (link_id (mLinks c ! i)) :: u32)
      + LINK_BASE_SUPERPAGES_PUSHED) b) = Inr cnt"
  shows "\<exists>b. cru_fill_link rd0 i c = (Inr (), c\<lparr>cru_hw := b\<rparr>)"
proof -
  let ?a = "LINK_SUPERPAGE_OFFSET * uint (ucast (link_id (mLinks c ! i)) :: u32) + LINK_BASE_SUPERPAGES_PUSHED"
  obtain b where "rd0 ?a (cru_hw c) = (Inr cnt, b)" using assms(2)[of "cru_hw c"] by (cases "rd0 ?a (cru_hw c)") auto
  moreover have "\<not> cnt > - 1" by (simp add: not_less)
  ultimately show ?thesis
    using assms(1) by (auto simp: cru_fill_link_def bnd_def onHw_def BarAccessor_getSuperpageCount_def Let_def)
qed

end
