(* ===== verification/Crorc.thy ===== *)
theory Crorc
  imports Cru_Bar
begin

text \<open>
  The register-level functions of the C-RORC card (src/RORC/src/Crorc/Crorc.cxx): the DDL command protocol,
  resets, the data generator, the free FIFO, loopback, and the flash memory. The BAR of the channel
  is given by its two virtual functions \<open>rd\<close> and \<open>wr\<close>, as in \<open>Cru_Bar\<close>.

  \<^item> Polling loops are bounded by a count in the code; they recurse on that count.
  \<^item> Loops bounded by the clock take the number of iterations that fit into the time as an argument.
  \<^item> \<open>pciLoopPerUsec\<close>, a \<^verbatim>\<open>double\<close> in the code, is a rational number; time-outs are truncated products.
  \<^item> Sleeps are left out.
\<close>

section \<open>Constants\<close>

abbreviation (input) "RCSR \<equiv> 0 :: int"
abbreviation (input) "RFID \<equiv> 2 :: int"
abbreviation (input) "C_CSR \<equiv> 4 :: int"
abbreviation (input) "C_DCR \<equiv> 6 :: int"
abbreviation (input) "C_DSR \<equiv> 7 :: int"
abbreviation (input) "C_DG1 \<equiv> 8 :: int"
abbreviation (input) "C_DG2 \<equiv> 9 :: int"
abbreviation (input) "C_DG3 \<equiv> 10 :: int"
abbreviation (input) "C_DG4 \<equiv> 11 :: int"
abbreviation (input) "C_RRBAR \<equiv> 13 :: int"
abbreviation (input) "C_RAFL \<equiv> 14 :: int"
abbreviation (input) "C_RAFH \<equiv> 15 :: int"
abbreviation (input) "C_RAFX \<equiv> 32 :: int"
abbreviation (input) "C_RRBX \<equiv> 33 :: int"
abbreviation (input) "F_IFDSR \<equiv> 60 :: int"
abbreviation (input) "F_IADR \<equiv> 61 :: int"
abbreviation (input) "F_LRD \<equiv> 62 :: int"

abbreviation (input) "RESET_CHAN \<equiv> 0x2 :: u32"
abbreviation (input) "RESET_DIU \<equiv> 0x1 :: u32"
abbreviation (input) "CLEAR_FIFOS \<equiv> 0x2 :: u32"
abbreviation (input) "CLEAR_RXFF \<equiv> 0x4 :: u32"
abbreviation (input) "CLEAR_TXFF \<equiv> 0x8 :: u32"
abbreviation (input) "CLEAR_ERROR \<equiv> 0x10 :: u32"
abbreviation (input) "CLEAR_COUNTERS \<equiv> 0x20 :: u32"
abbreviation (input) "DATA_RX_ON_OFF \<equiv> 0x200 :: u32"
abbreviation (input) "START_DG \<equiv> 0x400 :: u32"
abbreviation (input) "STOP_DG \<equiv> 0x800 :: u32"
abbreviation (input) "LOOPB_ON_OFF \<equiv> 0x1000 :: u32"
abbreviation (input) "LINK_DOWN \<equiv> 0x2000 :: u32"
abbreviation (input) "CMD_NOT_EMPTY \<equiv> 0x10000 :: u32"
abbreviation (input) "RXAFF_EMPTY \<equiv> 0x40000 :: u32"
abbreviation (input) "RXAFF_FULL \<equiv> 0x80000 :: u32"
abbreviation (input) "RXSTAT_NOT_EMPTY \<equiv> 0x800000 :: u32"
abbreviation (input) "RXDAT_NOT_EMPTY \<equiv> 0x2000000 :: u32"
abbreviation (input) "RESET_SIU_CMD \<equiv> 0xF1 :: u32"

abbreviation (input) "R_FF \<equiv> 1 :: u32"
abbreviation (input) "R_RORC \<equiv> 2 :: u32"
abbreviation (input) "R_DIU \<equiv> 4 :: u32"
abbreviation (input) "R_SIU \<equiv> 8 :: u32"
abbreviation (input) "R_LINK_UP \<equiv> 16 :: u32"
abbreviation (input) "R_FEE \<equiv> 32 :: u32"
abbreviation (input) "R_FIFOS \<equiv> 64 :: u32"
abbreviation (input) "R_ERROR \<equiv> 128 :: u32"
abbreviation (input) "R_COUNTERS \<equiv> 256 :: u32"

abbreviation (input) "DEST_DIU \<equiv> 1 :: int"
abbreviation (input) "DEST_SIU \<equiv> 2 :: int"
abbreviation (input) "DEST_FEE \<equiv> 4 :: int"
abbreviation (input) "RandCIFST \<equiv> 0 :: u32"
abbreviation (input) "SRST \<equiv> 15 :: u32"
abbreviation (input) "IFLOOP \<equiv> 9 :: u32"
abbreviation (input) "TSTMODE \<equiv> 13 :: u32"
abbreviation (input) "RDYRX \<equiv> 1 :: u32"
abbreviation (input) "EOBTR \<equiv> 11 :: u32"
abbreviation (input) "ST_CTSTW \<equiv> 0 :: u32"
abbreviation (input) "ST_CTSTW_TO \<equiv> 1 :: u32"
abbreviation (input) "ST_ILCMD \<equiv> 2 :: u32"
abbreviation (input) "ST_IFSTW \<equiv> 12 :: u32"
abbreviation (input) "STMASK \<equiv> 0xFFFFF0FF :: u32"
abbreviation (input) "ERROR_BIT \<equiv> 0x80000000 :: u32"
abbreviation (input) "LBMOD \<equiv> 0x10000 :: u32"
abbreviation (input) "OPTRAN \<equiv> 0x8000 :: u32"
abbreviation (input) "RESPONSE_TIME \<equiv> 1000 :: int"


section \<open>Arithmetic helpers\<close>

fun logi2_scan :: "nat \<Rightarrow> u32 \<Rightarrow> u32 \<Rightarrow> int \<Rightarrow> int" where
  "logi2_scan 0 number msk i = 31 - i"
| "logi2_scan (Suc n) number msk i =
     (if number AND msk \<noteq> 0 then 31 - i else logi2_scan n number (drop_bit 1 msk) (i + 1))"

definition logi2 :: "u32 \<Rightarrow> int" where
  "logi2 number = logi2_scan 32 number 0x80000000 0"

text \<open>The shift by a negative amount, for 0, is undefined in C++.\<close>

definition roundPowerOf2 :: "u32 \<Rightarrow> u32 res" where
  "roundPowerOf2 number =
     (if logi2 number < 0 then Inl SignedOverflow else Inr (push_bit (nat (logi2 number)) 1))"

definition incr15 :: "u32 \<Rightarrow> u32" where
  "incr15 a = (a + 1) AND 0xf"

text \<open>The fields of the status word union.\<close>

definition st_dest :: "u32 \<Rightarrow> u32" where "st_dest w = w AND 0xf"
definition st_code :: "u32 \<Rightarrow> u32" where "st_code w = drop_bit 4 w AND 0xf"
definition st_trid :: "u32 \<Rightarrow> u32" where "st_trid w = drop_bit 8 w AND 0xf"

record diu_config =
  pciLoopPerUsec :: rat

definition response_timeout :: "diu_config \<Rightarrow> int" where
  "response_timeout cfg = \<lfloor>of_int RESPONSE_TIME * pciLoopPerUsec cfg\<rfloor>"


section \<open>Status and command registers\<close>

definition Crorc_checkCommandRegister :: "'b reader \<Rightarrow> ('b, u32) io" where
  "Crorc_checkCommandRegister rd = bnd (rd C_CSR) (\<lambda>v. ret (v AND CMD_NOT_EMPTY))"

definition Crorc_putCommandRegister :: "'b writer \<Rightarrow> u32 \<Rightarrow> ('b, unit) io" where
  "Crorc_putCommandRegister wr command = wr C_DCR command"

definition Crorc_checkRxStatus :: "'b reader \<Rightarrow> ('b, u32) io" where
  "Crorc_checkRxStatus rd = bnd (rd C_CSR) (\<lambda>v. ret (v AND RXSTAT_NOT_EMPTY))"

definition Crorc_checkRxData :: "'b reader \<Rightarrow> ('b, u32) io" where
  "Crorc_checkRxData rd = bnd (rd C_CSR) (\<lambda>v. ret (v AND RXDAT_NOT_EMPTY))"

definition Crorc_isLinkUp :: "'b reader \<Rightarrow> ('b, bool) io" where
  "Crorc_isLinkUp rd = bnd (rd C_CSR) (\<lambda>v. ret (v AND LINK_DOWN = 0))"

definition Crorc_assertLinkUp :: "'b reader \<Rightarrow> ('b, unit) io" where
  "Crorc_assertLinkUp rd =
     bnd (Crorc_isLinkUp rd) (\<lambda>up. if \<not> up then throw (CrorcCheckLinkException ''Link was not up'') else ret ())"


section \<open>DDL commands\<close>

text \<open>The polling loop of \<^verbatim>\<open>ddlSendCommand\<close>: true if the command register became free.\<close>

fun ddl_wait_command :: "'b reader \<Rightarrow> nat \<Rightarrow> ('b, bool) io" where
  "ddl_wait_command rd 0 = ret False"
| "ddl_wait_command rd (Suc n) =
     bnd (Crorc_checkCommandRegister rd) (\<lambda>v. if v = 0 then ret True else ddl_wait_command rd n)"

definition ddl_command_word :: "int \<Rightarrow> u32 \<Rightarrow> u32 \<Rightarrow> u32 \<Rightarrow> u32 \<times> u32" where
  "ddl_command_word dest command transid param =
     (if dest = -1 then (command AND 0xf, command)
      else let destination = word_of_int dest AND 0xf
           in (destination, destination + push_bit 4 (command AND 0xf) + push_bit 8 (transid AND 0xf)
                 + push_bit 12 (param AND 0x7ffff)))"

definition Crorc_ddlSendCommand :: "'b reader \<Rightarrow> 'b writer \<Rightarrow> int \<Rightarrow> u32 \<Rightarrow> u32 \<Rightarrow> u32 \<Rightarrow> int \<Rightarrow> ('b, unit) io" where
  "Crorc_ddlSendCommand rd wr dest command transid param time =
     (let (destination, com) = ddl_command_word dest command transid param
      in andThen (whenM (uint destination > DEST_DIU) (Crorc_assertLinkUp rd))
           (bnd (ddl_wait_command rd (nat time)) (\<lambda>free.
              if time > 0 \<and> \<not> free then throw (TimeoutException ''Timed out sending DDL command'')
              else Crorc_putCommandRegister wr com)))"

fun ddl_wait_status :: "'b reader \<Rightarrow> nat \<Rightarrow> ('b, unit) io" where
  "ddl_wait_status rd 0 = throw (TimeoutException ''Timed out waiting on DDL'')"
| "ddl_wait_status rd (Suc n) =
     bnd (Crorc_checkRxStatus rd) (\<lambda>v. if v \<noteq> 0 then ret () else ddl_wait_status rd n)"

definition Crorc_ddlWaitStatus :: "'b reader \<Rightarrow> int \<Rightarrow> ('b, unit) io" where
  "Crorc_ddlWaitStatus rd timeout = ddl_wait_status rd (nat timeout)"

definition Crorc_ddlReadStatus :: "'b reader \<Rightarrow> ('b, u32) io" where
  "Crorc_ddlReadStatus rd = rd C_DSR"

definition is_answer :: "u32 list \<Rightarrow> u32 \<Rightarrow> int \<Rightarrow> u32 \<Rightarrow> bool" where
  "is_answer codes transid destination stw \<longleftrightarrow>
     st_code stw \<in> set codes \<and> st_trid stw = transid \<and> uint (st_dest stw) = destination"

definition Crorc_ddlReadCTSTW :: "'b reader \<Rightarrow> u32 \<Rightarrow> int \<Rightarrow> int \<Rightarrow> ('b, u32) io" where
  "Crorc_ddlReadCTSTW rd transid destination time =
     andThen (Crorc_ddlWaitStatus rd time)
       (bnd (Crorc_ddlReadStatus rd) (\<lambda>stw.
          if \<not> is_answer [ST_CTSTW, ST_ILCMD, ST_CTSTW_TO] transid destination stw
          then throw (Exception ''Unexpected STW (not CTSTW)'') else ret stw))"

definition Crorc_ddlReadDiu :: "'b reader \<Rightarrow> 'b writer \<Rightarrow> u32 \<Rightarrow> int \<Rightarrow> ('b, u32) io" where
  "Crorc_ddlReadDiu rd wr transid time =
     andThen (Crorc_ddlSendCommand rd wr DEST_DIU RandCIFST transid 0 time)
       (andThen (Crorc_ddlWaitStatus rd time)
         (bnd (Crorc_ddlReadStatus rd) (\<lambda>stw.
            if \<not> is_answer [ST_IFSTW] transid DEST_DIU stw
            then throw (Exception ''Unexpected DIU STW (not IFSTW)'')
            else Crorc_ddlReadCTSTW rd transid DEST_DIU time)))"

definition Crorc_ddlReadSiu :: "'b reader \<Rightarrow> 'b writer \<Rightarrow> u32 \<Rightarrow> int \<Rightarrow> ('b, u32) io" where
  "Crorc_ddlReadSiu rd wr transid time =
     andThen (Crorc_ddlSendCommand rd wr DEST_SIU RandCIFST transid 0 time)
       (andThen (Crorc_ddlWaitStatus rd time)
         (bnd (Crorc_ddlReadStatus rd) (\<lambda>stw.
            if \<not> is_answer [ST_IFSTW] transid DEST_SIU stw
            then throw (Exception ''Unexpected SIU STW (not IFSTW)'')
            else bnd (Crorc_ddlReadStatus rd) (\<lambda>stw.
              if \<not> is_answer [ST_CTSTW, ST_ILCMD, ST_CTSTW_TO] transid DEST_SIU stw
              then throw (Exception ''Unexpected SIU STW (not CTSTW)'') else ret stw))))"

text \<open>The attempts of \<^verbatim>\<open>ddlResetSiu\<close>. An attempt is over (\<^verbatim>\<open>return\<close>) or the loop continues, also after
  an exception of the library. The transaction id as it is when an exception is thrown is kept by
  the loop, so the two increments are steps of their own.\<close>

definition ddl_reset_attempt :: "'b reader \<Rightarrow> 'b writer \<Rightarrow> int \<Rightarrow> u32 \<Rightarrow> ('b, bool \<times> u32) io" where
  "ddl_reset_attempt rd wr time transid =
     (let t1 = incr15 transid; t2 = incr15 t1
      in catch is_roc_exception
           (bnd (Crorc_ddlReadDiu rd wr t1 time) (\<lambda>stw.
              let stw = stw AND STMASK
              in if stw AND ERROR_BIT \<noteq> 0 then ret (False, t1)
                 else if stw AND OPTRAN \<noteq> 0 then ret (False, t1)
                 else catch is_roc_exception
                   (bnd (Crorc_ddlReadSiu rd wr t2 time) (\<lambda>stw.
                      ret (stw AND STMASK AND ERROR_BIT = 0, t2)))
                   (\<lambda>_. ret (False, t2))))
           (\<lambda>_. ret (False, t1)))"

fun ddl_reset_cycles :: "'b reader \<Rightarrow> 'b writer \<Rightarrow> int \<Rightarrow> nat \<Rightarrow> u32 \<Rightarrow> ('b, unit) io" where
  "ddl_reset_cycles rd wr time 0 transid = throw (Exception ''Failed to reset SIU'')"
| "ddl_reset_cycles rd wr time (Suc n) transid =
     bnd (ddl_reset_attempt rd wr time transid) (\<lambda>(finished, t).
       if finished then ret () else ddl_reset_cycles rd wr time n t)"

definition Crorc_ddlResetSiu :: "'b reader \<Rightarrow> 'b writer \<Rightarrow> int \<Rightarrow> int \<Rightarrow> ('b, unit) io" where
  "Crorc_ddlResetSiu rd wr cycle time =
     andThen (Crorc_ddlSendCommand rd wr DEST_DIU SRST 0 0 time)
       (andThen (Crorc_ddlWaitStatus rd time)
         (andThen (Crorc_ddlReadStatus rd)
           (ddl_reset_cycles rd wr time (nat cycle) 0xf)))"



section \<open>Resets\<close>

definition reset_bits :: "u32 \<Rightarrow> u32" where
  "reset_bits option =
     (if option AND R_DIU \<noteq> 0 then RESET_DIU else 0)
     OR (if option AND R_FF \<noteq> 0 then CLEAR_RXFF OR CLEAR_TXFF else 0)
     OR (if option AND R_FIFOS \<noteq> 0 then CLEAR_FIFOS else 0)
     OR (if option AND R_ERROR \<noteq> 0 then CLEAR_ERROR else 0)
     OR (if option AND R_COUNTERS \<noteq> 0 then CLEAR_COUNTERS else 0)"

definition Crorc_resetCommand :: "'b reader \<Rightarrow> 'b writer \<Rightarrow> diu_config \<Rightarrow> u32 \<Rightarrow> ('b, unit) io" where
  "Crorc_resetCommand rd wr cfg option =
     seqs [whenM (reset_bits option \<noteq> 0) (wr C_CSR (reset_bits option)),
           whenM (option AND R_SIU \<noteq> 0)
             (andThen (Crorc_putCommandRegister wr RESET_SIU_CMD)
               (andThen (Crorc_ddlWaitStatus rd (response_timeout cfg))
                 (andThen (Crorc_ddlReadStatus rd) (ret ())))),
           whenM (option = 0 \<or> option AND R_RORC \<noteq> 0) (wr RCSR RESET_CHAN)]"

text \<open>\<open>polls\<close> is the number of times the clock is found before the deadline.\<close>

fun Crorc_emptyDataFifos :: "'b reader \<Rightarrow> 'b writer \<Rightarrow> nat \<Rightarrow> ('b, unit) io" where
  "Crorc_emptyDataFifos rd wr 0 =
     bnd (Crorc_checkRxData rd) (\<lambda>v.
       if v \<noteq> 0 then throw (TimeoutException ''Timed out emptying data FIFOs'') else ret ())"
| "Crorc_emptyDataFifos rd wr (Suc polls) =
     bnd (Crorc_checkRxData rd) (\<lambda>v.
       if v = 0 then ret () else andThen (wr C_CSR CLEAR_FIFOS) (Crorc_emptyDataFifos rd wr polls))"

definition Crorc_armDdl :: "'b reader \<Rightarrow> 'b writer \<Rightarrow> nat \<Rightarrow> diu_config \<Rightarrow> u32 \<Rightarrow> ('b, unit) io" where
  "Crorc_armDdl rd wr polls cfg resetMask =
     (let reset = Crorc_resetCommand rd wr cfg
      in if resetMask AND R_FEE \<noteq> 0 then throw (Exception ''Command not allowed'')
         else seqs
           [whenM (resetMask AND R_SIU \<noteq> 0) (Crorc_ddlResetSiu rd wr 3 (response_timeout cfg)),
            whenM (resetMask AND R_LINK_UP \<noteq> 0)
              (seqs [reset R_RORC, reset R_DIU, reset R_SIU, Crorc_assertLinkUp rd,
                     Crorc_emptyDataFifos rd wr polls,
                     reset R_SIU, reset R_DIU, reset R_RORC, Crorc_assertLinkUp rd]),
            whenM (resetMask AND R_DIU \<noteq> 0) (reset R_DIU),
            whenM (resetMask AND R_FF \<noteq> 0) (reset R_FF),
            whenM (resetMask AND R_RORC \<noteq> 0) (reset R_RORC)])"

fun read_rx_status_times :: "'b reader \<Rightarrow> nat \<Rightarrow> ('b, unit) io" where
  "read_rx_status_times rd 0 = ret ()"
| "read_rx_status_times rd (Suc n) = andThen (Crorc_checkRxStatus rd) (read_rx_status_times rd n)"

text \<open>\<open>elapsed\<close> is the measured time in microseconds of the thousand reads.\<close>

definition Crorc_initDiuVersion :: "'b reader \<Rightarrow> rat \<Rightarrow> ('b, diu_config) io" where
  "Crorc_initDiuVersion rd elapsed =
     andThen (read_rx_status_times rd 1000) (ret \<lparr>pciLoopPerUsec = 1000 / elapsed\<rparr>)"

definition Crorc_siuCommand :: "'b reader \<Rightarrow> 'b writer \<Rightarrow> u32 \<Rightarrow> ('b, unit) io" where
  "Crorc_siuCommand rd wr command = andThen (Crorc_ddlReadSiu rd wr command RESPONSE_TIME) (ret ())"

definition Crorc_diuCommand :: "'b reader \<Rightarrow> 'b writer \<Rightarrow> u32 \<Rightarrow> ('b, unit) io" where
  "Crorc_diuCommand rd wr command = andThen (Crorc_ddlReadDiu rd wr command RESPONSE_TIME) (ret ())"


section \<open>Data generator and receiver\<close>

text \<open>The value of a generator pattern in the enumeration.\<close>

fun pattern_value :: "generator_pattern \<Rightarrow> u32" where
  "pattern_value PatUnknown = 0"
| "pattern_value PatConstant = 1"
| "pattern_value PatAlternating = 2"
| "pattern_value PatFlying0 = 3"
| "pattern_value PatFlying1 = 4"
| "pattern_value PatIncremental = 5"
| "pattern_value PatDecremental = 6"
| "pattern_value PatRandom = 7"

text \<open>\<^verbatim>\<open>dataSize / 4\<close> truncates towards zero; for a negative size it is at most 0 and the check
  rejects it.\<close>

definition Crorc_armDataGenerator ::
  "'b writer \<Rightarrow> u32 \<Rightarrow> u32 \<Rightarrow> generator_pattern \<Rightarrow> int \<Rightarrow> int \<Rightarrow> ('b, int) io" where
  "Crorc_armDataGenerator wr initEventNumber initDataWord dataPattern dataSize seed =
     (let eventLen = (if dataSize < 0 then - ((- dataSize) div 4) else dataSize div 4)
      in if eventLen < 1 \<or> eventLen \<ge> 0x00080000
         then throw (CrorcArmDataGeneratorException ''Failed to arm data generator; invalid event length'')
         else
           bnd (if seed \<noteq> 0
                then bnd (liftR (roundPowerOf2 (word_of_int eventLen))) (\<lambda>rounded.
                       andThen (wr C_DG2 (word_of_int seed))
                         (ret (uint rounded, (push_bit 4 (rounded - 1) OR pattern_value dataPattern) OR 0x80000000)))
                else andThen (wr C_DG2 initDataWord)
                       (ret (eventLen, push_bit 4 (word_of_int (eventLen - 1)) OR pattern_value dataPattern)))
             (\<lambda>(roundedLen, blockLen).
                andThen (wr C_DG1 blockLen) (andThen (wr C_DG3 initEventNumber) (ret roundedLen))))"

definition Crorc_startDataGenerator :: "'b writer \<Rightarrow> u32 \<Rightarrow> ('b, unit) io" where
  "Crorc_startDataGenerator wr maxLoop =
     andThen (wr C_DG4 (if maxLoop \<noteq> 0 then (maxLoop - 1) AND 0x7fffffff else 0x80000000)) (wr C_CSR START_DG)"

definition Crorc_stopDataGenerator :: "'b writer \<Rightarrow> ('b, unit) io" where
  "Crorc_stopDataGenerator wr = wr C_CSR STOP_DG"

definition Crorc_stopDataReceiver :: "'b reader \<Rightarrow> 'b writer \<Rightarrow> ('b, unit) io" where
  "Crorc_stopDataReceiver rd wr =
     bnd (rd C_CSR) (\<lambda>v. whenM (v AND DATA_RX_ON_OFF \<noteq> 0) (wr C_CSR DATA_RX_ON_OFF))"

definition Crorc_startDataReceiver :: "'b reader \<Rightarrow> 'b writer \<Rightarrow> u64 \<Rightarrow> ('b, unit) io" where
  "Crorc_startDataReceiver rd wr readyFifoBusAddress =
     seqs [wr C_RRBAR (getLower32Bits readyFifoBusAddress),
           wr C_RRBX (getUpper32Bits readyFifoBusAddress),
           bnd (rd C_CSR) (\<lambda>v. whenM (v AND DATA_RX_ON_OFF = 0) (wr C_CSR DATA_RX_ON_OFF))]"

datatype rx_free_fifo_state = FIFO_EMPTY | FIFO_NOT_EMPTY | FIFO_FULL

definition Crorc_getRxFreeFifoState :: "'b reader \<Rightarrow> ('b, rx_free_fifo_state) io" where
  "Crorc_getRxFreeFifoState rd =
     bnd (rd C_CSR) (\<lambda>st.
       ret (if st AND RXAFF_FULL \<noteq> 0 then FIFO_FULL
            else if st AND RXAFF_EMPTY \<noteq> 0 then FIFO_EMPTY else FIFO_NOT_EMPTY))"

definition Crorc_isFreeFifoEmpty :: "'b reader \<Rightarrow> ('b, bool) io" where
  "Crorc_isFreeFifoEmpty rd = bnd (Crorc_getRxFreeFifoState rd) (\<lambda>s. ret (s = FIFO_EMPTY))"

definition Crorc_assertFreeFifoEmpty :: "'b reader \<Rightarrow> ('b, unit) io" where
  "Crorc_assertFreeFifoEmpty rd =
     bnd (Crorc_isFreeFifoEmpty rd) (\<lambda>e.
       if \<not> e then throw (CrorcFreeFifoException ''Free FIFO not empty'') else ret ())"

definition Crorc_pushRxFreeFifo :: "'b writer \<Rightarrow> u64 \<Rightarrow> u32 \<Rightarrow> u32 \<Rightarrow> ('b, unit) io" where
  "Crorc_pushRxFreeFifo wr blockAddress blockLength readyFifoIndex =
     seqs [wr C_RAFX (ucast (drop_bit 32 blockAddress)),
           wr C_RAFH (ucast (blockAddress AND 0xffffffff)),
           wr C_RAFL (push_bit 8 blockLength OR readyFifoIndex)]"


section \<open>Loopback and triggers\<close>

definition Crorc_isLoopbackOn :: "'b reader \<Rightarrow> ('b, bool) io" where
  "Crorc_isLoopbackOn rd = bnd (rd C_CSR) (\<lambda>v. ret (if v AND LOOPB_ON_OFF = 0 then False else True))"

definition Crorc_toggleLoopback :: "'b writer \<Rightarrow> ('b, unit) io" where
  "Crorc_toggleLoopback wr = wr C_CSR LOOPB_ON_OFF"

definition Crorc_setLoopbackOn :: "'b reader \<Rightarrow> 'b writer \<Rightarrow> ('b, unit) io" where
  "Crorc_setLoopbackOn rd wr = bnd (Crorc_isLoopbackOn rd) (\<lambda>on. whenM (\<not> on) (Crorc_toggleLoopback wr))"

definition Crorc_setLoopbackOff :: "'b reader \<Rightarrow> 'b writer \<Rightarrow> ('b, unit) io" where
  "Crorc_setLoopbackOff rd wr = bnd (Crorc_isLoopbackOn rd) (\<lambda>on. whenM on (Crorc_toggleLoopback wr))"

definition Crorc_ddlSetSiuLoopBack :: "'b reader \<Rightarrow> 'b writer \<Rightarrow> diu_config \<Rightarrow> ('b, u32) io" where
  "Crorc_ddlSetSiuLoopBack rd wr cfg =
     (let timeout = response_timeout cfg
      in andThen (Crorc_ddlSendCommand rd wr DEST_SIU IFLOOP 0 0 timeout)
        (andThen (Crorc_ddlWaitStatus rd timeout)
        (bnd (Crorc_ddlReadStatus rd) (\<lambda>stword.
         andThen (whenM (st_code stword = ST_ILCMD)
             (andThen (Crorc_ddlSendCommand rd wr DEST_SIU TSTMODE 0 0 timeout) (Crorc_ddlWaitStatus rd timeout)))
           (if st_code stword \<noteq> ST_CTSTW then throw (Exception ''Error setting SIU loopback'')
            else bnd (Crorc_ddlReadSiu rd wr 0 timeout) (\<lambda>stword.
              if stword AND LBMOD \<noteq> 0 then ret stword
              else andThen (Crorc_ddlSendCommand rd wr DEST_SIU IFLOOP 0 0 timeout)
                     (andThen (Crorc_ddlWaitStatus rd timeout) (Crorc_ddlReadStatus rd))))))))"

definition Crorc_setSiuLoopback :: "'b reader \<Rightarrow> 'b writer \<Rightarrow> diu_config \<Rightarrow> ('b, unit) io" where
  "Crorc_setSiuLoopback rd wr cfg = andThen (Crorc_ddlSetSiuLoopBack rd wr cfg) (ret ())"

definition fee_command :: "'b reader \<Rightarrow> 'b writer \<Rightarrow> diu_config \<Rightarrow> u32 \<Rightarrow> ('b, unit) io" where
  "fee_command rd wr cfg command =
     andThen (Crorc_ddlSendCommand rd wr DEST_FEE command 0 0 (response_timeout cfg))
       (andThen (Crorc_ddlWaitStatus rd (response_timeout cfg)) (andThen (Crorc_ddlReadStatus rd) (ret ())))"

definition Crorc_startTrigger :: "'b reader \<Rightarrow> 'b writer \<Rightarrow> diu_config \<Rightarrow> ('b, unit) io" where
  "Crorc_startTrigger rd wr cfg = fee_command rd wr cfg RDYRX"

definition Crorc_stopTrigger :: "'b reader \<Rightarrow> 'b writer \<Rightarrow> diu_config \<Rightarrow> ('b, unit) io" where
  "Crorc_stopTrigger rd wr cfg =
     andThen (catch is_roc_exception (fee_command rd wr cfg EOBTR) (\<lambda>_. ret ())) (fee_command rd wr cfg EOBTR)"

definition Crorc_initReadoutContinuous :: "'b writer \<Rightarrow> ('b, unit) io" where
  "Crorc_initReadoutContinuous wr2 =
     seqs [wr2 (0x190 div 4) 0x02000000, wr2 (0x194 div 4) 0x21005, wr2 (0x18c div 4) 0x1f]"

definition Crorc_startReadoutContinuous :: "'b writer \<Rightarrow> ('b, unit) io" where
  "Crorc_startReadoutContinuous wr2 = seqs [wr2 (0x198 div 4) 0x60000001, wr2 (0x198 div 4) 0]"

definition Crorc_initReadoutTriggered :: "('b, unit) io" where
  "Crorc_initReadoutTriggered = throw (RuntimeError ''not implemented'')"



section \<open>Interface status words\<close>

text \<open>\<^verbatim>\<open>ddlInterpretIFSTW\<close>. The code collects the messages in a local vector; they are the result
  here. \<open>check_table\<close> adds every entry whose mask meets the status, \<open>check_table_exclusive\<close> the first.\<close>

definition check_table :: "u32 \<Rightarrow> (u32 \<times> string) list \<Rightarrow> string list" where
  "check_table status table = map snd (filter (\<lambda>(m, s). m AND status \<noteq> 0) table)"

definition check_table_exclusive :: "u32 \<Rightarrow> (u32 \<times> string) list \<Rightarrow> string list" where
  "check_table_exclusive status table = take 1 (check_table status table)"

definition diu_error_table :: "(u32 \<times> string) list" where
  "diu_error_table =
    [(0x20000000, ''Loss of synchronization''), (0x10000000, ''Transmit data/status overflow''),
     (0x08000000, ''Undefined DIU error''), (0x04000000, ''Ordered set in frame''),
     (0x02000000, ''Invalid receive character in frame''), (0x01000000, ''CRC error''),
     (0x00800000, ''Undefined DIU error''), (0x00400000, ''Data out of frame''),
     (0x00200000, ''Illegal frame delimiter''), (0x00100000, ''Too long frame''),
     (0x00080000, ''Received data/status overflow''), (0x00040000, ''Error in receive frame'')]"

definition diu_port_table :: "(u32 \<times> string) list" where
  "diu_port_table =
    [(0x7000, ''DIU port in PRBS Test Mode state''), (0x6000, ''DIU port in Power Off state''),
     (0x5000, ''DIU port in Offline Loss of Synchr. state''), (0x4000, ''DIU port in Offline No Signal state''),
     (0x3000, ''DIU port in Waiting for Power Off state''), (0x2000, ''DIU port in Online state''),
     (0x1000, ''DIU port in Offline state''), (0x0000, ''DIU port in Power On Reset state'')]"

definition siu_ok_table :: "(u32 \<times> string) list" where
  "siu_ok_table = [(LBMOD, ''SIU in Loopback Mode''), (OPTRAN, ''One FEE transaction is open'')]"

definition siu_error_table :: "(u32 \<times> string) list" where
  "siu_error_table =
    [(0x40000000, ''Too long event or read data block''), (0x20000000, ''Illegal FEE data/status''),
     (0x10000000, ''Transmit FIFO overflow''), (0x08000000, ''Illegal write data word''),
     (0x04000000, ''Ordered set in frame''), (0x02000000, ''Invalid character in receive frame''),
     (0x01000000, ''CRC error''), (0x00800000, ''DTCC or JTCC error''),
     (0x00400000, ''Data out of receive frame''), (0x00200000, ''Illegal frame delimiter''),
     (0x00100000, ''Too long receive frame''), (0x00080000, ''Receive FIFO overflow''),
     (0x00040000, ''Error in receive frame''), (0x00020000, ''Link protocol error'')]"

definition siu_port_table :: "(u32 \<times> string) list" where
  "siu_port_table =
    [(0x7000, ''SIU port in undefined state''), (0x6000, ''SIU port in Power Off state''),
     (0x5000, ''SIU port in Offline Loss of Synchr. state''), (0x4000, ''SIU port in Offline No Signal state''),
     (0x3000, ''SIU port in Waiting for Power Off state''), (0x2000, ''SIU port in Online state''),
     (0x1000, ''SIU port in Offline state''), (0x0000, ''SIU port in Power On Reset state'')]"

definition ddlInterpretIFSTW :: "u32 \<Rightarrow> string list" where
  "ddlInterpretIFSTW ifstw =
     (let destination = st_dest ifstw; status = ifstw AND STMASK
      in if uint destination = DEST_DIU
         then (if status AND 0x40000000 \<noteq> 0 then [''DIU is set in loop-back mode''] else [])
              @ (if status AND ERROR_BIT \<noteq> 0 then check_table (status AND 0x7000) diu_error_table else [])
              @ check_table_exclusive status diu_port_table
         else (if status AND ERROR_BIT \<noteq> 0 then check_table status siu_error_table
               else check_table status siu_ok_table)
              @ check_table_exclusive (status AND 0x7000) siu_port_table)"


section \<open>Flash memory\<close>

definition Flash_writeStatus :: "'b writer \<Rightarrow> u32 \<Rightarrow> ('b, unit) io" where
  "Flash_writeStatus wr v = wr F_IFDSR v"

definition Flash_readStatus :: "'b reader \<Rightarrow> 'b writer \<Rightarrow> ('b, u32) io" where
  "Flash_readStatus rd wr = andThen (Flash_writeStatus wr 0x04000000) (rd F_IADR)"

definition Flash_init :: "'b reader \<Rightarrow> 'b writer \<Rightarrow> u32 \<Rightarrow> ('b, u32) io" where
  "Flash_init rd wr address =
     andThen (seqs (map (Flash_writeStatus wr) [0x03000050, 0x0100bddf, 0x03000060, 0x03000003, address, 0x03000070]))
       (Flash_readStatus rd wr)"

fun flash_poll :: "'b reader \<Rightarrow> 'b writer \<Rightarrow> nat \<Rightarrow> ('b, unit) io" where
  "flash_poll rd wr 0 = throw (TimeoutException ''Bad flash status'')"
| "flash_poll rd wr (Suc n) =
     bnd (Flash_readStatus rd wr) (\<lambda>s. if s = 0x80 then ret () else flash_poll rd wr n)"

definition Flash_checkStatus :: "'b reader \<Rightarrow> 'b writer \<Rightarrow> ('b, unit) io" where
  "Flash_checkStatus rd wr = flash_poll rd wr 1000000"

definition Flash_unlockBlock :: "'b reader \<Rightarrow> 'b writer \<Rightarrow> u32 \<Rightarrow> ('b, unit) io" where
  "Flash_unlockBlock rd wr address =
     andThen (seqs (map (Flash_writeStatus wr) [0x0100bddf, address, 0x03000060, 0x030000d0])) (Flash_checkStatus rd wr)"

definition Flash_eraseBlock :: "'b reader \<Rightarrow> 'b writer \<Rightarrow> u32 \<Rightarrow> ('b, unit) io" where
  "Flash_eraseBlock rd wr address =
     andThen (seqs (map (Flash_writeStatus wr) [address, address, 0x03000020, 0x030000d0])) (Flash_checkStatus rd wr)"

definition Flash_writeWord :: "'b reader \<Rightarrow> 'b writer \<Rightarrow> u32 \<Rightarrow> u32 \<Rightarrow> ('b, unit) io" where
  "Flash_writeWord rd wr address v =
     andThen (seqs (map (Flash_writeStatus wr) [address, 0x03000040, v])) (Flash_checkStatus rd wr)"

definition Flash_readWord :: "'b reader \<Rightarrow> 'b writer \<Rightarrow> u32 \<Rightarrow> ('b, u8 \<times> u8) io" where
  "Flash_readWord rd wr address =
     andThen (seqs (map (Flash_writeStatus wr) [address, 0x030000ff]))
       (bnd (Flash_readStatus rd wr) (\<lambda>stat.
          ret (ucast (drop_bit 8 (stat AND 0xFF00)), ucast (stat AND 0xFF))))"

text \<open>\<^verbatim>\<open>readRange\<close> prints two numbers per word; the numbers are the result.\<close>

fun Flash_readRange :: "'b reader \<Rightarrow> 'b writer \<Rightarrow> u32 \<Rightarrow> nat \<Rightarrow> ('b, (u32 \<times> u32) list) io" where
  "Flash_readRange rd wr addressFlash 0 = ret []"
| "Flash_readRange rd wr addressFlash (Suc n) =
     andThen (seqs (map (Flash_writeStatus wr) [0x01000000 OR addressFlash, 0x030000ff, 0x04000000]))
       (bnd (rd F_IADR) (\<lambda>status. bnd (rd F_LRD) (\<lambda>status2.
        bnd (Flash_readRange rd wr (addressFlash + 1) n) (\<lambda>rest. ret ((status, status2) # rest)))))"

text \<open>The serial number: up to three words from the flash, ended by a zero byte, of which the first
  byte is skipped. \<open>convert\<close> is \<^verbatim>\<open>try_lexical_convert\<close> on the five characters.\<close>

fun serial_words :: "'b reader \<Rightarrow> 'b writer \<Rightarrow> u32 \<Rightarrow> nat \<Rightarrow> ('b, u8 list) io" where
  "serial_words rd wr address 0 = ret []"
| "serial_words rd wr address (Suc n) =
     bnd (Flash_readWord rd wr address) (\<lambda>(a, b).
       if a = 0 \<or> b = 0 then ret [a, b]
       else bnd (serial_words rd wr (address + 1) n) (\<lambda>rest. ret (a # b # rest)))"

definition Crorc_getSerial :: "(u8 list \<Rightarrow> u32 option) \<Rightarrow> 'b reader \<Rightarrow> 'b writer \<Rightarrow> ('b, u32 option) io" where
  "Crorc_getSerial convert rd wr =
     andThen (Flash_init rd wr 0x01470000)
       (bnd (serial_words rd wr (0x01470000 + (33 - 1) div 2) 3) (\<lambda>bytes.
          let chars = take 5 (tl (bytes @ replicate (6 - length bytes) 0))
          in case convert chars of
               None \<Rightarrow> ret None
             | Some number \<Rightarrow>
                 if number = 0xffffffff
                 then throw (Exception ''C-RORC reported invalid serial number 0xffffffff, a fatal error may have occurred'')
                 else ret (Some number)))"


section \<open>Properties\<close>

lemma logi2_scan_spec:
  assumes "n \<le> 32" "uint number < 2 ^ n" "number \<noteq> 0"
  shows "\<exists>r. logi2_scan n number (push_bit (n - 1) 1) (32 - int n) = int r \<and> 2 ^ r \<le> uint number
    \<and> uint number < 2 ^ Suc r"
  using assms
proof (induction n)
  case 0
  then have "uint number < 1" by simp
  then have "uint number = 0" using uint_ge_0[of number] by linarith
  then show ?case using 0 by (simp add: word_uint_eq_iff)
next
  case (Suc n)
  let ?m = "push_bit n 1 :: u32"
  have and_bit: "number AND ?m = (if bit number n then ?m else 0)"
    using Suc.prems(1) by (intro bit_word_eqI) (auto simp: bit_simps)
  have "bit ?m n" using Suc.prems(1) by (simp add: bit_simps)
  then have m0: "?m \<noteq> 0" using bit_0_eq by (metis bot_apply bot_bool_def)
  have d: "uint number div 2 ^ n = 0 \<or> uint number div 2 ^ n = 1"
  proof -
    have "uint number div 2 ^ n < 2"
    proof (rule ccontr)
      assume "\<not> ?thesis"
      then have "2 * 2 ^ n \<le> uint number div 2 ^ n * 2 ^ n" by (intro mult_right_mono) auto
      also have "\<dots> \<le> uint number" using div_mult_mod_eq[of "uint number" "2 ^ n"]
        pos_mod_sign[of "2 ^ n" "uint number"] by (smt (verit) zero_less_power)
      finally show False using Suc.prems(2) by simp
    qed
    moreover have "0 \<le> uint number div 2 ^ n" by (simp add: pos_imp_zdiv_nonneg_iff)
    ultimately show ?thesis by linarith
  qed
  have b: "bit number n \<longleftrightarrow> odd (uint number div 2 ^ n)"
    using Suc.prems(1) by (simp add: bit_uint_iff flip: bit_iff_odd)
  show ?case
  proof (cases "bit number n")
    case True
    then have "uint number div 2 ^ n = 1" using d b by auto
    then have "\<not> uint number < 2 ^ n" using div_pos_pos_trivial[of "uint number" "2 ^ n"] by auto
    then show ?thesis using True and_bit m0 Suc.prems(2) by (intro exI[of _ n]) simp
  next
    case False
    then have "uint number div 2 ^ n = 0" using d b by auto
    then have "uint number = uint number mod 2 ^ n" using div_mult_mod_eq[of "uint number" "2 ^ n"] by simp
    then have lt: "uint number < 2 ^ n" using pos_mod_bound[of "2 ^ n" "uint number"] by simp
    have n0: "n \<noteq> 0"
    proof
      assume "n = 0"
      then have "uint number < 1" using lt by simp
      then have "uint number = 0" using uint_ge_0[of number] by linarith
      then show False using Suc.prems(3) by (simp add: word_uint_eq_iff)
    qed
    have "drop_bit 1 ?m = push_bit (n - 1) 1"
      using n0 Suc.prems(1) by (intro bit_word_eqI) (auto simp: bit_simps)
    then have "logi2_scan (Suc n) number (push_bit (Suc n - 1) 1) (32 - int (Suc n))
        = logi2_scan n number (push_bit (n - 1) 1) (32 - int n)"
      using False and_bit by simp
    then show ?thesis using Suc.IH[OF _ lt Suc.prems(3)] Suc.prems(1) by simp
  qed
qed

lemma logi2_spec:
  assumes "number \<noteq> 0"
  shows "\<exists>r. logi2 number = int r \<and> 2 ^ r \<le> uint number \<and> uint number < 2 ^ Suc r \<and> r < 32"
proof -
  have u: "uint number < 2 ^ 32" using uint_lt2p[of number] by simp
  have m: "(0x80000000 :: u32) = push_bit (32 - 1) 1" by (simp add: push_bit_eq_mult)
  have z: "0 = 32 - int 32" by simp
  obtain r where r: "logi2 number = int r" "2 ^ r \<le> uint number" "uint number < 2 ^ Suc r"
    using logi2_scan_spec[OF order_refl u assms] unfolding logi2_def m z by blast
  have "r < 32"
  proof (rule ccontr)
    assume "\<not> r < 32"
    then have "(2::int) ^ 32 \<le> 2 ^ r" by (intro power_increasing) auto
    then show False using r u by simp
  qed
  then show ?thesis using r by blast
qed


lemma roundPowerOf2_spec:
  assumes "number \<noteq> 0"
  shows "\<exists>r y. roundPowerOf2 number = Inr y \<and> uint y = 2 ^ r \<and> uint y \<le> uint number \<and> uint number < 2 * uint y"
proof -
  obtain r where r: "logi2 number = int r" "2 ^ r \<le> uint number" "uint number < 2 ^ Suc r" "r < 32"
    using logi2_spec[OF assms] by blast
  have "uint (push_bit r 1 :: u32) = 2 ^ r"
  proof -
    have "(2::int) ^ r < 2 ^ 32" using r(4) by (intro power_strict_increasing) auto
    then have "uint (word_of_int (2 ^ r) :: u32) = 2 ^ r" by (intro uint_of_int_small) auto
    then show ?thesis by (simp add: push_bit_eq_mult)
  qed
  then show ?thesis using r by (auto simp: roundPowerOf2_def)
qed

text \<open>The command word has its fields where the answer is expected to have them.\<close>

lemma disjoint_or: "(\<And>n. bit a n \<Longrightarrow> bit b n \<Longrightarrow> False) \<Longrightarrow> a + b = a OR (b :: u32)"
  by (rule disjunctive_add) blast

lemma ddl_command_word_bits:
  assumes "dest \<noteq> -1" "ddl_command_word dest command transid param = (d, com)"
  shows "bit com n \<longleftrightarrow> (if n < 4 then bit (word_of_int dest :: u32) n else if n < 8 then bit command (n - 4)
    else if n < 12 then bit transid (n - 8) else n < 31 \<and> bit param (n - 12))"
proof -
  have m4: "(0xf :: u32) = mask 4" "(0x7ffff :: u32) = mask 19" by (simp_all add: mask_eq_exp_minus_1)
  let ?a = "word_of_int dest AND mask 4 :: u32" and ?b = "push_bit 4 (command AND mask 4)"
    and ?c = "push_bit 8 (transid AND mask 4)" and ?d = "push_bit 12 (param AND mask 19)"
  have bits: "bit ?a n \<longleftrightarrow> n < 4 \<and> bit (word_of_int dest :: u32) n"
    "bit ?b n \<longleftrightarrow> 4 \<le> n \<and> n < 8 \<and> bit command (n - 4)"
    "bit ?c n \<longleftrightarrow> 8 \<le> n \<and> n < 12 \<and> bit transid (n - 8)"
    "bit ?d n \<longleftrightarrow> 12 \<le> n \<and> n < 31 \<and> bit param (n - 12)" for n
    by (auto simp: bit_simps)
  have ab: "?a + ?b = ?a OR ?b" by (rule disjoint_or) (simp only: bits, linarith)
  have abc: "(?a OR ?b) + ?c = ?a OR ?b OR ?c"
    by (subst disjoint_or) (simp_all only: bits bit_or_iff or.assoc, linarith)
  have abcd: "(?a OR ?b OR ?c) + ?d = ?a OR ?b OR ?c OR ?d"
    by (subst disjoint_or) (simp_all only: bits bit_or_iff or.assoc, linarith)
  have com: "com = ?a OR ?b OR ?c OR ?d"
    using assms unfolding ddl_command_word_def Let_def m4 ab abc abcd by auto
  show ?thesis unfolding com bit_or_iff bits by auto
qed

end
