(* ===== verification/Superpage_Pages.thy ===== *)
theory Superpage_Pages
  imports SuperpageQueue Dma_Channel
begin

text \<open>
  Page accounting over a \<^verbatim>\<open>SuperpageQueue\<close>. The C-RORC channel cuts a superpage into pages of one
  size, hands the pages to the card in order and gets them back in order. The invariant below ties
  the counters of the entries (\<open>pushedPages\<close>, \<open>maxPages\<close>, the received bytes) to the three queues and
  to the number of pages that are in the card; the lemmas say how each queue operation of the
  channel (src/RORC/src/Crorc/CrorcDmaChannel.cxx) keeps it.
\<close>

section \<open>One entry\<close>

definition arrivedPages :: "u64 \<Rightarrow> sq_entry \<Rightarrow> int" where
  "arrivedPages ps e = int (unat (sp_received (e_superpage e)) div unat ps)"

definition entry_ok :: "u64 \<Rightarrow> sq_entry \<Rightarrow> bool" where
  "entry_ok ps e \<longleftrightarrow> 0 < e_maxPages e \<and> unat (sp_size (e_superpage e)) = nat (e_maxPages e) * unat ps
     \<and> unat ps dvd unat (sp_received (e_superpage e))
     \<and> arrivedPages ps e \<le> e_pushedPages e \<and> e_pushedPages e \<le> e_maxPages e"

definition in_card :: "u64 \<Rightarrow> sq_entry \<Rightarrow> int" where
  "in_card ps e = e_pushedPages e - arrivedPages ps e"

text \<open>The two updates of an entry: one page pushed, and \<open>m\<close> pages arrived.\<close>

definition entry_push :: "sq_entry \<Rightarrow> sq_entry" where
  "entry_push e = e\<lparr>e_pushedPages := e_pushedPages e + 1\<rparr>"

definition entry_receive :: "u64 \<Rightarrow> sq_entry \<Rightarrow> sq_entry" where
  "entry_receive bytes e = e\<lparr>e_superpage := (e_superpage e)\<lparr>sp_received := sp_received (e_superpage e) + bytes\<rparr>\<rparr>"

definition entry_ready :: "sq_entry \<Rightarrow> sq_entry" where
  "entry_ready e = e\<lparr>e_superpage := (e_superpage e)\<lparr>sp_ready := True\<rparr>\<rparr>"

lemma arrivedPages_nonneg [simp]: "0 \<le> arrivedPages ps e"
  by (simp add: arrivedPages_def)

lemma entry_updates [simp]:
  "e_maxPages (entry_push e) = e_maxPages e" "e_pushedPages (entry_push e) = e_pushedPages e + 1"
  "e_superpage (entry_push e) = e_superpage e" "arrivedPages ps (entry_push e) = arrivedPages ps e"
  "e_maxPages (entry_receive n e) = e_maxPages e" "e_pushedPages (entry_receive n e) = e_pushedPages e"
  "ticket (e_superpage (entry_receive n e)) = ticket (e_superpage e)"
  "e_maxPages (entry_ready e) = e_maxPages e" "e_pushedPages (entry_ready e) = e_pushedPages e"
  "ticket (e_superpage (entry_ready e)) = ticket (e_superpage e)" "arrivedPages ps (entry_ready e) = arrivedPages ps e"
  "sp_ready (e_superpage (entry_ready e))" "sp_received (e_superpage (entry_ready e)) = sp_received (e_superpage e)"
  "sp_size (e_superpage (entry_ready e)) = sp_size (e_superpage e)"
  by (simp_all add: entry_push_def entry_receive_def entry_ready_def arrivedPages_def)

lemma entry_ok_ready [simp]: "entry_ok ps (entry_ready e) = entry_ok ps e"
  by (simp add: entry_ok_def)

lemma entry_ok_push: "entry_ok ps e \<Longrightarrow> e_pushedPages e < e_maxPages e \<Longrightarrow> entry_ok ps (entry_push e)"
  by (simp add: entry_ok_def)

lemma entry_ok_valid: "entry_ok ps e \<Longrightarrow> SuperpageQueue_isValidEntry e"
  using arrivedPages_nonneg[of ps e] unfolding entry_ok_def SuperpageQueue_isValidEntry_def by linarith

lemma entry_ok_receive:
  assumes ok: "entry_ok ps e" and ps: "ps \<noteq> 0" and m: "arrivedPages ps e + int m \<le> e_pushedPages e"
  defines "e' \<equiv> entry_receive (of_nat m * ps) e"
  shows "entry_ok ps e'" "arrivedPages ps e' = arrivedPages ps e + int m"
    "Superpage_isFilled (e_superpage e') \<longleftrightarrow> arrivedPages ps e' = e_maxPages e"
proof -
  let ?P = "unat ps" and ?r = "unat (sp_received (e_superpage e))" and ?M = "nat (e_maxPages e)"
  have P: "0 < ?P" using ps by (simp add: unat_gt_0)
  obtain a where a: "?r = a * ?P" using ok unfolding entry_ok_def by (metis dvd_div_mult_self)
  have arr: "arrivedPages ps e = int a" using P by (simp add: arrivedPages_def a)
  have le: "a + m \<le> ?M" using m ok arr unfolding entry_ok_def by linarith
  have sz: "unat (sp_size (e_superpage e)) = ?M * ?P" using ok by (simp add: entry_ok_def)
  have "?M * ?P < 2 ^ 64" using sz unat_less_exp[of "sp_size (e_superpage e)"] by simp
  then have lt: "(a + m) * ?P < 2 ^ 64" by (rule le_less_trans[OF mult_le_mono1[OF le]])
  have "sp_received (e_superpage e') = of_nat (?r + m * ?P)"
    by (simp add: e'_def entry_receive_def)
  then have "sp_received (e_superpage e') = of_nat ((a + m) * ?P)" by (simp only: a add_mult_distrib)
  then have r': "unat (sp_received (e_superpage e')) = (a + m) * ?P"
    using lt by (intro of_nat_inverse) simp_all
  show arr': "arrivedPages ps e' = arrivedPages ps e + int m" using P r' arr by (simp add: arrivedPages_def)
  show "entry_ok ps e'" using ok m r' arr'
    by (simp add: entry_ok_def e'_def) (simp add: entry_receive_def)
  have "sp_size (e_superpage e') = sp_size (e_superpage e)" by (simp add: e'_def entry_receive_def)
  then have "Superpage_isFilled (e_superpage e') \<longleftrightarrow> (a + m) * ?P = ?M * ?P"
    unfolding Superpage_isFilled_def using r' sz by (metis word_unat_eq_iff)
  then show "Superpage_isFilled (e_superpage e') \<longleftrightarrow> arrivedPages ps e' = e_maxPages e"
    using P arr arr' ok by (auto simp: entry_ok_def)
qed


section \<open>The invariant\<close>

text \<open>\<open>pages_inv ps n q\<close>: the entries count pages of size \<open>ps\<close> and \<open>n\<close> pages are in the card.\<close>

definition pages_inv :: "u64 \<Rightarrow> int \<Rightarrow> sq \<Rightarrow> bool" where
  "pages_inv ps n q \<longleftrightarrow> ps \<noteq> 0 \<and> sq_inv 32 q \<and> suffix (mPushing q) (mArrivals q)
     \<and> (\<forall>i \<in> set (sq_live q). entry_ok ps (mRegistry q ! i))
     \<and> (\<forall>i \<in> set (mArrivals q) - set (mPushing q). e_pushedPages (mRegistry q ! i) = e_maxPages (mRegistry q ! i))
     \<and> (\<forall>i \<in> set (tl (mPushing q)). e_pushedPages (mRegistry q ! i) = 0)
     \<and> (\<forall>i \<in> set (mArrivals q). arrivedPages ps (mRegistry q ! i) < e_maxPages (mRegistry q ! i))
     \<and> (\<forall>i \<in> set (tl (mArrivals q)). arrivedPages ps (mRegistry q ! i) = 0)
     \<and> (\<forall>i \<in> set (mFilled q). sp_ready (e_superpage (mRegistry q ! i)) \<and> Superpage_isFilled (e_superpage (mRegistry q ! i)))
     \<and> n = (\<Sum>i\<leftarrow>mArrivals q. in_card ps (mRegistry q ! i))"

text \<open>Between two calls of \<^verbatim>\<open>fillSuperpages\<close> no entry of the pushing queue is pushed completely.\<close>

definition pushing_open :: "sq \<Rightarrow> bool" where
  "pushing_open q \<longleftrightarrow> (\<forall>i \<in> set (mPushing q). e_pushedPages (mRegistry q ! i) < e_maxPages (mRegistry q ! i))"

definition sq_tickets :: "sq \<Rightarrow> ticket list" where
  "sq_tickets q = map (\<lambda>e. ticket (e_superpage e)) (sq_entries q)"


lemma pages_inv_facts:
  assumes "pages_inv ps n q"
  shows "ps \<noteq> 0" "sq_inv 32 q" "suffix (mPushing q) (mArrivals q)"
    "\<And>i. i \<in> set (sq_live q) \<Longrightarrow> entry_ok ps (mRegistry q ! i)"
    "\<And>i. i \<in> set (mArrivals q) \<Longrightarrow> i \<in> set (sq_live q)" "\<And>i. i \<in> set (mPushing q) \<Longrightarrow> i \<in> set (mArrivals q)"
    "distinct (mArrivals q)" "set (mFilled q) \<inter> set (mArrivals q) = {}"
proof -
  show "ps \<noteq> 0" and inv: "sq_inv 32 q" and sfx: "suffix (mPushing q) (mArrivals q)"
    and "\<And>i. i \<in> set (sq_live q) \<Longrightarrow> entry_ok ps (mRegistry q ! i)"
    using assms by (simp_all add: pages_inv_def)
  show "\<And>i. i \<in> set (mArrivals q) \<Longrightarrow> i \<in> set (sq_live q)" by (simp add: sq_live_def)
  show "\<And>i. i \<in> set (mPushing q) \<Longrightarrow> i \<in> set (mArrivals q)" using sfx set_mono_suffix by blast
  show "distinct (mArrivals q)" "set (mFilled q) \<inter> set (mArrivals q) = {}"
    using sq_inv_facts(1)[OF inv] by (auto simp: sq_live_def)
qed

lemma registry_set:
  assumes "sq_inv M q" "i \<in> set (sq_live q)"
  shows "mRegistry (SuperpageQueue_setEntry i e q) ! j = (if j = i then e else mRegistry q ! j)"
  using sq_inv_facts(3)[OF assms] sq_inv_sizes(3)[OF assms(1)] by (simp add: SuperpageQueue_setEntry_def)

lemma setEntry_queues [simp]:
  "mPushing (SuperpageQueue_setEntry i e q) = mPushing q" "mArrivals (SuperpageQueue_setEntry i e q) = mArrivals q"
  "mFilled (SuperpageQueue_setEntry i e q) = mFilled q" "sq_live (SuperpageQueue_setEntry i e q) = sq_live q"
  by (simp_all add: SuperpageQueue_setEntry_def sq_live_def)

lemma sum_list_replace:
  fixes g :: "'a \<Rightarrow> int"
  assumes "distinct xs" "i \<in> set xs"
  shows "(\<Sum>j\<leftarrow>xs. g (if j = i then e else r j)) = (\<Sum>j\<leftarrow>xs. g (r j)) - g (r i) + g e"
  using assms
proof (induction xs)
  case (Cons x xs)
  have "(\<Sum>j\<leftarrow>xs. g (if j = i then e else r j)) = (\<Sum>j\<leftarrow>xs. g (r j))" if "i \<notin> set xs"
    using that by (intro arg_cong[of _ _ sum_list] map_cong) auto
  then show ?case using Cons by (cases "x = i") auto
qed simp

lemma sq_tickets_set:
  assumes "sq_inv M q" "i \<in> set (sq_live q)" "ticket (e_superpage e) = ticket (e_superpage (mRegistry q ! i))"
  shows "sq_tickets (SuperpageQueue_setEntry i e q) = sq_tickets q"
  using assms(3) by (auto simp: sq_tickets_def sq_entries_def registry_set[OF assms(1,2)])


section \<open>Queue operations of the channel\<close>

lemma pages_clear: "ps \<noteq> 0 \<Longrightarrow> sq_inv 32 q \<Longrightarrow> pages_inv ps 0 (SuperpageQueue_clear q)
    \<and> pushing_open (SuperpageQueue_clear q) \<and> sq_tickets (SuperpageQueue_clear q) = []"
  using sq_inv_clear[of 32 q]
  by (auto simp: pages_inv_def pushing_open_def sq_tickets_def)
    (auto simp: SuperpageQueue_clear_def sq_live_def)

lemma pages_push:
  assumes inv: "pages_inv ps n q" and p: "mPushing q = i # js"
    and room: "e_pushedPages (mRegistry q ! i) < e_maxPages (mRegistry q ! i)"
  defines "q' \<equiv> SuperpageQueue_setEntry i (entry_push (mRegistry q ! i)) q"
  shows "pages_inv ps (n + 1) q'" "sq_tickets q' = sq_tickets q"
proof -
  note f = pages_inv_facts[OF inv]
  have i: "i \<in> set (mArrivals q)" "i \<in> set (sq_live q)" using f(5,6) p by auto
  have ok: "entry_ok ps (entry_push (mRegistry q ! i))" using f(4)[OF i(2)] room by (rule entry_ok_push)
  have sq: "sq_inv 32 q'" unfolding q'_def using f(2) i(2) entry_ok_valid[OF ok] by (rule sq_setEntry)
  have reg: "mRegistry q' ! j = (if j = i then entry_push (mRegistry q ! i) else mRegistry q ! j)" for j
    unfolding q'_def using f(2) i(2) by (rule registry_set)
  have js: "i \<notin> set js" using f(3,7) p by (metis distinct.simps(2) distinct_append suffix_def)
  have "(\<Sum>j\<leftarrow>mArrivals q. in_card ps (mRegistry q' ! j)) = n + 1"
    unfolding reg sum_list_replace[OF f(7) i(1), of "in_card ps"] using inv by (simp add: pages_inv_def in_card_def)
  then show "pages_inv ps (n + 1) q'"
    using inv sq ok js p i f(8) unfolding pages_inv_def reg by (auto simp: q'_def)
  show "sq_tickets q' = sq_tickets q" unfolding q'_def using f(2) i(2) by (rule sq_tickets_set) simp
qed

lemma pages_pushed:
  assumes inv: "pages_inv ps n q" and p: "mPushing q = i # js" and full: "Entry_isPushed (mRegistry q ! i)"
  shows "SuperpageQueue_removeFromPushingQueue q = Inr (i, q\<lparr>mPushing := js\<rparr>)"
    "pages_inv ps n (q\<lparr>mPushing := js\<rparr>)" "sq_tickets (q\<lparr>mPushing := js\<rparr>) = sq_tickets q" "pushing_open (q\<lparr>mPushing := js\<rparr>)"
proof -
  note f = pages_inv_facts[OF inv]
  note r = sq_removeFromPushing[OF f(2) p full]
  show "SuperpageQueue_removeFromPushingQueue q = Inr (i, q\<lparr>mPushing := js\<rparr>)" by (rule r(1))
  have live: "sq_live (q\<lparr>mPushing := js\<rparr>) = sq_live q" by (simp add: sq_live_def)
  have "suffix js (mArrivals q)" using f(3) p by (auto intro: suffix_ConsD)
  then show "pages_inv ps n (q\<lparr>mPushing := js\<rparr>)"
    using inv r(2) p full unfolding pages_inv_def live
    by (auto simp: Entry_isPushed_def dest: in_set_tl)
  show "sq_tickets (q\<lparr>mPushing := js\<rparr>) = sq_tickets q" by (simp add: sq_tickets_def r(3))
  have "\<forall>j \<in> set js. 0 < e_maxPages (mRegistry q ! j) \<and> e_pushedPages (mRegistry q ! j) = 0"
    using inv p f(4-6) by (auto simp: pages_inv_def entry_ok_def)
  then show "pushing_open (q\<lparr>mPushing := js\<rparr>)" by (simp add: pushing_open_def)
qed


text \<open>While pages are in the card, the oldest of them belongs to the front of the arrivals queue.\<close>

lemma pages_front:
  assumes inv: "pages_inv ps n q" and opn: "pushing_open q" and n: "0 < n"
  shows "\<exists>i js. mArrivals q = i # js \<and> arrivedPages ps (mRegistry q ! i) < e_pushedPages (mRegistry q ! i)"
proof -
  note f = pages_inv_facts[OF inv]
  have sum: "n = (\<Sum>j\<leftarrow>mArrivals q. in_card ps (mRegistry q ! j))" using inv by (simp add: pages_inv_def)
  then obtain i js where a: "mArrivals q = i # js" using n by (cases "mArrivals q") auto
  have "arrivedPages ps (mRegistry q ! i) \<noteq> e_pushedPages (mRegistry q ! i)"
  proof
    assume eq: "arrivedPages ps (mRegistry q ! i) = e_pushedPages (mRegistry q ! i)"
    moreover have "arrivedPages ps (mRegistry q ! i) < e_maxPages (mRegistry q ! i)"
      "i \<notin> set (mPushing q) \<Longrightarrow> e_pushedPages (mRegistry q ! i) = e_maxPages (mRegistry q ! i)"
      using inv a by (simp_all add: pages_inv_def)
    ultimately have "i \<in> set (mPushing q)" by fastforce
    then have p: "mPushing q = i # js" using f(3,7) a
      by (metis distinct.simps(2) set_mono_suffix subsetD suffix_Cons)
    have "\<forall>j \<in> set js. in_card ps (mRegistry q ! j) = 0" using inv a p by (simp add: pages_inv_def in_card_def)
    then have "(\<Sum>j\<leftarrow>js. in_card ps (mRegistry q ! j)) = 0" by (simp add: sum_list_0 cong: map_cong)
    then show False using n sum a eq by (simp add: in_card_def)
  qed
  moreover have "arrivedPages ps (mRegistry q ! i) \<le> e_pushedPages (mRegistry q ! i)"
    using f(4,5) a by (simp add: entry_ok_def)
  ultimately show ?thesis using a by auto
qed

lemma setEntry_twice [simp]:
  "SuperpageQueue_setEntry i a (SuperpageQueue_setEntry i b q) = SuperpageQueue_setEntry i a q"
  by (simp add: SuperpageQueue_setEntry_def)

lemma pages_arrive:
  assumes inv: "pages_inv ps n q" and opn: "pushing_open q" and a: "mArrivals q = i # js"
    and m: "arrivedPages ps (mRegistry q ! i) + int m \<le> e_pushedPages (mRegistry q ! i)"
  defines "e' \<equiv> entry_receive (of_nat m * ps) (mRegistry q ! i)"
  defines "q1 \<equiv> SuperpageQueue_setEntry i e' q"
  assumes part: "\<not> Superpage_isFilled (e_superpage e')"
  shows "pages_inv ps (n - int m) q1" "pushing_open q1" "sq_tickets q1 = sq_tickets q"
proof -
  note f = pages_inv_facts[OF inv]
  have i: "i \<in> set (mArrivals q)" "i \<in> set (sq_live q)" using f(5) a by auto
  note r = entry_ok_receive[OF f(4)[OF i(2)] f(1) m, folded e'_def]
  have sq: "sq_inv 32 q1" unfolding q1_def using f(2) i(2) entry_ok_valid[OF r(1)] by (rule sq_setEntry)
  have reg: "mRegistry q1 ! j = (if j = i then e' else mRegistry q ! j)" for j
    unfolding q1_def using f(2) i(2) by (rule registry_set)
  have e': "e_maxPages e' = e_maxPages (mRegistry q ! i)" "e_pushedPages e' = e_pushedPages (mRegistry q ! i)"
    by (simp_all add: e'_def)
  have js: "i \<notin> set js" using f(7) a by simp
  have lt: "arrivedPages ps e' < e_maxPages (mRegistry q ! i)" using part r e' unfolding entry_ok_def by linarith
  have "(\<Sum>j\<leftarrow>mArrivals q. in_card ps (mRegistry q1 ! j)) = n - int m"
    unfolding reg sum_list_replace[OF f(7) i(1), of "in_card ps"]
    using inv r(2) e' by (simp add: pages_inv_def in_card_def)
  then show "pages_inv ps (n - int m) q1"
    using inv sq r(1) e' lt js a i f(8) unfolding pages_inv_def reg by (auto simp: q1_def)
  show "pushing_open q1" using opn e' unfolding pushing_open_def reg by (auto simp: q1_def)
  show "sq_tickets q1 = sq_tickets q" unfolding q1_def using f(2) i(2) by (rule sq_tickets_set) (simp add: e'_def)
qed

lemma pages_complete:
  assumes inv: "pages_inv ps n q" and opn: "pushing_open q" and a: "mArrivals q = i # js"
    and m: "arrivedPages ps (mRegistry q ! i) + int m \<le> e_pushedPages (mRegistry q ! i)"
  defines "e' \<equiv> entry_receive (of_nat m * ps) (mRegistry q ! i)"
  defines "q2 \<equiv> SuperpageQueue_setEntry i (entry_ready e') q"
  assumes fil: "Superpage_isFilled (e_superpage e')"
  shows "\<exists>q3. SuperpageQueue_moveFromArrivalsToFilledQueue 32 q2 = Inr (i, q3) \<and> pages_inv ps (n - int m) q3
    \<and> pushing_open q3 \<and> sq_tickets q3 = sq_tickets q \<and> mPushing q3 = mPushing q"
proof -
  note f = pages_inv_facts[OF inv]
  have i: "i \<in> set (mArrivals q)" "i \<in> set (sq_live q)" using f(5) a by auto
  note r = entry_ok_receive[OF f(4)[OF i(2)] f(1) m, folded e'_def]
  have ok: "entry_ok ps (entry_ready e')" using r(1) by simp
  have sq: "sq_inv 32 q2" unfolding q2_def using f(2) i(2) entry_ok_valid[OF ok] by (rule sq_setEntry)
  have reg: "mRegistry q2 ! j = (if j = i then entry_ready e' else mRegistry q ! j)" for j
    unfolding q2_def using f(2) i(2) by (rule registry_set)
  have qs: "mArrivals q2 = i # js" "mPushing q2 = mPushing q" "mFilled q2 = mFilled q" by (simp_all add: q2_def a)
  let ?q3 = "q2\<lparr>mFilled := mFilled q2 @ [i], mArrivals := js\<rparr>"
  have mv: "SuperpageQueue_moveFromArrivalsToFilledQueue 32 q2 = Inr (i, ?q3)" "sq_inv 32 ?q3"
    "sq_entries ?q3 = sq_entries q2"
    using sq_moveToFilled[OF sq qs(1)] reg[of i] by (simp_all add: Superpage_isReady_def)
  have e': "e_maxPages e' = e_maxPages (mRegistry q ! i)" "e_pushedPages e' = e_pushedPages (mRegistry q ! i)"
    by (simp_all add: e'_def)
  have full: "e_pushedPages (mRegistry q ! i) = e_maxPages (mRegistry q ! i)" "in_card ps (mRegistry q ! i) = int m"
    using fil r e' m unfolding entry_ok_def in_card_def by linarith+
  then have ip: "i \<notin> set (mPushing q)" using opn by (auto simp: pushing_open_def)
  have js: "i \<notin> set js" using f(7) a by simp
  have sfx: "suffix (mPushing q) js"
    using f(3) a ip by (metis list.set_intros(1) suffix_Cons)
  have "(\<Sum>j\<leftarrow>js. in_card ps (mRegistry q2 ! j)) = (\<Sum>j\<leftarrow>js. in_card ps (mRegistry q ! j))"
    using js by (intro arg_cong[of _ _ sum_list] map_cong) (auto simp: reg)
  then have sum: "(\<Sum>j\<leftarrow>js. in_card ps (mRegistry q2 ! j)) = n - int m"
    using inv a full(2) by (simp add: pages_inv_def)
  have fil': "Superpage_isFilled (e_superpage (entry_ready e'))" using fil by (simp add: Superpage_isFilled_def)
  have live: "sq_live ?q3 = sq_live q" by (simp add: sq_live_def q2_def a)
  have "pages_inv ps (n - int m) ?q3"
    using inv mv(2) ok js sfx sum fil' ip a f(8) unfolding pages_inv_def live
    by (auto simp: reg qs dest: in_set_tl)
  moreover have "pushing_open ?q3" using opn ip by (auto simp: pushing_open_def reg qs)
  moreover have "sq_tickets q2 = sq_tickets q"
    unfolding q2_def using f(2) i(2) by (rule sq_tickets_set) (simp add: e'_def)
  ultimately show ?thesis using mv(1,3) qs(2) by (simp add: sq_tickets_def)
qed

text \<open>Adding and removing whole superpages.\<close>

definition fresh_entry :: "u64 \<Rightarrow> sq_entry \<Rightarrow> bool" where
  "fresh_entry ps e \<longleftrightarrow> entry_ok ps e \<and> e_pushedPages e = 0"

lemma pages_add:
  assumes inv: "pages_inv ps n q" and opn: "pushing_open q" and e: "fresh_entry ps e"
    and space: "length (sq_entries q) < 32"
  shows "\<exists>q'. SuperpageQueue_addToQueue 32 e q = Inr (mNextId q, q') \<and> pages_inv ps n q' \<and> pushing_open q'
    \<and> sq_tickets q' = sq_tickets q @ [ticket (e_superpage e)] \<and> length (sq_entries q') = Suc (length (sq_entries q))
    \<and> mFilled q' = mFilled q"
proof -
  note f = pages_inv_facts[OF inv]
  let ?i = "mNextId q"
  have ok: "entry_ok ps e" "e_pushedPages e = 0" using e by (simp_all add: fresh_entry_def)
  have arr: "arrivedPages ps e = 0" "0 < e_maxPages e"
    using ok arrivedPages_nonneg[of ps e] unfolding entry_ok_def by linarith+
  obtain q' where add: "SuperpageQueue_addToQueue 32 e q = Inr (?i, q')" "sq_inv 32 q'"
      "sq_entries q' = sq_entries q @ [e]" "mPushing q' = mPushing q @ [?i]" "mArrivals q' = mArrivals q @ [?i]"
      "mFilled q' = mFilled q"
    using sq_add[OF f(2) space entry_ok_valid[OF ok(1)]] by blast
  have live: "sq_live q' = sq_live q @ [?i]" using add by (simp add: sq_live_def)
  have new: "mRegistry q' ! ?i = e" and old: "\<And>j. j \<in> set (sq_live q) \<Longrightarrow> mRegistry q' ! j = mRegistry q ! j"
    using add(3) live by (simp_all add: sq_entries_def)
  have fresh: "?i \<notin> set (sq_live q)" using sq_inv_facts(1)[OF add(2)] live by simp
  have oldA: "\<And>j. j \<in> set (mArrivals q) \<Longrightarrow> mRegistry q' ! j = mRegistry q ! j"
    and oldP: "\<And>j. j \<in> set (mPushing q) \<Longrightarrow> mRegistry q' ! j = mRegistry q ! j"
    and oldF: "\<And>j. j \<in> set (mFilled q) \<Longrightarrow> mRegistry q' ! j = mRegistry q ! j"
    using old f(5,6) by (auto simp: sq_live_def)
  have tlA: "set (tl (mArrivals q')) \<subseteq> insert ?i (set (tl (mArrivals q)))"
    and tlP: "set (tl (mPushing q')) \<subseteq> insert ?i (set (tl (mPushing q)))"
    using add by (cases "mArrivals q"; cases "mPushing q"; auto)+
  have sum: "(\<Sum>j\<leftarrow>mArrivals q'. in_card ps (mRegistry q' ! j)) = n"
    using inv oldA new arr ok(2) by (simp add: add pages_inv_def in_card_def cong: map_cong)
  have tl0: "\<And>j. j \<in> set (tl (mArrivals q)) \<Longrightarrow> arrivedPages ps (mRegistry q ! j) = 0"
    "\<And>j. j \<in> set (tl (mPushing q)) \<Longrightarrow> e_pushedPages (mRegistry q ! j) = 0"
    using inv by (simp_all add: pages_inv_def)
  have "\<forall>j \<in> set (tl (mArrivals q')). arrivedPages ps (mRegistry q' ! j) = 0"
    using tlA new arr oldA in_set_tl[of _ "mArrivals q"] tl0(1) by (metis insertE subsetD)
  moreover have "\<forall>j \<in> set (tl (mPushing q')). e_pushedPages (mRegistry q' ! j) = 0"
    using tlP new ok oldP in_set_tl[of _ "mPushing q"] tl0(2) by (metis insertE subsetD)
  moreover have "\<forall>j \<in> set (sq_live q'). entry_ok ps (mRegistry q' ! j)" using live old new ok f(4) by auto
  moreover have "\<forall>j \<in> set (mArrivals q') - set (mPushing q').
      e_pushedPages (mRegistry q' ! j) = e_maxPages (mRegistry q' ! j)"
    using inv oldA by (auto simp: add pages_inv_def)
  moreover have "\<forall>j \<in> set (mArrivals q'). arrivedPages ps (mRegistry q' ! j) < e_maxPages (mRegistry q' ! j)"
    using inv oldA new arr by (auto simp: add pages_inv_def)
  moreover have "\<forall>j \<in> set (mFilled q'). sp_ready (e_superpage (mRegistry q' ! j))
      \<and> Superpage_isFilled (e_superpage (mRegistry q' ! j))"
    using inv oldF by (auto simp: add pages_inv_def)
  moreover have "suffix (mPushing q') (mArrivals q')" using f(3) by (simp add: add)
  ultimately have "pages_inv ps n q'" using f(1) add(2) sum unfolding pages_inv_def by simp
  moreover have "pushing_open q'" using opn oldP new arr ok by (auto simp: pushing_open_def add)
  ultimately show ?thesis using add by (simp add: sq_tickets_def)
qed

lemma pages_remove:
  assumes inv: "pages_inv ps n q" and opn: "pushing_open q" and fl: "mFilled q = i # js"
  shows "\<exists>q'. SuperpageQueue_removeFromFilledQueue q = Inr (mRegistry q ! i, q') \<and> pages_inv ps n q'
    \<and> pushing_open q' \<and> sq_tickets q = ticket (e_superpage (mRegistry q ! i)) # sq_tickets q'
    \<and> sp_ready (e_superpage (mRegistry q ! i)) \<and> Superpage_isFilled (e_superpage (mRegistry q ! i))
    \<and> mFilled q' = js"
proof -
  note f = pages_inv_facts[OF inv]
  have "length (mPushing q) \<le> length (mArrivals q)" using f(3) by (rule suffix_length_le)
  then have "length (mPushing q) < length (sq_live q)" using fl by (simp add: sq_live_def)
  then obtain q' where rm: "SuperpageQueue_removeFromFilledQueue q = Inr (mRegistry q ! i, q')" "sq_inv 32 q'"
      "sq_entries q = mRegistry q ! i # sq_entries q'" "mPushing q' = mPushing q" "mArrivals q' = mArrivals q"
      "mFilled q' = js"
    using sq_removeFromFilled[OF f(2) fl] by blast
  have live: "sq_live q = i # sq_live q'" using rm fl by (simp add: sq_live_def)
  have old: "\<And>j. j \<in> set (sq_live q') \<Longrightarrow> mRegistry q' ! j = mRegistry q ! j"
    using rm(3) live by (simp add: sq_entries_def)
  have oldA: "\<And>j. j \<in> set (mArrivals q) \<Longrightarrow> mRegistry q' ! j = mRegistry q ! j"
    and oldF: "\<And>j. j \<in> set js \<Longrightarrow> mRegistry q' ! j = mRegistry q ! j"
    and oldT: "\<And>j. j \<in> set (tl (mArrivals q)) \<Longrightarrow> mRegistry q' ! j = mRegistry q ! j"
      "\<And>j. j \<in> set (tl (mPushing q)) \<Longrightarrow> mRegistry q' ! j = mRegistry q ! j"
    using old rm f(6) by (auto simp: sq_live_def dest: in_set_tl)
  have sum: "(\<Sum>j\<leftarrow>mArrivals q. in_card ps (mRegistry q' ! j)) = n"
    using inv oldA by (simp add: pages_inv_def cong: map_cong)
  have "pages_inv ps n q'"
    using inv oldA oldF oldT old live rm(2) sum unfolding pages_inv_def by (auto simp: rm(4-6) fl)
  moreover have "pushing_open q'" using opn oldA f(6) by (simp add: pushing_open_def rm)
  ultimately show ?thesis using rm inv fl by (simp add: sq_tickets_def pages_inv_def)
qed

end
