(* ===== verification/CrorcDmaChannel.thy ===== *)
theory CrorcDmaChannel
  imports Crorc Superpage_Pages
begin

text \<open>
  The DMA channel of the C-RORC card (src/RORC/src/Crorc/CrorcDmaChannel.cxx). The card has a FIFO of 128 page
  descriptors; the driver splits each superpage into pages, pushes them into that FIFO, and finds
  completed pages in the "ready FIFO", a table in memory that the card writes. The bookkeeping of
  superpages is \<open>SuperpageQueue\<close> with 32 entries.

  The card, the memory it writes, and the clock are the record \<open>card\<close>: register access on both BARs,
  the two fields of an entry of the ready FIFO, the reset of an entry, a store into the DMA buffer,
  and the timing values of \<open>Crorc\<close>. All of it acts on the state \<open>'b\<close>, of which nothing is assumed.
  The asserts are compiled in. A \<^verbatim>\<open>SuperpageQueueEntry&\<close> is the index of the entry in the registry.
\<close>

record 'b card =
  rd :: "'b reader"
  wr :: "'b writer"
  wr2 :: "'b writer"
  rfLength :: "int \<Rightarrow> ('b, u32) io"
  rfStatus :: "int \<Rightarrow> ('b, u32) io"
  rfReset :: "int \<Rightarrow> ('b, unit) io"
  memWrite :: "u64 \<Rightarrow> u32 \<Rightarrow> ('b, unit) io"
  convertSerial :: "u8 list \<Rightarrow> u32 option"
  fifoPolls :: nat
  elapsedUs :: rat

record 'b crorc =
  mFifoBack :: int
  mFifoSize :: int
  mSuperpageQueue :: sq
  mPendingDmaStart :: bool
  mPageSize :: u64
  mDmaBufferUserspace :: u64
  mReadyFifoAddressBus :: u64
  crorc_mLoopbackMode :: loopback_mode
  crorc_mGeneratorEnabled :: bool
  crorc_mGeneratorPattern :: generator_pattern
  crorc_mGeneratorDataSize :: u64
  mGeneratorSeed :: int
  mUseContinuousReadout :: bool
  mNoRDYRX :: bool
  mDiuConfig :: diu_config
  crorc_bufferSize :: u64
  crorc_sgl :: "sg_entry list"
  crorc_hw :: 'b

definition MAX_SUPERPAGES :: nat where "MAX_SUPERPAGES = 32"
definition READYFIFO_ENTRIES :: int where "READYFIFO_ENTRIES = 128"

abbreviation FIFO_QUEUE_MAX :: int where
  "FIFO_QUEUE_MAX \<equiv> READYFIFO_ENTRIES"

definition onCard :: "('b, 'a) io \<Rightarrow> ('b crorc, 'a) io" where
  "onCard m c = (case m (crorc_hw c) of (r, b) \<Rightarrow> (r, c\<lparr>crorc_hw := b\<rparr>))"

definition onQueue :: "(sq \<Rightarrow> ('a \<times> sq) res) \<Rightarrow> ('b crorc, 'a) io" where
  "onQueue f c = (case f (mSuperpageQueue c) of Inl e \<Rightarrow> (Inl e, c) | Inr (x, q) \<Rightarrow> (Inr x, c\<lparr>mSuperpageQueue := q\<rparr>))"

definition update :: "('b crorc \<Rightarrow> 'b crorc) \<Rightarrow> ('b crorc, unit) io" where
  "update f c = (Inr (), f c)"

text \<open>Assignment through a reference to the entry with index \<open>i\<close>.\<close>

definition updEntry :: "nat \<Rightarrow> (sq_entry \<Rightarrow> sq_entry) \<Rightarrow> ('b crorc, unit) io" where
  "updEntry i f = update (\<lambda>c. c\<lparr>mSuperpageQueue :=
     SuperpageQueue_setEntry i (f (mRegistry (mSuperpageQueue c) ! i)) (mSuperpageQueue c)\<rparr>)"

definition entry :: "'b crorc \<Rightarrow> nat \<Rightarrow> sq_entry" where
  "entry c i = mRegistry (mSuperpageQueue c) ! i"


section \<open>Pages\<close>

datatype arrival = NoneArrived | PartArrived | WholeArrived

definition CrorcDmaChannel_dataArrived :: "'b card \<Rightarrow> int \<Rightarrow> ('b crorc, arrival) io" where
  "CrorcDmaChannel_dataArrived k index =
     bnd (onCard (rfLength k index)) (\<lambda>len.
     bnd (onCard (rfStatus k index)) (\<lambda>status.
       if status = - 1 then ret NoneArrived
       else if status = 0 then ret PartArrived
       else if status AND 0xff = 0x82
       then if status AND 0x80000000 \<noteq> 0
            then throw (CrorcDataArrivalException ''Data arrival status word contains error bits'')
            else ret WholeArrived
       else throw (CrorcDataArrivalException ''Unrecognized data arrival status word'')))"

definition CrorcDmaChannel_getFifoFront :: "'b crorc \<Rightarrow> int" where
  "CrorcDmaChannel_getFifoFront c = (mFifoBack c + mFifoSize c) mod READYFIFO_ENTRIES"

definition CrorcDmaChannel_getNextSuperpageBusAddress :: "u64 \<Rightarrow> sq_entry \<Rightarrow> u64" where
  "CrorcDmaChannel_getNextSuperpageBusAddress pageSize e = e_busAddress e + pageSize * word_of_int (e_pushedPages e)"

definition CrorcDmaChannel_pushFreeFifoPage :: "'b card \<Rightarrow> int \<Rightarrow> u64 \<Rightarrow> ('b crorc, unit) io" where
  "CrorcDmaChannel_pushFreeFifoPage k readyFifoIndex pageBusAddress c =
     (let pageWords = mPageSize c div 4
      in onCard (Crorc_pushRxFreeFifo (wr k) pageBusAddress (ucast pageWords) (word_of_int readyFifoIndex)) c)"

definition CrorcDmaChannel_pushIntoSuperpage :: "'b card \<Rightarrow> nat \<Rightarrow> ('b crorc, unit) io" where
  "CrorcDmaChannel_pushIntoSuperpage k i c =
     (if \<not> mFifoSize c < FIFO_QUEUE_MAX then (Inl AssertionFailed, c)
      else if \<not> e_pushedPages (entry c i) < e_maxPages (entry c i) then (Inl AssertionFailed, c)
      else seqs [CrorcDmaChannel_pushFreeFifoPage k (CrorcDmaChannel_getFifoFront c)
                   (CrorcDmaChannel_getNextSuperpageBusAddress (mPageSize c) (entry c i)),
                 update (\<lambda>c. c\<lparr>mFifoSize := mFifoSize c + 1\<rparr>),
                 updEntry i (\<lambda>e. e\<lparr>e_pushedPages := e_pushedPages e + 1\<rparr>)] c)"

fun push_pages :: "'b card \<Rightarrow> nat \<Rightarrow> nat \<Rightarrow> ('b crorc, unit) io" where
  "push_pages k i 0 = ret ()"
| "push_pages k i (Suc n) = andThen (CrorcDmaChannel_pushIntoSuperpage k i) (push_pages k i n)"

text \<open>The loop of \<^verbatim>\<open>startPendingDma\<close> resets the ready FIFO entries as it goes.\<close>

fun push_initial_pages :: "'b card \<Rightarrow> nat \<Rightarrow> int \<Rightarrow> nat \<Rightarrow> ('b crorc, unit) io" where
  "push_initial_pages k i j 0 = ret ()"
| "push_initial_pages k i j (Suc n) =
     andThen (onCard (rfReset k j))
       (andThen (CrorcDmaChannel_pushIntoSuperpage k i) (push_initial_pages k i (j + 1) n))"

definition ReadyFifo_reset :: "'b card \<Rightarrow> ('b crorc, unit) io" where
  "ReadyFifo_reset k = seqs (map (\<lambda>j. onCard (rfReset k j)) [0..READYFIFO_ENTRIES - 1])"


section \<open>Starting and stopping\<close>

definition CrorcDmaChannel_deviceStartDma :: "('b crorc, unit) io" where
  "CrorcDmaChannel_deviceStartDma c = (Inr (), c\<lparr>mFifoBack := 0, mFifoSize := 0,
     mSuperpageQueue := SuperpageQueue_clear (mSuperpageQueue c), mPendingDmaStart := True\<rparr>)"

definition CrorcDmaChannel_startDataGenerator :: "'b card \<Rightarrow> ('b crorc, unit) io" where
  "CrorcDmaChannel_startDataGenerator k c =
     seqs [whenM (crorc_mLoopbackMode c = LoopNone) (onCard (Crorc_startTrigger (rd k) (wr k) (mDiuConfig c))),
           andThen (onCard (Crorc_armDataGenerator (wr k) 0 0 (crorc_mGeneratorPattern c)
             (sint (ucast (crorc_mGeneratorDataSize c) :: u32)) (mGeneratorSeed c))) (ret ()),
           whenM (crorc_mLoopbackMode c = LoopInternal) (onCard (Crorc_setLoopbackOn (rd k) (wr k))),
           whenM (crorc_mLoopbackMode c = LoopSiu)
             (seqs [onCard (Crorc_setSiuLoopback (rd k) (wr k) (mDiuConfig c)), onCard (Crorc_assertLinkUp (rd k)),
                    onCard (Crorc_siuCommand (rd k) (wr k) 0), onCard (Crorc_diuCommand (rd k) (wr k) 0)]),
           onCard (Crorc_startDataGenerator (wr k) 0)] c"

text \<open>The handler in \<^verbatim>\<open>deviceResetChannel\<close> adds information to the exception and throws it again.\<close>

definition CrorcDmaChannel_deviceResetChannel :: "'b card \<Rightarrow> reset_level \<Rightarrow> ('b crorc, unit) io" where
  "CrorcDmaChannel_deviceResetChannel k resetLevel c =
     (if resetLevel = ResetNothing then (Inr (), c)
      else
        let reset = (\<lambda>r. onCard (Crorc_resetCommand (rd k) (wr k) (mDiuConfig c) r));
            arm = (\<lambda>r. onCard (Crorc_armDdl (rd k) (wr k) (fifoPolls k) (mDiuConfig c) r))
        in seqs
          [whenM (resetLevel = ResetInternal) (andThen (reset 1) (reset 2)),
           whenM (LoopbackMode_isExternal (crorc_mLoopbackMode c))
             (seqs [arm 4,
                    whenM (resetLevel = ResetInternalDiuSiu \<and> crorc_mLoopbackMode c \<noteq> LoopDiu)
                      (andThen (arm 8) (arm 4)),
                    arm 2])] c)"

definition CrorcDmaChannel_startDataReceiving :: "'b card \<Rightarrow> ('b crorc, unit) io" where
  "CrorcDmaChannel_startDataReceiving k c =
     seqs [andThen (onCard (Crorc_initDiuVersion (rd k) (elapsedUs k))) (ret ()),
           whenM (crorc_mLoopbackMode c = LoopSiu)
             (seqs [CrorcDmaChannel_deviceResetChannel k ResetInternalDiuSiu, onCard (Crorc_assertLinkUp (rd k)),
                    onCard (Crorc_siuCommand (rd k) (wr k) 0), onCard (Crorc_diuCommand (rd k) (wr k) 0)]),
           onCard (Crorc_resetCommand (rd k) (wr k) (mDiuConfig c) 1),
           onCard (Crorc_assertFreeFifoEmpty (rd k)),
           onCard (Crorc_startDataReceiver (rd k) (wr k) (mReadyFifoAddressBus c))] c"

definition CrorcDmaChannel_deviceStopDma :: "'b card \<Rightarrow> ('b crorc, unit) io" where
  "CrorcDmaChannel_deviceStopDma k c =
     (if crorc_mGeneratorEnabled c
      then seqs [CrorcDmaChannel_startDataGenerator k, onCard (Crorc_stopDataGenerator (wr k)),
                 onCard (Crorc_stopDataReceiver (rd k) (wr k))] c
      else whenM (\<not> mNoRDYRX c) (onCard (Crorc_stopTrigger (rd k) (wr k) (mDiuConfig c))) c)"

text \<open>The card preparation of \<^verbatim>\<open>startPendingDma\<close>, before and after the initial pages are pushed.\<close>

definition pending_prepare :: "'b card \<Rightarrow> ('b crorc, unit) io" where
  "pending_prepare k c =
     seqs [whenM (mUseContinuousReadout c) (onCard (Crorc_initReadoutContinuous (wr2 k))),
           bnd (onCard (Crorc_initDiuVersion (rd k) (elapsedUs k))) (\<lambda>cfg. update (\<lambda>c. c\<lparr>mDiuConfig := cfg\<rparr>)),
           CrorcDmaChannel_deviceResetChannel k ResetInternal,
           CrorcDmaChannel_startDataReceiving k] c"

definition pending_generate :: "'b card \<Rightarrow> ('b crorc, unit) io" where
  "pending_generate k c =
     (if crorc_mGeneratorEnabled c then CrorcDmaChannel_startDataGenerator k
      else whenM (\<not> mNoRDYRX c)
        (seqs [onCard (Crorc_assertLinkUp (rd k)), onCard (Crorc_siuCommand (rd k) (wr k) 0),
               onCard (Crorc_diuCommand (rd k) (wr k) 0), onCard (Crorc_startTrigger (rd k) (wr k) (mDiuConfig c))])) c"

definition CrorcDmaChannel_startPendingDma :: "'b card \<Rightarrow> nat \<Rightarrow> ('b crorc, unit) io" where
  "CrorcDmaChannel_startPendingDma k i c =
     (if \<not> mPendingDmaStart c then (Inr (), c)
      else seqs
        [pending_prepare k,
         push_initial_pages k i 0 (nat READYFIFO_ENTRIES),
         (\<lambda>c. if \<not> e_pushedPages (entry c i) \<le> e_maxPages (entry c i) then (Inl AssertionFailed, c)
              else if e_pushedPages (entry c i) = e_maxPages (entry c i)
              then andThen (onQueue SuperpageQueue_removeFromPushingQueue) (ret ()) c
              else (Inr (), c)),
         pending_generate k,
         andThen (CrorcDmaChannel_dataArrived k (READYFIFO_ENTRIES - 1)) (ret ()),
         (\<lambda>c. updEntry i (\<lambda>e. e\<lparr>e_superpage := (e_superpage e)\<lparr>sp_received :=
                 sp_received (e_superpage e) + word_of_int READYFIFO_ENTRIES * mPageSize c\<rparr>\<rparr>) c),
         (\<lambda>c. if sp_received (e_superpage (entry c i)) = sp_size (e_superpage (entry c i))
              then andThen (updEntry i (\<lambda>e. e\<lparr>e_superpage := (e_superpage e)\<lparr>sp_ready := True\<rparr>\<rparr>))
                     (andThen (onQueue (SuperpageQueue_moveFromArrivalsToFilledQueue MAX_SUPERPAGES)) (ret ())) c
              else (Inr (), c)),
         ReadyFifo_reset k,
         update (\<lambda>c. c\<lparr>mFifoBack := 0, mFifoSize := 0, mPendingDmaStart := False\<rparr>),
         (\<lambda>c. whenM (mUseContinuousReadout c) (onCard (Crorc_startReadoutContinuous (wr2 k))) c)] c)"


section \<open>The channel interface\<close>

definition CrorcDmaChannel_getTransferQueueAvailable :: "'b crorc \<Rightarrow> int" where
  "CrorcDmaChannel_getTransferQueueAvailable c = SuperpageQueue_getQueueAvailable MAX_SUPERPAGES (mSuperpageQueue c)"

definition CrorcDmaChannel_getReadyQueueSize :: "'b crorc \<Rightarrow> int" where
  "CrorcDmaChannel_getReadyQueueSize c = int (length (mFilled (mSuperpageQueue c)))"

definition CrorcDmaChannel_getSuperpage :: "('b crorc, superpage) io" where
  "CrorcDmaChannel_getSuperpage c = (SuperpageQueue_getFrontSuperpage (mSuperpageQueue c), c)"

definition CrorcDmaChannel_popSuperpage :: "('b crorc, superpage) io" where
  "CrorcDmaChannel_popSuperpage = bnd (onQueue SuperpageQueue_removeFromFilledQueue) (\<lambda>e. ret (e_superpage e))"

definition CrorcDmaChannel_pushSuperpage :: "superpage \<Rightarrow> ('b crorc, unit) io" where
  "CrorcDmaChannel_pushSuperpage s c =
     (case checkSuperpage (crorc_bufferSize c) s of
        Inl e \<Rightarrow> (Inl e, c)
      | Inr _ \<Rightarrow>
          if \<not> isMultiple (sp_size s) (1 * 1024 * 1024)
          then (Inl (CrorcException ''Could not enqueue superpage, C-RORC backend requires superpage size multiple of 1 MiB''), c)
          else case PdaDmaBuffer_getBusOffsetAddress (crorc_sgl c) (sp_offset s) of
              Inl e \<Rightarrow> (Inl e, c)
            | Inr busAddress \<Rightarrow>
                andThen (onQueue (SuperpageQueue_addToQueue MAX_SUPERPAGES
                  \<lparr>e_superpage = s\<lparr>sp_received := 0\<rparr>, e_busAddress = busAddress, e_pushedPages = 0,
                   e_maxPages = sint (ucast (sp_size s div mPageSize c) :: u32)\<rparr>)) (ret ()) c)"

definition writeSdhEventSize :: "'b card \<Rightarrow> u64 \<Rightarrow> u32 \<Rightarrow> ('b crorc, unit) io" where
  "writeSdhEventSize k pageAddress eventSize =
     (let a = pageAddress + 16
      in seqs [onCard (memWrite k a 0), onCard (memWrite k (a + 4) 0), onCard (memWrite k (a + 8) 0),
               onCard (memWrite k (a + 12) eventSize)])"

text \<open>One pass of the loop over arrived pages, for the entry at the front of the arrivals queue.\<close>

definition handle_arrived_page :: "'b card \<Rightarrow> nat \<Rightarrow> ('b crorc, unit) io" where
  "handle_arrived_page k i =
     seqs [(\<lambda>c. bnd (onCard (rfLength k (mFifoBack c))) (\<lambda>len.
              writeSdhEventSize k (mDmaBufferUserspace c + sp_offset (e_superpage (entry c i))
                + sp_received (e_superpage (entry c i))) (len * 4)) c),
           (\<lambda>c. onCard (rfReset k (mFifoBack c)) c),
           update (\<lambda>c. c\<lparr>mFifoSize := mFifoSize c - 1, mFifoBack := (mFifoBack c + 1) mod READYFIFO_ENTRIES\<rparr>),
           (\<lambda>c. updEntry i (\<lambda>e. e\<lparr>e_superpage := (e_superpage e)\<lparr>sp_received :=
                   sp_received (e_superpage e) + mPageSize c\<rparr>\<rparr>) c),
           (\<lambda>c. if Superpage_isFilled (e_superpage (entry c i))
                then andThen (updEntry i (\<lambda>e. e\<lparr>e_superpage := (e_superpage e)\<lparr>sp_ready := True\<rparr>\<rparr>))
                       (andThen (onQueue (SuperpageQueue_moveFromArrivalsToFilledQueue MAX_SUPERPAGES)) (ret ())) c
                else (Inr (), c))]"

text \<open>\<^verbatim>\<open>while (mFifoSize > 0)\<close>. Every pass that does not leave the loop takes one page off, so the size
  at the start bounds the number of passes.\<close>

fun arrivals_loop :: "'b card \<Rightarrow> nat \<Rightarrow> ('b crorc, unit) io" where
  "arrivals_loop k 0 c = (Inr (), c)"
| "arrivals_loop k (Suc n) c =
     (if \<not> mFifoSize c > 0 then (Inr (), c)
      else case SuperpageQueue_getArrivalsFrontEntry (mSuperpageQueue c) of
          Inl e \<Rightarrow> (Inl e, c)
        | Inr (i, _) \<Rightarrow>
            bnd (CrorcDmaChannel_dataArrived k (mFifoBack c)) (\<lambda>a.
              if a = WholeArrived then andThen (handle_arrived_page k i) (arrivals_loop k n) else ret ()) c)"

definition CrorcDmaChannel_fillSuperpages :: "'b card \<Rightarrow> ('b crorc, unit) io" where
  "CrorcDmaChannel_fillSuperpages k =
     seqs [(\<lambda>c. if mPushing (mSuperpageQueue c) = [] then (Inr (), c)
                else case SuperpageQueue_getPushingFrontEntry (mSuperpageQueue c) of
                    Inl e \<Rightarrow> (Inl e, c)
                  | Inr (i, e) \<Rightarrow>
                      if mPendingDmaStart c then CrorcDmaChannel_startPendingDma k i c
                      else
                        let possibleToPush = min (FIFO_QUEUE_MAX - mFifoSize c) (Entry_getUnpushedPages e)
                        in andThen (push_pages k i (nat possibleToPush))
                             (\<lambda>c. if Entry_isPushed (entry c i)
                                  then andThen (onQueue SuperpageQueue_removeFromPushingQueue) (ret ()) c
                                  else (Inr (), c)) c),
           (\<lambda>c. if mArrivals (mSuperpageQueue c) = [] then (Inr (), c)
                else arrivals_loop k (nat (mFifoSize c)) c)]"

definition CrorcDmaChannel_getFirmwareInfo :: "'b card \<Rightarrow> ('b crorc, u32 \<times> u32 \<times> u32 \<times> u32 \<times> u32) io" where
  "CrorcDmaChannel_getFirmwareInfo k =
     bnd (onCard (rd k 2)) (\<lambda>version.
     bnd (liftR (getBits version 24 31)) (\<lambda>reserved.
     bnd (liftR (getBits version 20 23)) (\<lambda>major.
     bnd (liftR (getBits version 13 19)) (\<lambda>minor.
     bnd (liftR (getBits version 9 12)) (\<lambda>year.
     bnd (liftR (getBits version 5 8)) (\<lambda>month.
     bnd (liftR (getBits version 0 4)) (\<lambda>day.
       if reserved \<noteq> 2 then throw (CrorcException ''Static field of version register did not equal 0x2'')
       else ret (major, minor, year + 2000, month, day))))))))"


section \<open>Card access leaves the bookkeeping alone\<close>

definition same_books :: "'b crorc \<Rightarrow> 'b crorc \<Rightarrow> bool" where
  "same_books c c' \<longleftrightarrow> mFifoBack c' = mFifoBack c \<and> mFifoSize c' = mFifoSize c
     \<and> mSuperpageQueue c' = mSuperpageQueue c \<and> mPendingDmaStart c' = mPendingDmaStart c \<and> mPageSize c' = mPageSize c"

definition keeps :: "('b crorc, 'a) io \<Rightarrow> bool" where
  "keeps m \<longleftrightarrow> (\<forall>c. same_books c (snd (m c)))"

lemma keepsD: "keeps m \<Longrightarrow> m c = (r, c') \<Longrightarrow> same_books c c'"
  by (metis keeps_def snd_conv)

lemma same_books_trans: "same_books a b \<Longrightarrow> same_books b c \<Longrightarrow> same_books a c"
  by (simp add: same_books_def)

lemma keeps_ret [simp]: "keeps (ret x)"
  by (simp add: keeps_def ret_def same_books_def)

lemma keeps_throw [simp]: "keeps (throw e)"
  by (simp add: keeps_def throw_def same_books_def)

lemma keeps_onCard [simp]: "keeps (onCard m)"
  by (simp add: keeps_def onCard_def same_books_def split: prod.split)

lemma keeps_bnd [intro]:
  assumes "keeps m" "\<And>x. keeps (f x)"
  shows "keeps (bnd m f)"
  unfolding keeps_def
proof
  fix c
  obtain r d where m: "m c = (r, d)" by fastforce
  then have "same_books c d" by (rule keepsD[OF assms(1)])
  then show "same_books c (snd (bnd m f c))"
    using m assms(2) same_books_trans[of c d] by (cases r) (auto simp: bnd_def keeps_def)
qed

lemma keeps_andThen [intro]: "keeps m \<Longrightarrow> keeps n \<Longrightarrow> keeps (andThen m n)"
  by (simp add: andThen_def keeps_bnd)

lemma keeps_whenM [intro]: "keeps m \<Longrightarrow> keeps (whenM b m)"
  by (simp add: whenM_def)

lemma keeps_if [intro]: "keeps m \<Longrightarrow> keeps n \<Longrightarrow> keeps (if b then m else n)"
  by simp

lemma keeps_seqs [intro]: "(\<And>m. m \<in> set ms \<Longrightarrow> keeps m) \<Longrightarrow> keeps (seqs ms)"
  by (induction ms) auto

lemma keeps_diu [simp]: "keeps (update (\<lambda>c. c\<lparr>mDiuConfig := cfg\<rparr>))"
  by (simp add: keeps_def update_def same_books_def)

lemma keepsI: "(\<And>c. same_books c (snd (f c))) \<Longrightarrow> keeps f"
  by (simp add: keeps_def)

lemma books_seqs: "(\<And>m. m \<in> set ms \<Longrightarrow> keeps m) \<Longrightarrow> same_books c (snd (seqs ms c))"
  using keeps_seqs[of ms] by (simp add: keeps_def)

lemma books_whenM: "keeps m \<Longrightarrow> same_books c (snd (whenM b m c))"
  using keeps_whenM[of m b] by (simp add: keeps_def)

lemma books_keeps: "keeps m \<Longrightarrow> same_books c (snd (m c))"
  by (simp add: keeps_def)

lemma books_refl [simp]: "same_books c c"
  by (simp add: same_books_def)

lemmas keeps_intros = keeps_seqs keeps_whenM keeps_andThen keeps_bnd keeps_if

lemma keeps_dataArrived [simp]: "keeps (CrorcDmaChannel_dataArrived k i)"
  unfolding CrorcDmaChannel_dataArrived_def by (intro keeps_intros keeps_onCard keeps_ret keeps_throw)

lemma keeps_pushFreeFifoPage [simp]: "keeps (CrorcDmaChannel_pushFreeFifoPage k i a)"
  by (rule keepsI) (simp add: CrorcDmaChannel_pushFreeFifoPage_def Let_def books_keeps)

lemma keeps_writeSdh [simp]: "keeps (writeSdhEventSize k a n)"
  unfolding writeSdhEventSize_def Let_def by (rule keeps_seqs) auto

lemma keeps_readyReset [simp]: "keeps (ReadyFifo_reset k)"
  unfolding ReadyFifo_reset_def by (rule keeps_seqs) auto

lemma keeps_startDataGenerator [simp]: "keeps (CrorcDmaChannel_startDataGenerator k)"
  unfolding CrorcDmaChannel_startDataGenerator_def by (rule keepsI, rule books_seqs) (auto intro!: keeps_intros)

lemma keeps_resetChannel [simp]: "keeps (CrorcDmaChannel_deviceResetChannel k level)"
proof (rule keepsI)
  fix c :: "'a crorc"
  show "same_books c (snd (CrorcDmaChannel_deviceResetChannel k level c))"
    unfolding CrorcDmaChannel_deviceResetChannel_def Let_def
    by (cases "level = ResetNothing"; simp del: seqs.simps; rule books_seqs) (auto intro!: keeps_intros)
qed

lemma keeps_startDataReceiving [simp]: "keeps (CrorcDmaChannel_startDataReceiving k)"
  unfolding CrorcDmaChannel_startDataReceiving_def by (rule keepsI, rule books_seqs) (auto intro!: keeps_intros)

lemma keeps_prepare [simp]: "keeps (pending_prepare k)"
  unfolding pending_prepare_def by (rule keepsI, rule books_seqs) (auto intro!: keeps_intros)

lemma keeps_generate [simp]: "keeps (pending_generate k)"
proof (rule keepsI)
  fix c :: "'a crorc"
  show "same_books c (snd (pending_generate k c))"
    unfolding pending_generate_def
    by (cases "crorc_mGeneratorEnabled c"; simp del: seqs.simps add: books_keeps; rule books_whenM)
      (auto intro!: keeps_intros)
qed

lemma keeps_continuous [simp]: "keeps (\<lambda>c. whenM (mUseContinuousReadout c) (onCard m) c)"
  by (rule keepsI, rule books_whenM) simp


section \<open>Invariant\<close>

text \<open>The number of pages in the card is \<open>mFifoSize\<close>, never more than the firmware FIFO holds. While the
  start of the DMA is pending, nothing has been pushed.\<close>

definition crorc_inv :: "'b crorc \<Rightarrow> bool" where
  "crorc_inv c \<longleftrightarrow> pages_inv (mPageSize c) (mFifoSize c) (mSuperpageQueue c) \<and> pushing_open (mSuperpageQueue c)
     \<and> mFifoSize c \<le> READYFIFO_ENTRIES \<and> 0 \<le> mFifoBack c \<and> mFifoBack c < READYFIFO_ENTRIES
     \<and> unat (mPageSize c) dvd 2 ^ 20
     \<and> (mPendingDmaStart c \<longrightarrow> mFifoSize c = 0 \<and> (\<forall>i \<in> set (sq_live (mSuperpageQueue c)). e_pushedPages (entry c i) = 0))"

definition crorc_tickets :: "'b crorc \<Rightarrow> ticket list" where
  "crorc_tickets c = sq_tickets (mSuperpageQueue c)"

lemma same_books_inv: "same_books c c' \<Longrightarrow> crorc_inv c' = crorc_inv c" "same_books c c' \<Longrightarrow> crorc_tickets c' = crorc_tickets c"
  by (simp_all add: same_books_def crorc_inv_def crorc_tickets_def entry_def)

lemma seqs_Cons_Inr: "seqs (m # ms) c = (Inr (), c') \<longleftrightarrow> (\<exists>d. m c = (Inr (), d) \<and> seqs ms d = (Inr (), c'))"
  by (auto simp: andThen_Inr_iff)

lemma updEntry_push: "updEntry i (\<lambda>e. e\<lparr>e_pushedPages := e_pushedPages e + 1\<rparr>) = updEntry i entry_push"
  by (simp add: entry_push_def[abs_def])

lemma updEntry_receive:
  "updEntry i (\<lambda>e. e\<lparr>e_superpage := (e_superpage e)\<lparr>sp_received := sp_received (e_superpage e) + n\<rparr>\<rparr>) = updEntry i (entry_receive n)"
  by (simp add: entry_receive_def[abs_def])

lemma updEntry_ready:
  "updEntry i (\<lambda>e. e\<lparr>e_superpage := (e_superpage e)\<lparr>sp_ready := True\<rparr>\<rparr>) = updEntry i entry_ready"
  by (simp add: entry_ready_def[abs_def])

lemmas updEntry_folds = updEntry_push updEntry_receive updEntry_ready

lemma updEntry_apply: "updEntry i f c = (Inr (), c\<lparr>mSuperpageQueue :=
    SuperpageQueue_setEntry i (f (entry c i)) (mSuperpageQueue c)\<rparr>)"
  by (simp add: updEntry_def update_def entry_def)


section \<open>Pushing pages\<close>

text \<open>\<open>grown i n c c'\<close>: between \<open>c\<close> and \<open>c'\<close> the driver pushed \<open>n\<close> pages of entry \<open>i\<close>, the front of the
  pushing queue, and did nothing else to the bookkeeping.\<close>

definition grown :: "nat \<Rightarrow> nat \<Rightarrow> 'b crorc \<Rightarrow> 'b crorc \<Rightarrow> bool" where
  "grown i n c c' \<longleftrightarrow> mFifoBack c' = mFifoBack c \<and> mPendingDmaStart c' = mPendingDmaStart c \<and> mPageSize c' = mPageSize c
     \<and> mFifoSize c' = mFifoSize c + int n
     \<and> pages_inv (mPageSize c') (mFifoSize c') (mSuperpageQueue c')
     \<and> mPushing (mSuperpageQueue c') = mPushing (mSuperpageQueue c)
     \<and> mArrivals (mSuperpageQueue c') = mArrivals (mSuperpageQueue c)
     \<and> crorc_tickets c' = crorc_tickets c
     \<and> arrivedPages (mPageSize c) (entry c' i) = arrivedPages (mPageSize c) (entry c i)
     \<and> e_pushedPages (entry c' i) = e_pushedPages (entry c i) + int n
     \<and> e_maxPages (entry c' i) = e_maxPages (entry c i)
     \<and> (\<forall>j. j \<noteq> i \<longrightarrow> entry c' j = entry c j)"

lemma grown_refl:
  "pages_inv (mPageSize c) (mFifoSize c) (mSuperpageQueue c) \<Longrightarrow> same_books c c' \<Longrightarrow> grown i 0 c c'"
  by (simp add: grown_def same_books_def crorc_tickets_def entry_def)

lemma grown_trans: "grown i m a b \<Longrightarrow> grown i n b c \<Longrightarrow> grown i (m + n) a c"
  unfolding grown_def by (elim conjE) simp

lemma pushInto_cases:
  assumes inv: "pages_inv (mPageSize c) (mFifoSize c) (mSuperpageQueue c)" and p: "mPushing (mSuperpageQueue c) = i # js"
    and push: "CrorcDmaChannel_pushIntoSuperpage k i c = (r, c')"
  shows "(r = Inr () \<and> grown i 1 c c' \<and> mFifoSize c < READYFIFO_ENTRIES \<and> e_pushedPages (entry c i) < e_maxPages (entry c i))
    \<or> (\<exists>x. r = Inl x \<and> same_books c c')"
proof (cases "mFifoSize c < READYFIFO_ENTRIES \<and> e_pushedPages (entry c i) < e_maxPages (entry c i)")
  case False
  then show ?thesis using push by (auto simp: CrorcDmaChannel_pushIntoSuperpage_def split: if_splits)
next
  case True
  let ?m = "CrorcDmaChannel_pushFreeFifoPage k (CrorcDmaChannel_getFifoFront c)
    (CrorcDmaChannel_getNextSuperpageBusAddress (mPageSize c) (entry c i))"
  obtain v d where m: "?m c = (v, d)" by fastforce
  then have d: "same_books c d" by (rule keepsD[OF keeps_pushFreeFifoPage])
  show ?thesis
  proof (cases v)
    case (Inl x)
    then show ?thesis
      using push True m d by (auto simp: CrorcDmaChannel_pushIntoSuperpage_def andThen_def bnd_def)
  next
    case (Inr u)
    let ?q = "SuperpageQueue_setEntry i (entry_push (entry c i)) (mSuperpageQueue c)"
    have c': "r = Inr ()" "c' = d\<lparr>mFifoSize := mFifoSize c + 1, mSuperpageQueue := ?q\<rparr>"
      using push True m d Inr
      by (auto simp: CrorcDmaChannel_pushIntoSuperpage_def updEntry_folds andThen_def bnd_def update_def updEntry_apply
          ret_def same_books_def entry_def)
    note pg = pages_push[OF inv p True[THEN conjunct2, unfolded entry_def], folded entry_def]
    have "i \<in> set (sq_live (mSuperpageQueue c))" using pages_inv_facts(5,6)[OF inv] p by simp
    note reg = registry_set[OF pages_inv_facts(2)[OF inv] this, of "entry_push (entry c i)"]
    have "grown i 1 c c'"
      using d pg reg unfolding grown_def c'(2) by (simp add: same_books_def crorc_tickets_def entry_def)
    then show ?thesis using c'(1) True by simp
  qed
qed

lemma push_initial_grown:
  assumes "pages_inv (mPageSize c) (mFifoSize c) (mSuperpageQueue c)" "mPushing (mSuperpageQueue c) = i # js"
    "push_initial_pages k i j n c = (Inr (), c')"
  shows "grown i n c c'"
  using assms
proof (induction n arbitrary: j c)
  case 0
  then show ?case using grown_refl[of c c] by (simp add: ret_def)
next
  case (Suc n)
  then obtain b d where b: "onCard (rfReset k j) c = (Inr (), b)"
      and d: "CrorcDmaChannel_pushIntoSuperpage k i b = (Inr (), d)"
      and rest: "push_initial_pages k i (j + 1) n d = (Inr (), c')"
    by (auto simp: andThen_Inr_iff)
  have "same_books c b" by (rule keepsD[OF keeps_onCard b])
  then have cb: "grown i 0 c b" using Suc.prems(1) grown_refl by blast
  then have inv: "pages_inv (mPageSize b) (mFifoSize b) (mSuperpageQueue b)" "mPushing (mSuperpageQueue b) = i # js"
    using Suc.prems(2) by (auto simp: grown_def)
  then have bd: "grown i 1 b d" using pushInto_cases[OF inv d] by simp
  then have "grown i n d c'" using Suc.IH[OF _ _ rest] inv(2) by (auto simp: grown_def)
  then show ?case using grown_trans[OF grown_trans[OF cb bd], of n c'] by simp
qed

text \<open>The pushes of \<^verbatim>\<open>fillSuperpages\<close>: they never fail an assertion, and an exception of the card
  leaves the pages pushed so far accounted for.\<close>

lemma push_pages_grown:
  assumes "pages_inv (mPageSize c) (mFifoSize c) (mSuperpageQueue c)" "mPushing (mSuperpageQueue c) = i # js"
    "int n \<le> READYFIFO_ENTRIES - mFifoSize c" "int n \<le> e_maxPages (entry c i) - e_pushedPages (entry c i)"
    "push_pages k i n c = (r, c')"
  shows "\<exists>m \<le> n. grown i m c c' \<and> (r = Inr () \<longleftrightarrow> m = n)"
  using assms
proof (induction n arbitrary: c)
  case 0
  then show ?case using grown_refl[of c c] by (simp add: ret_def)
next
  case (Suc n)
  obtain v d where d: "CrorcDmaChannel_pushIntoSuperpage k i c = (v, d)" by fastforce
  consider (ok) "v = Inr ()" "grown i 1 c d" | (exn) x where "v = Inl x" "same_books c d"
    using pushInto_cases[OF Suc.prems(1,2) d] by blast
  then show ?case
  proof cases
    case exn
    then have "r = Inl x" "c' = d" using Suc.prems(5) d by (simp_all add: andThen_exn)
    then show ?thesis using exn grown_refl[OF Suc.prems(1)] by (intro exI[of _ 0]) auto
  next
    case ok
    then have "push_pages k i n d = (r, c')" using Suc.prems(5) d by (simp add: andThen_ok)
    then obtain m where "m \<le> n" "grown i m d c'" "r = Inr () \<longleftrightarrow> m = n"
      using Suc.IH[of d] ok(2) Suc.prems by (auto simp: grown_def)
    then show ?thesis using grown_trans[OF ok(2), of m c'] by (intro exI[of _ "Suc m"]) auto
  qed
qed

lemma open_front:
  assumes "pages_inv ps n q" "mPushing q = i # js" "e_pushedPages (mRegistry q ! i) < e_maxPages (mRegistry q ! i)"
  shows "pushing_open q"
proof -
  have "\<forall>j \<in> set js. 0 < e_maxPages (mRegistry q ! j) \<and> e_pushedPages (mRegistry q ! j) = 0"
    using assms(1,2) pages_inv_facts(4-6)[OF assms(1)] by (auto simp: pages_inv_def entry_ok_def)
  then show ?thesis using assms(2,3) by (simp add: pushing_open_def)
qed


section \<open>Arrived pages\<close>

text \<open>After an update of the bookkeeping, the invariant in terms of its parts.\<close>

lemma crorc_inv_parts:
  assumes "crorc_inv c"
  shows "pages_inv (mPageSize c) (mFifoSize c) (mSuperpageQueue c)" "pushing_open (mSuperpageQueue c)"
    "mFifoSize c \<le> READYFIFO_ENTRIES" "0 \<le> mFifoBack c" "mFifoBack c < READYFIFO_ENTRIES" "unat (mPageSize c) dvd 2 ^ 20"
  using assms by (simp_all add: crorc_inv_def)

text \<open>The end of a pass: the received bytes of entry \<open>i\<close> grow by \<open>m\<close> pages, and a superpage that is
  complete moves to the filled queue.\<close>

definition receive_pages :: "nat \<Rightarrow> nat \<Rightarrow> ('b crorc, unit) io" where
  "receive_pages i m =
     andThen (\<lambda>c. updEntry i (entry_receive (of_nat m * mPageSize c)) c)
       (\<lambda>c. if Superpage_isFilled (e_superpage (entry c i))
            then andThen (updEntry i entry_ready)
                   (andThen (onQueue (SuperpageQueue_moveFromArrivalsToFilledQueue MAX_SUPERPAGES)) (ret ())) c
            else (Inr (), c))"

lemma receive_pages_inv:
  assumes inv: "pages_inv (mPageSize c) n (mSuperpageQueue c)" and opn: "pushing_open (mSuperpageQueue c)"
    and a: "mArrivals (mSuperpageQueue c) = i # js"
    and m: "arrivedPages (mPageSize c) (entry c i) + int m \<le> e_pushedPages (entry c i)"
  shows "\<exists>q. receive_pages i m c = (Inr (), c\<lparr>mSuperpageQueue := q\<rparr>) \<and> pages_inv (mPageSize c) (n - int m) q
    \<and> pushing_open q \<and> sq_tickets q = crorc_tickets c"
proof -
  let ?e = "entry_receive (of_nat m * mPageSize c) (entry c i)"
  let ?q1 = "SuperpageQueue_setEntry i ?e (mSuperpageQueue c)"
  have "i \<in> set (sq_live (mSuperpageQueue c))" using a by (simp add: sq_live_def)
  note reg = registry_set[OF pages_inv_facts(2)[OF inv] this, of ?e]
  show ?thesis
  proof (cases "Superpage_isFilled (e_superpage ?e)")
    case False
    note part = pages_arrive[OF inv opn a m[unfolded entry_def] False[unfolded entry_def], folded entry_def]
    have "receive_pages i m c = (Inr (), c\<lparr>mSuperpageQueue := ?q1\<rparr>)"
      using False reg by (simp add: receive_pages_def andThen_def bnd_def updEntry_apply entry_def)
    then show ?thesis using part by (auto simp: crorc_tickets_def)
  next
    case True
    obtain q where q: "SuperpageQueue_moveFromArrivalsToFilledQueue 32
          (SuperpageQueue_setEntry i (entry_ready ?e) (mSuperpageQueue c)) = Inr (i, q)"
        "pages_inv (mPageSize c) (n - int m) q" "pushing_open q" "sq_tickets q = crorc_tickets c"
      using pages_complete[OF inv opn a m[unfolded entry_def] True[unfolded entry_def], folded entry_def]
      by (auto simp: crorc_tickets_def)
    have "receive_pages i m c = (Inr (), c\<lparr>mSuperpageQueue := q\<rparr>)"
      using True reg q(1)
      by (simp add: receive_pages_def andThen_def bnd_def updEntry_apply entry_def onQueue_def ret_def MAX_SUPERPAGES_def)
    then show ?thesis using q by auto
  qed
qed

lemma handle_arrived_eq:
  "handle_arrived_page k i =
     seqs [(\<lambda>c. bnd (onCard (rfLength k (mFifoBack c))) (\<lambda>len.
              writeSdhEventSize k (mDmaBufferUserspace c + sp_offset (e_superpage (entry c i))
                + sp_received (e_superpage (entry c i))) (len * 4)) c),
           (\<lambda>c. onCard (rfReset k (mFifoBack c)) c),
           update (\<lambda>c. c\<lparr>mFifoSize := mFifoSize c - 1, mFifoBack := (mFifoBack c + 1) mod READYFIFO_ENTRIES\<rparr>),
           receive_pages i 1]"
  unfolding handle_arrived_page_def receive_pages_def updEntry_folds by (simp add: andThen_def bnd_assoc)

lemma handle_arrived_inv:
  assumes inv: "crorc_inv c" and size: "0 < mFifoSize c" and a: "mArrivals (mSuperpageQueue c) = i # js"
    and h: "handle_arrived_page k i c = (r, c')"
  shows "crorc_inv c' \<and> crorc_tickets c' = crorc_tickets c"
proof -
  let ?m1 = "\<lambda>c. bnd (onCard (rfLength k (mFifoBack c))) (\<lambda>len.
              writeSdhEventSize k (mDmaBufferUserspace c + sp_offset (e_superpage (entry c i))
                + sp_received (e_superpage (entry c i))) (len * 4)) c"
  let ?m2 = "\<lambda>c. onCard (rfReset k (mFifoBack c)) c"
  have "keeps ?m1" by (rule keepsI, rule books_keeps[of "bnd _ _"], rule keeps_bnd) simp_all
  moreover have "keeps ?m2" by (rule keepsI, rule books_keeps[of "onCard _"]) simp
  ultimately have "keeps (andThen ?m1 ?m2)" by (rule keeps_andThen)
  moreover obtain v d where d: "andThen ?m1 ?m2 c = (v, d)" by fastforce
  ultimately have cd: "same_books c d" by (rule keepsD)
  then have inv_d: "crorc_inv d" "crorc_tickets d = crorc_tickets c" using inv same_books_inv by blast+
  have split: "handle_arrived_page k i = andThen (andThen ?m1 ?m2) (seqs
      [update (\<lambda>c. c\<lparr>mFifoSize := mFifoSize c - 1, mFifoBack := (mFifoBack c + 1) mod READYFIFO_ENTRIES\<rparr>), receive_pages i 1])"
    unfolding handle_arrived_eq by (simp add: andThen_def bnd_assoc)
  show ?thesis
  proof (cases v)
    case (Inl x)
    then show ?thesis using h d inv_d unfolding split by (simp add: andThen_exn)
  next
    case (Inr u)
    let ?d = "d\<lparr>mFifoSize := mFifoSize d - 1, mFifoBack := (mFifoBack d + 1) mod READYFIFO_ENTRIES\<rparr>"
    note p = crorc_inv_parts[OF inv_d(1)]
    have np: "0 < mFifoSize d" "mArrivals (mSuperpageQueue d) = i # js" using cd size a by (simp_all add: same_books_def)
    have "arrivedPages (mPageSize d) (entry ?d i) + int 1 \<le> e_pushedPages (entry ?d i)"
      using pages_front[OF p(1,2) np(1)] np(2) by (auto simp: entry_def)
    then obtain q where q: "receive_pages i 1 ?d = (Inr (), ?d\<lparr>mSuperpageQueue := q\<rparr>)"
        "pages_inv (mPageSize d) (mFifoSize d - 1) q" "pushing_open q" "sq_tickets q = crorc_tickets d"
      using receive_pages_inv[of ?d "mFifoSize d" i js 1] p(1,2) np(2) by (auto simp: crorc_tickets_def)
    have "\<not> mPendingDmaStart d" using inv_d(1) np(1) by (auto simp: crorc_inv_def)
    moreover have "c' = ?d\<lparr>mSuperpageQueue := q\<rparr>"
      using h d Inr q(1) unfolding split by (simp add: andThen_def bnd_def update_def ret_def)
    ultimately show ?thesis using q p inv_d(2) by (simp add: crorc_inv_def crorc_tickets_def READYFIFO_ENTRIES_def)
  qed
qed

lemma arrivals_loop_inv:
  assumes "crorc_inv c" "arrivals_loop k n c = (r, c')"
  shows "crorc_inv c' \<and> crorc_tickets c' = crorc_tickets c"
  using assms
proof (induction n arbitrary: c)
  case 0
  then show ?case by simp
next
  case (Suc n)
  show ?case
  proof (cases "mFifoSize c > 0")
    case False
    then show ?thesis using Suc.prems by auto
  next
    case True
    note p = crorc_inv_parts[OF Suc.prems(1)]
    obtain i js where a: "mArrivals (mSuperpageQueue c) = i # js" using pages_front[OF p(1,2) True] by blast
    then have fr: "SuperpageQueue_getArrivalsFrontEntry (mSuperpageQueue c) = Inr (i, entry c i)"
      using sq_inv_facts(4)[OF pages_inv_facts(2)[OF p(1)], of i]
      by (simp add: SuperpageQueue_getArrivalsFrontEntry_def cb_front_def entry_def sq_live_def)
    obtain v d where d: "CrorcDmaChannel_dataArrived k (mFifoBack c) c = (v, d)" by fastforce
    then have cd: "same_books c d" by (rule keepsD[OF keeps_dataArrived])
    then have inv_d: "crorc_inv d" "crorc_tickets d = crorc_tickets c" using Suc.prems(1) same_books_inv by blast+
    show ?thesis
    proof (cases "v = Inr WholeArrived")
      case False
      then have "c' = d" using Suc.prems(2) True fr d by (cases v) (auto simp: bnd_def ret_def)
      then show ?thesis using inv_d by simp
    next
      case whole: True
      obtain w b where b: "handle_arrived_page k i d = (w, b)" by fastforce
      have inv_b: "crorc_inv b \<and> crorc_tickets b = crorc_tickets d"
        using handle_arrived_inv[OF inv_d(1) _ _ b] True a cd by (simp add: same_books_def)
      have run: "arrivals_loop k (Suc n) c = andThen (handle_arrived_page k i) (arrivals_loop k n) d"
        using True fr d whole by (simp add: bnd_def)
      show ?thesis
        using Suc.prems(2) Suc.IH[of b] inv_b inv_d(2) b unfolding run by (cases w) (auto simp: andThen_def bnd_def)
    qed
  qed
qed


section \<open>Filling superpages\<close>

lemma front_of_pushing:
  assumes inv: "pages_inv ps n (mSuperpageQueue c)" and p: "mPushing (mSuperpageQueue c) = i # js"
  shows "SuperpageQueue_getPushingFrontEntry (mSuperpageQueue c) = Inr (i, entry c i)"
  using sq_inv_facts(4)[OF pages_inv_facts(2)[OF inv], of i] pages_inv_facts(5,6)[OF inv] p
  by (simp add: SuperpageQueue_getPushingFrontEntry_def cb_front_def entry_def)

text \<open>The end of the pushing phase: an entry that is pushed completely leaves the pushing queue.\<close>

definition close_pushed :: "nat \<Rightarrow> ('b crorc, unit) io" where
  "close_pushed i c =
     (if Entry_isPushed (entry c i) then andThen (onQueue SuperpageQueue_removeFromPushingQueue) (ret ()) c
      else (Inr (), c))"

lemma close_pushed_inv:
  assumes inv: "pages_inv (mPageSize c) n (mSuperpageQueue c)" and p: "mPushing (mSuperpageQueue c) = i # js"
  shows "\<exists>q. close_pushed i c = (Inr (), c\<lparr>mSuperpageQueue := q\<rparr>) \<and> pages_inv (mPageSize c) n q \<and> pushing_open q
    \<and> sq_tickets q = crorc_tickets c \<and> mRegistry q = mRegistry (mSuperpageQueue c) \<and> mArrivals q = mArrivals (mSuperpageQueue c)"
proof (cases "Entry_isPushed (entry c i)")
  case True
  note pg = pages_pushed[OF inv p True[unfolded entry_def]]
  then have "close_pushed i c = (Inr (), c\<lparr>mSuperpageQueue := (mSuperpageQueue c)\<lparr>mPushing := js\<rparr>\<rparr>)"
    using True by (simp add: close_pushed_def andThen_def bnd_def onQueue_def ret_def)
  then show ?thesis using pg by (auto simp: crorc_tickets_def)
next
  case False
  have "i \<in> set (sq_live (mSuperpageQueue c))" using pages_inv_facts(5,6)[OF inv] p by simp
  then have "entry_ok (mPageSize c) (entry c i)" using pages_inv_facts(4)[OF inv] by (simp add: entry_def)
  then have "e_pushedPages (entry c i) < e_maxPages (entry c i)"
    using False by (simp add: entry_ok_def Entry_isPushed_def)
  then have "pushing_open (mSuperpageQueue c)" using open_front[OF inv p] by (simp add: entry_def)
  then show ?thesis
    using False inv by (intro exI[of _ "mSuperpageQueue c"]) (simp add: close_pushed_def crorc_tickets_def)
qed

text \<open>The pages of one call outside the start of the DMA, whatever the card answers.\<close>

lemma push_phase_inv:
  assumes inv: "crorc_inv c" and np: "\<not> mPendingDmaStart c" and p: "mPushing (mSuperpageQueue c) = i # js"
    and run: "andThen (push_pages k i (nat (min (FIFO_QUEUE_MAX - mFifoSize c) (Entry_getUnpushedPages (entry c i)))))
      (close_pushed i) c = (r, c')"
  shows "crorc_inv c' \<and> crorc_tickets c' = crorc_tickets c \<and> \<not> mPendingDmaStart c'"
proof -
  note pt = crorc_inv_parts[OF inv]
  let ?n = "nat (min (FIFO_QUEUE_MAX - mFifoSize c) (Entry_getUnpushedPages (entry c i)))"
  have i: "e_pushedPages (entry c i) < e_maxPages (entry c i)" using pt(2) p by (simp add: pushing_open_def entry_def)
  then have n: "int ?n \<le> READYFIFO_ENTRIES - mFifoSize c" "int ?n \<le> e_maxPages (entry c i) - e_pushedPages (entry c i)"
    using pt(3) by (auto simp: Entry_getUnpushedPages_def)
  obtain v d where d: "push_pages k i ?n c = (v, d)" by fastforce
  obtain m where m: "m \<le> ?n" "grown i m c d" "v = Inr () \<longleftrightarrow> m = ?n"
    using push_pages_grown[OF pt(1) p n d] by blast
  have pg: "pages_inv (mPageSize d) (mFifoSize d) (mSuperpageQueue d)" "mPushing (mSuperpageQueue d) = i # js"
    "mFifoSize d \<le> READYFIFO_ENTRIES" "mFifoBack d = mFifoBack c" "mPageSize d = mPageSize c" "\<not> mPendingDmaStart d"
    "crorc_tickets d = crorc_tickets c"
    using m n p np unfolding grown_def by auto
  show ?thesis
  proof (cases v)
    case (Inl x)
    then have "m \<noteq> ?n" using m(3) by auto
    then have "int m < e_maxPages (entry c i) - e_pushedPages (entry c i)" using m(1) n(2) by linarith
    then have "e_pushedPages (entry d i) < e_maxPages (entry d i)" using m(2) by (auto simp: grown_def)
    then have "pushing_open (mSuperpageQueue d)" using open_front[OF pg(1,2)] by (simp add: entry_def)
    moreover have "c' = d" using run d Inl by (simp add: andThen_exn)
    ultimately show ?thesis using pg pt by (simp add: crorc_inv_def)
  next
    case (Inr u)
    then have "close_pushed i d = (r, c')" using run d by (simp add: andThen_ok)
    then show ?thesis using close_pushed_inv[OF pg(1,2)] pg pt by (auto simp: crorc_inv_def crorc_tickets_def)
  qed
qed

text \<open>While the start is pending nothing is pushed, so the two queues of indices agree.\<close>

lemma pending_queues:
  assumes inv: "crorc_inv c" and pend: "mPendingDmaStart c"
  shows "mPushing (mSuperpageQueue c) = mArrivals (mSuperpageQueue c)"
proof -
  let ?q = "mSuperpageQueue c"
  note pt = crorc_inv_parts[OF inv]
  note f = pages_inv_facts[OF pt(1)]
  have "\<forall>i \<in> set (mArrivals ?q). e_pushedPages (mRegistry ?q ! i) \<noteq> e_maxPages (mRegistry ?q ! i)"
    using inv pend f(4,5) by (force simp: crorc_inv_def entry_ok_def entry_def)
  then have sub: "set (mArrivals ?q) \<subseteq> set (mPushing ?q)" using pt(1) by (auto simp: pages_inv_def)
  obtain xs where xs: "mArrivals ?q = xs @ mPushing ?q" using f(3) by (auto simp: suffix_def)
  then have "xs = []" using f(7) sub by (cases xs) auto
  then show ?thesis using xs by simp
qed

definition pending_finish :: "'b card \<Rightarrow> ('b crorc, unit) io" where
  "pending_finish k = seqs [ReadyFifo_reset k, update (\<lambda>c. c\<lparr>mFifoBack := 0, mFifoSize := 0, mPendingDmaStart := False\<rparr>),
      (\<lambda>c. whenM (mUseContinuousReadout c) (onCard (Crorc_startReadoutContinuous (wr2 k))) c)]"

lemma pending_tail:
  assumes "pending_finish k c = (Inr (), c')"
  shows "mFifoBack c' = 0 \<and> mFifoSize c' = 0 \<and> \<not> mPendingDmaStart c' \<and> mSuperpageQueue c' = mSuperpageQueue c
    \<and> mPageSize c' = mPageSize c"
proof -
  obtain d where d: "ReadyFifo_reset k c = (Inr (), d)"
      "(\<lambda>c. whenM (mUseContinuousReadout c) (onCard (Crorc_startReadoutContinuous (wr2 k))) c)
         (d\<lparr>mFifoBack := 0, mFifoSize := 0, mPendingDmaStart := False\<rparr>) = (Inr (), c')"
    using assms by (auto simp: pending_finish_def andThen_Inr_iff update_def ret_def)
  show ?thesis
    using keepsD[OF keeps_readyReset d(1)] keepsD[OF keeps_continuous d(2)] by (simp add: same_books_def)
qed

lemma startPending_inv:
  assumes inv: "crorc_inv c" and pend: "mPendingDmaStart c" and p: "mPushing (mSuperpageQueue c) = i # js"
    and run: "CrorcDmaChannel_startPendingDma k i c = (Inr (), c')"
  shows "crorc_inv c' \<and> crorc_tickets c' = crorc_tickets c"
proof -
  have eq: "CrorcDmaChannel_startPendingDma k i c = seqs
     [pending_prepare k, push_initial_pages k i 0 128,
      (\<lambda>c. if \<not> e_pushedPages (entry c i) \<le> e_maxPages (entry c i) then (Inl AssertionFailed, c) else close_pushed i c),
      pending_generate k, andThen (CrorcDmaChannel_dataArrived k (READYFIFO_ENTRIES - 1)) (ret ()),
      receive_pages i 128,
      pending_finish k] c"
    using pend unfolding CrorcDmaChannel_startPendingDma_def receive_pages_def close_pushed_def pending_finish_def updEntry_folds
      Entry_isPushed_def Superpage_isFilled_def
    by (simp add: andThen_def bnd_assoc READYFIFO_ENTRIES_def)
  then obtain c1 c2 c3 c4 c5 c6 where s: "pending_prepare k c = (Inr (), c1)" "push_initial_pages k i 0 128 c1 = (Inr (), c2)"
      "close_pushed i c2 = (Inr (), c3)" "pending_generate k c3 = (Inr (), c4)"
      "andThen (CrorcDmaChannel_dataArrived k (READYFIFO_ENTRIES - 1)) (ret ()) c4 = (Inr (), c5)"
      "receive_pages i 128 c5 = (Inr (), c6)"
      "pending_finish k c6 = (Inr (), c')"
    using run unfolding eq seqs_Cons_Inr seqs.simps(1) by (auto simp: ret_def split: if_splits)
  note pt = crorc_inv_parts[OF inv]
  have b1: "same_books c c1" by (rule keepsD[OF keeps_prepare s(1)])
  have pg1: "pages_inv (mPageSize c1) (mFifoSize c1) (mSuperpageQueue c1)" "mPushing (mSuperpageQueue c1) = i # js"
    "mArrivals (mSuperpageQueue c1) = i # js" "mFifoSize c1 = 0" "e_pushedPages (entry c1 i) = 0"
    using b1 pt(1) p pending_queues[OF inv pend] inv pend pages_inv_facts(5,6)[OF pt(1)]
    by (auto simp: same_books_def crorc_inv_def entry_def)
  have "i \<in> set (sq_live (mSuperpageQueue c1))" using pages_inv_facts(5)[OF pg1(1)] pg1(3) by simp
  then have "arrivedPages (mPageSize c1) (entry c1 i) \<le> 0"
    using pages_inv_facts(4)[OF pg1(1), of i] pg1(5) by (simp add: entry_ok_def entry_def)
  note g = push_initial_grown[OF pg1(1,2) s(2)]
  have pg2: "pages_inv (mPageSize c1) 128 (mSuperpageQueue c2)" "mPushing (mSuperpageQueue c2) = i # js"
    "mArrivals (mSuperpageQueue c2) = i # js" "mPageSize c2 = mPageSize c1" "crorc_tickets c2 = crorc_tickets c1"
    "arrivedPages (mPageSize c1) (entry c2 i) + 128 \<le> e_pushedPages (entry c2 i)"
    using g pg1 \<open>arrivedPages (mPageSize c1) (entry c1 i) \<le> 0\<close> unfolding grown_def by auto
  obtain q3 where q3: "c3 = c2\<lparr>mSuperpageQueue := q3\<rparr>" "pages_inv (mPageSize c1) 128 q3" "pushing_open q3"
      "sq_tickets q3 = crorc_tickets c2" "mRegistry q3 = mRegistry (mSuperpageQueue c2)" "mArrivals q3 = i # js"
    using close_pushed_inv[of c2 128 i js] pg2 s(3) by auto
  have "keeps (andThen (CrorcDmaChannel_dataArrived k (READYFIFO_ENTRIES - 1)) (ret ()))"
    by (rule keeps_andThen) simp_all
  then have "same_books c4 c5" using s(5) by (rule keepsD)
  then have b5: "same_books c3 c5" by (rule same_books_trans[OF keepsD[OF keeps_generate s(4)]])
  then have pg5: "mSuperpageQueue c5 = q3" "mPageSize c5 = mPageSize c1"
    using q3(1) pg2(4) by (simp_all add: same_books_def)
  have "arrivedPages (mPageSize c5) (entry c5 i) + int 128 \<le> e_pushedPages (entry c5 i)"
    using pg2(6) pg5 q3(5) by (simp add: entry_def)
  then obtain q6 where q6: "c6 = c5\<lparr>mSuperpageQueue := q6\<rparr>" "pages_inv (mPageSize c1) 0 q6" "pushing_open q6"
      "sq_tickets q6 = sq_tickets q3"
    using receive_pages_inv[of c5 128 i js 128] q3 pg5 s(6) by (auto simp: crorc_tickets_def)
  have "mFifoBack c' = 0" "mFifoSize c' = 0" "\<not> mPendingDmaStart c'" "mSuperpageQueue c' = q6" "mPageSize c' = mPageSize c1"
    using pending_tail[OF s(7)] q6(1) pg5 by simp_all
  then show ?thesis
    using q6 q3(4) pg2(5) same_books_inv[OF b1] b1 pt(6)
    by (simp add: crorc_inv_def crorc_tickets_def READYFIFO_ENTRIES_def same_books_def)
qed


text \<open>\<^verbatim>\<open>fillSuperpages\<close> keeps the invariant and the superpages when it returns; once the DMA runs it
  does so also when an access to the card throws.\<close>

lemma fill_phases:
  assumes inv: "crorc_inv c" and p: "mPushing (mSuperpageQueue c) = i # js"
  shows "(if mPushing (mSuperpageQueue c) = [] then (Inr (), c)
                else case SuperpageQueue_getPushingFrontEntry (mSuperpageQueue c) of
                    Inl e \<Rightarrow> (Inl e, c)
                  | Inr (i, e) \<Rightarrow>
                      if mPendingDmaStart c then CrorcDmaChannel_startPendingDma k i c
                      else
                        let possibleToPush = min (FIFO_QUEUE_MAX - mFifoSize c) (Entry_getUnpushedPages e)
                        in andThen (push_pages k i (nat possibleToPush))
                             (\<lambda>c. if Entry_isPushed (entry c i)
                                  then andThen (onQueue SuperpageQueue_removeFromPushingQueue) (ret ()) c
                                  else (Inr (), c)) c)
    = (if mPendingDmaStart c then CrorcDmaChannel_startPendingDma k i c
       else andThen (push_pages k i (nat (min (FIFO_QUEUE_MAX - mFifoSize c) (Entry_getUnpushedPages (entry c i)))))
              (close_pushed i) c)"
  using p front_of_pushing[OF crorc_inv_parts(1)[OF inv] p]
  by (simp add: Let_def close_pushed_def[abs_def])

lemma crorc_fill_inv:
  assumes inv: "crorc_inv c" and run: "CrorcDmaChannel_fillSuperpages k c = (r, c')"
    and ok: "r = Inr () \<or> \<not> mPendingDmaStart c"
  shows "crorc_inv c' \<and> crorc_tickets c' = crorc_tickets c"
proof -
  let ?arr = "\<lambda>c. if mArrivals (mSuperpageQueue c) = [] then (Inr (), c) else arrivals_loop k (nat (mFifoSize c)) c"
  obtain m where m: "CrorcDmaChannel_fillSuperpages k c = andThen m (andThen ?arr (ret ())) c"
    and m_inv: "\<And>v d. m c = (v, d) \<Longrightarrow> v = Inr () \<or> \<not> mPendingDmaStart c \<Longrightarrow> crorc_inv d \<and> crorc_tickets d = crorc_tickets c"
  proof (cases "mPushing (mSuperpageQueue c)")
    case Nil
    show ?thesis
      by (rule that[of "ret ()"]) (use inv Nil in \<open>auto simp: CrorcDmaChannel_fillSuperpages_def andThen_def bnd_def ret_def\<close>)
  next
    case (Cons i js)
    note ph = fill_phases[OF inv Cons, of k]
    show ?thesis
    proof (rule that[of "if mPendingDmaStart c then CrorcDmaChannel_startPendingDma k i
        else andThen (push_pages k i (nat (min (FIFO_QUEUE_MAX - mFifoSize c) (Entry_getUnpushedPages (entry c i)))))
               (close_pushed i)"])
      show "crorc_inv d \<and> crorc_tickets d = crorc_tickets c"
        if "(if mPendingDmaStart c then CrorcDmaChannel_startPendingDma k i
            else andThen (push_pages k i (nat (min (FIFO_QUEUE_MAX - mFifoSize c) (Entry_getUnpushedPages (entry c i)))))
               (close_pushed i)) c = (v, d)" "v = Inr () \<or> \<not> mPendingDmaStart c" for v d
        using that startPending_inv[OF inv _ Cons, of k d] push_phase_inv[OF inv _ Cons, of k v d]
        by (auto split: if_splits)
    qed (use ph in \<open>simp add: CrorcDmaChannel_fillSuperpages_def andThen_def[of _ "andThen _ _"] bnd_def if_distribR\<close>)
  qed
  obtain v d where d: "m c = (v, d)" by fastforce
  show ?thesis
  proof (cases v)
    case (Inl x)
    then have "r = Inl x" "c' = d" using run d unfolding m by (simp_all add: andThen_exn)
    then show ?thesis using m_inv[OF d] ok by simp
  next
    case (Inr u)
    then have inv_d: "crorc_inv d" "crorc_tickets d = crorc_tickets c" using m_inv[OF d] by simp_all
    obtain w b where b: "?arr d = (w, b)" by fastforce
    then have "crorc_inv b \<and> crorc_tickets b = crorc_tickets d"
      using inv_d(1) arrivals_loop_inv[of d k] by (auto split: if_splits)
    moreover have "c' = b" using run d Inr b unfolding m by (cases w) (auto simp: andThen_def bnd_def ret_def)
    ultimately show ?thesis using inv_d(2) by simp
  qed
qed


section \<open>The channel contract\<close>

text \<open>Superpages below 2 GiB: the number of pages is computed in 64 bits and stored in an \<^verbatim>\<open>int\<close>.\<close>

definition crorc_okSp :: "superpage \<Rightarrow> bool" where
  "crorc_okSp s \<longleftrightarrow> sp_size s < 2 ^ 31"

lemma max_pages_exact:
  fixes a b :: u64
  assumes "a < 2 ^ 31"
  shows "sint (ucast (a div b) :: u32) = int (unat a div unat b)"
proof -
  have "unat a < 2147483648" using assms by (simp add: word_less_nat_alt)
  moreover have "unat a div unat b \<le> unat a" by (rule div_le_dividend)
  ultimately have lt: "unat (a div b) < 2147483648" unfolding unat_div by (rule le_less_trans[rotated])
  then have u: "unat (ucast (a div b) :: u32) = unat (a div b)"
    by (simp add: unsigned_ucast_eq take_bit_nat_eq_self)
  have "sint (ucast (a div b) :: u32) = int (unat (ucast (a div b) :: u32))"
    using lt by (intro sint_small) (simp only: u)
  then show ?thesis by (simp only: u unat_div)
qed

lemma new_entry_fresh:
  assumes ok: "crorc_okSp s" "isMultiple (sp_size s) (1 * 1024 * 1024)" and ps: "unat ps dvd 2 ^ 20"
  shows "fresh_entry ps \<lparr>e_superpage = s\<lparr>sp_received := 0\<rparr>, e_busAddress = a, e_pushedPages = 0,
           e_maxPages = sint (ucast (sp_size s div ps) :: u32)\<rparr>"
proof -
  have mx: "sint (ucast (sp_size s div ps) :: u32) = int (unat (sp_size s) div unat ps)"
    using ok(1) by (intro max_pages_exact) (simp add: crorc_okSp_def)
  have size: "unat (sp_size s) mod 2 ^ 20 = 0" "2 ^ 20 \<le> unat (sp_size s)"
    using ok(2) unat_mod_zero[of "sp_size s" 1048576] by (simp_all add: isMultiple_def word_le_nat_alt)
  then have dvd: "unat ps dvd unat (sp_size s)" using ps by (meson dvd_trans mod_0_imp_dvd)
  have "0 < unat (sp_size s)" using size(2) by simp
  then have "unat (sp_size s) div unat ps \<noteq> 0" using dvd by (metis dvd_div_eq_0_iff neq0_conv)
  then have "0 < int (unat (sp_size s) div unat ps)" by (simp only: of_nat_0_less_iff neq0_conv)
  then show ?thesis using dvd by (simp add: fresh_entry_def entry_ok_def mx arrivedPages_def)
qed

lemma crorc_push_inv:
  assumes inv: "crorc_inv c" and ok: "crorc_okSp s" and run: "CrorcDmaChannel_pushSuperpage s c = (Inr (), c')"
  shows "crorc_inv c' \<and> crorc_tickets c' = crorc_tickets c @ [ticket s]
    \<and> 0 < CrorcDmaChannel_getTransferQueueAvailable c
    \<and> CrorcDmaChannel_getTransferQueueAvailable c' = CrorcDmaChannel_getTransferQueueAvailable c - 1
    \<and> CrorcDmaChannel_getReadyQueueSize c' = CrorcDmaChannel_getReadyQueueSize c"
proof -
  note pt = crorc_inv_parts[OF inv]
  let ?q = "mSuperpageQueue c"
  define e where "e a = \<lparr>e_superpage = s\<lparr>sp_received := 0\<rparr>, e_busAddress = a, e_pushedPages = 0,
    e_maxPages = sint (ucast (sp_size s div mPageSize c) :: u32)\<rparr>" for a
  obtain a i q' where mult: "isMultiple (sp_size s) (1 * 1024 * 1024)"
    and add: "SuperpageQueue_addToQueue 32 (e a) ?q = Inr (i, q')" and c': "c' = c\<lparr>mSuperpageQueue := q'\<rparr>"
    using run unfolding e_def by (auto simp: CrorcDmaChannel_pushSuperpage_def andThen_Inr_iff onQueue_def ret_def MAX_SUPERPAGES_def
        split: sum.splits if_splits)
  have fresh: "fresh_entry (mPageSize c) (e a)" unfolding e_def using ok mult pt(6) by (rule new_entry_fresh)
  have tick: "ticket (e_superpage (e a)) = ticket s" "e_pushedPages (e a) = 0" by (simp_all add: e_def)
  have "length (sq_entries ?q) \<noteq> 32" using sq_add_full[OF pages_inv_facts(2)[OF pt(1)]] add by auto
  moreover have "length (sq_entries ?q) \<le> 32"
    using sq_inv_sizes(5)[OF pages_inv_facts(2)[OF pt(1)]] by (simp add: sq_entries_def)
  ultimately have space: "length (sq_entries ?q) < 32" by simp
  have q': "pages_inv (mPageSize c) (mFifoSize c) q'" "pushing_open q'" "sq_tickets q' = sq_tickets ?q @ [ticket s]"
    "length (sq_entries q') = Suc (length (sq_entries ?q))" "mFilled q' = mFilled ?q" "i = mNextId ?q"
    using pages_add[OF pt(1,2) fresh space] add tick by auto
  have av: "SuperpageQueue_getQueueAvailable 32 ?q = 32 - int (length (sq_entries ?q))"
    "SuperpageQueue_getQueueAvailable 32 q' = 32 - int (length (sq_entries q'))"
    using sq_available[OF pages_inv_facts(2)[OF pt(1)]] sq_available[OF pages_inv_facts(2)[OF q'(1)]] space q'(4) by auto
  have "mPendingDmaStart c \<Longrightarrow> \<forall>j \<in> set (sq_live q'). e_pushedPages (mRegistry q' ! j) = 0"
  proof
    fix j assume pend: "mPendingDmaStart c" and j: "j \<in> set (sq_live q')"
    have "sq_entries q' = sq_entries ?q @ [e a]"
      using sq_add[OF pages_inv_facts(2)[OF pt(1)] space, of "e a"] add fresh by (auto simp: fresh_entry_def entry_ok_valid)
    moreover have "mRegistry q' ! j \<in> set (sq_entries q')" using j by (simp add: sq_entries_def)
    ultimately show "e_pushedPages (mRegistry q' ! j) = 0"
      using inv pend tick(2) by (auto simp: crorc_inv_def entry_def sq_entries_def)
  qed
  then have "crorc_inv c'" using inv q' by (auto simp: crorc_inv_def c' entry_def)
  then show ?thesis
    using q' av space by (simp add: c' crorc_tickets_def CrorcDmaChannel_getTransferQueueAvailable_def
        CrorcDmaChannel_getReadyQueueSize_def MAX_SUPERPAGES_def)
qed

lemma crorc_pop_inv:
  assumes inv: "crorc_inv c" and ready: "0 < CrorcDmaChannel_getReadyQueueSize c"
  shows "\<exists>s c'. CrorcDmaChannel_getSuperpage c = (Inr s, c) \<and> CrorcDmaChannel_popSuperpage c = (Inr s, c')
    \<and> crorc_inv c' \<and> crorc_tickets c = ticket s # crorc_tickets c' \<and> Superpage_isReady s \<and> Superpage_isFilled s
    \<and> CrorcDmaChannel_getReadyQueueSize c' = CrorcDmaChannel_getReadyQueueSize c - 1"
proof -
  note pt = crorc_inv_parts[OF inv]
  let ?q = "mSuperpageQueue c"
  obtain i js where fl: "mFilled ?q = i # js"
    using ready by (cases "mFilled ?q") (auto simp: CrorcDmaChannel_getReadyQueueSize_def)
  obtain q' where q': "SuperpageQueue_removeFromFilledQueue ?q = Inr (mRegistry ?q ! i, q')"
      "pages_inv (mPageSize c) (mFifoSize c) q'" "pushing_open q'" "sq_tickets ?q = ticket (e_superpage (mRegistry ?q ! i)) # sq_tickets q'"
      "sp_ready (e_superpage (mRegistry ?q ! i))" "Superpage_isFilled (e_superpage (mRegistry ?q ! i))" "mFilled q' = js"
    using pages_remove[OF pt(1,2) fl] by blast
  have i: "i \<in> set (sq_live ?q)" using fl by (simp add: sq_live_def)
  have "\<not> mPendingDmaStart c"
  proof
    assume "mPendingDmaStart c"
    then have "e_pushedPages (mRegistry ?q ! i) = 0" using inv i by (simp add: crorc_inv_def entry_def)
    moreover have ok: "entry_ok (mPageSize c) (mRegistry ?q ! i)" using pages_inv_facts(4)[OF pt(1) i] .
    ultimately have "unat (sp_received (e_superpage (mRegistry ?q ! i))) div unat (mPageSize c) = 0"
      by (simp add: entry_ok_def arrivedPages_def)
    then show False
      using ok q'(6) pages_inv_facts(1)[OF pt(1)]
      by (auto simp: entry_ok_def Superpage_isFilled_def div_eq_0_iff unat_eq_0)
  qed
  then have "crorc_inv (c\<lparr>mSuperpageQueue := q'\<rparr>)" using pt q' by (simp add: crorc_inv_def)
  moreover have "CrorcDmaChannel_getSuperpage c = (Inr (e_superpage (mRegistry ?q ! i)), c)"
    using sq_front[OF pages_inv_facts(2)[OF pt(1)]] fl by (simp add: CrorcDmaChannel_getSuperpage_def sq_entries_def sq_live_def)
  ultimately show ?thesis
    using q' fl by (auto simp: CrorcDmaChannel_popSuperpage_def bnd_def onQueue_def ret_def crorc_tickets_def
        Superpage_isReady_def CrorcDmaChannel_getReadyQueueSize_def intro!: exI)
qed


lemma crorc_start_inv:
  assumes "unat (mPageSize c) dvd 2 ^ 20" "sq_inv 32 (mSuperpageQueue c)"
    and "CrorcDmaChannel_deviceStartDma c = (Inr (), c')"
  shows "crorc_inv c' \<and> crorc_tickets c' = []"
proof -
  have "mPageSize c \<noteq> 0" using assms(1) by auto
  then show ?thesis
    using assms pages_clear[of "mPageSize c" "mSuperpageQueue c"]
    by (auto simp: CrorcDmaChannel_deviceStartDma_def crorc_inv_def crorc_tickets_def READYFIFO_ENTRIES_def)
      (auto simp: sq_live_def SuperpageQueue_clear_def)
qed

interpretation crorcc: dma_channel crorc_okSp crorc_inv "\<lambda>c. mset (crorc_tickets c)"
  CrorcDmaChannel_getTransferQueueAvailable CrorcDmaChannel_getReadyQueueSize CrorcDmaChannel_pushSuperpage
  CrorcDmaChannel_getSuperpage CrorcDmaChannel_popSuperpage "CrorcDmaChannel_fillSuperpages k"
  for k :: "'b card"
proof unfold_locales
  fix c c' :: "'b crorc" and s
  assume inv: "crorc_inv c"
  note sqi = pages_inv_facts(2)[OF crorc_inv_parts(1)[OF inv]]
  show "0 \<le> CrorcDmaChannel_getTransferQueueAvailable c"
    using sq_available[OF sqi] by (simp add: CrorcDmaChannel_getTransferQueueAvailable_def MAX_SUPERPAGES_def)
  show "0 \<le> CrorcDmaChannel_getReadyQueueSize c" by (simp add: CrorcDmaChannel_getReadyQueueSize_def)
  show "crorc_okSp s \<Longrightarrow> CrorcDmaChannel_pushSuperpage s c = (Inr (), c') \<Longrightarrow>
      crorc_inv c' \<and> 0 < CrorcDmaChannel_getTransferQueueAvailable c
      \<and> CrorcDmaChannel_getTransferQueueAvailable c' = CrorcDmaChannel_getTransferQueueAvailable c - 1
      \<and> CrorcDmaChannel_getReadyQueueSize c' = CrorcDmaChannel_getReadyQueueSize c
      \<and> mset (crorc_tickets c') = add_mset (ticket s) (mset (crorc_tickets c))"
    using crorc_push_inv[OF inv] by auto
  have "length (sq_entries (mSuperpageQueue c)) = 32" if "CrorcDmaChannel_getTransferQueueAvailable c = 0"
    using that sq_available[OF sqi] sq_inv_sizes(5)[OF sqi]
    by (simp add: CrorcDmaChannel_getTransferQueueAvailable_def MAX_SUPERPAGES_def sq_entries_def)
  then show "\<exists>e. CrorcDmaChannel_pushSuperpage s c = (Inl e, c)" if "CrorcDmaChannel_getTransferQueueAvailable c = 0"
    using that sq_add_full[OF sqi]
    by (auto simp: CrorcDmaChannel_pushSuperpage_def MAX_SUPERPAGES_def andThen_def bnd_def onQueue_def split: sum.split)
  show "0 < CrorcDmaChannel_getReadyQueueSize c \<Longrightarrow>
      \<exists>s c'. CrorcDmaChannel_getSuperpage c = (Inr s, c) \<and> CrorcDmaChannel_popSuperpage c = (Inr s, c')
        \<and> crorc_inv c' \<and> mset (crorc_tickets c) = add_mset (ticket s) (mset (crorc_tickets c'))
        \<and> CrorcDmaChannel_getReadyQueueSize c' = CrorcDmaChannel_getReadyQueueSize c - 1"
    using crorc_pop_inv[OF inv] by fastforce
  show "CrorcDmaChannel_getReadyQueueSize c = 0 \<Longrightarrow> \<exists>e. CrorcDmaChannel_popSuperpage c = (Inl e, c)"
    by (simp add: CrorcDmaChannel_popSuperpage_def CrorcDmaChannel_getReadyQueueSize_def bnd_def onQueue_def
        SuperpageQueue_removeFromFilledQueue_def)
  show "CrorcDmaChannel_fillSuperpages k c = (Inr (), c') \<Longrightarrow> crorc_inv c' \<and> mset (crorc_tickets c') = mset (crorc_tickets c)"
    using crorc_fill_inv[OF inv] by simp
qed

text \<open>The C-RORC hands superpages out in the order in which they were pushed, each one complete.\<close>

lemma crorc_pop_ret:
  assumes "crorc_inv c" "CrorcDmaChannel_popSuperpage c = (Inr s, c')"
  shows "crorc_inv c' \<and> crorc_tickets c = ticket s # crorc_tickets c' \<and> Superpage_isReady s \<and> Superpage_isFilled s"
proof -
  have "0 < CrorcDmaChannel_getReadyQueueSize c"
    using crorcc.pop_empty[OF assms(1)] crorcc.ready_ge[OF assms(1)] assms(2) by force
  then show ?thesis using crorc_pop_inv[OF assms(1)] assms(2) by auto
qed

lemma crorc_run_ordered:
  assumes "crorc_inv c" "\<And>s. PushSuperpage s \<in> set calls \<Longrightarrow> crorc_okSp s"
    and "run_channel CrorcDmaChannel_pushSuperpage CrorcDmaChannel_popSuperpage (CrorcDmaChannel_fillSuperpages k) calls c
      = (Inr (ins, outs), c')"
  shows "crorc_inv c' \<and> crorc_tickets c @ map ticket ins = map ticket outs @ crorc_tickets c'
    \<and> (\<forall>s \<in> set outs. Superpage_isReady s \<and> Superpage_isFilled s)"
  using assms
proof (induction calls arbitrary: c ins outs)
  case Nil
  then show ?case by (simp add: ret_def)
next
  case (Cons x xs)
  show ?case
  proof (cases x)
    case (PushSuperpage s)
    then obtain d ins' where p: "CrorcDmaChannel_pushSuperpage s c = (Inr (), d)" and "ins = s # ins'"
      and r: "run_channel CrorcDmaChannel_pushSuperpage CrorcDmaChannel_popSuperpage (CrorcDmaChannel_fillSuperpages k) xs d
        = (Inr (ins', outs), c')"
      using Cons.prems(3) by (auto simp: andThen_Inr_iff bnd_Inr_iff ret_def)
    with crorc_push_inv[OF Cons.prems(1) _ p] Cons.IH[OF _ _ r] Cons.prems(2) PushSuperpage show ?thesis by simp
  next
    case PopSuperpage
    then obtain s d outs' where p: "CrorcDmaChannel_popSuperpage c = (Inr s, d)" and "outs = s # outs'"
      and r: "run_channel CrorcDmaChannel_pushSuperpage CrorcDmaChannel_popSuperpage (CrorcDmaChannel_fillSuperpages k) xs d
        = (Inr (ins, outs'), c')"
      using Cons.prems(3) by (auto simp: bnd_Inr_iff ret_def)
    with crorc_pop_ret[OF Cons.prems(1) p] Cons.IH[OF _ _ r] Cons.prems(2) show ?thesis by simp
  next
    case FillSuperpages
    then obtain d where f: "CrorcDmaChannel_fillSuperpages k c = (Inr (), d)"
      and r: "run_channel CrorcDmaChannel_pushSuperpage CrorcDmaChannel_popSuperpage (CrorcDmaChannel_fillSuperpages k) xs d
        = (Inr (ins, outs), c')"
      using Cons.prems(3) by (auto simp: andThen_Inr_iff)
    with crorc_fill_inv[OF Cons.prems(1) f] Cons.IH[OF _ _ r] Cons.prems(2) show ?thesis by simp
  qed
qed

end
