(* ===== verification/Channel_Properties.thy ===== *)
theory Channel_Properties
  imports DummyDmaChannel CruDmaChannel CrorcDmaChannel
begin

text \<open>
  The properties of the DMA channels: what becomes of the superpages a user pushes, for the three
  implementations of the channel contract, and the checks and the state handling they share.
\<close>

section \<open>CRU\<close>

text \<open>A card for the witnesses: it completes a superpage as soon as its size is written, and its
  state is the number of completed superpages of link 0.\<close>

definition test_rd :: "u32 reader" where
  "test_rd i b = (Inr (if i = LINK_BASE_SUPERPAGES_PUSHED then b else 0), b)"

definition test_wr :: "u32 writer" where
  "test_wr i v b = (Inr (), if i = LINK_BASE_SUPERPAGE_SIZE then b + 1 else b)"

definition test_sgl :: "sg_entry list" where
  "test_sgl = [\<lparr>sg_size = 0x200000, sg_addressUser = 0x1000000, sg_addressBus = 0x8000000, sg_addressKernel = 0\<rparr>]"

definition test_cru :: "u32 cru" where
  "test_cru = \<lparr>mLinks = [\<lparr>link_id = 0, superpageCounter = 0, queue = []\<rparr>],
     mLinkQueuesTotalAvailable = 32, cruReadyQueue = [],
     mFeatures = \<lparr>standalone = True, serial = False, firmwareInfo = False, dataSelection = False, temperature = False\<rparr>,
     mGeneratorEnabled = True, mGeneratorPattern = PatIncremental, mGeneratorDataSizeRandomEnabled = False,
     mGeneratorDataSize = DMA_PAGE_SIZE, cru_bufferSize = 0x200000, cru_sgl = test_sgl, cru_hw = 0\<rparr>"

definition test_sp :: superpage where
  "test_sp = Superpage_new 0x100000 0x100000 7"

lemmas test_defs = test_rd_def test_wr_def test_sgl_def test_cru_def test_sp_def Superpage_new_def Superpage_default_def

lemma test_cru_start: "CruDmaChannel_deviceStartDma test_rd test_wr test_wr test_cru = (Inr (), test_cru)"
  by (simp add: CruDmaChannel_deviceStartDma_def CruDmaChannel_resetCru_def CruDmaChannel_initCru_def
      CruDmaChannel_setBufferReady_def BarAccessor_resetDataGeneratorCounter_def BarAccessor_resetCard_def
      BarAccessor_setDataGeneratorPattern_def BarAccessor_setDataEmulatorEnabled_def
      setDataGeneratorPatternBits_def setDataGeneratorSizeBits_def isMultiple_def DMA_PAGE_SIZE_def liftR_def
      cru_clear_queues_def onHw_def andThen_def bnd_def ret_def whenM_def test_defs cru_registers
      LINK_BASE_SUPERPAGE_SIZE_def LINK_BASE_SUPERPAGES_PUSHED_def MAX_SUPERPAGE_DESCRIPTORS_def)

lemma test_cru_run:
  "run_channel (CruDmaChannel_pushSuperpage test_wr) CruDmaChannel_popSuperpage (CruDmaChannel_fillSuperpages test_rd)
     [PushSuperpage test_sp, FillSuperpages, PopSuperpage] test_cru
   = (Inr ([test_sp], [test_sp\<lparr>sp_ready := True, sp_received := 0x100000\<rparr>]),
      test_cru\<lparr>mLinks := [\<lparr>link_id = 0, superpageCounter = 1, queue = []\<rparr>], cru_hw := 1\<rparr>)"
  by (simp add: CruDmaChannel_pushSuperpage_def checkSuperpage_def isMultiple_def CruDmaChannel_getNextLinkIndex_def
      PdaDmaBuffer_getBusOffsetAddress_def BarAccessor_pushSuperpageDescriptor_def CruDmaChannel_fillSuperpages_def
      cru_fill_link_def BarAccessor_getSuperpageCount_def CruDmaChannel_popSuperpage_def cb_push_def READY_QUEUE_CAPACITY_def
      onHw_def andThen_def bnd_def ret_def Let_def test_defs cru_registers MAX_SUPERPAGE_DESCRIPTORS_def)


text \<open>(C3) From the start of the DMA on, the CRU channel neither loses nor invents a superpage: after any
  calls that return, the superpages pushed are those handed out together with those in the
  channel, whatever the registers of the card answer; the ready queue and the transfer queues stay
  within their capacities.\<close>

theorem cru_conserves_superpages:
  assumes "CruDmaChannel_deviceStartDma rd0 wr0 w2 c0 = (Inr (), c)"
    and "run_channel (CruDmaChannel_pushSuperpage wr0) CruDmaChannel_popSuperpage (CruDmaChannel_fillSuperpages rd0) calls c
      = (Inr (ins, outs), c')"
  shows "mset (map ticket ins) = cru_tickets c' + mset (map ticket outs)
    \<and> 0 \<le> CruDmaChannel_getTransferQueueAvailable c' \<and> CruDmaChannel_getReadyQueueSize c' \<le> 32"
proof -
  have c: "cru_inv c" "cru_tickets c = {#}" using cru_start_inv[OF assms(1)] by simp_all
  have c': "cru_inv c'" "cru_tickets c + mset (map ticket ins) = cru_tickets c' + mset (map ticket outs)"
    using cruc.run_channel_conserves[OF c(1) _ assms(2)] by simp_all
  then show ?thesis
    using c(2) cruc.avail_ge[OF c'(1)] by (simp add: cru_inv_def CruDmaChannel_getReadyQueueSize_def READY_QUEUE_CAPACITY_def)
qed

theorem cru_conserves_superpages_witness:
  "mset (map ticket [test_sp]) = cru_tickets (test_cru\<lparr>mLinks := [\<lparr>link_id = 0, superpageCounter = 1, queue = []\<rparr>], cru_hw := 1\<rparr>)
     + mset (map ticket [test_sp\<lparr>sp_ready := True, sp_received := 0x100000\<rparr>])"
  using cru_conserves_superpages[OF test_cru_start test_cru_run] by simp

text \<open>(C22) With space in the transfer queue, a superpage that passes the checks and lies in the
  scatter-gather list is accepted by a card whose register writes succeed, and it joins the
  shortest queue, the first one when several are equally short. The error "link queue was full" is
  unreachable.\<close>

theorem cru_push_goes_to_shortest_link:
  assumes "CruDmaChannel_deviceStartDma rd0 wr0 w2 c0 = (Inr (), c1)"
    and "run_channel (CruDmaChannel_pushSuperpage wr0) CruDmaChannel_popSuperpage (CruDmaChannel_fillSuperpages rd0) calls c1
      = (Inr (ins, outs), c)"
    and "CruDmaChannel_getTransferQueueAvailable c \<noteq> 0" "checkSuperpage (cru_bufferSize c) s = Inr ()"
    and "PdaDmaBuffer_getBusOffsetAddress (cru_sgl c) (sp_offset s) = Inr a" "\<And>i v b. fst (wr0 i v b) = Inr ()"
  shows "\<exists>i b. CruDmaChannel_pushSuperpage wr0 s c =
      (Inr (), c\<lparr>mLinkQueuesTotalAvailable := mLinkQueuesTotalAvailable c - 1,
        mLinks := (mLinks c)[i := (mLinks c ! i)\<lparr>queue := queue (mLinks c ! i) @ [s]\<rparr>], cru_hw := b\<rparr>)
    \<and> i < length (mLinks c) \<and> (\<forall>j < length (mLinks c). length (queue (mLinks c ! i)) \<le> length (queue (mLinks c ! j)))
    \<and> (\<forall>j < i. length (queue (mLinks c ! i)) < length (queue (mLinks c ! j)))"
proof -
  have c1: "cru_inv c1" using cru_start_inv[OF assms(1)] by simp
  have c: "cru_inv c" using cruc.run_channel_conserves[OF c1 _ assms(2)] by simp
  have av: "mLinkQueuesTotalAvailable c \<noteq> 0" using assms(3) by (simp add: CruDmaChannel_getTransferQueueAvailable_def)
  then have ne: "mLinks c \<noteq> []" using c by (auto simp: cru_inv_def)
  obtain b where "CruDmaChannel_pushSuperpage wr0 s c = (Inr (), (cru_queued s c)\<lparr>cru_hw := b\<rparr>)"
    using cru_push_succeeds[OF c assms(3-5), of wr0] assms(6) by blast
  then show ?thesis
    using getNextLinkIndex_shortest[OF ne]
    by (intro exI[of _ "CruDmaChannel_getNextLinkIndex c"] exI[of _ b]) (simp add: cru_queued_def Let_def)
qed

theorem cru_push_goes_to_shortest_link_witness:
  "\<exists>i b. CruDmaChannel_pushSuperpage test_wr test_sp test_cru =
      (Inr (), test_cru\<lparr>mLinkQueuesTotalAvailable := mLinkQueuesTotalAvailable test_cru - 1,
        mLinks := (mLinks test_cru)[i := (mLinks test_cru ! i)\<lparr>queue := queue (mLinks test_cru ! i) @ [test_sp]\<rparr>], cru_hw := b\<rparr>)
    \<and> i < length (mLinks test_cru)"
proof -
  have "run_channel (CruDmaChannel_pushSuperpage test_wr) CruDmaChannel_popSuperpage (CruDmaChannel_fillSuperpages test_rd) [] test_cru
      = (Inr ([], []), test_cru)" by (simp add: ret_def)
  from cru_push_goes_to_shortest_link[OF test_cru_start this, of test_sp] show ?thesis
    by (auto simp: test_defs CruDmaChannel_getTransferQueueAvailable_def checkSuperpage_def isMultiple_def
        PdaDmaBuffer_getBusOffsetAddress_def)
qed




section \<open>C-RORC\<close>

text \<open>A channel for the witnesses, as the constructor leaves it, on a card that accepts everything.\<close>

definition test_card :: "unit card" where
  "test_card = \<lparr>rd = (\<lambda>_ b. (Inr RXAFF_EMPTY, b)), wr = (\<lambda>_ _ b. (Inr (), b)), wr2 = (\<lambda>_ _ b. (Inr (), b)),
     rfLength = (\<lambda>_ b. (Inr 2048, b)), rfStatus = (\<lambda>_ b. (Inr 0x82, b)), rfReset = (\<lambda>_ b. (Inr (), b)),
     memWrite = (\<lambda>_ _ b. (Inr (), b)), convertSerial = (\<lambda>_. None), fifoPolls = 0, elapsedUs = 1\<rparr>"

definition blank_entry :: sq_entry where
  "blank_entry = \<lparr>e_superpage = Superpage_default, e_busAddress = 0, e_pushedPages = 0, e_maxPages = 0\<rparr>"

definition test_crorc :: "unit crorc" where
  "test_crorc = \<lparr>mFifoBack = 0, mFifoSize = 0, mSuperpageQueue = SuperpageQueue_new (replicate 32 blank_entry),
     mPendingDmaStart = False, mPageSize = 8192, mDmaBufferUserspace = 0x1000000, mReadyFifoAddressBus = 0,
     crorc_mLoopbackMode = LoopInternal, crorc_mGeneratorEnabled = True, crorc_mGeneratorPattern = PatIncremental,
     crorc_mGeneratorDataSize = 8192, mGeneratorSeed = 0, mUseContinuousReadout = False, mNoRDYRX = True,
     mDiuConfig = \<lparr>pciLoopPerUsec = 1\<rparr>, crorc_bufferSize = 0x200000, crorc_sgl = test_sgl, crorc_hw = ()\<rparr>"


lemma test_crorc_queue:
  "sq_inv 32 (mSuperpageQueue test_crorc)" "unat (mPageSize test_crorc) dvd 2 ^ 20"
  using sq_inv_new(1)[of 32 "replicate 32 blank_entry"] by (simp_all add: test_crorc_def)

definition started_crorc :: "unit crorc" where
  "started_crorc = snd (CrorcDmaChannel_deviceStartDma test_crorc)"

lemma started_crorc: "CrorcDmaChannel_deviceStartDma test_crorc = (Inr (), started_crorc)"
  by (simp add: started_crorc_def CrorcDmaChannel_deviceStartDma_def)

lemma started_crorc_push:
  "\<exists>c'. run_channel CrorcDmaChannel_pushSuperpage CrorcDmaChannel_popSuperpage (CrorcDmaChannel_fillSuperpages test_card)
     [PushSuperpage test_sp] started_crorc = (Inr ([test_sp], []), c')"
proof -
  let ?e = "\<lparr>e_superpage = test_sp\<lparr>sp_received := 0\<rparr>, e_busAddress = 0x8100000, e_pushedPages = 0,
    e_maxPages = sint (ucast (sp_size test_sp div mPageSize started_crorc) :: u32)\<rparr>"
  have inv: "sq_inv 32 (mSuperpageQueue started_crorc)" "sq_entries (mSuperpageQueue started_crorc) = []"
    using sq_inv_clear[OF test_crorc_queue(1)]
    by (simp_all add: started_crorc_def CrorcDmaChannel_deviceStartDma_def)
  obtain q where "SuperpageQueue_addToQueue 32 ?e (mSuperpageQueue started_crorc) = Inr (mNextId (mSuperpageQueue started_crorc), q)"
    using sq_add[OF inv(1), of ?e] inv(2) by (auto simp: SuperpageQueue_isValidEntry_def)
  then have "CrorcDmaChannel_pushSuperpage test_sp started_crorc = (Inr (), started_crorc\<lparr>mSuperpageQueue := q\<rparr>)"
    by (simp add: CrorcDmaChannel_pushSuperpage_def checkSuperpage_def isMultiple_def PdaDmaBuffer_getBusOffsetAddress_def
        andThen_def bnd_def ret_def onQueue_def MAX_SUPERPAGES_def test_sp_def test_sgl_def Superpage_new_def
        Superpage_default_def started_crorc_def CrorcDmaChannel_deviceStartDma_def test_crorc_def)
  then show ?thesis by (simp add: andThen_def bnd_def ret_def)
qed







section \<open>Dummy channel\<close>

text \<open>One call of \<^verbatim>\<open>fillSuperpages\<close> of the software channel moves as many superpages as the ready
  queue has room for, oldest first, marked ready and completely received, and never fails; so after
  any calls that return, pushed superpages are those popped together with those in the channel.\<close>

lemma dummy_fill_moves_what_fits:
  assumes "run_channel DummyDmaChannel_pushSuperpage DummyDmaChannel_popSuperpage DummyDmaChannel_fillSuperpages calls
      (DummyDmaChannel_new n) = (Inr (ins, outs), c)"
    and "m = min (length (mTransferQueue c)) (32 - length (mReadyQueue c))"
  shows "mset (map ticket ins) = dummy_tickets c + mset (map ticket outs)
    \<and> DummyDmaChannel_fillSuperpages c = (Inr (), c\<lparr>mReadyQueue := mReadyQueue c
          @ map (\<lambda>s. s\<lparr>sp_ready := True, sp_received := sp_size s\<rparr>) (take m (mTransferQueue c)),
        mTransferQueue := drop m (mTransferQueue c)\<rparr>)"
proof -
  have "dummy_inv (DummyDmaChannel_new n)" "dummy_tickets (DummyDmaChannel_new n) = {#}"
    by (simp_all add: dummy_inv_def DummyDmaChannel_new_def dummy_tickets_def)
  then have c: "dummy_inv c" "mset (map ticket ins) = dummy_tickets c + mset (map ticket outs)"
    using dummyc.run_channel_conserves[OF _ _ assms(1)] by simp_all
  have "(\<lambda>s. s\<lparr>sp_ready := True, sp_received := sp_size s\<rparr>) = filled" by (simp add: filled_def fun_eq_iff)
  then show ?thesis using c(2) dummy_fill_eq[OF c(1)] assms(2) by (simp add: READY_QUEUE_SIZE_def)
qed

section \<open>Shared checks and states\<close>



text \<open>The sum of offset and size is not checked for overflow: a superpage far outside the buffer
  whose end wraps around to a small number passes.\<close>

lemma checkSuperpage_wraps:
  "checkSuperpage 0x100000 (Superpage_new (- 0x8000) 0x10000 0) = Inr ()
    \<and> uint (0x100000 :: u64) < uint (- 0x8000 :: u64)"
  by (simp add: checkSuperpage_def Superpage_new_def Superpage_default_def isMultiple_def)

text \<open>The channel base class lets a reset through to the device only while the DMA is stopped:
  after any calls of start, stop and reset, whose exceptions the caller may ignore, the state is
  known, and a reset in the started state throws and leaves everything as it is.\<close>

lemma reset_only_when_stopped:
  assumes "d \<noteq> DMA_UNKNOWN" "base_run start stop reset calls (d, c) = (d', c')"
  shows "(d' = DMA_STOPPED \<or> d' = DMA_STARTED)
    \<and> (d' = DMA_STARTED \<longrightarrow> DmaChannelPdaBase_resetChannel reset l (d', c')
          = (Inl (Exception ''Reset channel failed: DMA was not stopped''), (d', c')))
    \<and> (d' = DMA_STOPPED \<longrightarrow> DmaChannelPdaBase_resetChannel reset l (d', c')
          = (case reset l c' of (r, c'') \<Rightarrow> (r, (d', c''))))"
proof -
  have "d' \<noteq> DMA_UNKNOWN" using base_run_known[OF assms(1)] assms(2) by (metis fst_conv)
  then show ?thesis
    by (cases d') (simp_all add: DmaChannelPdaBase_resetChannel_def throw_def lift_device_def)
qed

end
