(* ===== verification/Card_Properties.thy ===== *)
theory Card_Properties
  imports CruDmaChannel Crorc
begin

text \<open>
  The properties of the register level of the ReadoutCard library: BAR access, bus addresses,
  register fields, parameters and the DDL words of the C-RORC.
\<close>

section \<open>Bus addresses and BARs\<close>

text \<open>(C23) For a buffer whose scatter-gather entries are contiguous in user space, the search over
  absolute addresses returns what walking down the list by sizes gives: the bus address of the byte
  at the given offset, for exactly the offsets below the total size; every other offset throws.\<close>

theorem busAddress_meets_spec:
  assumes "sgl = e # es" "sg_contiguous sgl (uint (sg_addressUser e))" "uint offset < 2 ^ 64 - uint (sg_addressUser e)"
  shows "PdaDmaBuffer_getBusOffsetAddress sgl offset = (case sg_spec sgl (uint offset) of
        None \<Rightarrow> Inl (Exception ''Physical offset address out of range'') | Some a \<Rightarrow> Inr a)
    \<and> ((\<exists>a. PdaDmaBuffer_getBusOffsetAddress sgl offset = Inr a) \<longleftrightarrow> uint offset < sg_total sgl)"
proof -
  have "word_of_int (uint (sg_addressUser e) + uint offset) = sg_addressUser e + offset" by simp
  then have eq: "PdaDmaBuffer_getBusOffsetAddress sgl offset = (case sg_spec sgl (uint offset) of
        None \<Rightarrow> Inl (Exception ''Physical offset address out of range'') | Some a \<Rightarrow> Inr a)"
    using sg_search_contiguous[OF assms(2), of "uint offset"] assms(1,3) by (simp add: PdaDmaBuffer_getBusOffsetAddress_def)
  then show ?thesis using sg_spec_defined_iff[of "uint offset" sgl] by (auto split: option.splits)
qed

theorem busAddress_meets_spec_witness:
  "let e = \<lparr>sg_size = 0x1000, sg_addressUser = 0x70000, sg_addressBus = 0xA000, sg_addressKernel = 0\<rparr>;
       f = \<lparr>sg_size = 0x1000, sg_addressUser = 0x71000, sg_addressBus = 0x3000, sg_addressKernel = 0\<rparr>
   in PdaDmaBuffer_getBusOffsetAddress [e, f] 0x1004 = (case sg_spec [e, f] (uint (0x1004 :: u64)) of
        None \<Rightarrow> Inl (Exception ''Physical offset address out of range'') | Some a \<Rightarrow> Inr a)
    \<and> PdaDmaBuffer_getBusOffsetAddress [e, f] 0x1004 = Inr 0x3004"
proof -
  let ?e = "\<lparr>sg_size = 0x1000, sg_addressUser = 0x70000, sg_addressBus = 0xA000, sg_addressKernel = 0\<rparr> :: sg_entry"
  let ?f = "\<lparr>sg_size = 0x1000, sg_addressUser = 0x71000, sg_addressBus = 0x3000, sg_addressKernel = 0\<rparr> :: sg_entry"
  show ?thesis using busAddress_meets_spec[of "[?e, ?f]" ?e "[?f]" "0x1004"] by (simp add: Let_def)
qed

text \<open>Inside a mapped BAR, a register access goes through exactly when the register is not the
  last one of the BAR: the range check is strict where it should not be, so that the last register
  of every BAR is out of reach.\<close>

lemma bar_last_register_unreachable:
  assumes "bar_mapped bar" "0 \<le> index" "4 * index + 4 \<le> uint (mBarLength bar)"
  shows "PdaBar_readRegister load bar index b =
    (if 4 * index + 4 = uint (mBarLength bar) then (Inl (Exception ''BAR offset out of range''), b)
     else load (mUserspaceAddress bar + word_of_int index * 4) b)"
  using isInRange_iff[OF assms] assms(3)
  by (auto simp: PdaBar_readRegister_def PdaBar_barRead_def PdaBar_assertRange_def andThen_def bnd_def throw_def ret_def
      PdaBar_getOffsetAddress_def)

text \<open>When the registration of a DMA buffer fails, the constructor catches its own exception and
  goes on to use the buffer handle that was never set.\<close>

lemma failed_registration_uses_dead_buffer:
  assumes "\<not> register1" "\<not> getPrevious \<or> \<not> deletePrevious \<or> \<not> register2"
  shows "PdaDmaBuffer_new register1 getPrevious deletePrevious register2 sgList = Inl DeadObject"
  using assms by (auto simp: PdaDmaBuffer_new_def PdaDmaBuffer_register_def)

section \<open>Register fields\<close>

text \<open>The control register of the CRU data generator after the pattern, size and random-size
  fields have been set: pattern in bits 1 and 2, event size in units of 32 bytes minus one in bits 8
  to 15, random flag in bit 16, every other bit as it was; decoding the size field gives the size
  back.\<close>

lemma generator_register_layout:
  assumes "setDataGeneratorPatternBits bits pattern = Inr b1" "setDataGeneratorSizeBits b1 sz = Inr b2"
    and "b3 = setDataGeneratorRandomSizeBits b2 random"
  shows "(bit b3 1 \<longleftrightarrow> pattern = PatIncremental \<or> pattern = PatConstant)
    \<and> (bit b3 2 \<longleftrightarrow> pattern = PatAlternating \<or> pattern = PatConstant) \<and> (bit b3 16 \<longleftrightarrow> random)
    \<and> (\<exists>f. getBits b3 8 15 = Inr f \<and> (uint f + 1) * 32 = uint sz)
    \<and> {n. bit b3 n \<noteq> bit bits n} \<subseteq> {1, 2, 16} \<union> {8..<16}"
proof -
  note reg = generator_register[OF assms]
  obtain f where f: "getBits b2 8 15 = Inr f" by (simp add: getBits_def)
  obtain g where g: "getBits b3 8 15 = Inr g" by (simp add: getBits_def)
  have "bit g n = bit f n" for n
    using getBits_bit[OF f, of n] getBits_bit[OF g, of n] assms(3)
    by (auto simp: setDataGeneratorRandomSizeBits_def setBitTo_bit)
  then have "g = f" by (intro bit_eqI) auto
  then show ?thesis
    using reg[of 1] reg[of 2] reg[of 16] g size_field_decodes[OF assms(2) f] by (auto simp: reg split: if_splits)
qed

text \<open>Splitting a 64-bit bus address into the two 32-bit words that are written to the card loses
  nothing.\<close>

lemma busAddress_words_reassemble:
  "push_bit 32 (ucast (getUpper32Bits x) :: u64) OR ucast (getLower32Bits x) = x"
  by (rule bits_reassemble)

text \<open>\<^verbatim>\<open>getBits\<close> extracts exactly the bits from \<open>lsb\<close> to \<open>msb\<close>, and writing a bit with \<^verbatim>\<open>setBit\<close>
  then reading it with \<^verbatim>\<open>getBit\<close> gives it back and leaves the other bits alone.\<close>

lemma bit_fields_exact:
  assumes "lsb < msb" "msb < 32" "i < 32" "j < 32"
  shows "(\<exists>y. getBits x lsb msb = Inr y \<and> (\<forall>n. bit y n \<longleftrightarrow> n \<le> msb - lsb \<and> bit x (lsb + n)))
    \<and> getBit (setBitTo x i v) j = (if i = j then of_bool v else getBit x j)"
proof -
  obtain y where y: "getBits x lsb msb = Inr y" using assms(1) by (simp add: getBits_def)
  then show ?thesis using getBits_bit[OF y assms(2)] getBit_setBitTo[OF assms(3,4)] by blast
qed

section \<open>Parameters\<close>



text \<open>(C29) A link mask string made of a range and a single number, such as \<open>0-3,8\<close>, is parsed to
  exactly the links of the range and the number, in finitely many steps, for every range that does
  not end at the largest 32-bit number.\<close>

theorem linkMask_range_and_single:
  assumes "CHR ''-'' \<notin> set (p @ q @ r)" "CHR '','' \<notin> set (p @ q @ r)"
    and "lexc p = Some a" "lexc q = Some b" "lexc r = Some l" "b \<noteq> 2 ^ 32 - 1"
  shows "Parameters_linkMaskFromString lexc (p @ ''-'' @ q @ '','' @ r) = Some (Inr ({a..b} \<union> {l}))"
proof -
  have c: "CHR '','' \<notin> set (p @ ''-'' @ q)" using assms(2) by auto
  have "split_on CHR '','' (p @ ''-'' @ q @ '','' @ r) = [p @ ''-'' @ q, r]"
    using split_on_append[OF c, of r] split_on_no_sep[of "CHR '',''" r] assms(2) by simp
  moreover have "linkMask_part lexc (p @ ''-'' @ q) {} = Some (Inr ({} \<union> {a..b}))"
    using assms by (intro linkMask_range) auto
  moreover have "linkMask_part lexc r ({} \<union> {a..b}) = Some (Inr (insert l ({} \<union> {a..b})))"
    using assms by (intro linkMask_single) auto
  ultimately show ?thesis by (simp add: Parameters_linkMaskFromString_def)
qed

theorem linkMask_range_and_single_witness:
  "Parameters_linkMaskFromString (\<lambda>s. if s = ''0'' then Some 0 else if s = ''3'' then Some 3 else if s = ''8'' then Some 8 else None)
     (''0'' @ ''-'' @ ''3'' @ '','' @ ''8'') = Some (Inr ({0..3} \<union> {8}))"
  by (rule linkMask_range_and_single) simp_all

text \<open>A range that ends at the largest 32-bit number makes the parser loop forever: the loop
  variable has the same width and never exceeds the bound.\<close>

lemma linkMask_endless_range:
  assumes "CHR ''-'' \<notin> set (p @ q)" "CHR '','' \<notin> set (p @ q)" "lexc p = Some a" "lexc q = Some (2 ^ 32 - 1)"
  shows "Parameters_linkMaskFromString lexc (p @ ''-'' @ q) = None"
proof -
  have "split_on CHR '','' (p @ ''-'' @ q) = [p @ ''-'' @ q]" using assms(2) by (intro split_on_no_sep) auto
  moreover have "split_on CHR ''-'' (p @ ''-'' @ q) = [p, q]"
    using split_on_append[of "CHR ''-''" p q] split_on_no_sep[of "CHR ''-''" q] assms(1) by simp
  moreover have "insert_range a 4294967295 {} = None"
  proof -
    have "(4294967295 :: u32) = - 1" by simp
    then show ?thesis using insert_range_endless[of a "{}"] by metis
  qed
  ultimately show ?thesis using assms by (simp add: Parameters_linkMaskFromString_def linkMask_part_def)
qed

section \<open>C-RORC words\<close>

text \<open>The event size of the data generator is rounded down to a power of two: for every positive
  number the result is the largest power of two that does not exceed it.\<close>

lemma roundPowerOf2_largest_power:
  assumes "number \<noteq> 0"
  shows "\<exists>r y. roundPowerOf2 number = Inr y \<and> uint y = 2 ^ r \<and> uint y \<le> uint number \<and> uint number < 2 * uint y"
  using assms by (rule roundPowerOf2_spec)

text \<open>The command word sent over the DDL has the destination in bits 0 to 3, the command in bits 4
  to 7, the transaction number in bits 8 to 11 and the parameter in bits 12 to 30, each cut to its
  width; the fields that the answer is matched against are read back from the same places.\<close>

lemma ddl_command_fields:
  assumes "dest \<noteq> -1" "ddl_command_word dest command transid param = (d, com)"
  shows "st_dest com = word_of_int dest AND 0xf \<and> st_code com = command AND 0xf \<and> st_trid com = transid AND 0xf
    \<and> drop_bit 12 com = param AND 0x7ffff"
proof -
  note b = ddl_command_word_bits[OF assms]
  have m: "(0xf :: u32) = mask 4" "(0x7ffff :: u32) = mask 19" by (simp_all add: mask_eq_exp_minus_1)
  show ?thesis
    unfolding st_dest_def st_code_def st_trid_def m
    by (intro conjI; rule bit_word_eqI) (auto simp: bit_simps b)
qed

text \<open>\<^verbatim>\<open>ddlInterpretIFSTW\<close> never reports an error of the DIU: it masks the status with the port
  field before it looks for the error bits, so that none of the twelve error messages can appear,
  whatever the status word.\<close>

lemma diu_errors_never_reported:
  assumes "uint (st_dest w) = DEST_DIU" "(m, message) \<in> set diu_error_table"
  shows "message \<notin> set (ddlInterpretIFSTW w)"
proof -
  have "check_table (v AND 0x7000) diu_error_table = []" for v
    by (simp add: check_table_def diu_error_table_def and.commute[of _ "0x7000 :: u32"] and.left_commute[of _ "0x7000 :: u32"]
        flip: and.assoc)
  moreover have "set (check_table_exclusive s diu_port_table) \<subseteq> snd ` set diu_port_table" for s
    by (auto simp: check_table_exclusive_def check_table_def dest!: in_set_takeD)
  ultimately have "set (ddlInterpretIFSTW w) \<subseteq> insert ''DIU is set in loop-back mode'' (snd ` set diu_port_table)"
    using assms(1) by (auto simp: ddlInterpretIFSTW_def Let_def split: if_splits)
  moreover have "snd ` set diu_error_table \<inter> insert ''DIU is set in loop-back mode'' (snd ` set diu_port_table) = {}"
    by (simp add: diu_error_table_def diu_port_table_def)
  moreover have "message \<in> snd ` set diu_error_table" using assms(2) by force
  ultimately show ?thesis by blast
qed

end
