(* ===== verification/ReadoutMemory.thy ===== *)
theory ReadoutMemory
  imports Fifo Page_Pool "HOL-Library.Signed_Division"
begin

text \<open>
  \<^verbatim>\<open>ReadoutMemoryHandler\<close> (src/Readout/src/ReadoutEquipmentRORC.cxx): a block of shared memory cut into pages, with a
  queue of the offsets of the pages that are free. The memory mapped file is a parameter: for the
  size asked it gives the size and the address of the mapping, or fails. A signed overflow, which is undefined in C++, is
  the value \<open>SignedOverflow\<close>.
\<close>

record memory_handler =
  mh_memorySize :: u64
  mh_pageSize :: int
  mh_baseAddress :: u64
  pagesAvailable :: "u64 fifo"

definition hugePageSize :: u64 where "hugePageSize = 2 * 1024 * 1024"

definition round_to_hugepage :: "u64 \<Rightarrow> u64" where
  "round_to_hugepage vMemorySize =
     (let r = vMemorySize mod hugePageSize in if r \<noteq> 0 then vMemorySize + (hugePageSize - r) else vMemorySize)"

text \<open>Bytes to skip up to the next multiple of 1 MiB: \<^verbatim>\<open>(long)baseAddress % baseAlignment\<close> is the remainder of a
  signed division.\<close>

definition skip_unaligned :: "u64 \<Rightarrow> int" where
  "skip_unaligned baseAddress =
     (let r = sint baseAddress smod (1024 * 1024) in if r \<noteq> 0 then 1024 * 1024 - r else 0)"

definition fits_int :: "int \<Rightarrow> bool" where
  "fits_int x \<longleftrightarrow> - (2 ^ 31) \<le> x \<and> x < 2 ^ 31"

text \<open>\<open>fill_offsets\<close> is the loop over the pages, with \<open>n\<close> of them to go and the counter at \<open>i\<close>.\<close>

fun fill_offsets :: "int \<Rightarrow> nat \<Rightarrow> int \<Rightarrow> u64 fifo \<Rightarrow> u64 fifo res" where
  "fill_offsets pageSize 0 i q = Inr q"
| "fill_offsets pageSize (Suc n) i q =
     (if \<not> fits_int (i * pageSize) then Inl SignedOverflow
      else res_bind (Fifo_push (word_of_int (i * pageSize)) q) (\<lambda>(_, q'). fill_offsets pageSize n (i + 1) q'))"

definition ReadoutMemoryHandler_new :: "(u64 \<Rightarrow> (u64 \<times> u64) option) \<Rightarrow> u64 \<Rightarrow> int \<Rightarrow> memory_handler res" where
  "ReadoutMemoryHandler_new mapFile vMemorySize vPageSize =
     (case mapFile (round_to_hugepage vMemorySize) of
        None \<Rightarrow> Inl (RuntimeError ''exit'')
      | Some (mappedSize, mappedAddress) \<Rightarrow>
          let skipBytes = skip_unaligned mappedAddress;
              baseAddress = mappedAddress + word_of_int skipBytes;
              memorySize = mappedSize - word_of_int skipBytes
          in if vPageSize = 0 then Inl DivisionByZero
             else let nPages = sint (ucast (memorySize div word_of_int vPageSize) :: u32)
                  in res_bind (Fifo_new 0 nPages) (\<lambda>q.
                     res_bind (fill_offsets vPageSize (nat nPages) 0 q) (\<lambda>q'.
                       Inr \<lparr>mh_memorySize = memorySize, mh_pageSize = vPageSize, mh_baseAddress = baseAddress,
                            pagesAvailable = q'\<rparr>)))"


section \<open>The pages\<close>

definition page_offsets :: "int \<Rightarrow> nat \<Rightarrow> u64 list" where
  "page_offsets pageSize n = map (\<lambda>i. word_of_int (int i * pageSize)) [0..<n]"

lemma fill_offsets_ok:
  assumes "fifo_inv q" "length (fifo_contents q) + n \<le> fifo_capacity q" "0 < ps" "0 \<le> i" "(i + int n - 1) * ps < 2 ^ 31"
  shows "\<exists>q'. fill_offsets ps n i q = Inr q' \<and> fifo_inv q' \<and> fifo_capacity q' = fifo_capacity q
    \<and> fifo_contents q' = fifo_contents q @ map (\<lambda>j. word_of_int ((i + int j) * ps)) [0..<n]"
  using assms
proof (induction n arbitrary: i q)
  case (Suc n)
  have "i * ps \<le> (i + int (Suc n) - 1) * ps" using Suc.prems(3) by (intro mult_right_mono) auto
  from le_less_trans[OF this Suc.prems(5)] have "i * ps < 2 ^ 31" .
  moreover have "0 \<le> i * ps" using Suc.prems(3,4) by simp
  ultimately have fit: "fits_int (i * ps)" unfolding fits_int_def by linarith
  obtain q' where q': "Fifo_push (word_of_int (i * ps)) q = Inr (0, q')" "fifo_inv q'"
      "fifo_contents q' = fifo_contents q @ [word_of_int (i * ps)]" "fifo_capacity q' = fifo_capacity q"
    using Fifo_push_space[OF Suc.prems(1), of "word_of_int (i * ps)"] Suc.prems(2) by auto
  have "(i + 1 + int n - 1) * ps < 2 ^ 31" using Suc.prems(5) by (simp add: algebra_simps)
  then obtain q'' where q'': "fill_offsets ps n (i + 1) q' = Inr q''" "fifo_inv q''" "fifo_capacity q'' = fifo_capacity q'"
      "fifo_contents q'' = fifo_contents q' @ map (\<lambda>j. word_of_int ((i + 1 + int j) * ps)) [0..<n]"
    using Suc.IH[OF q'(2), of "i + 1"] q'(3,4) Suc.prems(2-4) by auto
  have "map (\<lambda>j. word_of_int ((i + int j) * ps)) [0..<Suc n] =
      word_of_int (i * ps) # map (\<lambda>j. word_of_int ((i + 1 + int j) * ps) :: u64) [0..<n]"
    by (simp add: upt_conv_Cons map_Suc_upt[symmetric] o_def algebra_simps del: upt_Suc)
  then show ?case using fit q' q'' by simp
qed simp

lemma fill_offsets_overflow:
  assumes "fifo_inv q" "0 \<le> i" "i \<le> k" "k < i + int n" "\<not> fits_int (k * ps)"
  shows "fill_offsets ps n i q = Inl SignedOverflow"
  using assms
proof (induction n arbitrary: i q)
  case (Suc n)
  show ?case
  proof (cases "fits_int (i * ps)")
    case True
    obtain r q' where "Fifo_push (word_of_int (i * ps)) q = Inr (r, q')" "fifo_inv q'"
      using fq.push_defined[OF Suc.prems(1)] by blast
    moreover have "i \<noteq> k" using True Suc.prems(5) by auto
    ultimately show ?thesis using Suc.IH[of q' "i + 1"] Suc.prems True by simp
  qed simp
qed simp

lemma page_offsets_distinct:
  assumes "0 < ps" "int n * ps < 2 ^ 64"
  shows "distinct (page_offsets ps n)"
  unfolding page_offsets_def distinct_map
proof (intro conjI distinct_upt inj_onI)
  fix i j
  assume h: "i \<in> set [0..<n]" "j \<in> set [0..<n]" "word_of_int (int i * ps) = (word_of_int (int j * ps) :: u64)"
  have b: "0 \<le> int k * ps \<and> int k * ps < 2 ^ 64" if "k \<in> set [0..<n]" for k
  proof -
    have "int k * ps \<le> int n * ps" using that assms(1) by (intro mult_right_mono) auto
    from le_less_trans[OF this assms(2)] show ?thesis using assms(1) by simp
  qed
  have "int i * ps = int j * ps"
    using arg_cong[OF h(3), of uint] b[OF h(1)] b[OF h(2)] uint_of_int_small[where 'a = 64] by (metis len64)
  then show "i = j" using assms(1) by simp
qed


text \<open>The queue of free offsets is a pool of pages: a page in use is one whose offset is not queued. The
  state is paired with the list of all offsets, which the handler does not store.\<close>

definition offset_get :: "u64 list \<times> u64 fifo \<Rightarrow> (u64 option \<times> u64 list \<times> u64 fifo) res" where
  "offset_get p = res_bind (Fifo_pop 0 0 (snd p)) (\<lambda>(rc, offset, q).
     Inr (if rc = 0 then Some offset else None, fst p, q))"

definition offset_release :: "u64 \<Rightarrow> u64 list \<times> u64 fifo \<Rightarrow> (u64 list \<times> u64 fifo) res" where
  "offset_release offset p = res_bind (Fifo_push offset (snd p)) (\<lambda>(_, q). Inr (fst p, q))"

definition offset_inv :: "u64 list \<times> u64 fifo \<Rightarrow> bool" where
  "offset_inv p \<longleftrightarrow> distinct (fst p) \<and> fifo_inv (snd p) \<and> fifo_capacity (snd p) = length (fst p)
     \<and> distinct (fifo_contents (snd p)) \<and> set (fifo_contents (snd p)) \<subseteq> set (fst p)"

definition offset_used :: "u64 list \<times> u64 fifo \<Rightarrow> u64 set" where
  "offset_used p = set (fst p) - set (fifo_contents (snd p))"

lemma offset_free_space:
  assumes "offset_inv p" "a \<in> offset_used p"
  shows "length (fifo_contents (snd p)) < fifo_capacity (snd p)"
proof -
  have "set (fifo_contents (snd p)) \<subset> set (fst p)" using assms by (auto simp: offset_inv_def offset_used_def)
  then have "card (set (fifo_contents (snd p))) < card (set (fst p))" by (intro psubset_card_mono) auto
  then show ?thesis using assms(1) by (simp add: offset_inv_def distinct_card)
qed

interpretation mh: page_pool offset_inv "\<lambda>p. set (fst p)" offset_used offset_get offset_release
proof
  fix p :: "u64 list \<times> u64 fifo"
  assume inv: "offset_inv p"
  show "offset_used p \<noteq> set (fst p) \<Longrightarrow> \<exists>a p'. offset_get p = Inr (Some a, p') \<and> offset_inv p'
      \<and> a \<in> set (fst p) - offset_used p \<and> offset_used p' = insert a (offset_used p) \<and> set (fst p') = set (fst p)"
  proof -
    assume "offset_used p \<noteq> set (fst p)"
    then obtain y ys where y: "fifo_contents (snd p) = y # ys"
      by (cases "fifo_contents (snd p)") (auto simp: offset_used_def)
    then show ?thesis using Fifo_pop_item[of "snd p" y ys 0 0] inv
      by (auto simp: offset_get_def offset_inv_def offset_used_def)
  qed
  show "offset_used p = set (fst p) \<Longrightarrow> offset_get p = Inr (None, p)"
  proof -
    assume "offset_used p = set (fst p)"
    then have "fifo_contents (snd p) = []" using inv by (cases "fifo_contents (snd p)") (auto simp: offset_used_def offset_inv_def)
    then show ?thesis using Fifo_pop_empty[of "snd p"] inv by (simp add: offset_get_def offset_inv_def)
  qed
  show "\<exists>p'. offset_release a p = Inr p' \<and> offset_inv p' \<and> offset_used p' = offset_used p - {a} \<and> set (fst p') = set (fst p)"
    if "a \<in> offset_used p" for a
    using Fifo_push_space[of "snd p" a] offset_free_space[OF inv that] inv that
    by (auto simp: offset_release_def offset_inv_def offset_used_def)
qed (auto simp: offset_used_def)

text \<open>The number of pages that fit into the mapping, as the code computes it.\<close>

definition handler_pages :: "u64 \<Rightarrow> int \<Rightarrow> nat" where
  "handler_pages memorySize ps = nat (uint memorySize div ps)"

lemma handler_count:
  assumes "0 < ps" "ps < 2 ^ 31" "uint sz div ps < 2 ^ 31"
  shows "sint (ucast (sz div word_of_int ps :: u64) :: u32) = int (handler_pages sz ps)"
proof -
  have n: "0 \<le> uint sz div ps" using assms(1) by (simp add: pos_imp_zdiv_nonneg_iff)
  have "uint (word_of_int ps :: u64) = ps" using assms(1,2) by (intro uint_of_int_small) auto
  then have "uint (sz div word_of_int ps) = uint sz div ps" by (simp add: uint_div)
  then have "uint (ucast (sz div word_of_int ps :: u64) :: u32) = uint sz div ps"
    using n assms(3) by (simp add: unsigned_ucast_eq take_bit_int_eq_self)
  moreover have "sint w = uint w" if w: "uint w < 2 ^ 31" for w :: u32
  proof -
    have "int (unat w) < 2147483648" using w by simp
    then have "unat w < 2147483648" by linarith
    from sint_small[OF this] show ?thesis by simp
  qed
  ultimately show ?thesis using n assms(3) by (simp add: handler_pages_def)
qed

lemma handler_pages_le: "0 < ps \<Longrightarrow> int (handler_pages sz ps) * ps \<le> uint sz"
  by (simp add: handler_pages_def pos_imp_zdiv_nonneg_iff minus_mod_eq_div_mult[symmetric])

lemma memory_handler_cases:
  assumes map: "mapFile (round_to_hugepage v) = Some (sz, base)" and al: "skip_unaligned base = 0"
    and ps: "0 < ps" "ps < 2 ^ 31" and n: "uint sz div ps < 2 ^ 31"
  defines "N \<equiv> handler_pages sz ps"
  shows "(int N - 1) * ps < 2 ^ 31 \<Longrightarrow> \<exists>h. ReadoutMemoryHandler_new mapFile v ps = Inr h \<and> mh_pageSize h = ps
      \<and> mh_memorySize h = sz \<and> mh_baseAddress h = base \<and> fifo_contents (pagesAvailable h) = page_offsets ps N
      \<and> fifo_inv (pagesAvailable h) \<and> fifo_capacity (pagesAvailable h) = N"
    and "2 ^ 31 \<le> (int N - 1) * ps \<Longrightarrow> ReadoutMemoryHandler_new mapFile v ps = Inl SignedOverflow"
proof -
  obtain q where q: "Fifo_new (0 :: u64) (int N) = Inr q" "fifo_inv q" "fifo_contents q = []" "fifo_capacity q = N"
    using Fifo_new_inv[of "int N" 0] by auto
  have new: "ReadoutMemoryHandler_new mapFile v ps =
      res_bind (fill_offsets ps N 0 q) (\<lambda>q'. Inr \<lparr>mh_memorySize = sz, mh_pageSize = ps, mh_baseAddress = base, pagesAvailable = q'\<rparr>)"
    using map al ps q(1) handler_count[OF ps n] by (simp add: ReadoutMemoryHandler_new_def Let_def N_def)
  show "\<exists>h. ReadoutMemoryHandler_new mapFile v ps = Inr h \<and> mh_pageSize h = ps
      \<and> mh_memorySize h = sz \<and> mh_baseAddress h = base \<and> fifo_contents (pagesAvailable h) = page_offsets ps N
      \<and> fifo_inv (pagesAvailable h) \<and> fifo_capacity (pagesAvailable h) = N" if "(int N - 1) * ps < 2 ^ 31"
  proof -
    have "\<exists>q'. fill_offsets ps N 0 q = Inr q' \<and> fifo_inv q' \<and> fifo_capacity q' = fifo_capacity q
      \<and> fifo_contents q' = fifo_contents q @ map (\<lambda>j. word_of_int ((0 + int j) * ps)) [0..<N]"
      using that q(3,4) ps(1) by (intro fill_offsets_ok[OF q(2)]) simp_all
    then show ?thesis using new q(3,4) by (auto simp: page_offsets_def)
  qed
  show "ReadoutMemoryHandler_new mapFile v ps = Inl SignedOverflow" if big: "2 ^ 31 \<le> (int N - 1) * ps"
  proof -
    have "0 < (int N - 1) * ps" by (rule less_le_trans[OF _ big]) simp
    then have "0 \<le> int N - 1" using ps(1) by (simp add: zero_less_mult_iff)
    moreover have "\<not> fits_int ((int N - 1) * ps)" using big by (simp add: fits_int_def)
    ultimately show ?thesis using new fill_offsets_overflow[OF q(2), of 0 "int N - 1" N ps] by simp
  qed
qed

end
