(* ===== verification/Thread_Loop.thy ===== *)
theory Thread_Loop
  imports Prelude
begin

text \<open>
  \<^verbatim>\<open>AliceO2::Common::Thread\<close> (src/Common/src/Thread.cxx): a thread that calls a user function in a
  loop until it is asked to stop. The flags \<open>shutdown\<close> and \<open>running\<close> are atomics shared between the
  owner and the thread, so the body of \<^verbatim>\<open>threadMain\<close> is cut at its accesses: one \<open>thread_next\<close> is one
  access or one call, and a call of the owner can come between any two. The sleep on an idle
  result is left out.

  \<open>theThread\<close> is the pointer: \<open>None\<close> is \<^verbatim>\<open>NULL\<close>, otherwise it holds where the thread is and its local
  counter \<open>nIterOnShutdown\<close>. \<open>loopArg\<close> is the object the callback works on. The last section has the
  timer class of the same library.
\<close>

datatype callback_result = CbOk | CbIdle | CbDone | CbError

datatype thread_pc = TInit | TCheck | TLoop | TResult callback_result | TBreak | TExit

record 'e thread =
  shutdown :: int
  running :: int
  theThread :: "(thread_pc \<times> int) option"
  loopCallback :: "('e \<Rightarrow> callback_result \<times> 'e) option"
  loopArg :: 'e

definition Thread_new :: "('e \<Rightarrow> callback_result \<times> 'e) option \<Rightarrow> 'e \<Rightarrow> 'e thread" where
  "Thread_new vLoopCallback vLoopArg =
     \<lparr>shutdown = 0, running = 0, theThread = None, loopCallback = vLoopCallback, loopArg = vLoopArg\<rparr>"

definition Thread_start :: "'e thread \<Rightarrow> 'e thread" where
  "Thread_start t = (if theThread t = None then t\<lparr>shutdown := 0, running := 0, theThread := Some (TInit, 0)\<rparr> else t)"

definition Thread_stop :: "'e thread \<Rightarrow> 'e thread" where
  "Thread_stop t = (if theThread t \<noteq> None then t\<lparr>shutdown := 1\<rparr> else t)"

text \<open>\<^verbatim>\<open>join\<close> asks the thread to stop and waits for it: its second half is possible once the thread
  has left its function.\<close>

definition Thread_join_request :: "'e thread \<Rightarrow> 'e thread" where
  "Thread_join_request t = (if theThread t \<noteq> None then t\<lparr>shutdown := 1\<rparr> else t)"

definition Thread_join_finish :: "'e thread \<Rightarrow> 'e thread" where
  "Thread_join_finish t = (case theThread t of Some (TExit, _) \<Rightarrow> t\<lparr>theThread := None\<rparr> | _ \<Rightarrow> t)"

definition Thread_doLoop :: "'e thread \<Rightarrow> callback_result \<times> 'e" where
  "Thread_doLoop t = (case loopCallback t of Some cb \<Rightarrow> cb (loopArg t) | None \<Rightarrow> (CbIdle, loopArg t))"

definition maxIterOnShutdown :: int where "maxIterOnShutdown = 100"

fun thread_at :: "thread_pc \<Rightarrow> int \<Rightarrow> 'e thread \<Rightarrow> 'e thread" where
  "thread_at TInit n t = t\<lparr>running := 1, theThread := Some (TCheck, 0)\<rparr>"
| "thread_at TCheck n t =
     t\<lparr>theThread := Some (if shutdown t \<noteq> 0
        then (if n \<ge> maxIterOnShutdown then (TBreak, n) else (TLoop, n + 1)) else (TLoop, n))\<rparr>"
| "thread_at TLoop n t =
     (case Thread_doLoop t of (r, e) \<Rightarrow> t\<lparr>loopArg := e, theThread := Some (TResult r, n)\<rparr>)"
| "thread_at (TResult CbOk) n t = t\<lparr>theThread := Some (TCheck, n)\<rparr>"
| "thread_at (TResult CbIdle) n t = t\<lparr>theThread := Some (if shutdown t \<noteq> 0 then TBreak else TCheck, n)\<rparr>"
| "thread_at (TResult CbError) n t = t\<lparr>theThread := Some (if shutdown t \<noteq> 0 then TBreak else TCheck, n)\<rparr>"
| "thread_at (TResult CbDone) n t = t\<lparr>theThread := Some (TBreak, n)\<rparr>"
| "thread_at TBreak n t = t\<lparr>running := 0, theThread := Some (TExit, n)\<rparr>"
| "thread_at TExit n t = t"

definition thread_next :: "'e thread \<Rightarrow> 'e thread" where
  "thread_next t = (case theThread t of None \<Rightarrow> t | Some (pc, n) \<Rightarrow> thread_at pc n t)"

text \<open>Calls of the owner and steps of the thread, in any order.\<close>

datatype thread_event = EvStart | EvStop | EvJoinRequest | EvJoinFinish | EvNext

fun thread_call :: "thread_event \<Rightarrow> 'e thread \<Rightarrow> 'e thread" where
  "thread_call EvStart = Thread_start"
| "thread_call EvStop = Thread_stop"
| "thread_call EvJoinRequest = Thread_join_request"
| "thread_call EvJoinFinish = Thread_join_finish"
| "thread_call EvNext = thread_next"


section \<open>How long a thread goes on after a request to stop\<close>

definition thread_inv :: "'e thread \<Rightarrow> bool" where
  "thread_inv t \<longleftrightarrow> (case theThread t of None \<Rightarrow> True | Some (pc, n) \<Rightarrow> 0 \<le> n \<and> n \<le> maxIterOnShutdown
     \<and> (pc = TInit \<longrightarrow> n = 0) \<and> (pc = TExit \<longrightarrow> running t = 0))"

lemma thread_call_inv:
  assumes "thread_inv t"
  shows "thread_inv (thread_call ev t)"
proof (cases ev)
  case EvNext
  show ?thesis
  proof (cases "theThread t")
    case (Some p)
    then obtain pc n where p: "theThread t = Some (pc, n)" by (cases p) auto
    then show ?thesis using assms EvNext
      by (cases "(pc, n, t)" rule: thread_at.cases)
        (auto simp: thread_inv_def thread_next_def maxIterOnShutdown_def split: prod.splits)
  qed (use assms EvNext in \<open>simp add: thread_next_def\<close>)
qed (use assms in \<open>auto simp: thread_inv_def Thread_start_def Thread_stop_def Thread_join_request_def
    Thread_join_finish_def maxIterOnShutdown_def split: option.splits thread_pc.splits\<close>)

lemma thread_reachable_inv: "thread_inv (fold thread_call evs (Thread_new cb e))"
proof -
  have "thread_inv t \<Longrightarrow> thread_inv (fold thread_call evs t)" for t :: "'a thread"
    by (induction evs arbitrary: t) (simp_all add: thread_call_inv)
  then show ?thesis by (simp add: thread_inv_def Thread_new_def)
qed

text \<open>Steps and callback calls that are left at most once \<open>shutdown\<close> is set.\<close>

fun steps_left :: "thread_pc \<Rightarrow> int \<Rightarrow> nat" where
  "steps_left TInit n = nat (3 * (maxIterOnShutdown - n) + 3)"
| "steps_left TCheck n = nat (3 * (maxIterOnShutdown - n) + 2)"
| "steps_left TLoop n = nat (3 * (maxIterOnShutdown - n) + 4)"
| "steps_left (TResult r) n = nat (3 * (maxIterOnShutdown - n) + 3)"
| "steps_left TBreak n = 1"
| "steps_left TExit n = 0"

fun calls_left :: "thread_pc \<Rightarrow> int \<Rightarrow> nat" where
  "calls_left TLoop n = nat (maxIterOnShutdown - n + 1)"
| "calls_left TBreak n = 0"
| "calls_left TExit n = 0"
| "calls_left _ n = nat (maxIterOnShutdown - n)"

lemma thread_next_left:
  assumes "thread_inv t" "theThread t = Some (pc, n)" "shutdown t \<noteq> 0" "pc \<noteq> TExit"
  obtains pc' n' where "theThread (thread_next t) = Some (pc', n')" "shutdown (thread_next t) \<noteq> 0"
    "steps_left pc' n' < steps_left pc n" "loopCallback (thread_next t) = loopCallback t"
    "loopArg (thread_next t) = loopArg t \<and> calls_left pc' n' \<le> calls_left pc n
      \<or> loopArg (thread_next t) = snd (Thread_doLoop t) \<and> calls_left pc' n' < calls_left pc n"
proof -
  have "\<exists>pc' n'. theThread (thread_next t) = Some (pc', n') \<and> shutdown (thread_next t) \<noteq> 0
    \<and> steps_left pc' n' < steps_left pc n \<and> loopCallback (thread_next t) = loopCallback t
    \<and> (loopArg (thread_next t) = loopArg t \<and> calls_left pc' n' \<le> calls_left pc n
      \<or> loopArg (thread_next t) = snd (Thread_doLoop t) \<and> calls_left pc' n' < calls_left pc n)"
    using assms
    by (cases "(pc, n, t)" rule: thread_at.cases)
      (auto simp: thread_inv_def thread_next_def maxIterOnShutdown_def split: prod.splits)
  then show thesis using that by blast
qed

definition callback_step :: "'e thread \<Rightarrow> 'e \<Rightarrow> 'e" where
  "callback_step t e = snd (Thread_doLoop (t\<lparr>loopArg := e\<rparr>))"

lemma thread_runs_out:
  assumes "thread_inv t" "theThread t = Some (pc, n)" "shutdown t \<noteq> 0" "steps_left pc n \<le> k"
  shows "\<exists>m j. theThread ((thread_next ^^ k) t) = Some (TExit, m) \<and> running ((thread_next ^^ k) t) = 0
    \<and> j \<le> calls_left pc n \<and> loopArg ((thread_next ^^ k) t) = (callback_step t ^^ j) (loopArg t)"
  using assms
proof (induction k arbitrary: t pc n)
  case 0
  then have "pc = TExit"
    by (cases pc) (auto simp: thread_inv_def)
  then show ?case using "0.prems" by (intro exI[of _ n] exI[of _ 0]) (simp add: thread_inv_def)
next
  case (Suc k)
  show ?case
  proof (cases "pc = TExit")
    case True
    then have "thread_next t = t" using Suc.prems(2) by (simp add: thread_next_def)
    then have "(thread_next ^^ Suc k) t = t" by (induction k) simp_all
    then show ?thesis using True Suc.prems by (intro exI[of _ n] exI[of _ 0]) (simp add: thread_inv_def)
  next
    case False
    obtain pc' n' where p: "theThread (thread_next t) = Some (pc', n')" "shutdown (thread_next t) \<noteq> 0"
        "steps_left pc' n' < steps_left pc n" "loopCallback (thread_next t) = loopCallback t"
        "loopArg (thread_next t) = loopArg t \<and> calls_left pc' n' \<le> calls_left pc n
          \<or> loopArg (thread_next t) = snd (Thread_doLoop t) \<and> calls_left pc' n' < calls_left pc n"
      by (rule thread_next_left[OF Suc.prems(1-3) False]) blast
    have inv: "thread_inv (thread_next t)" using thread_call_inv[OF Suc.prems(1), of EvNext] by simp
    have same: "callback_step (thread_next t) = callback_step t"
      using p(4) by (simp add: callback_step_def Thread_doLoop_def fun_eq_iff split: option.splits)
    have one: "callback_step t (loopArg t) = snd (Thread_doLoop t)"
      by (simp add: callback_step_def)
    obtain m j where r: "theThread ((thread_next ^^ k) (thread_next t)) = Some (TExit, m)"
        "running ((thread_next ^^ k) (thread_next t)) = 0" "j \<le> calls_left pc' n'"
        "loopArg ((thread_next ^^ k) (thread_next t)) = (callback_step t ^^ j) (loopArg (thread_next t))"
      using Suc.IH[OF inv p(1,2)] p(3) Suc.prems(4) same by auto
    have "\<exists>j'. j' \<le> calls_left pc n \<and> (callback_step t ^^ j) (loopArg (thread_next t)) = (callback_step t ^^ j') (loopArg t)"
    proof (cases "loopArg (thread_next t) = loopArg t")
      case True
      then show ?thesis using p(5) r(3) by (intro exI[of _ j]) auto
    next
      case False
      then show ?thesis using p(5) r(3) one
        by (intro exI[of _ "Suc j"]) (simp add: funpow_swap1)
    qed
    then show ?thesis using r by (auto simp: funpow_swap1)
  qed
qed

text \<open>The number of steps that is enough wherever the thread is.\<close>

lemma steps_left_bound: "thread_inv t \<Longrightarrow> theThread t = Some (pc, n) \<Longrightarrow> steps_left pc n \<le> 304 \<and> calls_left pc n \<le> 101"
  by (cases pc) (auto simp: thread_inv_def maxIterOnShutdown_def)


section \<open>Timer\<close>

text \<open>\<^verbatim>\<open>AliceO2::Common::Timer\<close> (src/Common/src/Timer.cxx), with the clock reading \<open>now\<close> as an argument and all
  times in microseconds; the class computes in floating point seconds.\<close>

record timer =
  t0 :: int
  tmax :: int

definition Timer_reset :: "int \<Rightarrow> int \<Rightarrow> timer" where
  "Timer_reset now timeout = \<lparr>t0 = now, tmax = timeout\<rparr>"

definition Timer_isTimeout :: "int \<Rightarrow> timer \<Rightarrow> bool" where
  "Timer_isTimeout now t \<longleftrightarrow> now - t0 t \<ge> tmax t"

definition Timer_getTime :: "int \<Rightarrow> timer \<Rightarrow> int" where
  "Timer_getTime now t = now - t0 t"

end
