(* ===== verification/DataBlockAggregator.thy ===== *)
theory DataBlockAggregator
  imports Fifo Thread_Loop "HOL-Library.Multiset"
begin

text \<open>
  The event builder of the readout: data blocks and their containers (src/DataFormat/include) and
  \<^verbatim>\<open>DataBlockAggregator\<close> (src/Readout/src/DataBlockAggregator.cxx), which merges the blocks that its input
  queues have at their fronts into one data set per block identifier.

  A container reference is a \<^verbatim>\<open>shared_ptr\<close>; the null pointer is \<open>None\<close>, and a use of it is \<open>DeadObject\<close>. Blocks
  are not changed once they are queued, so a container is a value: its block, and \<open>c_origin\<close>, the page of
  the pool or of the DMA buffer that it gives back when it is destroyed.
\<close>

record data_block =
  blockType :: u32
  headerSize :: u32
  dataSize :: u32
  block_id :: u64
  block_data :: u64

record block_container =
  c_block :: data_block
  c_origin :: u64

type_synonym block_fifo = "block_container option fifo"
type_synonym dataset = "block_container option list"

record aggregator =
  inputs :: "block_fifo list"
  agg_output :: "dataset option fifo"
  isIncompletePending :: bool
  incompletePendingTimer :: timer

definition DataBlockAggregator_new :: "dataset option fifo \<Rightarrow> int \<Rightarrow> aggregator" where
  "DataBlockAggregator_new v_output now =
     \<lparr>inputs = [], agg_output = v_output, isIncompletePending = False, incompletePendingTimer = Timer_reset now 0\<rparr>"

definition DataBlockAggregator_addInput :: "block_fifo \<Rightarrow> aggregator \<Rightarrow> int \<times> aggregator" where
  "DataBlockAggregator_addInput input a = (0, a\<lparr>inputs := inputs a @ [input]\<rparr>)"

text \<open>\<^verbatim>\<open>bc->getData()->header.id\<close>.\<close>

definition container_id :: "block_container option \<Rightarrow> u64 res" where
  "container_id bc = (case bc of None \<Rightarrow> Inl DeadObject | Some c \<Rightarrow> Inr (block_id (c_block c)))"

text \<open>The local variables of the first loop of \<^verbatim>\<open>threadCallback\<close>.\<close>

record agg_scan_vars =
  someEmpty :: bool
  allEmpty :: bool
  allSame :: bool
  minId :: u64
  lastId :: u64

definition agg_scan_id :: "u64 \<Rightarrow> agg_scan_vars \<Rightarrow> agg_scan_vars" where
  "agg_scan_id newId v =
     v\<lparr>allEmpty := False,
       minId := (if minId v = 0 \<or> newId < minId v then newId else minId v),
       allSame := (if lastId v \<noteq> 0 \<and> newId \<noteq> lastId v then False else allSame v),
       lastId := newId\<rparr>"

fun agg_scan :: "block_fifo list \<Rightarrow> agg_scan_vars \<Rightarrow> agg_scan_vars res" where
  "agg_scan [] v = Inr v"
| "agg_scan (f # fs) v =
     (if \<not> Fifo_isEmpty f
      then res_bind (Fifo_front None f) (\<lambda>(_, bc). res_bind (container_id bc) (\<lambda>newId.
             agg_scan fs (agg_scan_id newId v)))
      else agg_scan fs (v\<lparr>someEmpty := True, allSame := False\<rparr>))"

fun agg_collect :: "u64 \<Rightarrow> block_fifo list \<Rightarrow> (dataset \<times> block_fifo list) res" where
  "agg_collect m [] = Inr ([], [])"
| "agg_collect m (f # fs) =
     (if \<not> Fifo_isEmpty f
      then res_bind (Fifo_front None f) (\<lambda>(_, b). res_bind (container_id b) (\<lambda>newId.
             if newId = m
             then res_bind (Fifo_pop None b f) (\<lambda>(_, _, f').
                    res_bind (agg_collect m fs) (\<lambda>(bcv, fs'). Inr (b # bcv, f' # fs')))
             else res_bind (agg_collect m fs) (\<lambda>(bcv, fs'). Inr (bcv, f # fs'))))
      else res_bind (agg_collect m fs) (\<lambda>(bcv, fs'). Inr (bcv, f # fs')))"

definition agg_scan_start :: agg_scan_vars where
  "agg_scan_start = \<lparr>someEmpty = False, allEmpty = True, allSame = True, minId = 0, lastId = 0\<rparr>"

text \<open>\<open>now1\<close> is the clock at the reset of the timer, \<open>now2\<close> at its check; \<open>canAlloc\<close> tells whether the data set
  can be allocated.\<close>

definition DataBlockAggregator_threadCallback ::
  "int \<Rightarrow> int \<Rightarrow> bool \<Rightarrow> aggregator \<Rightarrow> (callback_result \<times> aggregator) res" where
  "DataBlockAggregator_threadCallback now1 now2 canAlloc a =
     (if Fifo_isFull (agg_output a) then Inr (CbIdle, a)
      else res_bind (agg_scan (inputs a) agg_scan_start) (\<lambda>v.
        if allEmpty v then Inr (CbIdle, a)
        else
          let a = (if someEmpty v \<and> \<not> isIncompletePending a
                   then a\<lparr>incompletePendingTimer := Timer_reset now1 500000, isIncompletePending := True\<rparr> else a)
          in if someEmpty v \<and> isIncompletePending a \<and> \<not> Timer_isTimeout now2 (incompletePendingTimer a)
             then Inr (CbIdle, a)
             else
               let a = (if allSame v then a\<lparr>isIncompletePending := False\<rparr> else a)
               in if \<not> canAlloc then Inr (CbError, a)
                  else res_bind (agg_collect (minId v) (inputs a)) (\<lambda>(bcv, fs).
                         res_bind (Fifo_push (Some bcv) (agg_output a)) (\<lambda>(_, out).
                           Inr (CbOk, a\<lparr>inputs := fs, agg_output := out\<rparr>)))))"

text \<open>\<^verbatim>\<open>stop\<close> after the thread has ended: the inputs are cleared, the output is drained and cleared. The
  loop is \<^verbatim>\<open>while (!output->pop(bc))\<close>.\<close>

definition DataBlockAggregator_stop :: "aggregator \<Rightarrow> aggregator res option" where
  "DataBlockAggregator_stop a =
     (case drain 0 (Fifo_pop None) None (agg_output a) [] of
        None \<Rightarrow> None
      | Some (Inl e) \<Rightarrow> Some (Inl e)
      | Some (Inr (bcs, out)) \<Rightarrow>
          Some (if None \<in> set bcs then Inl DeadObject
                else Inr (a\<lparr>inputs := map Fifo_clear (inputs a), agg_output := Fifo_clear out\<rparr>)))"


section \<open>Reading the queues as lists\<close>

definition agg_inv :: "aggregator \<Rightarrow> bool" where
  "agg_inv a \<longleftrightarrow> (\<forall>f \<in> set (inputs a). fifo_inv f \<and> None \<notin> set (fifo_contents f))
     \<and> fifo_inv (agg_output a) \<and> None \<notin> set (fifo_contents (agg_output a))"

definition agg_queues :: "aggregator \<Rightarrow> block_container option list list" where
  "agg_queues a = map fifo_contents (inputs a)"

definition agg_sets :: "aggregator \<Rightarrow> dataset list" where
  "agg_sets a = map the (fifo_contents (agg_output a))"

definition block_ids :: "block_container option list \<Rightarrow> u64 list" where
  "block_ids bs = map (\<lambda>b. block_id (c_block (the b))) bs"

definition front_ids :: "block_container option list list \<Rightarrow> u64 list" where
  "front_ids qs = block_ids (map hd (filter (\<lambda>q. q \<noteq> []) qs))"

definition takes :: "u64 \<Rightarrow> block_container option list \<Rightarrow> bool" where
  "takes m q \<longleftrightarrow> q \<noteq> [] \<and> block_id (c_block (the (hd q))) = m"

definition agg_heads :: "u64 \<Rightarrow> block_container option list list \<Rightarrow> dataset" where
  "agg_heads m qs = map hd (filter (takes m) qs)"

definition agg_rest :: "u64 \<Rightarrow> block_container option list list \<Rightarrow> block_container option list list" where
  "agg_rest m qs = map (\<lambda>q. if takes m q then tl q else q) qs"

definition agg_min :: "u64 list \<Rightarrow> u64 \<Rightarrow> u64" where
  "agg_min is m = foldl (\<lambda>m i. if m = 0 \<or> i < m then i else m) m is"

lemma agg_min_simps [simp]:
  "agg_min [] m = m" "agg_min (i # is) m = agg_min is (if m = 0 \<or> i < m then i else m)"
  by (simp_all add: agg_min_def)

lemma agg_min_in: "agg_min is m \<in> insert m (set is)"
  by (induction "is" arbitrary: m) fastforce+

lemma agg_min_mem: "is \<noteq> [] \<Longrightarrow> agg_min is 0 \<in> set is"
  using agg_min_in by (cases "is") auto

lemma agg_min_le: "0 \<notin> set is \<Longrightarrow> m \<noteq> 0 \<Longrightarrow> agg_min is m \<le> m \<and> (\<forall>i \<in> set is. agg_min is m \<le> i)"
proof (induction "is" arbitrary: m)
  case (Cons j js)
  let ?k = "if m = 0 \<or> j < m then j else m"
  have "?k \<noteq> 0" "?k \<le> m" "?k \<le> j" using Cons.prems by auto
  with Cons.IH[of ?k] Cons.prems(1) show ?case by (auto intro: order_trans)
qed simp

lemma agg_min_least: "0 \<notin> set is \<Longrightarrow> i \<in> set is \<Longrightarrow> agg_min is 0 \<le> i"
  using agg_min_le by (cases "is") auto

lemma front_item:
  assumes "fifo_inv f" "None \<notin> set (fifo_contents f)" "fifo_contents f = x # xs"
  shows "\<not> Fifo_isEmpty f" "Fifo_front None f = Inr (0, x)" "container_id x = Inr (block_id (c_block (the x)))"
  using assms by (cases x; simp add: fifo_empty_iff Fifo_front_item container_id_def)+

lemma agg_scan_spec:
  assumes "\<forall>f \<in> set fs. fifo_inv f \<and> None \<notin> set (fifo_contents f)"
  shows "\<exists>v'. agg_scan fs v = Inr v' \<and> (someEmpty v' \<longleftrightarrow> someEmpty v \<or> [] \<in> set (map fifo_contents fs))
    \<and> (allEmpty v' \<longleftrightarrow> allEmpty v \<and> front_ids (map fifo_contents fs) = [])
    \<and> minId v' = agg_min (front_ids (map fifo_contents fs)) (minId v)
    \<and> (allSame v \<and> [] \<notin> set (map fifo_contents fs) \<and> (lastId v = 0 \<or> lastId v = i)
         \<and> set (front_ids (map fifo_contents fs)) \<subseteq> {i} \<longrightarrow> allSame v')"
  using assms
proof (induction fs arbitrary: v)
  case Nil
  then show ?case by (simp add: front_ids_def block_ids_def)
next
  case (Cons f fs)
  show ?case
  proof (cases "fifo_contents f")
    case Nil
    then have "Fifo_isEmpty f" using Cons.prems by (simp add: fifo_empty_iff)
    then show ?thesis
      using Cons.IH[of "v\<lparr>someEmpty := True, allSame := False\<rparr>"] Cons.prems Nil
      by (auto simp: front_ids_def)
  next
    case (Cons x xs)
    let ?i = "block_id (c_block (the x))"
    have "agg_scan (f # fs) v = agg_scan fs (agg_scan_id ?i v)"
      using front_item[of f x xs] Cons Cons.prems by simp
    moreover have "front_ids (map fifo_contents (f # fs)) = ?i # front_ids (map fifo_contents fs)"
      using Cons by (simp add: front_ids_def block_ids_def)
    ultimately show ?thesis
      using Cons.IH[of "agg_scan_id ?i v"] Cons.prems Cons
      by (auto simp: agg_scan_id_def)
  qed
qed

lemma agg_collect_spec:
  assumes "\<forall>f \<in> set fs. fifo_inv f \<and> None \<notin> set (fifo_contents f)"
  shows "\<exists>fs'. agg_collect m fs = Inr (agg_heads m (map fifo_contents fs), fs')
    \<and> (\<forall>f \<in> set fs'. fifo_inv f \<and> None \<notin> set (fifo_contents f))
    \<and> map fifo_contents fs' = agg_rest m (map fifo_contents fs) \<and> map fifo_capacity fs' = map fifo_capacity fs"
  using assms
proof (induction fs)
  case Nil
  then show ?case by (simp add: agg_heads_def agg_rest_def)
next
  case (Cons f fs)
  then obtain fs' where fs': "agg_collect m fs = Inr (agg_heads m (map fifo_contents fs), fs')"
      "\<forall>f \<in> set fs'. fifo_inv f \<and> None \<notin> set (fifo_contents f)"
      "map fifo_contents fs' = agg_rest m (map fifo_contents fs)" "map fifo_capacity fs' = map fifo_capacity fs"
    by auto
  show ?case
  proof (cases "fifo_contents f")
    case Nil
    then have "Fifo_isEmpty f" using Cons.prems by (simp add: fifo_empty_iff)
    then show ?thesis using fs' Cons.prems Nil by (simp add: agg_heads_def agg_rest_def takes_def)
  next
    case C: (Cons x xs)
    note x = front_item[of f x xs, OF _ _ C]
    show ?thesis
    proof (cases "block_id (c_block (the x)) = m")
      case True
      obtain g where "Fifo_pop None x f = Inr (0, x, g)" "fifo_inv g" "fifo_contents g = xs"
          "fifo_capacity g = fifo_capacity f"
        using Fifo_pop_item[of f x xs None x] C Cons.prems by auto
      then show ?thesis using x True fs' Cons.prems C by (simp add: agg_heads_def agg_rest_def takes_def)
    next
      case False
      then show ?thesis using x fs' Cons.prems C by (simp add: agg_heads_def agg_rest_def takes_def)
    qed
  qed
qed


text \<open>One call of the callback: it forms a data set of the fronts that carry the smallest identifier, or leaves
  all queues alone.\<close>

definition agg_books :: "aggregator \<Rightarrow> block_container option list list \<times> dataset list" where
  "agg_books a = (agg_queues a, agg_sets a)"

lemma agg_books_simps [simp]:
  "agg_books (a\<lparr>isIncompletePending := p\<rparr>) = agg_books a"
  "agg_books (a\<lparr>incompletePendingTimer := t\<rparr>) = agg_books a"
  "agg_inv (a\<lparr>isIncompletePending := p\<rparr>) = agg_inv a"
  "agg_inv (a\<lparr>incompletePendingTimer := t\<rparr>) = agg_inv a"
  by (simp_all add: agg_books_def agg_queues_def agg_sets_def agg_inv_def)

lemma agg_form_set:
  assumes "agg_inv a" "\<not> Fifo_isFull (agg_output a)"
  shows "\<exists>fs out. agg_collect m (inputs a) = Inr (agg_heads m (agg_queues a), fs)
    \<and> Fifo_push (Some (agg_heads m (agg_queues a))) (agg_output a) = Inr (0, out)
    \<and> agg_inv (a\<lparr>inputs := fs, agg_output := out\<rparr>)
    \<and> agg_books (a\<lparr>inputs := fs, agg_output := out\<rparr>)
        = (agg_rest m (agg_queues a), agg_sets a @ [agg_heads m (agg_queues a)])"
proof -
  have o: "fifo_inv (agg_output a)" "None \<notin> set (fifo_contents (agg_output a))"
    and f: "\<forall>f \<in> set (inputs a). fifo_inv f \<and> None \<notin> set (fifo_contents f)"
    using assms(1) by (auto simp: agg_inv_def)
  have "length (fifo_contents (agg_output a)) < fifo_capacity (agg_output a)"
    using assms(2) o(1) fifo_length_le[OF o(1)] by (simp add: Fifo_isFull_iff)
  from Fifo_push_space[OF o(1) this, of "Some (agg_heads m (agg_queues a))"] agg_collect_spec[OF f, of m] o
  show ?thesis by (auto simp: agg_books_def agg_queues_def agg_sets_def agg_inv_def)
qed

lemma agg_queues_fields [simp]:
  "agg_queues (a\<lparr>isIncompletePending := p\<rparr>) = agg_queues a"
  "agg_queues (a\<lparr>incompletePendingTimer := t\<rparr>) = agg_queues a"
  by (simp_all add: agg_queues_def)

lemma agg_callback_spec:
  assumes "agg_inv a"
  defines "m \<equiv> agg_min (front_ids (agg_queues a)) 0"
  shows "\<exists>r a'. DataBlockAggregator_threadCallback now1 now2 canAlloc a = Inr (r, a') \<and> agg_inv a'
    \<and> (r = CbOk \<and> front_ids (agg_queues a) \<noteq> [] \<and> agg_books a' = (agg_rest m (agg_queues a), agg_sets a @ [agg_heads m (agg_queues a)])
       \<or> r \<noteq> CbOk \<and> agg_books a' = agg_books a)"
proof (cases "Fifo_isFull (agg_output a)")
  case True
  then show ?thesis using assms(1) by (simp add: DataBlockAggregator_threadCallback_def)
next
  case False
  have f: "\<forall>f \<in> set (inputs a). fifo_inv f \<and> None \<notin> set (fifo_contents f)"
    using assms(1) by (auto simp: agg_inv_def)
  obtain v where v: "agg_scan (inputs a) agg_scan_start = Inr v"
      "allEmpty v \<longleftrightarrow> front_ids (agg_queues a) = []" "minId v = m"
    using agg_scan_spec[OF f, of agg_scan_start] by (auto simp: agg_scan_start_def agg_queues_def m_def)
  show ?thesis
  proof (cases "allEmpty v")
    case True
    then show ?thesis using False assms(1) v(1) by (simp add: DataBlockAggregator_threadCallback_def)
  next
    case ne: False
    define b where "b = (if someEmpty v \<and> \<not> isIncompletePending a
      then a\<lparr>incompletePendingTimer := Timer_reset now1 500000, isIncompletePending := True\<rparr> else a)"
    define d where "d = (if allSame v then b\<lparr>isIncompletePending := False\<rparr> else b)"
    have b: "agg_inv b" "agg_books b = agg_books a" using assms(1) by (simp_all add: b_def)
    have d: "agg_inv d" "agg_books d = agg_books a" "inputs d = inputs a" "agg_output d = agg_output a"
      using b by (simp_all add: d_def b_def)
    have q: "agg_queues d = agg_queues a" "agg_sets d = agg_sets a" using d(2) by (simp_all add: agg_books_def)
    obtain fs out where c: "agg_collect m (inputs d) = Inr (agg_heads m (agg_queues a), fs)"
        "Fifo_push (Some (agg_heads m (agg_queues a))) (agg_output d) = Inr (0, out)"
        "agg_inv (d\<lparr>inputs := fs, agg_output := out\<rparr>)"
        "agg_books (d\<lparr>inputs := fs, agg_output := out\<rparr>) = (agg_rest m (agg_queues a), agg_sets a @ [agg_heads m (agg_queues a)])"
      using agg_form_set[OF d(1), of m] False d(4) q by auto
    have "DataBlockAggregator_threadCallback now1 now2 canAlloc a =
      (if someEmpty v \<and> isIncompletePending b \<and> \<not> Timer_isTimeout now2 (incompletePendingTimer b) then Inr (CbIdle, b)
       else if \<not> canAlloc then Inr (CbError, d) else Inr (CbOk, d\<lparr>inputs := fs, agg_output := out\<rparr>))"
      unfolding DataBlockAggregator_threadCallback_def using False ne v c
      by (simp add: b_def[symmetric] d_def[symmetric] Let_def)
    then show ?thesis using b d c(3,4) ne v(2) by auto
  qed
qed


section \<open>Runs\<close>

text \<open>The aggregator between the readout equipments, which push blocks to its inputs, and the main loop of
  \<^verbatim>\<open>mainReadout\<close>, which pops data sets. \<open>fed\<close> records the blocks that the inputs accepted, \<open>outs\<close> the data
  sets taken.\<close>

datatype agg_op = AggFeed nat block_container | AggCycle int int bool | AggTake

record agg_system =
  agg :: aggregator
  fed :: "(nat \<times> block_container) list"
  outs :: "dataset list"

fun agg_do :: "agg_op \<Rightarrow> agg_system \<Rightarrow> agg_system res" where
  "agg_do (AggFeed i c) s =
     (if i < length (inputs (agg s))
      then res_bind (Fifo_push (Some c) (inputs (agg s) ! i)) (\<lambda>(r, f).
             Inr (s\<lparr>agg := (agg s)\<lparr>inputs := (inputs (agg s))[i := f]\<rparr>,
                    fed := (if r = 0 then fed s @ [(i, c)] else fed s)\<rparr>))
      else Inr s)"
| "agg_do (AggCycle now1 now2 canAlloc) s =
     res_bind (DataBlockAggregator_threadCallback now1 now2 canAlloc (agg s)) (\<lambda>(_, a). Inr (s\<lparr>agg := a\<rparr>))"
| "agg_do AggTake s =
     res_bind (Fifo_pop None None (agg_output (agg s))) (\<lambda>(_, bc, out).
       Inr (s\<lparr>agg := (agg s)\<lparr>agg_output := out\<rparr>, outs := (case bc of None \<Rightarrow> outs s | Some ds \<Rightarrow> outs s @ [ds])\<rparr>))"

fun agg_run :: "agg_op list \<Rightarrow> agg_system \<Rightarrow> agg_system res" where
  "agg_run [] s = Inr s"
| "agg_run (x # xs) s = res_bind (agg_do x s) (agg_run xs)"

text \<open>What each kind of operation does to the books: the queues, the data sets formed so far, the
  blocks fed.\<close>

definition sys_sets :: "agg_system \<Rightarrow> dataset list" where
  "sys_sets s = outs s @ agg_sets (agg s)"

lemma feed_effect:
  assumes "agg_inv (agg s)"
  obtains s' where "agg_do (AggFeed i c) s = Inr s'" "agg_inv (agg s')" "sys_sets s' = sys_sets s"
    "agg_queues (agg s') = agg_queues (agg s) \<and> fed s' = fed s
     \<or> i < length (agg_queues (agg s)) \<and> fed s' = fed s @ [(i, c)]
       \<and> agg_queues (agg s') = (agg_queues (agg s))[i := agg_queues (agg s) ! i @ [Some c]]"
    "isIncompletePending (agg s') = isIncompletePending (agg s)"
proof (cases "i < length (inputs (agg s))")
  case True
  let ?f = "inputs (agg s) ! i"
  have f: "fifo_inv ?f" "None \<notin> set (fifo_contents ?f)" using assms True by (auto simp: agg_inv_def)
  have upd: "agg_inv ((agg s)\<lparr>inputs := (inputs (agg s))[i := g]\<rparr>)"
    if "fifo_inv g" "None \<notin> set (fifo_contents g)" for g
    using assms that by (auto simp: agg_inv_def dest: set_update_subset_insert[THEN subsetD])
  from f(1) show thesis
  proof (cases rule: fq.push_cases[where x = "Some c"])
    case (accepted g)
    then show thesis using True f upd[of g]
      by (intro that[of "s\<lparr>agg := (agg s)\<lparr>inputs := (inputs (agg s))[i := g]\<rparr>, fed := fed s @ [(i, c)]\<rparr>"])
        (auto simp: sys_sets_def agg_sets_def agg_queues_def map_update)
  next
    case refused
    then show thesis using True f assms
      by (intro that[of "s\<lparr>agg := (agg s)\<lparr>inputs := (inputs (agg s))[i := ?f]\<rparr>, fed := fed s\<rparr>"])
        (auto simp: sys_sets_def agg_sets_def agg_queues_def)
  qed
qed (use assms in \<open>auto intro: that\<close>)

lemma take_effect:
  assumes "agg_inv (agg s)"
  obtains s' where "agg_do AggTake s = Inr s'" "agg_inv (agg s')" "sys_sets s' = sys_sets s"
    "agg_queues (agg s') = agg_queues (agg s)" "fed s' = fed s"
    "isIncompletePending (agg s') = isIncompletePending (agg s)"
proof -
  have o: "fifo_inv (agg_output (agg s))" "None \<notin> set (fifo_contents (agg_output (agg s)))"
    using assms by (auto simp: agg_inv_def)
  from o(1) show thesis
  proof (cases rule: fq.pop_cases[where x = None and z = None])
    case (item y ys g)
    then obtain ds where "y = Some ds" using o(2) by (cases y) auto
    then show thesis using item o assms
      by (intro that[of "s\<lparr>agg := (agg s)\<lparr>agg_output := g\<rparr>, outs := outs s @ [ds]\<rparr>"]) (auto simp: sys_sets_def agg_sets_def agg_queues_def agg_inv_def)
  next
    case empty
    then show thesis using assms o
      by (intro that[of "s\<lparr>agg := (agg s)\<lparr>agg_output := agg_output (agg s)\<rparr>, outs := outs s\<rparr>"]) (auto simp: sys_sets_def agg_sets_def agg_queues_def agg_inv_def)
  qed
qed

lemma cycle_effect:
  assumes "agg_inv (agg s)"
  defines "qs \<equiv> agg_queues (agg s)" and "m \<equiv> agg_min (front_ids (agg_queues (agg s))) 0"
  obtains s' where "agg_do (AggCycle now1 now2 canAlloc) s = Inr s'" "agg_inv (agg s')" "fed s' = fed s"
    "front_ids qs \<noteq> [] \<and> agg_queues (agg s') = agg_rest m qs \<and> sys_sets s' = sys_sets s @ [agg_heads m qs]
     \<or> agg_queues (agg s') = qs \<and> sys_sets s' = sys_sets s"
proof -
  obtain r a' where r: "DataBlockAggregator_threadCallback now1 now2 canAlloc (agg s) = Inr (r, a')" "agg_inv a'"
      "r = CbOk \<and> front_ids qs \<noteq> [] \<and> agg_books a' = (agg_rest m qs, agg_sets (agg s) @ [agg_heads m qs])
       \<or> r \<noteq> CbOk \<and> agg_books a' = agg_books (agg s)"
    using agg_callback_spec[OF assms(1), of now1 now2 canAlloc] unfolding qs_def m_def by blast
  then show thesis
    by (intro that[of "s\<lparr>agg := a'\<rparr>"]) (auto simp: agg_books_def sys_sets_def qs_def)
qed


section \<open>Conservation\<close>

lemma concat_snoc_at: "i < length qs \<Longrightarrow> mset (concat (qs[i := qs ! i @ [y]])) = add_mset y (mset (concat qs))"
  by (induction qs arbitrary: i) (auto split: nat.splits simp: nth_Cons')

lemma agg_split_blocks: "mset (concat (agg_rest m qs)) + mset (agg_heads m qs) = mset (concat qs)"
proof (induction qs)
  case (Cons q qs)
  then show ?case by (cases q) (auto simp: agg_rest_def agg_heads_def takes_def)
qed (simp add: agg_rest_def agg_heads_def)

definition one_event :: "dataset \<Rightarrow> bool" where
  "one_event ds \<longleftrightarrow> ds \<noteq> [] \<and> (\<exists>i. set (block_ids ds) = {i})"

lemma agg_heads_one_event:
  assumes "front_ids qs \<noteq> []"
  shows "one_event (agg_heads (agg_min (front_ids qs) 0) qs)"
proof -
  let ?m = "agg_min (front_ids qs) 0"
  have "?m \<in> set (front_ids qs)" using assms by (rule agg_min_mem)
  then have "agg_heads ?m qs \<noteq> []"
    by (auto simp: front_ids_def block_ids_def agg_heads_def takes_def filter_empty_conv)
  moreover have "set (block_ids (agg_heads ?m qs)) \<subseteq> {?m}"
    by (auto simp: block_ids_def agg_heads_def takes_def)
  ultimately show ?thesis unfolding one_event_def by (cases "agg_heads ?m qs") (auto simp: block_ids_def)
qed

definition sys_blocks :: "agg_system \<Rightarrow> block_container option multiset" where
  "sys_blocks s = mset (concat (agg_queues (agg s))) + mset (concat (sys_sets s))"

definition fed_blocks :: "agg_system \<Rightarrow> block_container option multiset" where
  "fed_blocks s = mset (map (Some \<circ> snd) (fed s))"

lemma agg_do_conserves:
  assumes "agg_inv (agg s)" "list_all one_event (sys_sets s)"
  shows "\<exists>s'. agg_do x s = Inr s' \<and> agg_inv (agg s') \<and> list_all one_event (sys_sets s')
    \<and> sys_blocks s' + fed_blocks s = sys_blocks s + fed_blocks s'"
proof (cases x)
  case (AggFeed i c)
  obtain s' where s': "agg_do (AggFeed i c) s = Inr s'" "agg_inv (agg s')" "sys_sets s' = sys_sets s"
      "agg_queues (agg s') = agg_queues (agg s) \<and> fed s' = fed s
     \<or> i < length (agg_queues (agg s)) \<and> fed s' = fed s @ [(i, c)]
       \<and> agg_queues (agg s') = (agg_queues (agg s))[i := agg_queues (agg s) ! i @ [Some c]]"
    by (rule feed_effect[OF assms(1)]) blast
  then show ?thesis using assms(2) AggFeed
    by (auto simp: sys_blocks_def fed_blocks_def concat_snoc_at)
next
  case (AggCycle now1 now2 ca)
  let ?m = "agg_min (front_ids (agg_queues (agg s))) 0"
  obtain s' where s': "agg_do x s = Inr s'" "agg_inv (agg s')" "fed s' = fed s"
    "front_ids (agg_queues (agg s)) \<noteq> [] \<and> agg_queues (agg s') = agg_rest ?m (agg_queues (agg s))
        \<and> sys_sets s' = sys_sets s @ [agg_heads ?m (agg_queues (agg s))]
     \<or> agg_queues (agg s') = agg_queues (agg s) \<and> sys_sets s' = sys_sets s"
    unfolding AggCycle by (rule cycle_effect[OF assms(1)]) blast
  from s'(4) have "list_all one_event (sys_sets s') \<and> sys_blocks s' = sys_blocks s"
  proof (elim disjE conjE)
    assume "front_ids (agg_queues (agg s)) \<noteq> []" "agg_queues (agg s') = agg_rest ?m (agg_queues (agg s))"
      "sys_sets s' = sys_sets s @ [agg_heads ?m (agg_queues (agg s))]"
    then show ?thesis
      using assms(2) agg_heads_one_event[of "agg_queues (agg s)"]
      by (simp add: sys_blocks_def flip: agg_split_blocks[of ?m "agg_queues (agg s)"])
  qed (use assms(2) in \<open>simp add: sys_blocks_def\<close>)
  then show ?thesis using s'(1-3) by (simp add: fed_blocks_def)
next
  case AggTake
  obtain s' where s': "agg_do AggTake s = Inr s'" "agg_inv (agg s')" "sys_sets s' = sys_sets s"
    "agg_queues (agg s') = agg_queues (agg s)" "fed s' = fed s"
    by (rule take_effect[OF assms(1)]) blast
  then show ?thesis using assms(2) AggTake by (auto simp: sys_blocks_def fed_blocks_def)
qed

lemma agg_run_conserves:
  assumes "agg_inv (agg s)" "list_all one_event (sys_sets s)"
  shows "\<exists>s'. agg_run xs s = Inr s' \<and> agg_inv (agg s') \<and> list_all one_event (sys_sets s')
    \<and> sys_blocks s' + fed_blocks s = sys_blocks s + fed_blocks s'"
  using assms
proof (induction xs arbitrary: s)
  case (Cons x xs)
  obtain s1 where s1: "agg_do x s = Inr s1" "agg_inv (agg s1)" "list_all one_event (sys_sets s1)"
      "sys_blocks s1 + fed_blocks s = sys_blocks s + fed_blocks s1"
    using agg_do_conserves[OF Cons.prems] by blast
  obtain s2 where s2: "agg_run xs s1 = Inr s2" "agg_inv (agg s2)" "list_all one_event (sys_sets s2)"
      "sys_blocks s2 + fed_blocks s1 = sys_blocks s1 + fed_blocks s2"
    using Cons.IH[OF s1(2,3)] by blast
  have "sys_blocks s2 + fed_blocks s = sys_blocks s + fed_blocks s2"
  proof (rule multiset_eqI)
    fix b
    show "count (sys_blocks s2 + fed_blocks s) b = count (sys_blocks s + fed_blocks s2) b"
      using arg_cong[OF s1(4), of "\<lambda>M. count M b"] arg_cong[OF s2(4), of "\<lambda>M. count M b"] by simp
  qed
  then show ?case using s1 s2 by simp
qed simp


section \<open>Event building\<close>

text \<open>The clock of a cycle in which the waiting time for the missing pieces is not over.\<close>

fun in_time :: "agg_op \<Rightarrow> aggregator \<Rightarrow> bool" where
  "in_time (AggCycle now1 now2 _) a \<longleftrightarrow> now2 - now1 < 500000
     \<and> (isIncompletePending a \<longrightarrow> \<not> Timer_isTimeout now2 (incompletePendingTimer a))"
| "in_time _ a \<longleftrightarrow> True"

fun run_in_time :: "agg_op list \<Rightarrow> agg_system \<Rightarrow> bool" where
  "run_in_time [] s \<longleftrightarrow> True"
| "run_in_time (x # xs) s \<longleftrightarrow> in_time x (agg s) \<and> (case agg_do x s of Inl _ \<Rightarrow> True | Inr s' \<Rightarrow> run_in_time xs s')"

lemma agg_waits:
  assumes "agg_inv a" "[] \<in> set (agg_queues a)" "in_time (AggCycle now1 now2 ca) a"
  shows "\<exists>a'. DataBlockAggregator_threadCallback now1 now2 ca a = Inr (CbIdle, a')"
proof -
  have f: "\<forall>f \<in> set (inputs a). fifo_inv f \<and> None \<notin> set (fifo_contents f)"
    using assms(1) by (auto simp: agg_inv_def)
  obtain v where "agg_scan (inputs a) agg_scan_start = Inr v" "someEmpty v"
    using agg_scan_spec[OF f, of agg_scan_start] assms(2) by (auto simp: agg_scan_start_def agg_queues_def)
  then show ?thesis using assms(3)
    by (auto simp: DataBlockAggregator_threadCallback_def Timer_reset_def Timer_isTimeout_def Let_def)
qed

lemma agg_proceeds:
  assumes "agg_inv a" "[] \<notin> set (agg_queues a)" "agg_queues a \<noteq> []" "\<not> Fifo_isFull (agg_output a)"
  shows "\<exists>a'. DataBlockAggregator_threadCallback now1 now2 True a = Inr (CbOk, a')"
proof -
  have f: "\<forall>f \<in> set (inputs a). fifo_inv f \<and> None \<notin> set (fifo_contents f)"
    using assms(1) by (auto simp: agg_inv_def)
  have "front_ids (agg_queues a) \<noteq> []"
    using assms(2,3) by (cases "agg_queues a") (auto simp: front_ids_def block_ids_def)
  then obtain v where v: "agg_scan (inputs a) agg_scan_start = Inr v" "\<not> someEmpty v" "\<not> allEmpty v"
    using agg_scan_spec[OF f, of agg_scan_start] assms(2) by (auto simp: agg_scan_start_def agg_queues_def)
  let ?d = "if allSame v then a\<lparr>isIncompletePending := False\<rparr> else a"
  have d: "agg_inv ?d" "\<not> Fifo_isFull (agg_output ?d)" using assms(1,4) by simp_all
  show ?thesis using v assms(4) agg_form_set[OF d, of "minId v"]
    by (auto simp: DataBlockAggregator_threadCallback_def Let_def)
qed

definition fed_to :: "nat \<Rightarrow> (nat \<times> block_container) list \<Rightarrow> block_container list" where
  "fed_to i ps = map snd (filter (\<lambda>p. fst p = i) ps)"

lemma fed_to_simps [simp]: "fed_to i [] = []" "fed_to i (ps @ qs) = fed_to i ps @ fed_to i qs"
  "fed_to i [(j, c)] = (if j = i then [c] else [])"
  by (simp_all add: fed_to_def)

text \<open>Event \<open>j\<close>: the \<open>j\<close>-th block of every input.\<close>

definition event :: "nat \<Rightarrow> (nat \<times> block_container) list \<Rightarrow> nat \<Rightarrow> dataset" where
  "event k ps j = map (\<lambda>i. Some (fed_to i ps ! j)) [0..<k]"

definition same_ids :: "nat \<Rightarrow> (nat \<Rightarrow> u64) \<Rightarrow> (nat \<times> block_container) list \<Rightarrow> bool" where
  "same_ids k ids ps \<longleftrightarrow> (\<forall>i < k. \<forall>j < length (fed_to i ps). block_id (c_block (fed_to i ps ! j)) = ids j)"

definition synced :: "nat \<Rightarrow> nat \<Rightarrow> agg_system \<Rightarrow> bool" where
  "synced k n s \<longleftrightarrow> agg_inv (agg s) \<and> length (agg_queues (agg s)) = k
     \<and> (\<forall>i < k. n \<le> length (fed_to i (fed s)) \<and> agg_queues (agg s) ! i = map Some (drop n (fed_to i (fed s))))
     \<and> sys_sets s = map (event k (fed s)) [0..<n]"

lemma same_ids_prefix: "same_ids k ids (ps @ qs) \<Longrightarrow> same_ids k ids ps"
  unfolding same_ids_def
proof (intro allI impI)
  fix i j
  assume h: "\<forall>i < k. \<forall>j < length (fed_to i (ps @ qs)). block_id (c_block (fed_to i (ps @ qs) ! j)) = ids j"
    and "i < k" "j < length (fed_to i ps)"
  moreover have "fed_to i (ps @ qs) ! j = fed_to i ps ! j" using \<open>j < length (fed_to i ps)\<close> by (simp add: nth_append)
  ultimately show "block_id (c_block (fed_to i ps ! j)) = ids j" by (metis fed_to_simps(2) length_append trans_less_add1)
qed

lemma event_grows: "\<forall>i < k. n \<le> length (fed_to i ps) \<Longrightarrow> map (event k (ps @ qs)) [0..<n] = map (event k ps) [0..<n]"
  by (auto simp: event_def nth_append)

lemma synced_feed:
  assumes "synced k n s" "agg_do (AggFeed i c) s = Inr s'"
  shows "synced k n s'"
proof -
  have inv: "agg_inv (agg s)" using assms(1) by (simp add: synced_def)
  obtain t where t: "agg_do (AggFeed i c) s = Inr t" "agg_inv (agg t)" "sys_sets t = sys_sets s"
    "agg_queues (agg t) = agg_queues (agg s) \<and> fed t = fed s
     \<or> i < length (agg_queues (agg s)) \<and> fed t = fed s @ [(i, c)]
       \<and> agg_queues (agg t) = (agg_queues (agg s))[i := agg_queues (agg s) ! i @ [Some c]]"
    by (rule feed_effect[OF inv]) blast
  then have [simp]: "s' = t" using assms(2) by simp
  from t(4) show ?thesis
  proof (elim disjE conjE)
    assume "i < length (agg_queues (agg s))" "fed t = fed s @ [(i, c)]"
      "agg_queues (agg t) = (agg_queues (agg s))[i := agg_queues (agg s) ! i @ [Some c]]"
    then show ?thesis using assms(1) t(2,3) event_grows[of k n "fed s" "[(i, c)]"]
      by (auto simp: synced_def nth_list_update)
  qed (use assms(1) t(2,3) in \<open>simp add: synced_def\<close>)
qed

text \<open>When no queue is empty, the fronts are the next event.\<close>

lemma synced_fronts:
  assumes "synced k n s" "same_ids k ids (fed s)" "[] \<notin> set (agg_queues (agg s))" "k \<noteq> 0"
  defines "qs \<equiv> agg_queues (agg s)"
  shows "agg_min (front_ids qs) 0 = ids n" "agg_heads (ids n) qs = event k (fed s) n" "agg_rest (ids n) qs = map tl qs"
    "\<And>i. i < k \<Longrightarrow> n < length (fed_to i (fed s))"
proof -
  have len: "length qs = k" and q: "\<And>i. i < k \<Longrightarrow> qs ! i = map Some (drop n (fed_to i (fed s)))"
    using assms(1) by (auto simp: synced_def qs_def)
  show lt: "n < length (fed_to i (fed s))" if "i < k" for i
    using q[OF that] assms(3) len that by (metis drop_all list.map_disc_iff not_le nth_mem qs_def)
  have hd: "hd (qs ! i) = Some (fed_to i (fed s) ! n)" if "i < k" for i
    using q[OF that] lt[OF that] by (simp add: hd_map hd_drop_conv_nth)
  have ids: "block_id (c_block (fed_to i (fed s) ! n)) = ids n" if "i < k" for i
    using assms(2) lt[OF that] that by (simp add: same_ids_def)
  have all: "takes (ids n) x" if "x \<in> set qs" for x
    using that assms(3) hd ids len by (auto simp: takes_def in_set_conv_nth qs_def)
  have ne: "filter (\<lambda>x. x \<noteq> []) qs = qs" using assms(3) by (auto simp: qs_def intro: filter_True)
  have "set (front_ids qs) \<subseteq> {ids n}"
    using all by (auto simp: front_ids_def block_ids_def takes_def)
  moreover have "front_ids qs \<noteq> []" using len assms(4) ne by (auto simp: front_ids_def block_ids_def)
  ultimately show "agg_min (front_ids qs) 0 = ids n" using agg_min_mem by blast
  show "agg_heads (ids n) qs = event k (fed s) n"
    using all hd len by (intro nth_equalityI) (auto simp: agg_heads_def event_def)
  show "agg_rest (ids n) qs = map tl qs" using all by (simp add: agg_rest_def)
qed

lemma synced_cycle:
  assumes "synced k n s" "same_ids k ids (fed s)" "in_time (AggCycle now1 now2 ca) (agg s)"
    and "agg_do (AggCycle now1 now2 ca) s = Inr s'"
  shows "\<exists>n'. synced k n' s'"
proof -
  let ?qs = "agg_queues (agg s)" and ?m = "agg_min (front_ids (agg_queues (agg s))) 0"
  have inv: "agg_inv (agg s)" using assms(1) by (simp add: synced_def)
  obtain r a' where r: "DataBlockAggregator_threadCallback now1 now2 ca (agg s) = Inr (r, a')" "agg_inv a'"
      "r = CbOk \<and> front_ids ?qs \<noteq> [] \<and> agg_books a' = (agg_rest ?m ?qs, agg_sets (agg s) @ [agg_heads ?m ?qs])
       \<or> r \<noteq> CbOk \<and> agg_books a' = agg_books (agg s)"
    using agg_callback_spec[OF inv, of now1 now2 ca] by blast
  then have s': "s' = s\<lparr>agg := a'\<rparr>" using assms(4) by simp
  show ?thesis
  proof (cases "r = CbOk")
    case False
    then have "synced k n s'" using r assms(1) by (auto simp: synced_def s' agg_books_def sys_sets_def)
    then show ?thesis ..
  next
    case True
    have ne: "[] \<notin> set ?qs" using agg_waits[OF inv _ assms(3)] r(1) True by auto
    have "?qs \<noteq> []" using r(3) True by (auto simp: front_ids_def block_ids_def)
    then have k: "k \<noteq> 0" using assms(1) by (auto simp: synced_def)
    note f = synced_fronts[OF assms(1,2) ne k]
    have "agg_queues a' = map tl ?qs" "agg_sets a' = agg_sets (agg s) @ [event k (fed s) n]"
      using r(3) True f by (simp_all add: agg_books_def)
    then have "synced k (Suc n) s'"
      using r(2) f(4) assms(1)
      by (auto simp: synced_def s' sys_sets_def Suc_le_eq map_tl[symmetric] drop_Suc tl_drop)
    then show ?thesis ..
  qed
qed

lemma agg_run_fed: "agg_run xs s = Inr s' \<Longrightarrow> \<exists>ps. fed s' = fed s @ ps"
proof (induction xs arbitrary: s)
  case (Cons x xs)
  then obtain s1 where s1: "agg_do x s = Inr s1" "agg_run xs s1 = Inr s'" by auto
  have "\<exists>ps. fed s1 = fed s @ ps" using s1(1) by (cases x) (auto split: if_splits)
  then show ?case using Cons.IH[OF s1(2)] by force
qed simp

lemma agg_run_synced:
  assumes "synced k n s" "run_in_time xs s" "agg_run xs s = Inr s'" "same_ids k ids (fed s')"
  shows "\<exists>n'. synced k n' s'"
  using assms
proof (induction xs arbitrary: s n)
  case Nil
  then show ?case by auto
next
  case (Cons x xs)
  obtain s1 where s1: "agg_do x s = Inr s1" "agg_run xs s1 = Inr s'" using Cons.prems(3) by auto
  have inv: "agg_inv (agg s)" using Cons.prems(1) by (simp add: synced_def)
  have t: "in_time x (agg s)" "run_in_time xs s1" using Cons.prems(2) s1 by auto
  have ids: "same_ids k ids (fed s)"
    using agg_run_fed[OF Cons.prems(3)] Cons.prems(4) same_ids_prefix by metis
  have "\<exists>m. synced k m s1"
  proof (cases x)
    case (AggFeed i c)
    then show ?thesis using synced_feed Cons.prems(1) s1(1) by blast
  next
    case (AggCycle now1 now2 ca)
    then show ?thesis using synced_cycle[OF Cons.prems(1) ids] t(1) s1(1) by blast
  next
    case AggTake
    then have "synced k n s1"
      using take_effect[OF inv] Cons.prems(1) s1(1) unfolding synced_def by (metis Inr_inject)
    then show ?thesis ..
  qed
  then show ?case using Cons.IH[OF _ t(2) s1(2) Cons.prems(4)] by blast
qed

end
