(* ===== verification/ReadoutEquipment.thy ===== *)
theory ReadoutEquipment
  imports Dma_Channel ReadoutMemory DataBlockAggregator MemPool
begin

text \<open>
  The readout equipments (src/Readout/src/ReadoutEquipment.cxx, ReadoutEquipmentDummy.cxx, ReadoutEquipmentRORC.cxx): threads that
  fill the queue \<open>dataOut\<close> with blocks. The equipment for the readout cards circulates the pages of a
  \<^verbatim>\<open>ReadoutMemoryHandler\<close>: free page, superpage in the channel, block in \<open>dataOut\<close>, block downstream, free page again.
  Its channel is an argument, and what is shown about it rests on the contract \<open>dma_channel\<close> only.
\<close>

section \<open>Blocks in DMA pages\<close>

definition H_BASE :: u32 where "H_BASE = 0xBB"

definition sizeof_DataBlockHeaderBase :: u32 where "sizeof_DataBlockHeaderBase = 24"

text \<open>\<open>mem\<close> gives the 32-bit word at an address. The container gives its page back when it is destroyed.\<close>

definition DataBlockContainerFromRORC_new :: "(u64 \<Rightarrow> u32) \<Rightarrow> superpage \<Rightarrow> memory_handler \<Rightarrow> block_container" where
  "DataBlockContainerFromRORC_new mem s h =
     (let ptr = mh_baseAddress h + sp_offset s
      in \<lparr>c_block = \<lparr>blockType = H_BASE, headerSize = sizeof_DataBlockHeaderBase, dataSize = ucast (sp_received s),
                     block_id = ucast (mem ptr), block_data = ptr\<rparr>,
          c_origin = sp_offset s\<rparr>)"

definition DataBlockContainerFromRORC_delete :: "block_container \<Rightarrow> memory_handler \<Rightarrow> memory_handler res" where
  "DataBlockContainerFromRORC_delete d h =
     res_bind (Fifo_push (c_origin d) (pagesAvailable h)) (\<lambda>(_, q). Inr (h\<lparr>pagesAvailable := q\<rparr>))"


section \<open>Equipment for readout cards\<close>

record 'c rorc_equipment =
  channel :: 'c
  mReadoutMemoryHandler :: memory_handler
  dataOut :: block_fifo
  pageCount :: int
  isInitialized :: bool
  loopCount :: u64

text \<open>The state the constructor leaves when it does not fail: the channel is started, the output queue has 1000 slots.\<close>

definition ReadoutEquipmentRORC_new :: "'c \<Rightarrow> memory_handler \<Rightarrow> 'c rorc_equipment res" where
  "ReadoutEquipmentRORC_new started h =
     res_bind (Fifo_new None 1000) (\<lambda>q.
       Inr \<lparr>channel = started, mReadoutMemoryHandler = h, dataOut = q, pageCount = 0, isInitialized = True, loopCount = 0\<rparr>)"

text \<open>The superpage of a free page: the default constructor sets the other fields to zero.\<close>

definition page_superpage :: "u64 \<Rightarrow> int \<Rightarrow> superpage" where
  "page_superpage offset pageSize =
     Superpage_default\<lparr>sp_offset := offset, sp_size := word_of_int pageSize, sp_userData := 0\<rparr>"

definition with_pages :: "u64 fifo \<Rightarrow> 'c rorc_equipment \<Rightarrow> 'c rorc_equipment" where
  "with_pages q r = r\<lparr>mReadoutMemoryHandler := (mReadoutMemoryHandler r)\<lparr>pagesAvailable := q\<rparr>\<rparr>"

text \<open>The two loops of \<^verbatim>\<open>populateFifoOut\<close>. Nothing in them bounds the number of passes by itself, so they are partial
  functions with \<open>None\<close> for a loop that does not end; the value is the flag \<^verbatim>\<open>isActive\<close>.\<close>

partial_function (option) give_pages ::
  "('c \<Rightarrow> int) \<Rightarrow> (superpage \<Rightarrow> ('c, unit) io) \<Rightarrow> bool \<Rightarrow> 'c rorc_equipment \<Rightarrow> (bool res \<times> 'c rorc_equipment) option"
where
  "give_pages avail push isActive r =
     (if avail (channel r) \<noteq> 0
      then case Fifo_pop 0 0 (pagesAvailable (mReadoutMemoryHandler r)) of
             Inl e \<Rightarrow> Some (Inl e, r)
           | Inr (rc, offset, q) \<Rightarrow>
               if rc = 0
               then case push (page_superpage offset (mh_pageSize (mReadoutMemoryHandler r))) (channel r) of
                      (Inl e, c) \<Rightarrow> Some (Inl e, with_pages q (r\<lparr>channel := c\<rparr>))
                    | (Inr _, c) \<Rightarrow> give_pages avail push True (with_pages q (r\<lparr>channel := c\<rparr>))
               else Some (Inr isActive, r)
      else Some (Inr isActive, r))"

text \<open>\<open>canAlloc\<close> tells for each value of the page counter whether the container can be allocated.\<close>

partial_function (option) collect_pages ::
  "(u64 \<Rightarrow> u32) \<Rightarrow> (int \<Rightarrow> bool) \<Rightarrow> ('c \<Rightarrow> int) \<Rightarrow> ('c, superpage) io \<Rightarrow> ('c, superpage) io \<Rightarrow> bool \<Rightarrow>
   'c rorc_equipment \<Rightarrow> (bool res \<times> 'c rorc_equipment) option"
where
  "collect_pages mem canAlloc readySize getSp pop isActive r =
     (if \<not> Fifo_isFull (dataOut r) \<and> readySize (channel r) > 0
      then case getSp (channel r) of
             (Inl e, c) \<Rightarrow> Some (Inl e, r\<lparr>channel := c\<rparr>)
           | (Inr s, c) \<Rightarrow>
               if Superpage_isFilled s
               then if \<not> canAlloc (pageCount r) then Some (Inr isActive, r\<lparr>channel := c\<rparr>)
                    else case pop c of
                           (Inl e, c') \<Rightarrow> Some (Inl e, r\<lparr>channel := c'\<rparr>)
                         | (Inr _, c') \<Rightarrow>
                             (case Fifo_push (Some (DataBlockContainerFromRORC_new mem s (mReadoutMemoryHandler r))) (dataOut r) of
                                Inl e \<Rightarrow> Some (Inl e, r\<lparr>channel := c'\<rparr>)
                              | Inr (_, q) \<Rightarrow>
                                  collect_pages mem canAlloc readySize getSp pop True
                                    (r\<lparr>channel := c', dataOut := q, pageCount := pageCount r + 1\<rparr>))
               else Some (Inr isActive, r\<lparr>channel := c\<rparr>)
      else Some (Inr isActive, r))"

declare give_pages.simps [code] collect_pages.simps [code]

definition ReadoutEquipmentRORC_populateFifoOut ::
  "(u64 \<Rightarrow> u32) \<Rightarrow> (int \<Rightarrow> bool) \<Rightarrow> ('c \<Rightarrow> int) \<Rightarrow> ('c \<Rightarrow> int) \<Rightarrow> (superpage \<Rightarrow> ('c, unit) io) \<Rightarrow> ('c, superpage) io \<Rightarrow>
   ('c, superpage) io \<Rightarrow> ('c, unit) io \<Rightarrow> 'c rorc_equipment \<Rightarrow> (callback_result res \<times> 'c rorc_equipment) option"
where
  "ReadoutEquipmentRORC_populateFifoOut mem canAlloc avail readySize push getSp pop fill r =
     (if \<not> isInitialized r then Some (Inr CbError, r)
      else let r = r\<lparr>loopCount := loopCount r + 1\<rparr>
           in case fill (channel r) of
                (Inl e, c) \<Rightarrow> Some (Inl e, r\<lparr>channel := c\<rparr>)
              | (Inr _, c) \<Rightarrow>
                  (case give_pages avail push False (r\<lparr>channel := c\<rparr>) of
                     None \<Rightarrow> None
                   | Some (Inl e, r) \<Rightarrow> Some (Inl e, r)
                   | Some (Inr isActive, r) \<Rightarrow>
                       (case collect_pages mem canAlloc readySize getSp pop isActive r of
                          None \<Rightarrow> None
                        | Some (Inl e, r) \<Rightarrow> Some (Inl e, r)
                        | Some (Inr isActive, r) \<Rightarrow> Some (Inr (if isActive then CbOk else CbIdle), r))))"

text \<open>\<^verbatim>\<open>ReadoutEquipment::getBlock\<close>.\<close>

definition ReadoutEquipment_getBlock :: "'c rorc_equipment \<Rightarrow> (block_container option \<times> 'c rorc_equipment) res" where
  "ReadoutEquipment_getBlock r = res_bind (Fifo_pop None None (dataOut r)) (\<lambda>(_, b, q). Inr (b, r\<lparr>dataOut := q\<rparr>))"


section \<open>The pages in circulation\<close>

text \<open>Downstream of the equipment, blocks are held until the last reference to them goes away; then their
  container is destroyed. Any interleaving of readout cycles, takes and releases is a list of \<open>ro_op\<close>s.\<close>

datatype ro_op = RoPopulate | RoTake | RoRelease nat

type_synonym 'c ro_system = "'c rorc_equipment \<times> block_container list"

fun ro_do :: "('c rorc_equipment \<Rightarrow> (callback_result res \<times> 'c rorc_equipment) option) \<Rightarrow> ro_op \<Rightarrow> 'c ro_system \<Rightarrow> 'c ro_system res option"
where
  "ro_do populate RoPopulate (r, held) =
     (case populate r of None \<Rightarrow> None | Some (Inl e, _) \<Rightarrow> Some (Inl e) | Some (Inr _, r') \<Rightarrow> Some (Inr (r', held)))"
| "ro_do populate RoTake (r, held) =
     Some (res_bind (ReadoutEquipment_getBlock r) (\<lambda>(b, r').
       Inr (r', case b of None \<Rightarrow> held | Some d \<Rightarrow> held @ [d])))"
| "ro_do populate (RoRelease i) (r, held) =
     Some (if i < length held
           then res_bind (DataBlockContainerFromRORC_delete (held ! i) (mReadoutMemoryHandler r)) (\<lambda>h.
                  Inr (r\<lparr>mReadoutMemoryHandler := h\<rparr>, take i held @ drop (Suc i) held))
           else Inr (r, held))"

fun ro_run :: "('c rorc_equipment \<Rightarrow> (callback_result res \<times> 'c rorc_equipment) option) \<Rightarrow> ro_op list \<Rightarrow> 'c ro_system \<Rightarrow> 'c ro_system res option"
where
  "ro_run populate [] s = Some (Inr s)"
| "ro_run populate (x # xs) s =
     (case ro_do populate x s of None \<Rightarrow> None | Some (Inl e) \<Rightarrow> Some (Inl e) | Some (Inr s') \<Rightarrow> ro_run populate xs s')"


definition out_origins :: "block_fifo \<Rightarrow> u64 multiset" where
  "out_origins q = mset (map (c_origin \<circ> the) (fifo_contents q))"

definition ticket_offsets :: "ticket multiset \<Rightarrow> u64 multiset" where
  "ticket_offsets t = image_mset fst t"

definition queues_ok :: "'c rorc_equipment \<Rightarrow> bool" where
  "queues_ok r \<longleftrightarrow> fifo_inv (pagesAvailable (mReadoutMemoryHandler r)) \<and> fifo_inv (dataOut r)
     \<and> None \<notin> set (fifo_contents (dataOut r))"

definition free_pages :: "'c rorc_equipment \<Rightarrow> u64 multiset" where
  "free_pages r = mset (fifo_contents (pagesAvailable (mReadoutMemoryHandler r)))"

text \<open>What the loops do not change: the page size and the capacity of the queue of free pages.\<close>

definition same_frame :: "'c rorc_equipment \<Rightarrow> 'c rorc_equipment \<Rightarrow> bool" where
  "same_frame r r' \<longleftrightarrow> mh_pageSize (mReadoutMemoryHandler r') = mh_pageSize (mReadoutMemoryHandler r)
     \<and> fifo_capacity (pagesAvailable (mReadoutMemoryHandler r')) = fifo_capacity (pagesAvailable (mReadoutMemoryHandler r))
     \<and> isInitialized r' = isInitialized r"

lemma same_frame_trans: "same_frame a b \<Longrightarrow> same_frame b c \<Longrightarrow> same_frame a c"
  by (simp add: same_frame_def)

lemma with_pages_simps [simp]:
  "channel (with_pages q r) = channel r" "dataOut (with_pages q r) = dataOut r"
  "pagesAvailable (mReadoutMemoryHandler (with_pages q r)) = q"
  "mh_pageSize (mReadoutMemoryHandler (with_pages q r)) = mh_pageSize (mReadoutMemoryHandler r)"
  "isInitialized (with_pages q r) = isInitialized r"
  by (simp_all add: with_pages_def)

lemma ticket_page_superpage [simp]: "fst (ticket (page_superpage offset ps)) = offset"
  by (simp add: ticket_def page_superpage_def Superpage_default_def)

definition equipment_ok :: "(superpage \<Rightarrow> bool) \<Rightarrow> ('c \<Rightarrow> bool) \<Rightarrow> 'c rorc_equipment \<Rightarrow> bool" where
  "equipment_ok ok chanInv r \<longleftrightarrow> chanInv (channel r) \<and> queues_ok r
     \<and> (\<forall>offset. ok (page_superpage offset (mh_pageSize (mReadoutMemoryHandler r))))"

text \<open>The pages an equipment has: free, in the channel, or in its output queue.\<close>

definition equipment_pages :: "('c \<Rightarrow> ticket multiset) \<Rightarrow> 'c rorc_equipment \<Rightarrow> u64 multiset" where
  "equipment_pages tickets r = free_pages r + ticket_offsets (tickets (channel r)) + out_origins (dataOut r)"

context dma_channel
begin

definition kept :: "'c rorc_equipment \<Rightarrow> 'c rorc_equipment \<Rightarrow> bool" where
  "kept r r' \<longleftrightarrow> equipment_ok okSp inv r' \<and> equipment_pages tickets r' = equipment_pages tickets r \<and> same_frame r r'"

lemma kept_trans: "kept a b \<Longrightarrow> kept b c \<Longrightarrow> kept a c"
  by (auto simp: kept_def intro: same_frame_trans)

lemma kept_refl: "equipment_ok okSp inv r \<Longrightarrow> kept r r"
  by (simp add: kept_def same_frame_def)

lemma give_pages_returns:
  assumes "equipment_ok okSp inv r"
  shows "\<exists>res r'. give_pages avail push act r = Some (res, r') \<and> (\<forall>b. res = Inr b \<longrightarrow> kept r r')"
  using assms
proof (induction "length (fifo_contents (pagesAvailable (mReadoutMemoryHandler r)))" arbitrary: r act)
  case 0
  then have "fifo_inv (pagesAvailable (mReadoutMemoryHandler r))" by (simp add: equipment_ok_def queues_ok_def)
  then have "Fifo_pop 0 0 (pagesAvailable (mReadoutMemoryHandler r)) = Inr (-1, 0, pagesAvailable (mReadoutMemoryHandler r))"
    using "0.hyps" by (simp add: Fifo_pop_empty)
  then show ?case using kept_refl[OF "0.prems"] by (subst give_pages.simps) simp
next
  case (Suc n)
  let ?q = "pagesAvailable (mReadoutMemoryHandler r)"
  obtain y ys where y: "fifo_contents ?q = y # ys" using Suc.hyps(2) by (cases "fifo_contents ?q") auto
  have inv: "fifo_inv ?q" "inv (channel r)" using Suc.prems by (simp_all add: equipment_ok_def queues_ok_def)
  obtain g where g: "Fifo_pop 0 0 ?q = Inr (0, y, g)" "fifo_inv g" "fifo_contents g = ys" "fifo_capacity g = fifo_capacity ?q"
    using Fifo_pop_item[OF inv(1) y, of 0 0] by blast
  let ?s = "page_superpage y (mh_pageSize (mReadoutMemoryHandler r))"
  show ?case
  proof (cases "avail (channel r) = 0")
    case True
    then show ?thesis using kept_refl[OF Suc.prems] by (subst give_pages.simps) simp
  next
    case av: False
    obtain p c where p: "push ?s (channel r) = (p, c)" by fastforce
    show ?thesis
    proof (cases p)
      case (Inl e)
      then show ?thesis using av g p by (subst give_pages.simps) simp
    next
      case (Inr u)
      let ?r = "with_pages g (r\<lparr>channel := c\<rparr>)"
      have "inv c \<and> tickets c = add_mset (ticket ?s) (tickets (channel r))"
        using push_ret[OF inv(2), of ?s c] Suc.prems p Inr
        by (simp add: equipment_ok_def)
      then have k: "kept r ?r"
        using Suc.prems g y
        by (simp add: kept_def equipment_ok_def queues_ok_def equipment_pages_def free_pages_def ticket_offsets_def same_frame_def)
      then have "equipment_ok okSp inv ?r" by (simp add: kept_def)
      moreover have "n = length (fifo_contents (pagesAvailable (mReadoutMemoryHandler ?r)))"
        using g(3) y Suc.hyps(2) by simp
      ultimately obtain res r' where i: "give_pages avail push True ?r = Some (res, r')" "\<forall>b. res = Inr b \<longrightarrow> kept ?r r'"
        using Suc.hyps(1) by blast
      have "give_pages avail push act r = give_pages avail push True ?r"
        using av g p Inr by (subst give_pages.simps) simp
      then show ?thesis using i kept_trans[OF k] by auto
    qed
  qed
qed

lemma collect_pages_returns:
  assumes "equipment_ok okSp inv r"
  shows "\<exists>res r'. collect_pages mem ca readySize getSp pop act r = Some (res, r') \<and> (\<forall>b. res = Inr b \<longrightarrow> kept r r')"
  using assms
proof (induction "nat (readySize (channel r))" arbitrary: r act)
  case 0
  then have "readySize (channel r) \<le> 0" by simp
  then show ?case using kept_refl[OF "0.prems"] by (subst collect_pages.simps) simp
next
  case (Suc n)
  have inv: "fifo_inv (dataOut r)" "inv (channel r)" using Suc.prems by (simp_all add: equipment_ok_def queues_ok_def)
  have "0 < readySize (channel r)" using Suc.hyps(2) by simp
  from ready_front[OF inv(2) this] obtain s c where c: "getSp (channel r) = (Inr s, channel r)" "pop (channel r) = (Inr s, c)"
      "inv c" "tickets (channel r) = add_mset (ticket s) (tickets c)" "readySize c = readySize (channel r) - 1"
    by blast
  have same: "r\<lparr>channel := channel r\<rparr> = r" by simp
  show ?case
  proof (cases "\<not> Fifo_isFull (dataOut r) \<and> Superpage_isFilled s \<and> ca (pageCount r)")
    case False
    then show ?thesis using kept_refl[OF Suc.prems] c(1) same by (subst collect_pages.simps) auto
  next
    case True
    let ?d = "DataBlockContainerFromRORC_new mem s (mReadoutMemoryHandler r)"
    have "length (fifo_contents (dataOut r)) < fifo_capacity (dataOut r)"
      using True inv(1) fifo_length_le[OF inv(1)] by (simp add: Fifo_isFull_iff)
    from Fifo_push_space[OF inv(1) this, of "Some ?d"] obtain q where q: "Fifo_push (Some ?d) (dataOut r) = Inr (0, q)"
        "fifo_inv q" "fifo_contents q = fifo_contents (dataOut r) @ [Some ?d]"
      by blast
    let ?r = "r\<lparr>channel := c, dataOut := q, pageCount := pageCount r + 1\<rparr>"
    have "c_origin ?d = fst (ticket s)" by (simp add: DataBlockContainerFromRORC_new_def ticket_def Let_def)
    then have k: "kept r ?r"
      using Suc.prems q c(3,4)
      by (simp add: kept_def equipment_ok_def queues_ok_def equipment_pages_def free_pages_def ticket_offsets_def
          out_origins_def same_frame_def)
    then have "equipment_ok okSp inv ?r" by (simp add: kept_def)
    moreover have "n = nat (readySize (channel ?r))" using c(5) Suc.hyps(2) by simp
    ultimately obtain res r' where i: "collect_pages mem ca readySize getSp pop True ?r = Some (res, r')"
        "\<forall>b. res = Inr b \<longrightarrow> kept ?r r'"
      using Suc.hyps(1) by blast
    have "collect_pages mem ca readySize getSp pop act r = collect_pages mem ca readySize getSp pop True ?r"
      using True \<open>0 < readySize (channel r)\<close> c(1,2) q(1) by (subst collect_pages.simps) simp
    then show ?thesis using i kept_trans[OF k] by auto
  qed
qed

lemma populate_returns:
  assumes "equipment_ok okSp inv r"
  shows "\<exists>res r'. ReadoutEquipmentRORC_populateFifoOut mem ca avail readySize push getSp pop fill r = Some (res, r')
    \<and> (\<forall>b. res = Inr b \<longrightarrow> kept r r')"
proof (cases "isInitialized r")
  case False
  then show ?thesis using kept_refl[OF assms] by (simp add: ReadoutEquipmentRORC_populateFifoOut_def)
next
  case True
  let ?r = "r\<lparr>loopCount := loopCount r + 1\<rparr>"
  obtain p c where p: "fill (channel r) = (p, c)" by fastforce
  show ?thesis
  proof (cases p)
    case (Inl e)
    then show ?thesis using True p by (simp add: ReadoutEquipmentRORC_populateFifoOut_def)
  next
    case (Inr u)
    let ?f = "?r\<lparr>channel := c\<rparr>"
    have "inv (channel r)" using assms by (simp add: equipment_ok_def)
    then have "inv c \<and> tickets c = tickets (channel r)" using fill_ret p Inr by simp
    then have kf: "kept r ?f"
      using assms by (simp add: kept_def equipment_ok_def queues_ok_def equipment_pages_def free_pages_def same_frame_def)
    then have "equipment_ok okSp inv ?f" by (simp add: kept_def)
    then obtain r1 g where g: "give_pages avail push False ?f = Some (r1, g)" "\<And>b. r1 = Inr b \<Longrightarrow> kept ?f g"
      using give_pages_returns by blast
    show ?thesis
    proof (cases r1)
      case (Inl e)
      then show ?thesis using True p Inr g by (simp add: ReadoutEquipmentRORC_populateFifoOut_def)
    next
      case r1: (Inr b)
      then have kg: "kept r g" using g(2) kept_trans[OF kf] by simp
      then have "equipment_ok okSp inv g" by (simp add: kept_def)
      then obtain r2 h where h: "collect_pages mem ca readySize getSp pop b g = Some (r2, h)" "\<And>b. r2 = Inr b \<Longrightarrow> kept g h"
        using collect_pages_returns by blast
      have "ReadoutEquipmentRORC_populateFifoOut mem ca avail readySize push getSp pop fill r =
          (case r2 of Inl e \<Rightarrow> Some (Inl e, h) | Inr a \<Rightarrow> Some (Inr (if a then CbOk else CbIdle), h))"
        using True p Inr g(1) r1 h(1)
        by (simp add: ReadoutEquipmentRORC_populateFifoOut_def split: sum.splits)
      then show ?thesis using h(2) kept_trans[OF kg] by (cases r2) auto
    qed
  qed
qed

end

text \<open>Every page is free, in the channel, in the output queue or held downstream, and the queue of free pages has
  room for all of them.\<close>

definition system_pages :: "('c \<Rightarrow> ticket multiset) \<Rightarrow> 'c ro_system \<Rightarrow> u64 multiset" where
  "system_pages tickets s = equipment_pages tickets (fst s) + mset (map c_origin (snd s))"

definition room_for_all :: "('c \<Rightarrow> ticket multiset) \<Rightarrow> 'c ro_system \<Rightarrow> bool" where
  "room_for_all tickets s \<longleftrightarrow>
     size (system_pages tickets s) \<le> fifo_capacity (pagesAvailable (mReadoutMemoryHandler (fst s)))"

lemma take_preserves:
  assumes "equipment_ok ok chanInv r"
  obtains s' where "ro_do populate RoTake (r, held) = Some (Inr s')" "equipment_ok ok chanInv (fst s')" "same_frame r (fst s')"
    "system_pages tickets s' = system_pages tickets (r, held)"
proof -
  have inv: "fifo_inv (dataOut r)" "None \<notin> set (fifo_contents (dataOut r))"
    using assms by (simp_all add: equipment_ok_def queues_ok_def)
  from inv(1) show thesis
  proof (cases rule: fq.pop_cases[where x = None and z = None])
    case (item y ys q)
    then obtain d where "y = Some d" using inv(2) by (cases y) auto
    then show thesis using item assms inv
      by (intro that[of "(r\<lparr>dataOut := q\<rparr>, held @ [d])"])
        (auto simp: ReadoutEquipment_getBlock_def system_pages_def equipment_pages_def free_pages_def out_origins_def
          equipment_ok_def queues_ok_def same_frame_def)
  next
    case empty
    then show thesis using assms
      by (intro that[of "(r, held)"]) (auto simp: ReadoutEquipment_getBlock_def same_frame_def)
  qed
qed

lemma release_preserves:
  assumes "equipment_ok ok chanInv r" "room_for_all tickets (r, held)"
  obtains s' where "ro_do populate (RoRelease i) (r, held) = Some (Inr s')" "equipment_ok ok chanInv (fst s')" "same_frame r (fst s')"
    "system_pages tickets s' = system_pages tickets (r, held)"
proof (cases "i < length held")
  case True
  let ?q = "pagesAvailable (mReadoutMemoryHandler r)"
  let ?held = "take i held @ drop (Suc i) held"
  have inv: "fifo_inv ?q" using assms(1) by (simp add: equipment_ok_def queues_ok_def)
  have held: "mset (map c_origin held) = add_mset (c_origin (held ! i)) (mset (map c_origin ?held))"
    using True by (subst id_take_nth_drop[OF True]) simp
  have "length (fifo_contents ?q) < fifo_capacity ?q"
    using assms(2) True by (simp add: room_for_all_def system_pages_def equipment_pages_def free_pages_def)
  from Fifo_push_space[OF inv this, of "c_origin (held ! i)"] obtain q where q: "Fifo_push (c_origin (held ! i)) ?q = Inr (0, q)"
      "fifo_inv q" "fifo_contents q = fifo_contents ?q @ [c_origin (held ! i)]" "fifo_capacity q = fifo_capacity ?q"
    by blast
  let ?r = "with_pages q r"
  have "ro_do populate (RoRelease i) (r, held) = Some (Inr (?r, ?held))"
    using True q(1) by (simp add: DataBlockContainerFromRORC_delete_def with_pages_def)
  then show thesis using q assms(1) held
    by (intro that[of "(?r, ?held)"])
      (simp_all add: system_pages_def equipment_pages_def free_pages_def equipment_ok_def queues_ok_def same_frame_def)
qed (use assms in \<open>auto intro: that simp: same_frame_def\<close>)

lemma new_equipment:
  assumes "ReadoutEquipmentRORC_new c h = Inr r" "fifo_inv (pagesAvailable h)"
  shows "channel r = c" "mReadoutMemoryHandler r = h" "queues_ok r" "out_origins (dataOut r) = {#}"
  using assms Fifo_new_inv[of 1000 "None :: block_container option"]
  by (auto simp: ReadoutEquipmentRORC_new_def queues_ok_def out_origins_def)

context dma_channel
begin

lemma ro_run_conserves:
  assumes "equipment_ok okSp inv (fst s)" "room_for_all tickets s"
  shows "\<exists>res. ro_run (ReadoutEquipmentRORC_populateFifoOut mem ca avail readySize push getSp pop fill) xs s = Some res
    \<and> (\<forall>s'. res = Inr s' \<longrightarrow> equipment_ok okSp inv (fst s') \<and> system_pages tickets s' = system_pages tickets s
         \<and> same_frame (fst s) (fst s'))"
  using assms
proof (induction xs arbitrary: s)
  case Nil
  then show ?case by (auto simp: same_frame_def)
next
  case (Cons x xs)
  let ?p = "ReadoutEquipmentRORC_populateFifoOut mem ca avail readySize push getSp pop fill"
  obtain r held where s: "s = (r, held)" by (cases s)
  have ok: "equipment_ok okSp inv r" using Cons.prems(1) s by simp
  have "\<exists>res. ro_do ?p x s = Some res \<and> (\<forall>s'. res = Inr s' \<longrightarrow> equipment_ok okSp inv (fst s')
      \<and> system_pages tickets s' = system_pages tickets s \<and> same_frame r (fst s'))"
  proof (cases x)
    case RoPopulate
    obtain pr r' where "?p r = Some (pr, r')" "\<And>b. pr = Inr b \<Longrightarrow> kept r r'"
      using populate_returns[OF ok] by blast
    then show ?thesis using RoPopulate s by (cases pr) (auto simp: kept_def system_pages_def)
  next
    case RoTake
    then show ?thesis using take_preserves[OF ok, of ?p held tickets] s by force
  next
    case (RoRelease i)
    then show ?thesis using release_preserves[OF ok, of tickets held ?p i] Cons.prems(2) s by force
  qed
  then obtain res where res: "ro_do ?p x s = Some res"
      "\<And>s'. res = Inr s' \<Longrightarrow> equipment_ok okSp inv (fst s') \<and> system_pages tickets s' = system_pages tickets s
        \<and> same_frame r (fst s')"
    by blast
  show ?case
  proof (cases res)
    case (Inl e)
    then show ?thesis using res(1) by simp
  next
    case (Inr t)
    have t: "equipment_ok okSp inv (fst t)" "system_pages tickets t = system_pages tickets s" "same_frame r (fst t)"
      using res(2)[OF Inr] by auto
    then have "room_for_all tickets t" using Cons.prems(2) s by (simp add: room_for_all_def same_frame_def)
    from Cons.IH[OF t(1) this] obtain res' where r': "ro_run ?p xs t = Some res'"
        "\<forall>s'. res' = Inr s' \<longrightarrow> equipment_ok okSp inv (fst s') \<and> system_pages tickets s' = system_pages tickets t
           \<and> same_frame (fst t) (fst s')"
      by blast
    then show ?thesis using res(1) Inr t s same_frame_trans[of r "fst t"] by auto
  qed
qed

text \<open>From the start, with the pages of a new handler and an empty channel.\<close>

lemma ro_run_pages:
  assumes h: "fifo_inv (pagesAvailable h)" "fifo_contents (pagesAvailable h) = pages" "fifo_capacity (pagesAvailable h) = length pages"
    and c: "inv c" "tickets c = {#}" "\<forall>offset. okSp (page_superpage offset (mh_pageSize h))"
    and new: "ReadoutEquipmentRORC_new c h = Inr r"
  shows "\<exists>res. ro_run (ReadoutEquipmentRORC_populateFifoOut mem ca avail readySize push getSp pop fill) xs (r, []) = Some res
    \<and> (\<forall>s'. res = Inr s' \<longrightarrow> system_pages tickets s' = mset pages)"
proof -
  note r = new_equipment[OF new h(1)]
  have p: "system_pages tickets (r, []) = mset pages"
    using r c(2) h(2) by (simp add: system_pages_def equipment_pages_def free_pages_def ticket_offsets_def)
  have "equipment_ok okSp inv (fst (r, []))" using r c by (simp add: equipment_ok_def)
  moreover have "room_for_all tickets (r, [])" using p r h(3) by (simp add: room_for_all_def)
  ultimately show ?thesis using ro_run_conserves[of "(r, [])" mem ca xs] p by auto
qed

end


section \<open>Dummy equipment and the readout thread\<close>

record dummy_equipment =
  mp :: mempool
  dm_dataOut :: block_fifo
  currentId :: u64
  eventMaxSize :: int
  eventMinSize :: int

definition sizeof_DataBlock :: nat where "sizeof_DataBlock = 32"

text \<open>\<open>scaled x\<close> is \<^verbatim>\<open>(int)(x * (rand() * 1.0 / RAND_MAX))\<close>. The cycle fills the first 100 bytes of the payload, which
  follows the block structure in the page; a page that is too small for that is \<open>OutOfBounds\<close>.\<close>

definition ReadoutEquipmentDummy_populateFifoOut ::
  "(int \<Rightarrow> int) \<Rightarrow> dummy_equipment \<Rightarrow> (callback_result \<times> dummy_equipment) res" where
  "ReadoutEquipmentDummy_populateFifoOut scaled e =
     (if Fifo_isFull (dm_dataOut e) then Inr (CbIdle, e)
      else case DataBlockContainerFromMemPool_new (Some (mp e)) 0 of
             Inl _ \<Rightarrow> Inr (CbIdle, e)
           | Inr (d, pool) \<Rightarrow>
               let b = DataBlockContainer_getData d;
                   dSize = eventMinSize e + scaled (eventMaxSize e - eventMinSize e);
                   nextId = currentId e + 1
               in if int sizeof_DataBlock + 100 > mpPageSize pool then Inl OutOfBounds
                  else res_bind (Fifo_push (Some \<lparr>c_block = \<lparr>blockType = H_BASE, headerSize = sizeof_DataBlockHeaderBase,
                           dataSize = word_of_int dSize, block_id = nextId, block_data = of_nat (b + sizeof_DataBlock)\<rparr>,
                           c_origin = of_nat b\<rparr>) (dm_dataOut e)) (\<lambda>(_, q).
                         Inr (CbOk, e\<lparr>mp := pool, dm_dataOut := q, currentId := nextId\<rparr>)))"

text \<open>The callback of the readout thread: \<open>populate\<close> is the cycle of the equipment and \<open>'s\<close> its state, \<open>nBlocksOut\<close> the number of
  cycles that gave data. With a positive target rate, a cycle is skipped while the timer \<open>clk\<close> has not expired and the
  number of blocks is ahead of the elapsed time (in seconds).\<close>

definition ReadoutEquipment_threadCallback ::
  "real \<Rightarrow> bool \<Rightarrow> real \<Rightarrow> ('s \<Rightarrow> (callback_result \<times> 's) res) \<Rightarrow> u64 \<times> 's \<Rightarrow> (callback_result \<times> u64 \<times> 's) res" where
  "ReadoutEquipment_threadCallback readoutRate clkTimeout elapsed populate s =
     (if readoutRate > 0 \<and> \<not> clkTimeout \<and> fst s \<noteq> 0 \<and> real (unat (fst s + 1)) > readoutRate * elapsed
      then Inr (CbIdle, s)
      else res_bind (populate (snd s)) (\<lambda>(res, e).
             Inr (res, if res = CbOk then fst s + 1 else fst s, e)))"

lemma getPage_pageSize: "getPage_scan p i = Inr (d, p') \<Longrightarrow> mpPageSize p' = mpPageSize p"
  by (induction p i rule: getPage_scan.induct)
    (subst (asm) (2) getPage_scan.simps, auto simp: Let_def split: if_splits)

text \<open>A cycle of the dummy equipment takes one free page and queues one block with the next identifier, or changes nothing.\<close>

lemma dummy_populate_spec:
  assumes inv: "pool_inv (mp e)" "fifo_inv (dm_dataOut e)" and sz: "132 \<le> mpPageSize (mp e)"
  shows "if Fifo_isFull (dm_dataOut e) \<or> pool_used (mp e) = pool_pages (mp e)
    then ReadoutEquipmentDummy_populateFifoOut scaled e = Inr (CbIdle, e)
    else \<exists>e' c. ReadoutEquipmentDummy_populateFifoOut scaled e = Inr (CbOk, e') \<and> pool_inv (mp e') \<and> fifo_inv (dm_dataOut e')
      \<and> fifo_contents (dm_dataOut e') = fifo_contents (dm_dataOut e) @ [Some c] \<and> block_id (c_block c) = currentId e + 1
      \<and> (\<exists>page \<in> pool_pages (mp e) - pool_used (mp e). c_origin c = of_nat page
           \<and> pool_used (mp e') = insert page (pool_used (mp e)))"
proof (cases "Fifo_isFull (dm_dataOut e)")
  case True
  then show ?thesis by (simp add: ReadoutEquipmentDummy_populateFifoOut_def)
next
  case nf: False
  show ?thesis
  proof (cases "pool_used (mp e) = pool_pages (mp e)")
    case True
    then show ?thesis using nf container_new_cases(1)[OF inv(1)] by (simp add: ReadoutEquipmentDummy_populateFifoOut_def)
  next
    case False
    then obtain d p' where d: "DataBlockContainerFromMemPool_new (Some (mp e)) 0 = Inr (d, p')" "pool_inv p'"
        "DataBlockContainer_getData d \<in> pool_pages (mp e) - pool_used (mp e)"
        "pool_used p' = insert (DataBlockContainer_getData d) (pool_used (mp e))"
      using container_new_cases(2)[OF inv(1)] by blast
    have "mpPageSize p' = mpPageSize (mp e)"
      using d(1) getPage_pageSize[of "mp e" 0]
      by (auto simp: DataBlockContainerFromMemPool_new_def MemPool_getPage_def split: if_splits)
    then have ok: "\<not> int sizeof_DataBlock + 100 > mpPageSize p'" using sz by (simp add: sizeof_DataBlock_def)
    have "length (fifo_contents (dm_dataOut e)) < fifo_capacity (dm_dataOut e)"
      using nf inv(2) fifo_length_le[OF inv(2)] by (simp add: Fifo_isFull_iff)
    note push = Fifo_push_space[OF inv(2) this]
    let ?c = "\<lparr>c_block = \<lparr>blockType = H_BASE, headerSize = sizeof_DataBlockHeaderBase,
        dataSize = word_of_int (eventMinSize e + scaled (eventMaxSize e - eventMinSize e)), block_id = currentId e + 1,
        block_data = of_nat (DataBlockContainer_getData d + sizeof_DataBlock)\<rparr>, c_origin = of_nat (DataBlockContainer_getData d)\<rparr>"
    obtain q where q: "Fifo_push (Some ?c) (dm_dataOut e) = Inr (0, q)" "fifo_inv q"
        "fifo_contents q = fifo_contents (dm_dataOut e) @ [Some ?c]"
      using push by blast
    have "ReadoutEquipmentDummy_populateFifoOut scaled e = Inr (CbOk, e\<lparr>mp := p', dm_dataOut := q, currentId := currentId e + 1\<rparr>)"
      unfolding ReadoutEquipmentDummy_populateFifoOut_def using nf d(1) ok q(1) by (simp add: Let_def)
    then show ?thesis using False nf d q by auto
  qed
qed

end
