(* ===== verification/Readout_Properties.thy ===== *)
theory Readout_Properties
  imports ReadoutEquipment Channel_Properties
begin

text \<open>
  The properties of the readout process: the circulation of the pages of its memory, the building of
  events, and the end of its threads.
\<close>

section \<open>Memory\<close>

text \<open>A mapping for the witnesses: of the size asked, at an aligned address.\<close>

definition test_map :: "u64 \<Rightarrow> (u64 \<times> u64) option" where
  "test_map sz = Some (sz, 0x1000000)"

definition test_handler :: memory_handler where
  "test_handler = (case ReadoutMemoryHandler_new test_map 0x200000 0x100000 of Inr h \<Rightarrow> h)"

lemma test_map_eval: "test_map (round_to_hugepage 0x200000) = Some (0x200000, 0x1000000)" "skip_unaligned 0x1000000 = 0"
  "handler_pages 0x200000 0x100000 = 2"
  by code_simp+

lemma test_handler_new: "ReadoutMemoryHandler_new test_map 0x200000 0x100000 = Inr test_handler"
  using memory_handler_cases(1)[where mapFile = test_map and v = "0x200000" and ps = "0x100000", OF test_map_eval(1,2)] test_map_eval(3)
  by (auto simp: test_handler_def)

text \<open>(C26) The pages of the readout memory. When the offset of the last page fits into an
  \<^verbatim>\<open>int\<close>, the handler makes all pages of the mapping available, at different offsets, each inside the mapping; when
  it does not, the computation of an offset overflows before the constructor returns.\<close>

theorem memory_handler_page_table:
  assumes "mapFile (round_to_hugepage v) = Some (sz, base)" "skip_unaligned base = 0" "0 < ps" "ps < 2 ^ 31"
    and "uint sz div ps < 2 ^ 31"
  shows "if (int (handler_pages sz ps) - 1) * ps < 2 ^ 31
    then (\<exists>h. ReadoutMemoryHandler_new mapFile v ps = Inr h
           \<and> fifo_contents (pagesAvailable h) = page_offsets ps (handler_pages sz ps)
           \<and> distinct (fifo_contents (pagesAvailable h))
           \<and> (\<forall>offset \<in> set (fifo_contents (pagesAvailable h)). uint offset + ps \<le> uint sz))
    else ReadoutMemoryHandler_new mapFile v ps = Inl SignedOverflow"
proof -
  let ?N = "handler_pages sz ps"
  have le: "int ?N * ps \<le> uint sz" using assms(3) by (rule handler_pages_le)
  have lt: "int ?N * ps < 2 ^ 64" using le uint_bounded[of sz] by simp
  have inside: "uint offset + ps \<le> uint sz" if m: "offset \<in> set (page_offsets ps ?N)" for offset
  proof -
    obtain i where i: "i < ?N" "offset = word_of_int (int i * ps)" using m by (auto simp: page_offsets_def)
    have "(int i + 1) * ps \<le> int ?N * ps" using i(1) assms(3) by (intro mult_right_mono) auto
    then have b: "int i * ps + ps \<le> int ?N * ps" by (simp add: algebra_simps)
    then have "int i * ps < 2 ^ 64" using lt assms(3) by linarith
    then have "uint offset = int i * ps" unfolding i(2) using assms(3) by (intro uint_of_int_small) auto
    then show ?thesis using b le by linarith
  qed
  show ?thesis
    using memory_handler_cases[where mapFile = mapFile and v = v, OF assms] page_offsets_distinct[OF assms(3) lt] inside by (auto simp: not_less)
qed

theorem memory_handler_page_table_witness:
  "fifo_contents (pagesAvailable test_handler) = [0, 0x100000]
    \<and> ReadoutMemoryHandler_new test_map 0x100000000 0x100000 = Inl SignedOverflow"
proof
  show "fifo_contents (pagesAvailable test_handler) = [0, 0x100000]"
    using memory_handler_page_table[where mapFile = test_map and v = "0x200000" and ps = "0x100000", OF test_map_eval(1,2)] test_map_eval(3) test_handler_new
    by (simp add: page_offsets_def upt_conv_Cons)
  have "test_map (round_to_hugepage 0x100000000) = Some (0x100000000, 0x1000000)"
    "handler_pages 0x100000000 0x100000 = 4096" by code_simp+
  then show "ReadoutMemoryHandler_new test_map 0x100000000 0x100000 = Inl SignedOverflow"
    using memory_handler_page_table[where mapFile = test_map and v = "0x100000000" and sz = "0x100000000" and ps = "0x100000",
      OF _ test_map_eval(2)] by simp
qed

text \<open>(C4) No page of the readout memory is lost or used twice. From the start of the readout on a CRU or on a
  C-RORC, whatever the cards answer, after any sequence of readout cycles, takes of blocks and releases of blocks the calls have
  returned or thrown, and if none has thrown, then every page is in exactly one place: free,
  in the channel, in the output queue, or held by a block downstream.\<close>

theorem readout_conserves_pages:
  assumes "mapFile (round_to_hugepage v) = Some (sz, base)" "skip_unaligned base = 0" "0 < ps" "ps < 2 ^ 31"
    and "uint sz div ps < 2 ^ 31" "ReadoutMemoryHandler_new mapFile v ps = Inr h"
    and cru: "CruDmaChannel_deviceStartDma rd0 wr0 w2 c0 = (Inr (), c)" "ReadoutEquipmentRORC_new c h = Inr r"
    and crorc: "unat (mPageSize d0) dvd 2 ^ 20" "sq_inv 32 (mSuperpageQueue d0)" "CrorcDmaChannel_deviceStartDma d0 = (Inr (), d)"
      "ReadoutEquipmentRORC_new d h = Inr t"
  shows "(\<exists>res. ro_run (ReadoutEquipmentRORC_populateFifoOut mem ca CruDmaChannel_getTransferQueueAvailable
              CruDmaChannel_getReadyQueueSize (CruDmaChannel_pushSuperpage wr0) CruDmaChannel_getSuperpage
              CruDmaChannel_popSuperpage (CruDmaChannel_fillSuperpages rd0)) ops (r, []) = Some res
            \<and> (\<forall>s. res = Inr s \<longrightarrow> system_pages cru_tickets s = mset (page_offsets ps (handler_pages sz ps))))
       \<and> (\<exists>res. ro_run (ReadoutEquipmentRORC_populateFifoOut mem ca CrorcDmaChannel_getTransferQueueAvailable
              CrorcDmaChannel_getReadyQueueSize CrorcDmaChannel_pushSuperpage CrorcDmaChannel_getSuperpage
              CrorcDmaChannel_popSuperpage (CrorcDmaChannel_fillSuperpages k)) ops (t, []) = Some res
            \<and> (\<forall>s. res = Inr s \<longrightarrow> system_pages (\<lambda>c. mset (crorc_tickets c)) s = mset (page_offsets ps (handler_pages sz ps))))
       \<and> distinct (page_offsets ps (handler_pages sz ps))"
proof -
  let ?pages = "page_offsets ps (handler_pages sz ps)"
  have h: "mh_pageSize h = ps" "fifo_contents (pagesAvailable h) = ?pages"
      "fifo_inv (pagesAvailable h)" "fifo_capacity (pagesAvailable h) = length ?pages"
    using memory_handler_cases[where mapFile = mapFile and v = v, OF assms(1-5)] assms(6) by (auto simp: page_offsets_def not_less[symmetric])
  have "uint (word_of_int ps :: u64) = ps" using assms(3,4) by (intro uint_of_int_small) auto
  then have ok: "crorc_okSp (page_superpage offset (mh_pageSize h))" for offset
    using assms(4) h(1) by (simp add: crorc_okSp_def page_superpage_def word_less_def)
  have "int (handler_pages sz ps) * ps < 2 ^ 64" using handler_pages_le[OF assms(3), of sz] uint_bounded[of sz] by simp
  then have "distinct ?pages" by (rule page_offsets_distinct[OF assms(3)])
  moreover note dma_channel.ro_run_pages[OF cruc.dma_channel_axioms[of wr0 rd0] h(3,2,4) _ _ _ cru(2), of mem ca ops] cru_start_inv[OF cru(1)]
  moreover note dma_channel.ro_run_pages[OF crorcc.dma_channel_axioms[of k] h(3,2,4) _ _ _ crorc(4), of mem ca ops] crorc_start_inv[OF crorc(1-3)] ok
  ultimately show ?thesis by simp
qed

definition test_ro :: "'c \<Rightarrow> 'c rorc_equipment" where
  "test_ro c = (case ReadoutEquipmentRORC_new c test_handler of Inr r \<Rightarrow> r)"

lemma test_ro_new: "ReadoutEquipmentRORC_new c test_handler = Inr (test_ro c)"
  by (simp add: test_ro_def ReadoutEquipmentRORC_new_def Fifo_new_def)

definition test_populate :: "u32 cru rorc_equipment \<Rightarrow> (callback_result res \<times> u32 cru rorc_equipment) option" where
  "test_populate = ReadoutEquipmentRORC_populateFifoOut (\<lambda>_. 5) (\<lambda>_. True) CruDmaChannel_getTransferQueueAvailable
     CruDmaChannel_getReadyQueueSize (CruDmaChannel_pushSuperpage test_wr) CruDmaChannel_getSuperpage
     CruDmaChannel_popSuperpage (CruDmaChannel_fillSuperpages test_rd)"

text \<open>Two cycles give both pages to the card and collect one block; the block is taken and released.\<close>

definition test_ro_end :: "u32 cru ro_system" where
  "test_ro_end = (case ro_run test_populate [RoPopulate, RoPopulate, RoTake, RoRelease 0] (test_ro test_cru, []) of
     Some (Inr s) \<Rightarrow> s)"

lemma test_ro_returns:
  "ro_run test_populate [RoPopulate, RoPopulate, RoTake, RoRelease 0] (test_ro test_cru, []) = Some (Inr test_ro_end)"
proof -
  have "case ro_run test_populate [RoPopulate, RoPopulate, RoTake, RoRelease 0] (test_ro test_cru, []) of
      Some (Inr s) \<Rightarrow> True | _ \<Rightarrow> False"
    by code_simp
  then show ?thesis by (auto simp: test_ro_end_def split: option.splits sum.splits)
qed

theorem readout_conserves_pages_witness: "system_pages cru_tickets test_ro_end = {#0, 0x100000#}"
  using readout_conserves_pages[where mapFile = test_map and v = "0x200000" and ps = "0x100000",
      OF test_map_eval(1,2) _ _ _ test_handler_new test_cru_start test_ro_new
      test_crorc_queue(2,1) started_crorc test_ro_new, where mem = "\<lambda>_. 5" and ca = "\<lambda>_. True"
      and ops = "[RoPopulate, RoPopulate, RoTake, RoRelease 0]"]
    test_ro_returns test_map_eval(3)
  by (simp add: test_populate_def page_offsets_def upt_conv_Cons)

end
