(* ===== verification/Event_Properties.thy ===== *)
theory Event_Properties
  imports DataBlockAggregator
begin

text \<open>
  The properties of the aggregator, which builds events from the blocks of several equipments, and of the
  threads that run the aggregator and the equipments.
\<close>

section \<open>Building events\<close>

text \<open>An aggregator with \<open>k\<close> new inputs of \<open>n\<close> slots and an output of \<open>m\<close> slots, before anything was pushed.\<close>

definition fresh_aggregator :: "nat \<Rightarrow> int \<Rightarrow> int \<Rightarrow> agg_system res" where
  "fresh_aggregator k n m =
     res_bind (Fifo_new None m) (\<lambda>out. res_bind (Fifo_new None n) (\<lambda>f.
       Inr \<lparr>agg = fold (\<lambda>g a. snd (DataBlockAggregator_addInput g a)) (replicate k f) (DataBlockAggregator_new out 0),
            fed = [], outs = []\<rparr>))"

lemma add_inputs: "fold (\<lambda>g a. snd (DataBlockAggregator_addInput g a)) fs a = a\<lparr>inputs := inputs a @ fs\<rparr>"
  by (induction fs arbitrary: a) (simp_all add: DataBlockAggregator_addInput_def)

lemma fresh_aggregator_start:
  assumes "fresh_aggregator k n m = Inr s" "0 \<le> n" "0 \<le> m"
  shows "synced k 0 s" "fed s = []" "sys_sets s = []" "agg_inv (agg s)" "sys_blocks s = {#}"
proof -
  obtain out f where q: "Fifo_new (None :: dataset option) m = Inr out" "fifo_inv out" "fifo_contents out = []"
      "Fifo_new (None :: block_container option) n = Inr f" "fifo_inv f" "fifo_contents f = []"
    using Fifo_new_inv[OF assms(2), of "None :: block_container option"] Fifo_new_inv[OF assms(3), of "None :: dataset option"]
    by blast
  then have s: "agg s = (DataBlockAggregator_new out 0)\<lparr>inputs := replicate k f\<rparr>" "fed s = []" "outs s = []"
    using assms(1) by (auto simp: fresh_aggregator_def add_inputs DataBlockAggregator_new_def simp del: fold_replicate)
  then show "fed s = []" and inv: "agg_inv (agg s)" and sets: "sys_sets s = []"
    using q by (simp_all add: agg_inv_def sys_sets_def agg_sets_def DataBlockAggregator_new_def)
  have qs: "agg_queues (agg s) = replicate k []" using s q by (simp add: agg_queues_def)
  then show "synced k 0 s" using inv sets s by (simp add: synced_def)
  show "sys_blocks s = {#}" using qs sets by (simp add: sys_blocks_def)
qed

text \<open>Two inputs, two blocks with the same identifier, one cycle, one data set.\<close>

definition test_block :: "u64 \<Rightarrow> u64 \<Rightarrow> block_container" where
  "test_block i p = \<lparr>c_block = \<lparr>blockType = 0xBB, headerSize = 24, dataSize = 64, block_id = i, block_data = p\<rparr>, c_origin = p\<rparr>"

definition test_feed :: "agg_op list" where
  "test_feed = [AggFeed 0 (test_block 1 100), AggCycle 0 1 True, AggFeed 1 (test_block 1 200), AggCycle 2 3 True, AggTake]"

definition test_agg :: agg_system where
  "test_agg = (case fresh_aggregator 2 3 3 of Inr s \<Rightarrow> s)"

definition test_agg_end :: agg_system where
  "test_agg_end = (case agg_run test_feed test_agg of Inr s \<Rightarrow> s)"

lemma test_agg_new: "fresh_aggregator 2 3 3 = Inr test_agg"
  by (simp add: test_agg_def fresh_aggregator_def Fifo_new_def)

lemma test_agg_eval:
  "outs test_agg_end = [[Some (test_block 1 100), Some (test_block 1 200)]]"
  "fed test_agg_end = [(0, test_block 1 100), (1, test_block 1 200)]"
  "agg_queues (agg test_agg_end) = [[], []]" "run_in_time test_feed test_agg"
  by code_simp+

lemma test_agg_run: "agg_run test_feed test_agg = Inr test_agg_end"
proof -
  have "case agg_run test_feed test_agg of Inr s \<Rightarrow> True | Inl _ \<Rightarrow> False" by code_simp
  then show ?thesis by (auto simp: test_agg_end_def split: sum.splits)
qed

text \<open>(C8) Event building. When the inputs deliver blocks with the same sequence of identifiers and no piece is later
  than the waiting time, then whatever the order in which blocks arrive, cycles run and data sets are taken, the data sets are
  the events in order: the \<open>j\<close>-th consists of the \<open>j\<close>-th block of every input, in the order of the inputs; what is not
  yet in a data set is still queued. A cycle that finds a block in every input and room in the output forms the next one.\<close>

theorem aggregator_builds_events:
  assumes "fresh_aggregator k n m = Inr s" "0 \<le> n" "0 \<le> m" "run_in_time ops s" "agg_run ops s = Inr s'"
    and "same_ids k ids (fed s')"
  shows "\<exists>l. outs s' @ agg_sets (agg s') = map (event k (fed s')) [0..<l]
    \<and> agg_queues (agg s') = map (\<lambda>i. map Some (drop l (fed_to i (fed s')))) [0..<k]
    \<and> ([] \<notin> set (agg_queues (agg s')) \<and> k \<noteq> 0 \<and> \<not> Fifo_isFull (agg_output (agg s'))
        \<longrightarrow> (\<exists>a. DataBlockAggregator_threadCallback now1 now2 True (agg s') = Inr (CbOk, a)))"
proof -
  obtain l where l: "synced k l s'"
    using agg_run_synced[OF fresh_aggregator_start(1)[OF assms(1-3)] assms(4-6)] by blast
  then have "agg_queues (agg s') = map (\<lambda>i. map Some (drop l (fed_to i (fed s')))) [0..<k]"
    by (intro nth_equalityI) (auto simp: synced_def)
  moreover have "k \<noteq> 0 \<Longrightarrow> agg_queues (agg s') \<noteq> []" using l by (auto simp: synced_def)
  ultimately show ?thesis
    using l agg_proceeds[of "agg s'" now1 now2] unfolding synced_def sys_sets_def by blast
qed

theorem aggregator_builds_events_witness:
  "\<exists>l. outs test_agg_end @ agg_sets (agg test_agg_end) = map (event 2 (fed test_agg_end)) [0..<l]
    \<and> outs test_agg_end = [event 2 (fed test_agg_end) 0]"
proof -
  have "same_ids 2 (\<lambda>_. 1) (fed test_agg_end)"
    by (auto simp: same_ids_def fed_to_def test_agg_eval test_block_def less_2_cases_iff)
  from aggregator_builds_events[OF test_agg_new _ _ test_agg_eval(4) test_agg_run this]
  obtain l where "outs test_agg_end @ agg_sets (agg test_agg_end) = map (event 2 (fed test_agg_end)) [0..<l]" by auto
  moreover have "outs test_agg_end = [event 2 (fed test_agg_end) 0]"
    by (simp add: test_agg_eval event_def fed_to_def upt_conv_Cons)
  ultimately show ?thesis by blast
qed

text \<open>(C13) The aggregator loses and invents no block, with or without timeouts and whatever the identifiers: after any
  sequence of operations none of which touches an undefined object, the blocks accepted are those in the input queues and those in the data sets formed, and every data
  set is not empty and carries one identifier only.\<close>

theorem aggregator_conserves_blocks:
  assumes "fresh_aggregator k n m = Inr s" "0 \<le> n" "0 \<le> m"
  shows "\<exists>s'. agg_run ops s = Inr s'
    \<and> mset (concat (agg_queues (agg s'))) + mset (concat (outs s' @ agg_sets (agg s'))) = mset (map (Some \<circ> snd) (fed s'))
    \<and> list_all one_event (outs s' @ agg_sets (agg s'))"
proof -
  note f = fresh_aggregator_start[OF assms]
  obtain s' where s': "agg_run ops s = Inr s'" "list_all one_event (sys_sets s')"
      "sys_blocks s' + fed_blocks s = sys_blocks s + fed_blocks s'"
    using agg_run_conserves[OF f(4)] f(3) by auto
  moreover have "fed_blocks s = {#}" using f(2) by (simp add: fed_blocks_def)
  ultimately show ?thesis using f(5) by (auto simp: sys_blocks_def sys_sets_def fed_blocks_def)
qed

theorem aggregator_conserves_blocks_witness:
  "mset (concat (outs test_agg_end @ agg_sets (agg test_agg_end))) = {#Some (test_block 1 100), Some (test_block 1 200)#}"
  using aggregator_conserves_blocks[OF test_agg_new, of test_feed] test_agg_run test_agg_eval(2,3) by simp


section \<open>Threads\<close>

text \<open>(C15) A thread that is asked to stop ends. Wherever its loop is when \<^verbatim>\<open>stop\<close> is called, after any calls of start, stop
  and join and any steps of the thread, at most 304 further steps of the thread lead to its end, with \<open>running\<close> back at 0 and the user function called at
  most 101 times; then \<^verbatim>\<open>join\<close> returns.\<close>

theorem thread_stops:
  assumes "theThread (fold thread_call evs (Thread_new cb e)) \<noteq> None"
  defines "t \<equiv> Thread_stop (fold thread_call evs (Thread_new cb e))"
  shows "\<exists>j. j \<le> 101 \<and> running ((thread_next ^^ 304) t) = 0
    \<and> loopArg ((thread_next ^^ 304) t) = (callback_step t ^^ j) (loopArg t)
    \<and> theThread (Thread_join_finish ((thread_next ^^ 304) t)) = None"
proof -
  have inv: "thread_inv t"
    unfolding t_def using thread_call_inv[OF thread_reachable_inv, of EvStop] by simp
  obtain pc n where p: "theThread t = Some (pc, n)" "shutdown t \<noteq> 0"
    using assms by (auto simp: t_def Thread_stop_def)
  note b = steps_left_bound[OF inv p(1)]
  obtain m j where "theThread ((thread_next ^^ 304) t) = Some (TExit, m)" "running ((thread_next ^^ 304) t) = 0"
      "j \<le> calls_left pc n" "loopArg ((thread_next ^^ 304) t) = (callback_step t ^^ j) (loopArg t)"
    using thread_runs_out[OF inv p] b by blast
  then show ?thesis using b by (intro exI[of _ j]) (auto simp: Thread_join_finish_def)
qed

theorem thread_stops_witness:
  "running ((thread_next ^^ 304) (Thread_stop (fold thread_call [EvStart, EvNext, EvNext] (Thread_new (Some (\<lambda>n. (CbOk, n + 1))) (0 :: int))))) = 0"
  using thread_stops[of "[EvStart, EvNext, EvNext]" "Some (\<lambda>n. (CbOk, n + 1))" "0 :: int"]
  by (auto simp: Thread_new_def Thread_start_def thread_next_def)

end
