(* ===== verification/Consumers.thy ===== *)
theory Consumers
  imports DataBlockAggregator
begin

text \<open>
  The consumers that the readout main loop hands every block to (src/Readout/src/ConsumerStats.cxx, ConsumerDataChecker.cxx,
  ConsumerFileRecorder.cxx). Memory is a function from addresses to 32-bit words, the file a list of the pieces of
  memory (address and size) written to it; whether a write succeeds is a parameter, as are the clock and the
  monitoring library, of which only the values sent are kept.
\<close>

section \<open>Statistics\<close>

record stats =
  counterBlocks :: u64
  counterBytesTotal :: u64
  counterBytesHeader :: u64
  counterBytesDiff :: u64
  monitoringEnabled :: bool
  stats_sent :: "(u64 \<times> u64 \<times> u64) list"

definition ConsumerStats_new :: "bool \<Rightarrow> stats" where
  "ConsumerStats_new enabled =
     \<lparr>counterBlocks = 0, counterBytesTotal = 0, counterBytesHeader = 0, counterBytesDiff = 0, monitoringEnabled = enabled,
      stats_sent = []\<rparr>"

definition ConsumerStats_publishStats :: "stats \<Rightarrow> stats" where
  "ConsumerStats_publishStats s =
     (if monitoringEnabled s
      then s\<lparr>stats_sent := stats_sent s @ [(counterBlocks s, counterBytesTotal s, counterBytesDiff s)], counterBytesDiff := 0\<rparr>
      else s)"

text \<open>\<^verbatim>\<open>int newBytes\<close>: the size goes through a signed 32-bit number. \<open>timeout\<close> is the answer of the timer.\<close>

definition ConsumerStats_pushData :: "bool \<Rightarrow> data_block \<Rightarrow> stats \<Rightarrow> int \<times> stats" where
  "ConsumerStats_pushData timeout b s =
     (let newBytes = sint (dataSize b);
          s = s\<lparr>counterBlocks := counterBlocks s + 1, counterBytesTotal := counterBytesTotal s + word_of_int newBytes,
                counterBytesDiff := counterBytesDiff s + word_of_int newBytes,
                counterBytesHeader := counterBytesHeader s + ucast (headerSize b)\<rparr>
      in (0, if monitoringEnabled s \<and> timeout then ConsumerStats_publishStats s else s))"


section \<open>Data checker\<close>

record checker =
  checkValue :: u32
  errorCount :: u64
  checkedPages :: u64

definition ConsumerDataChecker_new :: checker where
  "ConsumerDataChecker_new = \<lparr>checkValue = 0, errorCount = 0, checkedPages = 0\<rparr>"

text \<open>Eight words of 32 bits, all of which should hold the check value.\<close>

definition group_differs :: "(u64 \<Rightarrow> u32) \<Rightarrow> u64 \<Rightarrow> u32 \<Rightarrow> bool" where
  "group_differs mem p v \<longleftrightarrow>
     mem p \<noteq> v \<or> mem (p + 4) \<noteq> v \<or> mem (p + 8) \<noteq> v \<or> mem (p + 12) \<noteq> v
     \<or> mem (p + 16) \<noteq> v \<or> mem (p + 20) \<noteq> v \<or> mem (p + 24) \<noteq> v \<or> mem (p + 28) \<noteq> v"

text \<open>The loop over the words of a page: \<open>w\<close> counts words and \<open>n\<close> is the number of words of the payload.\<close>

function check_words :: "(u64 \<Rightarrow> u32) \<Rightarrow> u64 \<Rightarrow> nat \<Rightarrow> nat \<Rightarrow> checker \<Rightarrow> checker" where
  "check_words mem p n w c =
     (if w < n
      then check_words mem p n (w + 8)
             (c\<lparr>errorCount := (if group_differs mem (p + 4 * of_nat w) (checkValue c) then errorCount c + 1 else errorCount c),
                checkValue := checkValue c + 1\<rparr>)
      else c)"
  by pat_completeness auto
termination
  by (relation "measure (\<lambda>(mem, p, n, w, c). n - w)") auto

declare check_words.simps [simp del]

definition sizeof_RocPageHeader :: u64 where "sizeof_RocPageHeader = 64"

text \<open>The payload size: the header has it in words of 256 bits; the product wraps at 32 bits, the difference is of type
  \<^verbatim>\<open>size_t\<close> and cut to 32 bits.\<close>

definition page_payload_size :: "(u64 \<Rightarrow> u32) \<Rightarrow> u64 \<Rightarrow> u32" where
  "page_payload_size mem h = ucast (ucast (mem (h + 12) * 256 div 8) - sizeof_RocPageHeader)"

definition check_page :: "(u64 \<Rightarrow> u32) \<Rightarrow> u64 \<Rightarrow> checker \<Rightarrow> checker" where
  "check_page mem h c =
     check_words mem (h + sizeof_RocPageHeader) (unat (page_payload_size mem h div 4)) 0
       (c\<lparr>checkedPages := checkedPages c + 1\<rparr>)"

text \<open>The loop over the DMA pages of a block. Its counter is an \<^verbatim>\<open>unsigned int\<close> and can wrap, so the loop is a partial
  function.\<close>

partial_function (option) check_pages :: "(u64 \<Rightarrow> u32) \<Rightarrow> u64 \<Rightarrow> u64 \<Rightarrow> u32 \<Rightarrow> checker \<Rightarrow> checker option" where
  "check_pages mem ptr sz i c =
     (if ucast i < sz then check_pages mem ptr sz (i + 8 * 1024) (check_page mem (ptr + ucast i) c) else Some c)"

declare check_pages.simps [code]

definition ConsumerDataChecker_pushData :: "(u64 \<Rightarrow> u32) \<Rightarrow> data_block \<Rightarrow> checker \<Rightarrow> (int \<times> checker) option" where
  "ConsumerDataChecker_pushData mem b c =
     (if block_data b = 0 then Some (-1, c)
      else case check_pages mem (block_data b) (ucast (dataSize b)) 0 c of None \<Rightarrow> None | Some c' \<Rightarrow> Some (0, c'))"


section \<open>File recorder\<close>

record recorder =
  rec_bytes :: u64
  rec_open :: bool
  rec_file :: "(u64 \<times> u64) list"

definition ConsumerFileRecorder_new :: "bool \<Rightarrow> recorder" where
  "ConsumerFileRecorder_new opened = \<lparr>rec_bytes = 0, rec_open = opened, rec_file = []\<rparr>"

definition closeRecordingFile :: "recorder \<Rightarrow> recorder" where
  "closeRecordingFile r = (if rec_open r then r\<lparr>rec_open := False\<rparr> else r)"

definition fwrite :: "(nat \<Rightarrow> bool) \<Rightarrow> u64 \<Rightarrow> u64 \<Rightarrow> recorder \<Rightarrow> bool \<times> recorder" where
  "fwrite writeOk ptr sz r =
     (if writeOk (length (rec_file r)) then (True, r\<lparr>rec_file := rec_file r @ [(ptr, sz)]\<rparr>) else (False, r))"

text \<open>\<open>addr\<close> is the address of the block structure. Its field \<^verbatim>\<open>data\<close>, the pointer to the payload, follows the header of 24
  bytes, and \<^verbatim>\<open>&b->getData()->data\<close> is the address of that field.\<close>

definition data_field_address :: "u64 \<Rightarrow> u64" where
  "data_field_address addr = addr + 24"

definition ConsumerFileRecorder_pushData :: "(nat \<Rightarrow> bool) \<Rightarrow> u64 \<Rightarrow> data_block \<Rightarrow> recorder \<Rightarrow> int \<times> recorder" where
  "ConsumerFileRecorder_pushData writeOk addr b r =
     (if \<not> rec_open r then (0, r)
      else case fwrite writeOk addr (ucast (headerSize b)) r of
             (False, r) \<Rightarrow> (-1, closeRecordingFile r)
           | (True, r) \<Rightarrow>
               let r = r\<lparr>rec_bytes := rec_bytes r + ucast (headerSize b)\<rparr>;
                   ptr = data_field_address addr; sz = ucast (dataSize b)
               in if sz > 0 \<and> ptr \<noteq> 0
                  then case fwrite writeOk ptr sz r of
                         (False, r) \<Rightarrow> (-1, closeRecordingFile r)
                       | (True, r) \<Rightarrow> (0, r\<lparr>rec_bytes := rec_bytes r + sz\<rparr>)
                  else (0, r\<lparr>rec_bytes := rec_bytes r + sz\<rparr>))"


section \<open>What the checker counts\<close>

text \<open>The groups of a page and of a block, as addresses in the order in which they are checked.\<close>

definition page_groups :: "(u64 \<Rightarrow> u32) \<Rightarrow> u64 \<Rightarrow> u64 list" where
  "page_groups mem h =
     map (\<lambda>j. h + 64 + 32 * of_nat j) [0..<(unat (page_payload_size mem h div 4) + 7) div 8]"

definition block_pages :: "u64 \<Rightarrow> nat \<Rightarrow> u64 list" where
  "block_pages ptr sz = map (\<lambda>j. ptr + 8192 * of_nat j) [0..<(sz + 8191) div 8192]"

text \<open>The number of groups that differ from the counter that starts at \<open>v\<close> and grows with every group.\<close>

definition mismatches :: "(u64 \<Rightarrow> u32) \<Rightarrow> u64 list \<Rightarrow> u32 \<Rightarrow> nat" where
  "mismatches mem gs v = length (filter (\<lambda>j. group_differs mem (gs ! j) (v + of_nat j)) [0..<length gs])"

definition checked :: "(u64 \<Rightarrow> u32) \<Rightarrow> u64 list \<Rightarrow> checker \<Rightarrow> checker" where
  "checked mem gs c = c\<lparr>checkValue := checkValue c + of_nat (length gs),
     errorCount := errorCount c + of_nat (mismatches mem gs (checkValue c))\<rparr>"

lemma mismatches_Nil [simp]: "mismatches mem [] v = 0"
  by (simp add: mismatches_def)

lemma mismatches_Cons: "mismatches mem (g # gs) v = (if group_differs mem g v then 1 else 0) + mismatches mem gs (v + 1)"
proof -
  have "[0..<length (g # gs)] = 0 # map Suc [0..<length gs]" by (simp add: upt_conv_Cons map_Suc_upt del: upt_Suc)
  then show ?thesis by (simp add: mismatches_def filter_map o_def add.assoc del: upt_Suc)
qed

lemma checked_Nil [simp]: "checked mem [] c = c"
  by (simp add: checked_def)

lemma checked_Cons:
  "checked mem (g # gs) c = checked mem gs (c\<lparr>errorCount := (if group_differs mem g (checkValue c) then errorCount c + 1 else errorCount c),
     checkValue := checkValue c + 1\<rparr>)"
  by (simp add: checked_def mismatches_Cons add.assoc)

lemma checked_append: "checked mem (gs @ hs) c = checked mem hs (checked mem gs c)"
  by (induction gs arbitrary: c) (simp_all add: checked_Cons)

lemma checked_pages_field: "checked mem gs (c\<lparr>checkedPages := n\<rparr>) = (checked mem gs c)\<lparr>checkedPages := n\<rparr>"
  by (simp add: checked_def)

lemma groups_left:
  assumes "w < n"
  shows "(n - w + 7) div 8 = Suc ((n - (w + 8) + 7) div 8)"
proof (cases "8 \<le> n - w")
  case True
  then obtain e where e: "n - w = e + 8" using le_Suc_ex by (metis add.commute)
  then have "n - (w + 8) = e" by simp
  then show ?thesis unfolding e by simp
next
  case False
  then have "(n - w + 7) div 8 = 1" using assms by (intro div_nat_eqI) auto
  then show ?thesis using False by simp
qed

lemma check_words_checked:
  "check_words mem p n w c = checked mem (map (\<lambda>j. p + 4 * of_nat w + 32 * of_nat j) [0..<(n - w + 7) div 8]) c"
proof (induction "n - w" arbitrary: w c rule: less_induct)
  case less
  show ?case
  proof (cases "w < n")
    case False
    then have "(n - w + 7) div 8 = 0" by simp
    then show ?thesis using False by (subst check_words.simps) simp
  next
    case True
    let ?c = "c\<lparr>errorCount := (if group_differs mem (p + 4 * of_nat w) (checkValue c) then errorCount c + 1 else errorCount c),
      checkValue := checkValue c + 1\<rparr>"
    have s: "(n - w + 7) div 8 = Suc ((n - (w + 8) + 7) div 8)" using True by (rule groups_left)
    have "check_words mem p n w c = check_words mem p n (w + 8) ?c" using True by (subst check_words.simps) simp
    also have "\<dots> = checked mem (map (\<lambda>j. p + 4 * of_nat (w + 8) + 32 * of_nat j) [0..<(n - (w + 8) + 7) div 8]) ?c"
      using True by (intro less) simp
    also have "\<dots> = checked mem (map (\<lambda>j. p + 4 * of_nat w + 32 * of_nat j) [0..<(n - w + 7) div 8]) c"
      by (simp add: s checked_Cons upt_conv_Cons map_Suc_upt[symmetric] o_def algebra_simps del: upt_Suc)
    finally show ?thesis .
  qed
qed

lemma check_page_checked: "check_page mem h c = checked mem (page_groups mem h) (c\<lparr>checkedPages := checkedPages c + 1\<rparr>)"
  by (simp add: check_page_def check_words_checked page_groups_def sizeof_RocPageHeader_def)

lemma check_pages_step:
  assumes "sz \<le> 2 ^ 32 - 8192" "i < 2 ^ 32"
  shows "check_pages mem ptr (of_nat sz) (of_nat i) c =
    (if i < sz then check_pages mem ptr (of_nat sz) (of_nat (i + 8192)) (check_page mem (ptr + of_nat i) c) else Some c)"
proof -
  have u: "unat (of_nat sz :: u64) = sz" "unat (of_nat i :: u32) = i"
    using assms by (auto intro!: unat_of_nat_small)
  have e: "ucast (of_nat i :: u32) = (of_nat i :: u64)" using u(2) by (metis of_nat_unat)
  have "unat (of_nat i :: u64) = i" using assms(2) by (auto intro!: unat_of_nat_small)
  then have lt: "(of_nat i :: u64) < of_nat sz \<longleftrightarrow> i < sz" using u(1) by (simp add: word_less_nat_alt)
  have n: "of_nat i + 8 * 1024 = (of_nat (i + 8192) :: u32)" by simp
  show ?thesis by (subst check_pages.simps) (simp only: e lt n)
qed

lemma check_pages_fold:
  assumes "sz \<le> 2 ^ 32 - 8192" "8192 * k < 2 ^ 32"
  shows "check_pages mem ptr (of_nat sz) (of_nat (8192 * k)) c =
    Some (fold (check_page mem) (map (\<lambda>j. ptr + 8192 * of_nat j) [k..<(sz + 8191) div 8192]) c)"
  using assms(2)
proof (induction "(sz + 8191) div 8192 - k" arbitrary: k c)
  case 0
  then have "\<not> 8192 * k < sz" "\<not> k < (sz + 8191) div 8192" by arith+
  then show ?case using check_pages_step[OF assms(1) "0.prems"] by (simp only: if_False) simp
next
  case (Suc n)
  then have lt: "8192 * k < sz" "k < (sz + 8191) div 8192" by arith+
  then have k: "8192 * Suc k < 2 ^ 32" using assms(1) by simp
  have n: "n = (sz + 8191) div 8192 - Suc k" using Suc.hyps(2) by simp
  have e: "8192 * k + 8192 = 8192 * Suc k" by simp
  have "check_pages mem ptr (of_nat sz) (of_nat (8192 * k)) c =
      check_pages mem ptr (of_nat sz) (of_nat (8192 * Suc k)) (check_page mem (ptr + of_nat (8192 * k)) c)"
    using check_pages_step[OF assms(1) Suc.prems] lt(1) by (simp only: if_True e)
  also have "\<dots> = Some (fold (check_page mem) (map (\<lambda>j. ptr + 8192 * of_nat j) [Suc k..<(sz + 8191) div 8192])
      (check_page mem (ptr + of_nat (8192 * k)) c))"
    by (rule Suc.hyps(1)[OF n k])
  finally show ?case using lt(2) by (simp add: upt_conv_Cons)
qed

lemma fold_check_page:
  "fold (check_page mem) hs c = (checked mem (concat (map (page_groups mem) hs)) c)\<lparr>checkedPages := checkedPages c + of_nat (length hs)\<rparr>"
proof (induction hs arbitrary: c)
  case (Cons h hs)
  have "checkedPages (checked mem gs c) = checkedPages c" for gs c by (simp add: checked_def)
  then show ?case using Cons.IH[of "check_page mem h c"]
    by (simp add: check_page_checked[of mem h c] checked_append checked_pages_field add.assoc)
qed simp


section \<open>Totals\<close>

text \<open>The sums that the statistics keep, for blocks smaller than 2 GiB.\<close>

lemma stats_totals:
  fixes s :: stats and t :: bool
  assumes "\<forall>b \<in> set bs. unat (dataSize b) < 2147483648"
  defines "s' \<equiv> fold (\<lambda>b s. snd (ConsumerStats_pushData t b s)) bs s"
  shows "counterBytesTotal s' = counterBytesTotal s + of_nat (\<Sum>b \<leftarrow> bs. unat (dataSize b))
    \<and> counterBlocks s' = counterBlocks s + of_nat (length bs)"
  unfolding s'_def using assms(1)
proof (induction bs arbitrary: s)
  case (Cons b bs)
  have "sint (dataSize b) = int (unat (dataSize b))" using Cons.prems by (intro sint_small) simp
  then show ?case using Cons by (simp add: ConsumerStats_pushData_def ConsumerStats_publishStats_def Let_def add.assoc)
qed simp

end
