(* ===== verification/Consumer_Properties.thy ===== *)
theory Consumer_Properties
  imports Consumers
begin

text \<open>The properties of the consumers of the readout.\<close>

text \<open>(C27) The data checker counts exactly the mismatches. For a block with data whose size is at most \<open>2 ^ 32 - 8192\<close> bytes, the check ends;
  it visits every DMA page of 8 KiB, and the error count grows by the number of groups of 256 bits in which some word differs from
  a counter that goes up by one from group to group, across pages and blocks.\<close>

theorem checker_counts_mismatches:
  fixes mem :: "u64 \<Rightarrow> u32"
  assumes "block_data b \<noteq> 0" "unat (dataSize b) \<le> 2 ^ 32 - 8192"
  defines "pages \<equiv> block_pages (block_data b) (unat (dataSize b))"
  defines "groups \<equiv> concat (map (page_groups mem) pages)"
  shows "\<exists>c'. ConsumerDataChecker_pushData mem b c = Some (0, c')
    \<and> errorCount c' = errorCount c + of_nat (mismatches mem groups (checkValue c))
    \<and> checkValue c' = checkValue c + of_nat (length groups)
    \<and> checkedPages c' = checkedPages c + of_nat (length pages)"
proof -
  have "ucast (dataSize b) = (of_nat (unat (dataSize b)) :: u64)" by simp
  moreover have "check_pages mem (block_data b) (of_nat (unat (dataSize b))) (of_nat (8192 * 0)) c = Some (fold (check_page mem) pages c)"
    unfolding pages_def block_pages_def by (rule check_pages_fold[OF assms(2)]) simp
  ultimately show ?thesis using assms(1)
    by (simp add: ConsumerDataChecker_pushData_def fold_check_page groups_def checked_def)
qed

text \<open>A page with two groups, the second of which is wrong.\<close>

definition test_memory :: "u64 \<Rightarrow> u32" where
  "test_memory a = (if a = 0x100C then 4 else if 0x1060 \<le> a \<and> a < 0x1080 then 9 else 0)"

theorem checker_counts_mismatches_witness:
  "\<exists>c'. ConsumerDataChecker_pushData test_memory
        \<lparr>blockType = 0xBB, headerSize = 24, dataSize = 8192, block_id = 1, block_data = 0x1000\<rparr> ConsumerDataChecker_new = Some (0, c')
    \<and> errorCount c' = 1 \<and> checkValue c' = 2 \<and> checkedPages c' = 1"
proof -
  let ?b = "\<lparr>blockType = 0xBB, headerSize = 24, dataSize = 8192, block_id = 1, block_data = 0x1000\<rparr>"
  have p: "block_pages 0x1000 8192 = [0x1000]" by (simp add: block_pages_def)
  have "page_payload_size test_memory 0x1000 = 64"
    by (simp add: page_payload_size_def test_memory_def sizeof_RocPageHeader_def)
  then have g: "page_groups test_memory 0x1000 = [0x1040, 0x1060]" by (simp add: page_groups_def upt_conv_Cons)
  have "mismatches test_memory [0x1040, 0x1060] 0 = 1"
    by (simp add: mismatches_Cons group_differs_def test_memory_def)
  then show ?thesis
    using checker_counts_mismatches[of ?b test_memory ConsumerDataChecker_new] p g
    by (simp add: ConsumerDataChecker_new_def)
qed

text \<open>The file recorder does not write the payload. When all writes succeed, a block with data adds two pieces to the file: its
  header, and as many bytes as the payload has, but starting at the pointer field of the block structure in memory and not at the payload
  the field points to; they agree only if the payload overlays the pointer.\<close>

lemma recorder_writes_pointer_field:
  assumes "rec_open r" "0 < dataSize b" "data_field_address addr \<noteq> 0" "\<And>n. writeOk n"
  shows "\<exists>r'. ConsumerFileRecorder_pushData writeOk addr b r = (0, r')
    \<and> rec_file r' = rec_file r @ [(addr, ucast (headerSize b)), (addr + 24, ucast (dataSize b))]
    \<and> rec_bytes r' = rec_bytes r + ucast (headerSize b) + ucast (dataSize b)"
proof -
  have "(0 :: u64) < ucast (dataSize b)"
    using assms(2) unat_less_exp[of "dataSize b"]
    by (simp add: word_less_nat_alt unsigned_ucast_eq take_bit_nat_eq_self)
  then show ?thesis using assms(1,3,4)
    by (simp add: ConsumerFileRecorder_pushData_def fwrite_def Let_def data_field_address_def)
qed

end
