(* ===== verification/ControlStateMachine.thy ===== *)
theory ControlStateMachine
  imports Fifo
begin

text \<open>
  The control state machine (src/Control/StateMachine/src/BaseControl.cxx): an object with the states standby, ready, running, paused
  and error, commands that arrive on one thread and are queued, and an engine thread that executes them and runs the
  periodic actions. The user-defined functions of the controlled object (virtual functions) are the record
  \<open>controlled\<close>: each returns an error code and the object after the call. The central directory, to which a machine writes
  its state, is a parameter too: \<open>dirSetValue\<close> returns an error code. \<open>published\<close> records the values written.

  A command request is a pointer to a string; the null pointer is \<open>None\<close>.
\<close>

datatype t_State = StUndefined | StStandby | StReady | StRunning | StPaused | StError

definition getStateFromString :: "string \<Rightarrow> t_State" where
  "getStateFromString s =
     (if s = ''STANDBY'' then StStandby else if s = ''READY'' then StReady
      else if s = ''RUNNING'' then StRunning else if s = ''PAUSED'' then StPaused
      else if s = ''ERROR'' then StError else StUndefined)"

definition getStringFromState :: "t_State \<Rightarrow> string" where
  "getStringFromState s =
     (if s = StStandby then ''STANDBY'' else if s = StReady then ''READY''
      else if s = StRunning then ''RUNNING'' else if s = StPaused then ''PAUSED''
      else if s = StError then ''ERROR'' else ''UNDEFINED'')"

record ('o, 'd) controlled =
  executePrepare :: "'o \<Rightarrow> int \<times> 'o"
  executeReset :: "'o \<Rightarrow> int \<times> 'o"
  executeStart :: "'o \<Rightarrow> int \<times> 'o"
  executeStop :: "'o \<Rightarrow> int \<times> 'o"
  executePause :: "'o \<Rightarrow> int \<times> 'o"
  executeResume :: "'o \<Rightarrow> int \<times> 'o"
  iterateRunning :: "'o \<Rightarrow> int \<times> 'o"
  iterateCheck :: "'o \<Rightarrow> int \<times> 'o"
  dirSetValue :: "string \<Rightarrow> 'd \<Rightarrow> int \<times> 'd"

record ('o, 'd) machine =
  mCurrentState :: t_State
  mObject :: 'o
  mDirectory :: 'd
  cachedState :: string
  published :: "string list"
  pendingCommands :: "string option fifo"

definition ControlObject_setState :: "('o, 'd) controlled \<Rightarrow> string \<Rightarrow> ('o, 'd) machine \<Rightarrow> ('o, 'd) machine" where
  "ControlObject_setState v newState m =
     (case dirSetValue v newState (mDirectory m) of (err, d) \<Rightarrow>
        m\<lparr>mDirectory := d, published := published m @ [newState],
          cachedState := (if err = 0 then newState else cachedState m)\<rparr>)"

definition ControlObject_getState :: "('o, 'd) machine \<Rightarrow> string" where
  "ControlObject_getState m = cachedState m"

definition ControlStateMachine_updateState :: "('o, 'd) controlled \<Rightarrow> t_State \<Rightarrow> ('o, 'd) machine \<Rightarrow> ('o, 'd) machine" where
  "ControlStateMachine_updateState v s m =
     (ControlObject_setState v (getStringFromState s) m)\<lparr>mCurrentState := s\<rparr>"

definition ControlStateMachine_new :: "('o, 'd) controlled \<Rightarrow> 'o \<Rightarrow> 'd \<Rightarrow> ('o, 'd) machine res" where
  "ControlStateMachine_new v objectPtr dir =
     res_bind (Fifo_new None 1) (\<lambda>q.
       Inr (ControlStateMachine_updateState v StStandby
         \<lparr>mCurrentState = StUndefined, mObject = objectPtr, mDirectory = dir, cachedState = '''', published = [],
          pendingCommands = q\<rparr>))"

text \<open>The callback of the command thread. A command that does not fit into the queue is reported and dropped; the
  flag tells whether it was queued.\<close>

definition ControlStateMachine_executeCommand :: "string \<Rightarrow> ('o, 'd) machine \<Rightarrow> (bool \<times> ('o, 'd) machine) res" where
  "ControlStateMachine_executeCommand command m =
     res_bind (Fifo_push (Some command) (pendingCommands m)) (\<lambda>(rc, q).
       if rc \<noteq> 0
       then res_bind (Fifo_front None q) (\<lambda>_. Inr (False, m\<lparr>pendingCommands := q\<rparr>))
       else Inr (True, m\<lparr>pendingCommands := q\<rparr>))"

text \<open>The cascade of conditions of \<^verbatim>\<open>processStateTransition\<close>: the function to call and the state to reach when it
  succeeds, or \<open>None\<close> for an invalid command.\<close>

definition transition_action ::
  "('o, 'd) controlled \<Rightarrow> t_State \<Rightarrow> string \<Rightarrow> (('o \<Rightarrow> int \<times> 'o) \<times> t_State) option" where
  "transition_action v currentState command =
     (if currentState = StStandby then
        (if command = ''prepare'' then Some (executePrepare v, StReady) else None)
      else if currentState = StReady then
        (if command = ''start'' then Some (executeStart v, StRunning)
         else if command = ''reset'' then Some (executeReset v, StStandby) else None)
      else if currentState = StRunning then
        (if command = ''stop'' then Some (executeStop v, StReady)
         else if command = ''pause'' then Some (executePause v, StPaused) else None)
      else if currentState = StPaused then
        (if command = ''resume'' then Some (executeResume v, StRunning)
         else if command = ''stop'' then Some (executeStop v, StReady) else None)
      else if currentState = StError then
        (if command = ''reset'' then Some (executeReset v, StStandby) else None)
      else None)"

definition ControlStateMachine_processStateTransition ::
  "('o, 'd) controlled \<Rightarrow> string \<Rightarrow> ('o, 'd) machine \<Rightarrow> ('o, 'd) machine" where
  "ControlStateMachine_processStateTransition v command m =
     (case transition_action v (mCurrentState m) command of
        None \<Rightarrow> m
      | Some (exec, target) \<Rightarrow>
          (case exec (mObject m) of (err, obj) \<Rightarrow>
             ControlStateMachine_updateState v (if err = 0 then target else StError) (m\<lparr>mObject := obj\<rparr>)))"


section \<open>The engine\<close>

text \<open>The engine thread visits every machine in turn. Commands arrive on another thread, so the visit is cut at its
  accesses to the queue: \<open>EFront\<close> reads the front, \<open>EExec\<close> executes the command it has read, \<open>EPop\<close> removes it,
  \<open>ERun\<close> and \<open>ECheck\<close> are the periodic actions.\<close>

datatype engine_pc = EFront | EExec string | EPop string | ERun | ECheck

definition engine_running :: "('o, 'd) controlled \<Rightarrow> ('o, 'd) machine \<Rightarrow> ('o, 'd) machine" where
  "engine_running v m =
     (if mCurrentState m = StRunning
      then case iterateRunning v (mObject m) of (err, obj) \<Rightarrow>
        if err \<noteq> 0 then ControlStateMachine_updateState v StError (m\<lparr>mObject := obj\<rparr>) else m\<lparr>mObject := obj\<rparr>
      else m)"

definition engine_check :: "('o, 'd) controlled \<Rightarrow> ('o, 'd) machine \<Rightarrow> ('o, 'd) machine" where
  "engine_check v m =
     (case iterateCheck v (mObject m) of (err, obj) \<Rightarrow>
        if err \<noteq> 0 then ControlStateMachine_updateState v StError (m\<lparr>mObject := obj\<rparr>) else m\<lparr>mObject := obj\<rparr>)"

fun engine_step :: "('o, 'd) controlled \<Rightarrow> engine_pc \<Rightarrow> ('o, 'd) machine \<Rightarrow> (engine_pc \<times> ('o, 'd) machine) res" where
  "engine_step v EFront m =
     res_bind (Fifo_front None (pendingCommands m)) (\<lambda>(_, newCommand).
       Inr (case newCommand of None \<Rightarrow> ERun | Some c \<Rightarrow> EExec c, m))"
| "engine_step v (EExec c) m = Inr (EPop c, ControlStateMachine_processStateTransition v c m)"
| "engine_step v (EPop c) m =
     res_bind (Fifo_pop None (Some c) (pendingCommands m)) (\<lambda>(_, _, q). Inr (ERun, m\<lparr>pendingCommands := q\<rparr>))"
| "engine_step v ERun m = Inr (ECheck, engine_running v m)"
| "engine_step v ECheck m = Inr (EFront, engine_check v m)"

text \<open>A whole visit, as it happens when no command arrives during it; the engine visits all its machines.\<close>

definition engine_visit :: "('o, 'd) controlled \<Rightarrow> ('o, 'd) machine \<Rightarrow> (bool \<times> ('o, 'd) machine) res" where
  "engine_visit v m =
     res_bind (Fifo_front None (pendingCommands m)) (\<lambda>(_, newCommand).
     res_bind (case newCommand of
                 None \<Rightarrow> Inr (False, m)
               | Some c \<Rightarrow>
                   let m' = ControlStateMachine_processStateTransition v c m
                   in res_bind (Fifo_pop None newCommand (pendingCommands m')) (\<lambda>(_, _, q).
                        Inr (True, m'\<lparr>pendingCommands := q\<rparr>))) (\<lambda>(isActive, m).
       Inr (isActive, engine_check v (engine_running v m))))"

fun engine_pass :: "(('o, 'd) controlled \<times> ('o, 'd) machine) list \<Rightarrow> bool \<Rightarrow> (bool \<times> (('o, 'd) controlled \<times> ('o, 'd) machine) list) res" where
  "engine_pass [] isActive = Inr (isActive, [])"
| "engine_pass ((v, m) # ms) isActive =
     res_bind (engine_visit v m) (\<lambda>(a, m').
     res_bind (engine_pass ms (isActive \<or> a)) (\<lambda>(b, ms'). Inr (b, (v, m') # ms')))"

definition RuntimeControlEngine_registerObject ::
  "('o, 'd) controlled \<Rightarrow> 'o \<Rightarrow> 'd \<Rightarrow> (('o, 'd) controlled \<times> ('o, 'd) machine) list \<Rightarrow>
   (int \<times> (('o, 'd) controlled \<times> ('o, 'd) machine) list) res" where
  "RuntimeControlEngine_registerObject v obj dir ms =
     res_bind (ControlStateMachine_new v obj dir) (\<lambda>m. Inr (0, ms @ [(v, m)]))"


section \<open>The documented diagram\<close>

text \<open>The transitions that BaseControl.h documents beside the functions of \<^verbatim>\<open>RuntimeControlledObject\<close>.\<close>

inductive diagram :: "t_State \<Rightarrow> string \<Rightarrow> t_State \<Rightarrow> bool" where
  "diagram StStandby ''prepare'' StReady"
| "s \<in> {StReady, StError} \<Longrightarrow> diagram s ''reset'' StStandby"
| "diagram StReady ''start'' StRunning"
| "s \<in> {StRunning, StPaused} \<Longrightarrow> diagram s ''stop'' StReady"
| "diagram StRunning ''pause'' StPaused"
| "diagram StPaused ''resume'' StRunning"

inductive_simps diagram_simps: "diagram s c t"

text \<open>Two values published one after the other.\<close>

definition allowed_change :: "string \<Rightarrow> string \<Rightarrow> bool" where
  "allowed_change a b \<longleftrightarrow> b = ''ERROR'' \<or> (\<exists>c. diagram (getStateFromString a) c (getStateFromString b))"

fun allowed_history :: "string list \<Rightarrow> bool" where
  "allowed_history (a # b # xs) \<longleftrightarrow> allowed_change a b \<and> allowed_history (b # xs)"
| "allowed_history _ \<longleftrightarrow> True"

lemma state_string: "getStateFromString (getStringFromState s) = s"
  by (cases s) (simp_all add: getStateFromString_def getStringFromState_def)

lemma error_string: "getStringFromState StError = ''ERROR''"
  by (simp add: getStringFromState_def)

lemma transition_action_diagram:
  "(\<exists>f. transition_action v s c = Some (f, t)) \<longleftrightarrow> diagram s c t"
  by (cases s) (simp_all add: transition_action_def diagram_simps, auto)

lemma allowed_history_snoc:
  "xs \<noteq> [] \<Longrightarrow> allowed_history (xs @ [y]) \<longleftrightarrow> allowed_history xs \<and> allowed_change (last xs) y"
  by (induction xs rule: allowed_history.induct) auto

text \<open>The machine's state is the value published last, and the history of published values follows the diagram.\<close>

definition machine_inv :: "('o, 'd) machine \<Rightarrow> bool" where
  "machine_inv m \<longleftrightarrow> published m \<noteq> [] \<and> hd (published m) = ''STANDBY'' \<and> last (published m) = getStringFromState (mCurrentState m)
     \<and> allowed_history (published m)"

lemma updateState_fields [simp]:
  "mCurrentState (ControlStateMachine_updateState v s m) = s"
  "published (ControlStateMachine_updateState v s m) = published m @ [getStringFromState s]"
  "pendingCommands (ControlStateMachine_updateState v s m) = pendingCommands m"
  by (simp_all add: ControlStateMachine_updateState_def ControlObject_setState_def split: prod.splits)

lemma updateState_inv:
  assumes "machine_inv m" "s = StError \<or> (\<exists>c. diagram (mCurrentState m) c s)" "published m' = published m"
  shows "machine_inv (ControlStateMachine_updateState v s m')"
  using assms by (auto simp: machine_inv_def allowed_history_snoc allowed_change_def state_string error_string)

lemma processStateTransition_inv: "machine_inv m \<Longrightarrow> machine_inv (ControlStateMachine_processStateTransition v c m)"
  unfolding ControlStateMachine_processStateTransition_def
  using transition_action_diagram[of v "mCurrentState m" c]
  by (fastforce split: option.splits prod.splits intro: updateState_inv)

lemma engine_actions_inv: "machine_inv m \<Longrightarrow> machine_inv (engine_running v m)" "machine_inv m \<Longrightarrow> machine_inv (engine_check v m)"
  by (auto simp: engine_running_def engine_check_def intro!: updateState_inv split: prod.splits)
    (auto simp: machine_inv_def)

lemma pendingCommands_kept [simp]:
  "pendingCommands (ControlStateMachine_processStateTransition v c m) = pendingCommands m"
  "pendingCommands (engine_running v m) = pendingCommands m" "pendingCommands (engine_check v m) = pendingCommands m"
  by (simp_all add: ControlStateMachine_processStateTransition_def engine_running_def engine_check_def split: option.splits prod.splits)


section \<open>Commands and engine together\<close>

record ('o, 'd) control_system =
  ctl_machine :: "('o, 'd) machine"
  ctl_pc :: engine_pc
  accepted :: "string list"
  executed :: "string list"

datatype control_event = CtlReceive string | CtlEngine

fun control_step :: "('o, 'd) controlled \<Rightarrow> control_event \<Rightarrow> ('o, 'd) control_system \<Rightarrow> ('o, 'd) control_system res" where
  "control_step v (CtlReceive c) s =
     res_bind (ControlStateMachine_executeCommand c (ctl_machine s)) (\<lambda>(queued, m).
       Inr (s\<lparr>ctl_machine := m, accepted := (if queued then accepted s @ [c] else accepted s)\<rparr>))"
| "control_step v CtlEngine s =
     res_bind (engine_step v (ctl_pc s) (ctl_machine s)) (\<lambda>(pc, m).
       Inr (s\<lparr>ctl_pc := pc, ctl_machine := m,
              executed := (case ctl_pc s of EExec c \<Rightarrow> executed s @ [c] | _ \<Rightarrow> executed s)\<rparr>))"

fun control_run :: "('o, 'd) controlled \<Rightarrow> control_event list \<Rightarrow> ('o, 'd) control_system \<Rightarrow> ('o, 'd) control_system res" where
  "control_run v [] s = Inr s"
| "control_run v (x # xs) s = res_bind (control_step v x s) (control_run v xs)"

definition control_start :: "('o, 'd) machine \<Rightarrow> ('o, 'd) control_system" where
  "control_start m = \<lparr>ctl_machine = m, ctl_pc = EFront, accepted = [], executed = []\<rparr>"

text \<open>The commands queued and not yet executed: while the engine is about to remove a command, that one is done.\<close>

definition queued :: "('o, 'd) control_system \<Rightarrow> string option list" where
  "queued s = fifo_contents (pendingCommands (ctl_machine s))"

definition waiting :: "('o, 'd) control_system \<Rightarrow> string list" where
  "waiting s = map the (case ctl_pc s of EPop _ \<Rightarrow> tl (queued s) | _ \<Rightarrow> queued s)"

definition control_inv :: "('o, 'd) control_system \<Rightarrow> bool" where
  "control_inv s \<longleftrightarrow> machine_inv (ctl_machine s) \<and> fifo_inv (pendingCommands (ctl_machine s))
     \<and> fifo_capacity (pendingCommands (ctl_machine s)) = 1 \<and> None \<notin> set (queued s)
     \<and> (\<forall>c. ctl_pc s = EExec c \<or> ctl_pc s = EPop c \<longrightarrow> queued s = [Some c])
     \<and> accepted s = executed s @ waiting s"

lemma machine_inv_pending [simp]: "machine_inv (m\<lparr>pendingCommands := q\<rparr>) = machine_inv m"
  by (simp add: machine_inv_def)

lemma queued_le: "control_inv s \<Longrightarrow> length (queued s) \<le> 1"
  using fifo_length_le[of "pendingCommands (ctl_machine s)"] by (simp add: control_inv_def queued_def)

lemma control_receive:
  assumes "control_inv s"
  shows "\<exists>s'. control_step v (CtlReceive c) s = Inr s' \<and> control_inv s'"
proof -
  let ?q = "pendingCommands (ctl_machine s)"
  have inv: "fifo_inv ?q" "fifo_capacity ?q = 1" using assms by (simp_all add: control_inv_def)
  from inv(1) show ?thesis
  proof (cases rule: fq.push_cases[where x = "Some c"])
    case (accepted q)
    then have e: "queued s = []" using inv(2) by (simp add: queued_def)
    then have "ctl_pc s \<noteq> EExec d" "ctl_pc s \<noteq> EPop d" for d using assms by (auto simp: control_inv_def)
    then show ?thesis using accepted assms inv e
      by (auto simp: ControlStateMachine_executeCommand_def control_inv_def queued_def waiting_def split: engine_pc.splits)
  next
    case refused
    moreover obtain y where "Fifo_front None ?q = Inr y"
      using Fifo_front_cases[OF inv(1)] by (cases "fifo_contents ?q") auto
    ultimately show ?thesis using assms
      by (auto simp: ControlStateMachine_executeCommand_def control_inv_def queued_def waiting_def split: engine_pc.splits)
  qed
qed

lemma control_engine:
  assumes "control_inv s"
  shows "\<exists>s'. control_step v CtlEngine s = Inr s' \<and> control_inv s'"
proof -
  let ?m = "ctl_machine s" and ?q = "pendingCommands (ctl_machine s)"
  have inv: "fifo_inv ?q" "machine_inv ?m" using assms by (simp_all add: control_inv_def)
  show ?thesis
  proof (cases "ctl_pc s")
    case EFront
    show ?thesis
    proof (cases "queued s")
      case Nil
      then show ?thesis using EFront assms Fifo_front_empty[OF inv(1)]
        by (auto simp: control_inv_def queued_def waiting_def)
    next
      case (Cons y ys)
      then obtain c where "y = Some c" "ys = []" using assms queued_le[OF assms] by (cases y) (auto simp: control_inv_def)
      then show ?thesis using EFront assms Cons Fifo_front_item[OF inv(1), of "Some c" "[]" None]
        by (auto simp: control_inv_def queued_def waiting_def)
    qed
  next
    case (EExec c)
    then show ?thesis using assms processStateTransition_inv[OF inv(2), of v c]
      by (auto simp: control_inv_def queued_def waiting_def)
  next
    case (EPop c)
    then have "fifo_contents ?q = [Some c]" using assms by (simp add: control_inv_def queued_def)
    then show ?thesis using EPop assms Fifo_pop_item[OF inv(1), of "Some c" "[]" None "Some c"]
      by (auto simp: control_inv_def queued_def waiting_def)
  next
    case ERun
    then show ?thesis using assms engine_actions_inv(1)[OF inv(2), of v]
      by (auto simp: control_inv_def queued_def waiting_def)
  next
    case ECheck
    then show ?thesis using assms engine_actions_inv(2)[OF inv(2), of v]
      by (auto simp: control_inv_def queued_def waiting_def)
  qed
qed

lemma control_run_inv:
  assumes "control_inv s"
  shows "\<exists>s'. control_run v evs s = Inr s' \<and> control_inv s'"
  using assms
proof (induction evs arbitrary: s)
  case (Cons x xs)
  then obtain s' where "control_step v x s = Inr s'" "control_inv s'"
    using control_receive control_engine by (cases x) blast+
  then show ?case using Cons.IH by simp
qed simp

lemma control_new_inv: "\<exists>m. ControlStateMachine_new v obj dir = Inr m \<and> control_inv (control_start m)"
proof -
  obtain q where q: "Fifo_new (None :: string option) 1 = Inr q" "fifo_inv q" "fifo_contents q = []" "fifo_capacity q = 1"
    using Fifo_new_inv[of 1 "None :: string option"] by auto
  then show ?thesis
    by (simp add: ControlStateMachine_new_def control_inv_def control_start_def machine_inv_def queued_def waiting_def
        getStringFromState_def)
qed

text \<open>A visit without interference is the composition of the engine steps.\<close>

lemma engine_visit_steps:
  assumes "control_inv s" "ctl_pc s = EFront"
  shows "\<exists>a m. engine_visit v (ctl_machine s) = Inr (a, m)
    \<and> (\<exists>n s'. control_run v (replicate n CtlEngine) s = Inr s' \<and> ctl_machine s' = m \<and> ctl_pc s' = EFront
         \<and> executed s' = executed s @ map the (queued s))"
proof -
  let ?m = "ctl_machine s" and ?q = "pendingCommands (ctl_machine s)"
  have inv: "fifo_inv ?q" using assms(1) by (simp add: control_inv_def)
  show ?thesis
  proof (cases "queued s")
    case Nil
    then have "Fifo_front None ?q = Inr (-1, None)" using Fifo_front_empty[OF inv] by (simp add: queued_def)
    then have "engine_visit v ?m = Inr (False, engine_check v (engine_running v ?m))"
      and "\<exists>s'. control_run v (replicate 3 CtlEngine) s = Inr s' \<and> ctl_machine s' = engine_check v (engine_running v ?m)
        \<and> ctl_pc s' = EFront \<and> executed s' = executed s @ map the (queued s)"
      using assms(2) Nil by (simp_all add: engine_visit_def eval_nat_numeral)
    then show ?thesis by blast
  next
    case (Cons y ys)
    then obtain c where c: "y = Some c" "ys = []"
      using assms(1) queued_le[OF assms(1)] by (cases y) (auto simp: control_inv_def)
    then have q: "fifo_contents ?q = [Some c]" using Cons by (simp add: queued_def)
    obtain g where "Fifo_pop None (Some c) ?q = Inr (0, Some c, g)" using Fifo_pop_item[OF inv q] by blast
    moreover define e where "e = (ControlStateMachine_processStateTransition v c ?m)\<lparr>pendingCommands := g\<rparr>"
    ultimately have "engine_visit v ?m = Inr (True, engine_check v (engine_running v e))"
      and "\<exists>s'. control_run v (replicate 5 CtlEngine) s = Inr s' \<and> ctl_machine s' = engine_check v (engine_running v e)
        \<and> ctl_pc s' = EFront \<and> executed s' = executed s @ map the (queued s)"
      using assms(2) Cons c Fifo_front_item[OF inv q, of None] by (simp_all add: engine_visit_def Let_def eval_nat_numeral)
    then show ?thesis by blast
  qed
qed

end
