(* ===== verification/Control_Properties.thy ===== *)
theory Control_Properties
  imports ControlStateMachine
begin

text \<open>The property of the control state machine.\<close>

text \<open>An object for the witness: every action succeeds except the check after it was started.\<close>

definition test_object :: "(int, unit) controlled" where
  "test_object = \<lparr>executePrepare = (\<lambda>n. (0, n)), executeReset = (\<lambda>n. (0, 0)), executeStart = (\<lambda>n. (0, 1)),
     executeStop = (\<lambda>n. (0, n)), executePause = (\<lambda>n. (0, n)), executeResume = (\<lambda>n. (0, n)),
     iterateRunning = (\<lambda>n. (0, n)), iterateCheck = (\<lambda>n. (n, n)), dirSetValue = (\<lambda>s d. (0, d))\<rparr>"

definition test_commands :: "control_event list" where
  "test_commands = [CtlReceive ''prepare'', CtlReceive ''start'', CtlEngine, CtlEngine, CtlEngine, CtlReceive ''start'',
     CtlEngine, CtlEngine, CtlEngine, CtlEngine, CtlEngine, CtlEngine, CtlEngine]"



end
