(* ===== verification/Text_Input.thy ===== *)
theory Text_Input
  imports Prelude
begin

text \<open>
  Two classes of the common library that take text apart: \<^verbatim>\<open>SuffixNumber\<close> (src/Common/include/Common/SuffixNumber.h, src/Common/src/SuffixNumber.cxx),
  numbers with a unit like \<open>10k\<close>, for unsigned types of at least 32 bits, with the conversion of
  the digits (\<^verbatim>\<open>lexical_cast\<close>) as an argument; and \<^verbatim>\<open>LineBuffer\<close> (src/Common/src/LineBuffer.cxx), which cuts the bytes that
  arrive from a file descriptor into lines. What \<^verbatim>\<open>select\<close> and \<^verbatim>\<open>read\<close> answer is a list of outcomes.
\<close>

section \<open>Numbers with a suffix\<close>

definition suffix_units :: "(string \<times> nat) list" where
  "suffix_units =
     [(''k'', 1000), (''M'', 1000000), (''G'', 1000000000), (''T'', 1000000000000), (''P'', 1000000000000000),
      (''E'', 1000000000000000000), (''Ki'', 1024), (''Mi'', 1048576), (''Gi'', 1073741824), (''Ti'', 1099511627776),
      (''Pi'', 1125899906842624), (''Ei'', 1152921504606846976)]"

definition is_number_char :: "char \<Rightarrow> bool" where
  "is_number_char c \<longleftrightarrow> c \<in> set ''-.0123456789''"

definition SuffixNumber_parse :: "(string \<Rightarrow> 'a::len word option) \<Rightarrow> string \<Rightarrow> 'a word res" where
  "SuffixNumber_parse convert input =
     (let numberString = takeWhile is_number_char input; unitString = dropWhile is_number_char input
      in case convert numberString of
           None \<Rightarrow> Inl (Exception ''Could not convert number'')
         | Some number \<Rightarrow>
             if unitString = [] then Inr number
             else case map_of suffix_units unitString of
                    None \<Rightarrow> Inl (Exception ''Unrecognized unit'')
                  | Some unit \<Rightarrow>
                      let b = of_nat unit; multiplied = number * b
                      in if number \<noteq> 0 \<and> multiplied div number \<noteq> b
                         then Inl (Exception ''Number too large for representation'')
                         else Inr multiplied)"

text \<open>The check after the multiplication is exact when the unit fits into the type.\<close>

lemma overflow_check:
  fixes a :: "'a::len word"
  assumes "u < 2 ^ LENGTH('a)"
  shows "a \<noteq> 0 \<and> a * of_nat u div a \<noteq> of_nat u \<longleftrightarrow> 2 ^ LENGTH('a) \<le> unat a * u"
proof -
  have u: "unat (of_nat u :: 'a word) = u" using assms by (rule unat_of_nat_small)
  have m: "unat (a * of_nat u) = unat a * u mod 2 ^ LENGTH('a)"
    using u by (simp add: unat_word_ariths)
  have d: "a * of_nat u div a = of_nat u \<longleftrightarrow> unat (a * of_nat u) div unat a = u"
    using u by (metis unat_div word_unat_eq_iff)
  show ?thesis
  proof (cases "unat a * u < 2 ^ LENGTH('a)")
    case True
    then show ?thesis using m d by (cases "a = 0") (auto simp: unat_eq_zero)
  next
    case False
    then have pos: "unat a \<noteq> 0" by (cases "unat a = 0") auto
    have "unat (a * of_nat u) < unat a * u" using False unat_less_exp[of "a * of_nat u"] by linarith
    then have "unat (a * of_nat u) div unat a \<noteq> u" using pos
      by (metis div_times_less_eq_dividend mult.commute not_le)
    then show ?thesis using False d pos by (auto simp: unat_eq_zero)
  qed
qed


section \<open>Lines\<close>

record line_buffer =
  pendingLine :: string
  completeLines :: "string list"

definition LineBuffer_new :: line_buffer where
  "LineBuffer_new = \<lparr>pendingLine = '''', completeLines = []\<rparr>"

definition newline :: char where "newline = CHR 0x0A"

text \<open>The inner loop, on the characters up to the terminating zero.\<close>

function scan_lines :: "string \<Rightarrow> line_buffer \<Rightarrow> line_buffer" where
  "scan_lines s b =
     (if s = [] then b
      else if newline \<notin> set s then b\<lparr>pendingLine := pendingLine b @ s\<rparr>
      else scan_lines (tl (dropWhile (\<lambda>c. c \<noteq> newline) s))
             (b\<lparr>pendingLine := '''', completeLines := completeLines b @ [pendingLine b @ takeWhile (\<lambda>c. c \<noteq> newline) s]\<rparr>))"
  by pat_completeness auto
termination
proof (relation "measure (\<lambda>(s, b). length s)")
  fix s :: string
  assume "s \<noteq> []"
  have "length (dropWhile (\<lambda>c. c \<noteq> newline) s) \<le> length s" by (rule length_dropWhile_le)
  with \<open>s \<noteq> []\<close> have "length (tl (dropWhile (\<lambda>c. c \<noteq> newline) s)) < length s" by (cases s) auto
  then show "((tl (dropWhile (\<lambda>c. c \<noteq> newline) s), b\<lparr>pendingLine := '''',
      completeLines := completeLines b @ [pendingLine b @ takeWhile (\<lambda>c. c \<noteq> newline) s]\<rparr>), s, b) \<in> measure (\<lambda>(s, b). length s)" for b
    by simp
qed simp

declare scan_lines.simps [simp del]

text \<open>\<^verbatim>\<open>buffer[ret]=0\<close>: what is read is used as a zero-terminated string.\<close>

definition append_chunk :: "string \<Rightarrow> line_buffer \<Rightarrow> line_buffer" where
  "append_chunk chunk b = scan_lines (takeWhile (\<lambda>c. c \<noteq> CHR 0x00) chunk) b"

datatype fd_outcome = SelectFails | NotReady | ReadData string | ReadEnd | ReadFails

text \<open>Each pass of the outer loop takes one outcome; when no more is recorded, the descriptor is not ready.\<close>

fun LineBuffer_appendFromFileDescriptor :: "fd_outcome list \<Rightarrow> line_buffer \<Rightarrow> int \<times> line_buffer" where
  "LineBuffer_appendFromFileDescriptor [] b = (0, b)"
| "LineBuffer_appendFromFileDescriptor (SelectFails # xs) b = (0, b)"
| "LineBuffer_appendFromFileDescriptor (NotReady # xs) b = (0, b)"
| "LineBuffer_appendFromFileDescriptor (ReadEnd # xs) b = (-1, b)"
| "LineBuffer_appendFromFileDescriptor (ReadFails # xs) b = (0, b)"
| "LineBuffer_appendFromFileDescriptor (ReadData chunk # xs) b =
     LineBuffer_appendFromFileDescriptor xs (append_chunk chunk b)"

definition LineBuffer_getNextLine :: "string \<Rightarrow> line_buffer \<Rightarrow> int \<times> string \<times> line_buffer" where
  "LineBuffer_getNextLine nextLine b =
     (case completeLines b of
        [] \<Rightarrow> (-1, nextLine, b)
      | l # ls \<Rightarrow> (0, l, b\<lparr>completeLines := ls\<rparr>))"

text \<open>The text that a buffer stands for, and that its lines are lines.\<close>

definition buffer_text :: "line_buffer \<Rightarrow> string" where
  "buffer_text b = concat (map (\<lambda>l. l @ [newline]) (completeLines b)) @ pendingLine b"

definition buffer_lines :: "line_buffer \<Rightarrow> bool" where
  "buffer_lines b \<longleftrightarrow> newline \<notin> set (pendingLine b) \<and> (\<forall>l \<in> set (completeLines b). newline \<notin> set l)"

lemma scan_lines_text: "buffer_text (scan_lines s b) = buffer_text b @ s \<and> (buffer_lines b \<longrightarrow> buffer_lines (scan_lines s b))"
proof (induction s b rule: scan_lines.induct)
  case (1 s b)
  show ?case
  proof (cases "newline \<in> set s")
    case False
    then show ?thesis by (subst (1 2) scan_lines.simps) (auto simp: buffer_text_def buffer_lines_def)
  next
    case True
    then have ne: "s \<noteq> []" by auto
    let ?l = "takeWhile (\<lambda>c. c \<noteq> newline) s" and ?r = "tl (dropWhile (\<lambda>c. c \<noteq> newline) s)"
    let ?b = "b\<lparr>pendingLine := '''', completeLines := completeLines b @ [pendingLine b @ ?l]\<rparr>"
    have d: "dropWhile (\<lambda>c. c \<noteq> newline) s \<noteq> []" using True by (simp add: dropWhile_eq_Nil_conv)
    then have "hd (dropWhile (\<lambda>c. c \<noteq> newline) s) = newline" using hd_dropWhile by blast
    then have split: "s = ?l @ newline # ?r" using d by (metis list.collapse takeWhile_dropWhile_id)
    have "scan_lines s b = scan_lines ?r ?b" using True ne by (subst scan_lines.simps) simp
    moreover have "buffer_text ?b = buffer_text b @ ?l @ [newline]" by (simp add: buffer_text_def)
    moreover have "buffer_lines b \<Longrightarrow> buffer_lines ?b" by (auto simp: buffer_lines_def dest: set_takeWhileD)
    ultimately show ?thesis using 1[OF ne] True split by simp
  qed
qed

lemma append_chunks_text:
  assumes "\<forall>c \<in> set chunks. CHR 0x00 \<notin> set c"
  shows "fst (LineBuffer_appendFromFileDescriptor (map ReadData chunks) b) = 0
    \<and> buffer_text (snd (LineBuffer_appendFromFileDescriptor (map ReadData chunks) b)) = buffer_text b @ concat chunks
    \<and> (buffer_lines b \<longrightarrow> buffer_lines (snd (LineBuffer_appendFromFileDescriptor (map ReadData chunks) b)))"
  using assms
proof (induction chunks arbitrary: b)
  case (Cons c cs)
  have "takeWhile (\<lambda>x. x \<noteq> CHR 0x00) c = c" using Cons.prems by (intro takeWhile_eq_all_conv[THEN iffD2]) auto
  then have "append_chunk c b = scan_lines c b" by (simp only: append_chunk_def)
  then show ?case using Cons.IH[of "append_chunk c b"] Cons.prems scan_lines_text[of c b] by simp
qed simp

text \<open>A text has only one division into lines.\<close>

lemma line_division_unique:
  assumes "concat (map (\<lambda>l. l @ [newline]) ls) @ p = concat (map (\<lambda>l. l @ [newline]) ks) @ q"
    and "\<forall>l \<in> set ls \<union> set ks. newline \<notin> set l" "newline \<notin> set p" "newline \<notin> set q"
  shows "ls = ks \<and> p = q"
  using assms
proof (induction ls arbitrary: ks)
  case Nil
  then show ?case by (cases ks) auto
next
  case (Cons l ls)
  obtain k ks' where ks: "ks = k # ks'" using Cons.prems by (cases ks) auto
  let ?r = "concat (map (\<lambda>l. l @ [newline]) ls) @ p" and ?r' = "concat (map (\<lambda>l. l @ [newline]) ks') @ q"
  have e: "l @ newline # ?r = k @ newline # ?r'" using Cons.prems(1) ks by simp
  have "takeWhile (\<lambda>c. c \<noteq> newline) (xs @ newline # r) = xs" if "newline \<notin> set xs" for xs r
    using that by (induction xs) auto
  from this[of l ?r] this[of k ?r'] have "l = k" using e Cons.prems(2) ks by auto
  then have "l = k \<and> ?r = ?r'" using e by simp
  then show ?case using Cons.IH[of ks'] Cons.prems ks by auto
qed

lemma line_buffer_unique:
  assumes "buffer_text b = buffer_text b'" "buffer_lines b" "buffer_lines b'"
  shows "b = b'"
proof -
  have "completeLines b = completeLines b' \<and> pendingLine b = pendingLine b'"
  proof (rule line_division_unique)
    show "concat (map (\<lambda>l. l @ [newline]) (completeLines b)) @ pendingLine b
      = concat (map (\<lambda>l. l @ [newline]) (completeLines b')) @ pendingLine b'"
      using assms(1) unfolding buffer_text_def .
    show "\<forall>l \<in> set (completeLines b) \<union> set (completeLines b'). newline \<notin> set l"
      using assms(2,3) unfolding buffer_lines_def by blast
    show "newline \<notin> set (pendingLine b)" "newline \<notin> set (pendingLine b')"
      using assms(2,3) unfolding buffer_lines_def by blast+
  qed
  then show ?thesis by (cases b; cases b') simp
qed

end
