(* ===== verification/Text_Properties.thy ===== *)
theory Text_Properties
  imports Text_Input
begin

text \<open>The properties of the text classes of the common library.\<close>

text \<open>(C32) A number with a unit is the exact product or an error. For an unsigned type into which the unit fits, a
  string of digits that convert to \<open>a\<close> followed by the unit \<open>u\<close> yields a value whose number is \<open>a * u\<close>, and if that number does not
  fit into the type, the parse throws; without a unit the number itself is the value, and an unknown unit throws.\<close>

theorem suffix_number_exact:
  fixes a :: "'a::len word"
  assumes "convert digits = Some a" "\<forall>c \<in> set digits. is_number_char c" "s = [] \<or> \<not> is_number_char (hd s)"
  shows "if s = [] then SuffixNumber_parse convert (digits @ s) = Inr a
    else (case map_of suffix_units s of
            None \<Rightarrow> SuffixNumber_parse convert (digits @ s) = Inl (Exception ''Unrecognized unit'')
          | Some u \<Rightarrow> u < 2 ^ LENGTH('a) \<longrightarrow>
              (if unat a * u < 2 ^ LENGTH('a)
               then (\<exists>r. SuffixNumber_parse convert (digits @ s) = Inr r \<and> unat r = unat a * u)
               else SuffixNumber_parse convert (digits @ s) = Inl (Exception ''Number too large for representation'')))"
proof -
  have t: "takeWhile is_number_char (digits @ s) = digits" "dropWhile is_number_char (digits @ s) = s"
    using assms(2,3) by (cases s; simp add: takeWhile_append dropWhile_append)+
  have p: "SuffixNumber_parse convert (digits @ s) =
      (if s = [] then Inr a
       else case map_of suffix_units s of
              None \<Rightarrow> Inl (Exception ''Unrecognized unit'')
            | Some u \<Rightarrow> if a \<noteq> 0 \<and> a * of_nat u div a \<noteq> of_nat u
                then Inl (Exception ''Number too large for representation'') else Inr (a * of_nat u))"
    unfolding SuffixNumber_parse_def Let_def t assms(1) by simp
  have "unat a * u < 2 ^ LENGTH('a) \<Longrightarrow> u < 2 ^ LENGTH('a) \<Longrightarrow> unat (a * of_nat u) = unat a * u" for u
    by (simp add: unat_word_ariths unat_of_nat_small)
  then have "u < 2 ^ LENGTH('a) \<longrightarrow>
      (if unat a * u < 2 ^ LENGTH('a) then \<not> (a \<noteq> 0 \<and> a * of_nat u div a \<noteq> of_nat u) \<and> unat (a * of_nat u) = unat a * u
       else a \<noteq> 0 \<and> a * of_nat u div a \<noteq> of_nat u)" for u
    using overflow_check[of u a] by (simp add: linorder_not_less)
  note exact = this
  show ?thesis
  proof (cases "s = [] \<or> map_of suffix_units s = None")
    case True
    then show ?thesis unfolding p by auto
  next
    case False
    then obtain u where "s \<noteq> []" "map_of suffix_units s = Some u" by auto
    then show ?thesis unfolding p using exact[of u] by (simp only: option.case if_False) (simp split: if_split)
  qed
qed

text \<open>A unit that does not fit into the type is cut without a check: one tera in 32 bits.\<close>

lemma suffix_number_truncates:
  "SuffixNumber_parse (\<lambda>s. if s = ''1'' then Some (1 :: u32) else None) ''1T'' = Inr 3567587328"
  by (simp add: SuffixNumber_parse_def is_number_char_def suffix_units_def)

definition test_convert :: "string \<Rightarrow> u32 option" where
  "test_convert s = (if s = ''10'' then Some 10 else None)"

theorem suffix_number_exact_witness:
  "(\<exists>r. SuffixNumber_parse test_convert ''10Ki'' = Inr r \<and> unat r = 10240)
    \<and> SuffixNumber_parse test_convert ''10G'' = Inl (Exception ''Number too large for representation'')"
  using suffix_number_exact[of test_convert "''10''" 10 "''Ki''"] suffix_number_exact[of test_convert "''10''" 10 "''G''"]
  by (simp add: test_convert_def is_number_char_def suffix_units_def)

text \<open>(C31) The line buffer cuts the text that arrives into its lines, however it is divided into reads: after any reads of bytes other
  than zero, the complete lines, each followed by a newline, and the pending rest make up the text received, no line contains a newline, and a
  buffer that received the same text in other pieces is the same.\<close>

theorem line_buffer_lines:
  assumes "\<forall>c \<in> set chunks. CHR 0x00 \<notin> set c"
  shows "\<exists>b. LineBuffer_appendFromFileDescriptor (map ReadData chunks) LineBuffer_new = (0, b)
    \<and> concat (map (\<lambda>l. l @ [newline]) (completeLines b)) @ pendingLine b = concat chunks
    \<and> newline \<notin> set (pendingLine b) \<and> (\<forall>l \<in> set (completeLines b). newline \<notin> set l)
    \<and> (\<forall>pieces. concat pieces = concat chunks \<longrightarrow>
          LineBuffer_appendFromFileDescriptor (map ReadData pieces) LineBuffer_new = (0, b))"
proof -
  define run where "run cs = LineBuffer_appendFromFileDescriptor (map ReadData cs) LineBuffer_new" for cs
  have n: "buffer_text LineBuffer_new = []" "buffer_lines LineBuffer_new"
    by (simp_all add: buffer_text_def buffer_lines_def LineBuffer_new_def)
  have r: "fst (run cs) = 0 \<and> buffer_text (snd (run cs)) = concat cs \<and> buffer_lines (snd (run cs))"
    if "concat cs = concat chunks" for cs
  proof -
    have "set (concat cs) = set (concat chunks)" using that by simp
    then have "\<forall>c \<in> set cs. CHR 0x00 \<notin> set c" using assms by (auto simp: set_concat)
    from append_chunks_text[OF this, of LineBuffer_new] n show ?thesis by (simp add: run_def)
  qed
  have "run pieces = run chunks" if p: "concat pieces = concat chunks" for pieces
  proof -
    have "buffer_text (snd (run pieces)) = buffer_text (snd (run chunks))" using r[OF p] r[OF refl] p by simp
    then have "snd (run pieces) = snd (run chunks)"
      using r[OF p] r[OF refl] by (blast intro: line_buffer_unique)
    then show ?thesis using r[OF p] r[OF refl] by (simp add: prod_eq_iff)
  qed
  moreover obtain b where b: "run chunks = (0, b)" using r[OF refl] by (metis prod.collapse)
  ultimately have "\<forall>pieces. concat pieces = concat chunks \<longrightarrow> run pieces = (0, b)" by simp
  moreover have "buffer_text b = concat chunks" "buffer_lines b" using r[OF refl] b by simp_all
  ultimately show ?thesis using b unfolding run_def buffer_text_def buffer_lines_def by (intro exI[of _ b]) simp
qed

theorem line_buffer_lines_witness:
  "LineBuffer_appendFromFileDescriptor (map ReadData [''ab'', ''c'' @ [newline] @ ''d'']) LineBuffer_new
     = (0, \<lparr>pendingLine = ''d'', completeLines = [''abc'']\<rparr>)
   \<and> LineBuffer_appendFromFileDescriptor (map ReadData [''a'', ''bc'' @ [newline], ''d'']) LineBuffer_new
     = LineBuffer_appendFromFileDescriptor (map ReadData [''ab'', ''c'' @ [newline] @ ''d'']) LineBuffer_new"
proof
  show "LineBuffer_appendFromFileDescriptor (map ReadData [''ab'', ''c'' @ [newline] @ ''d'']) LineBuffer_new
     = (0, \<lparr>pendingLine = ''d'', completeLines = [''abc'']\<rparr>)"
    by code_simp
  have "\<forall>c \<in> set [''ab'', ''c'' @ [newline] @ ''d'']. CHR 0x00 \<notin> set c" by (simp add: newline_def)
  from line_buffer_lines[OF this]
  show "LineBuffer_appendFromFileDescriptor (map ReadData [''a'', ''bc'' @ [newline], ''d'']) LineBuffer_new
     = LineBuffer_appendFromFileDescriptor (map ReadData [''ab'', ''c'' @ [newline] @ ''d'']) LineBuffer_new"
    by (elim exE conjE) (simp only: concat.simps append.simps append_Nil2)
qed

end
