(* ===== verification/Circular_Table.thy ===== *)
theory Circular_Table
  imports Queue_Interface
begin

text \<open>
  The circular table of the permanent FIFO of the log transport (src/InfoLogger/src/permanentFIFO.c, \<^verbatim>\<open>ct_new\<close>, \<^verbatim>\<open>ct_write\<close>, \<^verbatim>\<open>ct_read\<close>). An
  item is a size, a pointer to data and an identifier; the memory behind the pointer is its list of bytes and a null pointer is
  \<open>None\<close>. Identifiers and sizes, which are \<^verbatim>\<open>unsigned long\<close>, are natural numbers: no run counts to \<open>2 ^ 64\<close>. The table is an instance of the
  contract \<open>bounded_queue\<close> for items that have data.
\<close>

record FIFO_item =
  fi_size :: nat
  fi_data :: "u8 list option"
  fi_id :: nat

definition EMPTY_FIFO_ITEM :: FIFO_item where
  "EMPTY_FIFO_ITEM = \<lparr>fi_size = 0, fi_data = None, fi_id = 0\<rparr>"

record circular_table =
  ct_size :: int
  index_first :: int
  n_items :: int
  items :: "FIFO_item list"

definition ct_new :: "int \<Rightarrow> circular_table option" where
  "ct_new n =
     (if n \<le> 0 then None
      else Some \<lparr>ct_size = n, index_first = 0, n_items = 0, items = replicate (nat n) EMPTY_FIFO_ITEM\<rparr>)"

definition ct_write :: "FIFO_item \<Rightarrow> circular_table \<Rightarrow> (int \<times> circular_table) res" where
  "ct_write item t =
     (if ct_size t = n_items t then Inr (-1, t)
      else if fi_data item = None then Inr (-1, t)
      else let i = index_first t + n_items t; index_new = (if i \<ge> ct_size t then i - ct_size t else i)
           in res_bind (vec_set (items t) index_new item) (\<lambda>xs. Inr (0, t\<lparr>n_items := n_items t + 1, items := xs\<rparr>)))"

definition ct_read :: "FIFO_item \<Rightarrow> circular_table \<Rightarrow> (int \<times> FIFO_item \<times> circular_table) res" where
  "ct_read item t =
     (if n_items t = 0 then Inr (-1, item, t)
      else res_bind (vec_get (items t) (index_first t)) (\<lambda>x.
           res_bind (vec_set (items t) (index_first t) EMPTY_FIFO_ITEM) (\<lambda>xs.
             let i = index_first t + 1
             in Inr (0, x, t\<lparr>items := xs, n_items := n_items t - 1,
                             index_first := (if i \<ge> ct_size t then i - ct_size t else i)\<rparr>))))"

text \<open>The index of the last item, as the users of the table compute it.\<close>

definition last_index :: "circular_table \<Rightarrow> int" where
  "last_index t = (let i = index_first t + n_items t - 1 in if i \<ge> ct_size t then i - ct_size t else i)"


section \<open>The table as a queue\<close>

type_synonym entry = "nat \<times> u8 list"

definition entry_item :: "entry \<Rightarrow> FIFO_item" where
  "entry_item e = \<lparr>fi_size = length (snd e), fi_data = Some (snd e), fi_id = fst e\<rparr>"

definition item_entry :: "FIFO_item \<Rightarrow> entry" where
  "item_entry x = (fi_id x, case fi_data x of None \<Rightarrow> [] | Some d \<Rightarrow> d)"

lemma item_entry_item [simp]: "item_entry (entry_item e) = e"
  by (simp add: item_entry_def entry_item_def)

lemma entry_item_sel [simp]:
  "fi_size (entry_item e) = length (snd e)" "fi_data (entry_item e) = Some (snd e)" "fi_id (entry_item e) = fst e"
  by (simp_all add: entry_item_def)

definition ct_push :: "entry \<Rightarrow> circular_table \<Rightarrow> (int \<times> circular_table) res" where
  "ct_push e t = ct_write (entry_item e) t"

definition ct_pop :: "entry \<Rightarrow> circular_table \<Rightarrow> (int \<times> entry \<times> circular_table) res" where
  "ct_pop e t = res_bind (ct_read (entry_item e) t) (\<lambda>(r, x, t'). Inr (r, item_entry x, t'))"

definition ct_slice :: "circular_table \<Rightarrow> FIFO_item list" where
  "ct_slice t = ring_slice (items t) (index_first t) (nat (n_items t))"

definition ct_contents :: "circular_table \<Rightarrow> entry list" where
  "ct_contents t = map item_entry (ct_slice t)"

definition ct_capacity :: "circular_table \<Rightarrow> nat" where
  "ct_capacity t = nat (ct_size t)"

definition ct_inv :: "circular_table \<Rightarrow> bool" where
  "ct_inv t \<longleftrightarrow> int (length (items t)) = ct_size t \<and> in_ring (ct_size t) (index_first t)
     \<and> 0 \<le> n_items t \<and> n_items t \<le> ct_size t \<and> ct_slice t = map entry_item (ct_contents t)"

lemma ct_length: "length (ct_contents t) = nat (n_items t)"
  by (simp add: ct_contents_def ct_slice_def)

lemma ct_shape:
  assumes "ct_inv t"
  shows "int (length (items t)) = ct_size t" "0 < ct_size t" "in_ring (ct_size t) (index_first t)"
    "n_items t = int (length (ct_contents t))" "length (ct_contents t) \<le> ct_capacity t"
    "ct_slice t = map entry_item (ct_contents t)"
  using assms by (auto simp: ct_inv_def ct_length ct_capacity_def in_ring_def)

lemma ct_new_inv:
  assumes "0 < n"
  shows "\<exists>t. ct_new n = Some t \<and> ct_inv t \<and> ct_contents t = [] \<and> ct_capacity t = nat n"
  using assms by (simp add: ct_new_def ct_inv_def ct_contents_def ct_slice_def ct_capacity_def in_ring_def)

lemma wrap_in_ring:
  assumes "in_ring n i" "0 \<le> k" "k < n"
  shows "in_ring n (if i + k \<ge> n then i + k - n else i + k)"
    and "ring_dist n i (if i + k \<ge> n then i + k - n else i + k) = k"
proof -
  show r: "in_ring n (if i + k \<ge> n then i + k - n else i + k)" using assms by (simp add: in_ring_def)
  show "ring_dist n i (if i + k \<ge> n then i + k - n else i + k) = k"
    unfolding ring_dist_alt[OF assms(1) r] using assms by (simp add: in_ring_def)
qed

lemma ct_write_space:
  assumes inv: "ct_inv t" and space: "length (ct_contents t) < ct_capacity t"
  shows "\<exists>t'. ct_write (entry_item e) t = Inr (0, t') \<and> ct_inv t' \<and> ct_contents t' = ct_contents t @ [e]
    \<and> ct_capacity t' = ct_capacity t"
proof -
  note sh = ct_shape[OF inv]
  define i where "i = (if index_first t + n_items t \<ge> ct_size t then index_first t + n_items t - ct_size t
    else index_first t + n_items t)"
  have n: "0 \<le> n_items t" "n_items t < ct_size t" using sh(4) space by (auto simp: ct_capacity_def)
  have i: "in_ring (ct_size t) i" "ring_dist (ct_size t) (index_first t) i = n_items t"
    unfolding i_def by (rule wrap_in_ring[OF sh(3) n])+
  let ?t = "t\<lparr>n_items := n_items t + 1, items := (items t)[nat i := entry_item e]\<rparr>"
  have "vec_set (items t) i (entry_item e) = Inr ((items t)[nat i := entry_item e])"
    using i(1) sh(1) by (simp add: vec_set_def in_ring_def)
  moreover have "ct_size t \<noteq> n_items t" using n by simp
  ultimately have w: "ct_write (entry_item e) t = Inr (0, ?t)"
    unfolding ct_write_def Let_def i_def[symmetric] by simp
  have "ring_slice ((items t)[nat i := entry_item e]) (index_first t) (Suc (nat (n_items t)))
      = ring_slice (items t) (index_first t) (nat (n_items t)) @ [entry_item e]"
    using sh i n by (intro ring_slice_snoc) simp_all
  then have sl: "ct_slice ?t = ct_slice t @ [entry_item e]"
    using n by (simp del: ring_slice.simps add: ct_slice_def nat_add_distrib)
  then have c: "ct_contents ?t = ct_contents t @ [e]" by (simp add: ct_contents_def)
  have "ct_inv ?t" unfolding ct_inv_def sl c using sh n by simp
  then show ?thesis using w c by (auto simp: ct_capacity_def)
qed

lemma ct_write_full:
  assumes "ct_inv t" "length (ct_contents t) = ct_capacity t"
  shows "ct_write x t = Inr (-1, t)"
  using assms ct_shape[OF assms(1)] by (simp add: ct_write_def ct_capacity_def)

lemma ct_read_item:
  assumes inv: "ct_inv t" and ne: "ct_contents t = e # es"
  shows "\<exists>t'. ct_read x t = Inr (0, entry_item e, t') \<and> ct_inv t' \<and> ct_contents t' = es \<and> ct_capacity t' = ct_capacity t"
proof -
  note sh = ct_shape[OF inv]
  let ?f = "index_first t" and ?n = "ct_size t"
  define i where "i = (if ?f + 1 \<ge> ?n then ?f + 1 - ?n else ?f + 1)"
  have f: "0 \<le> ?f" "?f < ?n" using sh(3) by (simp_all add: in_ring_def)
  have i: "i = ring_next ?n ?f" using f by (auto simp: i_def ring_next_def)
  have k: "nat (n_items t) = Suc (length es)" "n_items t \<noteq> 0" using sh(4) ne by simp_all
  let ?t = "t\<lparr>items := (items t)[nat ?f := EMPTY_FIFO_ITEM], n_items := n_items t - 1, index_first := i\<rparr>"
  have s: "ct_slice t = items t ! nat ?f # ring_slice (items t) i (length es)"
    using k sh(1) i by (simp add: ct_slice_def)
  then have hd: "items t ! nat ?f = entry_item e" and tl: "ring_slice (items t) i (length es) = map entry_item es"
    using sh(6) ne by simp_all
  have "ct_read x t = Inr (0, entry_item e, ?t)"
    using k(2) f sh(1) hd unfolding ct_read_def Let_def i_def[symmetric] by (simp add: vec_get_def vec_set_def)
  moreover have sl: "ct_slice ?t = map entry_item es"
  proof -
    have "int (length es) \<le> ring_dist ?n i ?f"
      using k(1) sh(4,5) ne ring_dist_next_self[OF sh(3)] by (simp add: i ct_capacity_def)
    then have "ring_slice ((items t)[nat ?f := EMPTY_FIFO_ITEM]) i (length es) = ring_slice (items t) i (length es)"
      using sh i by (intro ring_slice_update_other) simp_all
    moreover have "nat (n_items t - 1) = length es" using k(1) by simp
    ultimately show ?thesis using tl by (simp add: ct_slice_def)
  qed
  moreover have c: "ct_contents ?t = es" unfolding ct_contents_def sl by (simp add: comp_def)
  moreover have "ct_inv ?t" unfolding ct_inv_def sl c using sh i k ne by (simp add: ct_capacity_def)
  ultimately show ?thesis by (auto simp: ct_capacity_def)
qed

lemma ct_read_empty: "ct_inv t \<Longrightarrow> ct_contents t = [] \<Longrightarrow> ct_read x t = Inr (-1, x, t)"
  using ct_shape[of t] by (simp add: ct_read_def)

lemma ct_nth:
  assumes "ct_inv t" "p < length (ct_contents t)"
  shows "vec_get (items t) (if index_first t + int p \<ge> ct_size t then index_first t + int p - ct_size t else index_first t + int p)
    = Inr (entry_item (ct_contents t ! p))"
proof -
  note sh = ct_shape[OF assms(1)]
  define j where "j = (if index_first t + int p \<ge> ct_size t then index_first t + int p - ct_size t else index_first t + int p)"
  have p: "int p < ct_size t" using assms(2) sh(4,5) by (simp add: ct_capacity_def)
  have j: "in_ring (ct_size t) j" "ring_dist (ct_size t) (index_first t) j = int p"
    unfolding j_def by (rule wrap_in_ring[OF sh(3) _ p]; simp)+
  have "ct_slice t ! p = items t ! nat ((index_first t + int p) mod ct_size t)"
    using sh(1,3,4) assms(2) ring_slice_nth[of "items t" "index_first t" p "nat (n_items t)"] by (simp add: ct_slice_def)
  also have "(index_first t + int p) mod ct_size t = j"
  proof -
    have "j = (if index_first t + int p \<ge> ct_size t then index_first t + int p - ct_size t else index_first t + int p)"
      by (rule j_def)
    moreover have "j mod ct_size t = j" using j(1) by (simp add: in_ring_def)
    ultimately show ?thesis by (metis minus_mod_self2)
  qed
  finally have "items t ! nat j = entry_item (ct_contents t ! p)" using sh(6) assms(2) by simp
  then show ?thesis using j(1) sh(1) unfolding j_def[symmetric] by (simp add: vec_get_def in_ring_def)
qed

lemma ct_last:
  assumes "ct_inv t" "ct_contents t \<noteq> []"
  shows "vec_get (items t) (last_index t) = Inr (entry_item (last (ct_contents t)))"
proof -
  have i: "index_first t + int (length (ct_contents t) - 1) = index_first t + n_items t - 1"
    using ct_shape(4)[OF assms(1)] assms(2) by (cases "ct_contents t") simp_all
  have "length (ct_contents t) - 1 < length (ct_contents t)" using assms(2) by simp
  from ct_nth[OF assms(1) this, unfolded i] show ?thesis
    by (simp only: last_index_def Let_def last_conv_nth[OF assms(2)])
qed

interpretation ct: bounded_queue ct_inv ct_contents ct_capacity ct_push ct_pop
  "\<lambda>t. n_items t = 0" "\<lambda>t. ct_size t = n_items t" 0 "-1"
proof unfold_locales
  fix t :: circular_table and x y :: entry and ys
  assume t: "ct_inv t"
  show "length (ct_contents t) \<le> ct_capacity t" using ct_shape[OF t] by simp
  show "length (ct_contents t) < ct_capacity t \<Longrightarrow>
      \<exists>q'. ct_push x t = Inr (0, q') \<and> ct_inv q' \<and> ct_contents q' = ct_contents t @ [x] \<and> ct_capacity q' = ct_capacity t"
    using ct_write_space[OF t] by (simp add: ct_push_def)
  show "length (ct_contents t) = ct_capacity t \<Longrightarrow> ct_push x t = Inr (-1, t)"
    using ct_write_full[OF t] by (simp add: ct_push_def)
  show "\<exists>q'. ct_pop x t = Inr (0, y, q') \<and> ct_inv q' \<and> ct_contents q' = ys \<and> ct_capacity q' = ct_capacity t"
    if "ct_contents t = y # ys"
    using ct_read_item[OF t that, of "entry_item x"] by (auto simp: ct_pop_def)
  show "ct_contents t = [] \<Longrightarrow> ct_pop x t = Inr (-1, x, t)" using ct_read_empty[OF t] by (simp add: ct_pop_def)
  show "(n_items t = 0) = (ct_contents t = [])" using ct_shape[OF t] by simp
  show "(ct_size t = n_items t) = (length (ct_contents t) = ct_capacity t)"
    using ct_shape(2,4)[OF t] unfolding ct_capacity_def by linarith
qed simp

end
