(* ===== verification/Perm_Fifo.thy ===== *)
theory Perm_Fifo
  imports Circular_Table
begin

text \<open>
  The permanent FIFO of the log transport (src/InfoLogger/src/permanentFIFO.c): items are kept for the reader in a client table and for the disk in a
  second table, which is appended to a file when it is full, on request and at the end; the file holds the items until they are acknowledged.

  The file is its bytes. The two header structures are written as the compiler of the supported platform lays them out, 24 bytes each, little endian with
  four padding bytes (taken to be zero, nothing reads them) after the tag. \<^verbatim>\<open>read\<close> and \<^verbatim>\<open>write\<close> transfer what they are asked for
  as far as it is there, and memory can be allocated. The outcomes of the other system calls that the code checks are an argument \<open>sys\<close>. A wait on the condition variable is a function
  \<open>wait\<close> that gives the state in which the thread is woken up and whether the time was over. The mutex makes each operation one step.
\<close>

section \<open>The file format\<close>

fun le_bytes :: "nat \<Rightarrow> nat \<Rightarrow> u8 list" where
  "le_bytes 0 v = []"
| "le_bytes (Suc n) v = of_nat (v mod 256) # le_bytes n (v div 256)"

fun le_value :: "u8 list \<Rightarrow> nat" where
  "le_value [] = 0"
| "le_value (b # bs) = unat b + 256 * le_value bs"

definition FIFO_FILE_TAG :: nat where "FIFO_FILE_TAG = 1234"

record FIFO_file_main_header =
  mh_tag :: nat
  lastAckId :: nat
  mh_currentId :: nat

record FIFO_file_sub_header =
  sh_tag :: nat
  sh_size :: nat
  sh_id :: nat

definition FIFOFILE_DEFAULT_MAIN_HEADER :: FIFO_file_main_header where
  "FIFOFILE_DEFAULT_MAIN_HEADER = \<lparr>mh_tag = FIFO_FILE_TAG, lastAckId = 0, mh_currentId = 0\<rparr>"

definition main_bytes :: "FIFO_file_main_header \<Rightarrow> u8 list" where
  "main_bytes h = le_bytes 4 (mh_tag h) @ le_bytes 4 0 @ le_bytes 8 (lastAckId h) @ le_bytes 8 (mh_currentId h)"

definition main_of_bytes :: "u8 list \<Rightarrow> FIFO_file_main_header" where
  "main_of_bytes bs = \<lparr>mh_tag = le_value (take 4 bs), lastAckId = le_value (take 8 (drop 8 bs)),
     mh_currentId = le_value (take 8 (drop 16 bs))\<rparr>"

definition sub_bytes :: "FIFO_file_sub_header \<Rightarrow> u8 list" where
  "sub_bytes h = le_bytes 4 (sh_tag h) @ le_bytes 4 0 @ le_bytes 8 (sh_size h) @ le_bytes 8 (sh_id h)"

definition sub_of_bytes :: "u8 list \<Rightarrow> FIFO_file_sub_header" where
  "sub_of_bytes bs = \<lparr>sh_tag = le_value (take 4 bs), sh_size = le_value (take 8 (drop 8 bs)),
     sh_id = le_value (take 8 (drop 16 bs))\<rparr>"

definition header_size :: nat where "header_size = 24"

definition file_read :: "u8 list \<Rightarrow> nat \<Rightarrow> nat \<Rightarrow> u8 list" where
  "file_read file pos n = take n (drop pos file)"

text \<open>\<^verbatim>\<open>lseek(fd, n, SEEK_CUR)\<close> with an unsigned number of bytes, which the call takes as a signed one.\<close>

definition lseek_cur :: "nat \<Rightarrow> nat \<Rightarrow> nat option" where
  "lseek_cur pos n =
     (let new = int pos + (if n < 2 ^ 63 then int n else int n - 2 ^ 64)
      in if 0 \<le> new \<and> new < 2 ^ 63 then Some (nat new) else None)"

definition lseek_write :: "u8 list \<Rightarrow> u8 list \<Rightarrow> u8 list" where
  "lseek_write bs file = bs @ drop (length bs) file"


section \<open>Saving and loading a table\<close>

fun save_items :: "nat \<Rightarrow> u8 list \<Rightarrow> circular_table \<Rightarrow> (u8 list \<times> circular_table) res" where
  "save_items 0 file t = Inr (file, t)"
| "save_items (Suc k) file t =
     res_bind (ct_read EMPTY_FIFO_ITEM t) (\<lambda>(r, item, t').
       if r \<noteq> 0 then Inr (file, t')
       else save_items k
         (case fi_data item of
            None \<Rightarrow> file
          | Some d \<Rightarrow> if fi_size item = 0 then file
              else file @ sub_bytes \<lparr>sh_tag = FIFO_FILE_TAG, sh_size = fi_size item, sh_id = fi_id item\<rparr> @ take (fi_size item) d) t')"

datatype file_call = SaveSeek | Truncate | AckSeek | AckWrite

definition ct_save :: "(file_call \<Rightarrow> bool) \<Rightarrow> u8 list \<Rightarrow> circular_table \<Rightarrow> (int \<times> u8 list \<times> circular_table) res" where
  "ct_save sys file t =
     (if \<not> sys SaveSeek then Inr (-2, file, t)
      else res_bind (save_items (nat (n_items t)) file t) (\<lambda>(file', t'). Inr (0, file', t')))"

partial_function (option) ct_load ::
  "u8 list \<Rightarrow> nat \<Rightarrow> nat \<Rightarrow> circular_table \<Rightarrow> (int \<times> nat \<times> circular_table) res option"
where
  "ct_load file pos idn t =
     (if n_items t = ct_size t then Some (Inr (-3, pos, t))
      else let hb = file_read file pos header_size; pos1 = pos + length hb; hs = sub_of_bytes hb
           in if hb = [] then Some (Inr (0, pos1, t))
              else if length hb \<noteq> header_size then Some (Inr (4, pos1, t))
              else if sh_tag hs \<noteq> FIFO_FILE_TAG then Some (Inr (5, pos1, t))
              else if idn \<noteq> 0 \<and> sh_id hs < idn
              then (case lseek_cur pos1 (sh_size hs) of
                      None \<Rightarrow> Some (Inr (7, pos1, t))
                    | Some pos2 \<Rightarrow> ct_load file pos2 idn t)
              else let d = file_read file pos1 (sh_size hs); pos2 = pos1 + length d
                   in if length d \<noteq> sh_size hs then Some (Inr (6, pos2, t))
                      else (case ct_write \<lparr>fi_size = sh_size hs, fi_data = Some d, fi_id = sh_id hs\<rparr> t of
                              Inl e \<Rightarrow> Some (Inl e)
                            | Inr rt \<Rightarrow> if fst rt \<noteq> 0 then Some (Inr (0, pos2, snd rt)) else ct_load file pos2 idn (snd rt)))"

declare ct_load.simps [code]


section \<open>The FIFO\<close>

record permFIFO =
  table_client :: "circular_table option"
  table_disk :: "circular_table option"
  fifo_file :: "u8 list option"
  currentId :: nat
  lastIdOut :: nat
  lastOutOffset :: nat
  nextIdInClientTable :: nat
  lastIdOnDisk :: nat
  ackOnDisk :: bool
  lastFlush :: int

text \<open>The file is there exactly when the descriptor is open; a use of a missing table or of a closed descriptor where the code
  needs one is an error of its own.\<close>

definition need :: "'a option \<Rightarrow> 'a res" where
  "need x = (case x of None \<Rightarrow> Inl DeadObject | Some y \<Rightarrow> Inr y)"

definition client_write :: "FIFO_item \<Rightarrow> permFIFO \<Rightarrow> (int \<times> permFIFO) res" where
  "client_write x f =
     (case table_client f of
        None \<Rightarrow> Inr (-1, f)
      | Some t \<Rightarrow> res_bind (ct_write x t) (\<lambda>(r, t'). Inr (r, f\<lparr>table_client := Some t'\<rparr>)))"

definition client_read :: "FIFO_item \<Rightarrow> permFIFO \<Rightarrow> (int \<times> FIFO_item \<times> permFIFO) res" where
  "client_read x f =
     (case table_client f of
        None \<Rightarrow> Inr (-1, x, f)
      | Some t \<Rightarrow> res_bind (ct_read x t) (\<lambda>(r, y, t'). Inr (r, y, f\<lparr>table_client := Some t'\<rparr>)))"

definition permFIFO_save_tabledisk :: "(file_call \<Rightarrow> bool) \<Rightarrow> int \<Rightarrow> permFIFO \<Rightarrow> (int \<times> permFIFO) res" where
  "permFIFO_save_tabledisk sys now f =
     res_bind (need (table_disk f)) (\<lambda>t.
       if n_items t = 0 then Inr (0, f\<lparr>lastFlush := now\<rparr>)
       else res_bind (vec_get (items t) (last_index t)) (\<lambda>x.
            let f1 = f\<lparr>lastIdOnDisk := fi_id x\<rparr>
            in case fifo_file f of
                 None \<Rightarrow> Inr (-1, f1)
               | Some file \<Rightarrow>
                   res_bind (ct_save sys file t) (\<lambda>(r, file', t').
                     let f2 = f1\<lparr>fifo_file := Some file', table_disk := Some t'\<rparr>
                     in if r \<noteq> 0 then Inr (-1, f2) else Inr (0, f2\<lparr>ackOnDisk := True, lastFlush := now\<rparr>))))"

text \<open>The loop of \<^verbatim>\<open>permFIFO_read\<close> over the disk table, from index \<open>i\<close> on; \<open>nextid\<close> is an \<^verbatim>\<open>unsigned int\<close>.\<close>

definition uint32 :: "nat \<Rightarrow> nat" where "uint32 n = n mod 2 ^ 32"

fun disk_scan ::
  "nat \<Rightarrow> int \<Rightarrow> circular_table \<Rightarrow> nat \<Rightarrow> nat \<Rightarrow> FIFO_item \<Rightarrow> permFIFO \<Rightarrow> (nat \<times> FIFO_item \<times> permFIFO) res"
where
  "disk_scan 0 i t nextid k item f = Inr (k, item, f)"
| "disk_scan (Suc m) i t nextid k item f =
     (let j = (if index_first t + i \<ge> ct_size t then index_first t + i - ct_size t else index_first t + i)
      in res_bind (vec_get (items t) j) (\<lambda>x.
           if fi_id x < nextid then disk_scan m (i + 1) t nextid k item f
           else if fi_id x \<noteq> nextid then Inr (k, item, f)
           else if k = 0
           then disk_scan m (i + 1) t (uint32 (nextid + 1)) (k + 1) x (f\<lparr>nextIdInClientTable := fi_id x + 1\<rparr>)
           else res_bind (client_write x f) (\<lambda>(r, f').
                if r \<noteq> 0 then Inr (k, item, f')
                else disk_scan m (i + 1) t (uint32 (nextid + 1)) (k + 1) item (f'\<lparr>nextIdInClientTable := fi_id x + 1\<rparr>))))"

text \<open>The part of \<^verbatim>\<open>permFIFO_read\<close> that fetches items from the file.\<close>

definition load_client :: "FIFO_item \<Rightarrow> permFIFO \<Rightarrow> (int \<times> FIFO_item \<times> permFIFO) res option" where
  "load_client item f =
     (case (fifo_file f, table_client f) of
        (Some file, Some t) \<Rightarrow>
          (case ct_load file (lastOutOffset f) (lastIdOut f + 1) t of
             None \<Rightarrow> None
           | Some (Inl e) \<Rightarrow> Some (Inl e)
           | Some (Inr (r, pos, t')) \<Rightarrow>
               let f1 = f\<lparr>table_client := Some t'\<rparr>;
                   f2 = (if r = 0 then f1\<lparr>lastOutOffset := pos\<rparr> else f1)
               in Some (if n_items t' > 0
                        then res_bind (vec_get (items t') (last_index t')) (\<lambda>x.
                               client_read item (f2\<lparr>nextIdInClientTable := fi_id x + 1\<rparr>))
                        else client_read item f2))
      | _ \<Rightarrow> Some (Inl DeadObject))"

text \<open>From the moment where something is in the FIFO.\<close>

definition read_item :: "permFIFO \<Rightarrow> (int \<times> FIFO_item \<times> permFIFO) res option" where
  "read_item f =
     (let finish = (\<lambda>(r, x, f'). if r = 0 then (r, x, f'\<lparr>lastIdOut := fi_id x\<rparr>) else (r, x, f'))
      in case client_read EMPTY_FIFO_ITEM f of
           Inl e \<Rightarrow> Some (Inl e)
         | Inr (r, x, f1) \<Rightarrow>
             if r = 0 then Some (Inr (finish (0, x, f1)))
             else (case table_disk f1 of
                     None \<Rightarrow> Some (Inr (1, x, f1))
                   | Some t \<Rightarrow>
                       (case disk_scan (nat (n_items t)) 0 t (uint32 (lastIdOut f1 + 1)) 0 x f1 of
                          Inl e \<Rightarrow> Some (Inl e)
                        | Inr (k, y, f2) \<Rightarrow>
                            if k \<noteq> 0 then Some (Inr (finish (0, y, f2)))
                            else map_option (\<lambda>m. res_bind m (\<lambda>v. Inr (finish v))) (load_client y f2))))"

definition permFIFO_read ::
  "(permFIFO \<Rightarrow> bool \<times> permFIFO) \<Rightarrow> int \<Rightarrow> permFIFO \<Rightarrow> (int \<times> FIFO_item \<times> permFIFO) res option"
where
  "permFIFO_read wait timeout f =
     (if lastIdOut f < currentId f then read_item f
      else if timeout = 0 then Some (Inr (1, EMPTY_FIFO_ITEM, f))
      else let (timedOut, f') = wait f
           in if timeout > 0 \<and> timedOut then Some (Inr (1, EMPTY_FIFO_ITEM, f'))
              else if lastIdOut f' < currentId f' then read_item f'
              else Some (Inr (1, EMPTY_FIFO_ITEM, f')))"

text \<open>The bytes of an item: the caller's buffer of the given size, or a copy of the zero-terminated string.\<close>

definition item_bytes :: "u8 list \<Rightarrow> int \<Rightarrow> u8 list" where
  "item_bytes data n = (if n = 0 then takeWhile (\<lambda>b. b \<noteq> 0) data @ [0] else take (nat n) data)"

text \<open>The write into the disk table, with the table saved and a second attempt when it is full. An item that cannot be kept there is taken
  off the client table again, if it has been put there (\<open>do_copy\<close>).\<close>

definition disk_write :: "(file_call \<Rightarrow> bool) \<Rightarrow> int \<Rightarrow> FIFO_item \<Rightarrow> bool \<Rightarrow> permFIFO \<Rightarrow> (int \<times> permFIFO) res" where
  "disk_write sys now item do_copy f =
     res_bind (need (table_disk f)) (\<lambda>t.
     res_bind (ct_write item t) (\<lambda>(r, t').
       if r = 0 then Inr (0, f\<lparr>table_disk := Some t'\<rparr>)
       else res_bind (permFIFO_save_tabledisk sys now (f\<lparr>table_disk := Some t'\<rparr>)) (\<lambda>(_, f1).
            res_bind (need (table_disk f1)) (\<lambda>u.
            res_bind (ct_write item u) (\<lambda>(retcode, u').
              let f2 = f1\<lparr>table_disk := Some u'\<rparr>
              in if retcode \<noteq> 0 \<and> do_copy
                 then res_bind (need (table_client f2)) (\<lambda>c.
                        Inr (retcode, f2\<lparr>table_client := Some (c\<lparr>n_items := n_items c - 1\<rparr>)\<rparr>))
                 else Inr (retcode, f2))))))"

definition permFIFO_write ::
  "(file_call \<Rightarrow> bool) \<Rightarrow> int \<Rightarrow> u8 list option \<Rightarrow> int \<Rightarrow> permFIFO \<Rightarrow> (int \<times> permFIFO) res"
where
  "permFIFO_write sys now data n f =
     (case data of
        None \<Rightarrow> Inr (-1, f)
      | Some bytes \<Rightarrow>
          if n < 0 then Inr (-1, f)
          else let d = item_bytes bytes n; f1 = f\<lparr>currentId := currentId f + 1\<rparr>;
                   item = \<lparr>fi_size = length d, fi_data = Some d, fi_id = currentId f1\<rparr>
               in if table_disk f1 = None then client_write item f1
                  else if fi_id item = nextIdInClientTable f1
                  then res_bind (client_write item f1) (\<lambda>(r, f2).
                         if r \<noteq> 0
                         then res_bind (permFIFO_save_tabledisk sys now (f2\<lparr>nextIdInClientTable := 0\<rparr>)) (\<lambda>(_, f3).
                                disk_write sys now item False f3)
                         else disk_write sys now item True (f2\<lparr>nextIdInClientTable := nextIdInClientTable f2 + 1\<rparr>))
                  else disk_write sys now item False f1)"

fun ack_items :: "nat \<Rightarrow> nat \<Rightarrow> circular_table \<Rightarrow> circular_table res" where
  "ack_items 0 idn t = Inr t"
| "ack_items (Suc k) idn t =
     res_bind (vec_get (items t) (index_first t)) (\<lambda>x.
       if fi_id x > idn then Inr t
       else res_bind (vec_set (items t) (index_first t) EMPTY_FIFO_ITEM) (\<lambda>xs.
            let i = index_first t + 1
            in ack_items k idn (t\<lparr>items := xs, n_items := n_items t - 1,
                                 index_first := (if i \<ge> ct_size t then i - ct_size t else i)\<rparr>)))"

definition permFIFO_ack :: "(file_call \<Rightarrow> bool) \<Rightarrow> nat \<Rightarrow> permFIFO \<Rightarrow> (int \<times> permFIFO) res" where
  "permFIFO_ack sys idn f =
     (case table_disk f of
        None \<Rightarrow> Inr (-1, f)
      | Some t \<Rightarrow>
          res_bind (ack_items (nat (n_items t)) idn t) (\<lambda>t'.
            let f1 = f\<lparr>table_disk := Some t'\<rparr>
            in if \<not> ackOnDisk f1 then Inr (0, f1)
               else res_bind (need (fifo_file f1)) (\<lambda>file.
                 let f2 = (if lastIdOnDisk f1 \<le> idn
                           then (if sys Truncate
                                 then f1\<lparr>fifo_file := Some (take header_size file), lastOutOffset := header_size, ackOnDisk := False\<rparr>
                                 else f1\<lparr>ackOnDisk := False\<rparr>)
                           else f1);
                     hm = \<lparr>mh_tag = FIFO_FILE_TAG, lastAckId = idn, mh_currentId = lastIdOnDisk f2\<rparr>
                 in if \<not> sys AckSeek then Inr (1, f2)
                    else if \<not> sys AckWrite then Inr (2, f2)
                    else Inr (0, f2\<lparr>fifo_file := map_option (lseek_write (main_bytes hm)) (fifo_file f2)\<rparr>))))"

definition permFIFO_flush :: "(file_call \<Rightarrow> bool) \<Rightarrow> int \<Rightarrow> int \<Rightarrow> permFIFO \<Rightarrow> (int \<times> permFIFO) res" where
  "permFIFO_flush sys now timeout f =
     (if now \<ge> lastFlush f + timeout then permFIFO_save_tabledisk sys now f else Inr (0, f))"

end
