(* ===== verification/Perm_Fifo_File.thy ===== *)
theory Perm_Fifo_File
  imports Perm_Fifo
begin

text \<open>
  Opening and closing of the permanent FIFO (src/InfoLogger/src/permanentFIFO.c, \<^verbatim>\<open>permFIFO_file_clean\<close>, \<^verbatim>\<open>permFIFO_new\<close>, \<^verbatim>\<open>permFIFO_destroy\<close>). The three files \<^verbatim>\<open>.fifo\<close>,
  \<^verbatim>\<open>.fifo.old\<close> and \<^verbatim>\<open>.fifo.new\<close> are the fields of a record, \<open>None\<close> for a file that does not exist. The code has an error number for each of its system calls:
  \<open>sys c n\<close> says whether the \<open>n\<close>-th execution of the call with number \<open>c\<close> succeeds. The loops go over the bytes of a file that may
  be damaged, so they are partial functions; a result \<open>Inl c\<close> is a return with error number \<open>c\<close>.
\<close>

record fifo_fs =
  f_current :: "u8 list option"
  f_old :: "u8 list option"
  f_new :: "u8 list option"

partial_function (option) scan_last_id :: "u8 list \<Rightarrow> nat \<Rightarrow> nat \<Rightarrow> (int + nat) option" where
  "scan_last_id file pos cur =
     (let hb = file_read file pos header_size; pos1 = pos + length hb; hs = sub_of_bytes hb
      in if hb = [] then Some (Inr cur)
         else if length hb \<noteq> header_size then Some (Inl 31)
         else if sh_tag hs \<noteq> FIFO_FILE_TAG then Some (Inl 32)
         else case lseek_cur pos1 (sh_size hs) of
                None \<Rightarrow> Some (Inl 34)
              | Some pos2 \<Rightarrow> scan_last_id file pos2 (sh_id hs))"

partial_function (option) skip_acked :: "u8 list \<Rightarrow> nat \<Rightarrow> nat \<Rightarrow> (int + nat) option" where
  "skip_acked file ack pos =
     (let hb = file_read file pos header_size; pos1 = pos + length hb; hs = sub_of_bytes hb
      in if hb = [] then Some (Inr pos1)
         else if length hb \<noteq> header_size then Some (Inl 50)
         else if sh_tag hs \<noteq> FIFO_FILE_TAG then Some (Inl 51)
         else if sh_id hs > ack then Some (Inr pos)
         else case lseek_cur pos1 (sh_size hs) of
                None \<Rightarrow> Some (Inl 53)
              | Some pos2 \<Rightarrow> skip_acked file ack pos2)"

partial_function (option) copy_records ::
  "(int \<Rightarrow> nat \<Rightarrow> bool) \<Rightarrow> u8 list \<Rightarrow> nat \<Rightarrow> nat \<Rightarrow> u8 list \<Rightarrow> (int \<times> nat \<times> u8 list) option"
where
  "copy_records sys file pos cur out =
     (let hb = file_read file pos header_size; pos1 = pos + length hb; hs = sub_of_bytes hb;
          d = file_read file pos1 (sh_size hs); hb' = sub_bytes (hs\<lparr>sh_id := cur + 1\<rparr>)
      in if hb = [] then Some (0, cur, out)
         else if length hb \<noteq> header_size then Some (10, cur, out)
         else if sh_tag hs \<noteq> FIFO_FILE_TAG then Some (11, cur, out)
         else if length d \<noteq> sh_size hs then Some (12, cur, out)
         else if \<not> sys 13 cur then Some (13, cur + 1, out)
         else if \<not> sys 14 cur then Some (14, cur + 1, out @ hb')
         else copy_records sys file (pos1 + length d) (cur + 1) (out @ hb' @ d))"

declare scan_last_id.simps [code] skip_acked.simps [code] copy_records.simps [code]

text \<open>The branch for a file without acknowledged data.\<close>

definition clean_unacked :: "(int \<Rightarrow> nat \<Rightarrow> bool) \<Rightarrow> FIFO_file_main_header \<Rightarrow> u8 list \<Rightarrow> fifo_fs \<Rightarrow> (int \<times> fifo_fs) option" where
  "clean_unacked sys hm file fs =
     map_option (\<lambda>r. case r of
         Inl c \<Rightarrow> (c, fs)
       | Inr cur \<Rightarrow>
           if cur = 0 then (0, fs)
           else if \<not> sys 35 0 then (35, fs)
           else if \<not> sys 36 0 then (36, fs)
           else (0, fs\<lparr>f_current := Some (lseek_write (main_bytes (hm\<lparr>mh_currentId := cur\<rparr>)) file)\<rparr>))
       (scan_last_id file header_size 0)"

text \<open>The end of the cleaning: the header of the copy, and the exchange of the files.\<close>

definition clean_finish :: "(int \<Rightarrow> nat \<Rightarrow> bool) \<Rightarrow> nat \<Rightarrow> u8 list \<Rightarrow> fifo_fs \<Rightarrow> int \<times> fifo_fs" where
  "clean_finish sys cur out fs =
     (let out' = (if cur \<noteq> 0 then lseek_write (main_bytes (FIFOFILE_DEFAULT_MAIN_HEADER\<lparr>mh_currentId := cur\<rparr>)) out else out);
          fs1 = fs\<lparr>f_new := Some out\<rparr>; fs2 = fs\<lparr>f_new := Some out'\<rparr>;
          fs3 = fs2\<lparr>f_old := f_current fs2, f_current := None\<rparr>;
          fs4 = fs3\<lparr>f_current := f_new fs3, f_new := None\<rparr>
      in if cur \<noteq> 0 \<and> \<not> sys 41 0 then (41, fs1)
         else if cur \<noteq> 0 \<and> \<not> sys 42 0 then (42, fs1)
         else if \<not> sys 15 0 then (15, fs2)
         else if \<not> sys 16 0 then (16, fs3)
         else if \<not> sys 17 0 then (17, fs4)
         else (0, fs4\<lparr>f_old := None\<rparr>))"

definition clean_acked :: "(int \<Rightarrow> nat \<Rightarrow> bool) \<Rightarrow> FIFO_file_main_header \<Rightarrow> u8 list \<Rightarrow> fifo_fs \<Rightarrow> (int \<times> fifo_fs) option" where
  "clean_acked sys hm file fs =
     (case skip_acked file (lastAckId hm) header_size of
        None \<Rightarrow> None
      | Some (Inl c) \<Rightarrow> Some (c, fs)
      | Some (Inr pos) \<Rightarrow>
          if \<not> sys 7 0 then Some (7, fs)
          else if \<not> sys 8 0 then Some (8, fs\<lparr>f_new := Some []\<rparr>)
          else map_option (\<lambda>(c, cur, out). if c \<noteq> 0 then (c, fs\<lparr>f_new := Some out\<rparr>) else clean_finish sys cur out fs)
                 (copy_records sys file pos 0 (main_bytes FIFOFILE_DEFAULT_MAIN_HEADER)))"

definition clean_existing :: "(int \<Rightarrow> nat \<Rightarrow> bool) \<Rightarrow> u8 list \<Rightarrow> fifo_fs \<Rightarrow> (int \<times> fifo_fs) option" where
  "clean_existing sys file fs =
     (if \<not> sys 4 0 then Some (4, fs)
      else let fs1 = fs\<lparr>f_old := None, f_new := None\<rparr>; hb = file_read file 0 header_size; hm = main_of_bytes hb
           in if length hb \<noteq> header_size then Some (5, fs1)
              else if mh_tag hm \<noteq> FIFO_FILE_TAG then Some (6, fs1)
              else if lastAckId hm = 0 then clean_unacked sys hm file fs1
              else clean_acked sys hm file fs1)"

definition permFIFO_file_clean :: "(int \<Rightarrow> nat \<Rightarrow> bool) \<Rightarrow> fifo_fs \<Rightarrow> (int \<times> fifo_fs) option" where
  "permFIFO_file_clean sys fs =
     (case f_current fs of
        Some file \<Rightarrow> clean_existing sys file fs
      | None \<Rightarrow>
          (case f_old fs of
             None \<Rightarrow>
               if \<not> sys 1 0 then Some (1, fs)
               else if \<not> sys 2 0 then Some (2, fs\<lparr>f_current := Some []\<rparr>)
               else Some (0, fs\<lparr>f_current := Some (main_bytes FIFOFILE_DEFAULT_MAIN_HEADER)\<rparr>)
           | Some file \<Rightarrow>
               if \<not> sys 3 0 then Some (3, fs)
               else clean_existing sys file (fs\<lparr>f_current := Some file, f_old := None\<rparr>)))"

text \<open>A FIFO is made on the files of a path, or without a path only in memory. The file of an open FIFO is the field \<open>fifo_file\<close>.\<close>

definition permFIFO_empty :: "int \<Rightarrow> int \<Rightarrow> u8 list option \<Rightarrow> permFIFO" where
  "permFIFO_empty now n file =
     \<lparr>table_client = ct_new n, table_disk = (if file = None then None else ct_new n), fifo_file = file, currentId = 0, lastIdOut = 0,
      lastOutOffset = header_size, nextIdInClientTable = 1, lastIdOnDisk = 0, ackOnDisk = False, lastFlush = now\<rparr>"

definition permFIFO_new :: "(int \<Rightarrow> nat \<Rightarrow> bool) \<Rightarrow> bool \<Rightarrow> int \<Rightarrow> int \<Rightarrow> fifo_fs option \<Rightarrow> (permFIFO option \<times> fifo_fs option) option" where
  "permFIFO_new sys openOk now n path =
     (case path of
        None \<Rightarrow> Some (Some (permFIFO_empty now n None), None)
      | Some fs \<Rightarrow>
          map_option (\<lambda>(err, fs').
            if err \<noteq> 0 \<or> \<not> openOk then (None, Some fs')
            else case f_current fs' of
                   None \<Rightarrow> (None, Some fs')
                 | Some file \<Rightarrow>
                     let hb = file_read file 0 header_size; hm = main_of_bytes hb; f = permFIFO_empty now n (Some file)
                     in if length hb \<noteq> header_size \<or> mh_tag hm \<noteq> FIFO_FILE_TAG then (None, Some fs')
                        else (Some (f\<lparr>currentId := mh_currentId hm, lastIdOnDisk := mh_currentId hm,
                                      ackOnDisk := (mh_currentId hm \<noteq> 0)\<rparr>), Some fs'))
            (permFIFO_file_clean sys fs))"

text \<open>What is left on the disk after the destructor.\<close>

definition permFIFO_destroy :: "(file_call \<Rightarrow> bool) \<Rightarrow> int \<Rightarrow> permFIFO \<Rightarrow> (int \<times> u8 list option) res" where
  "permFIFO_destroy sys now f =
     (if fifo_file f = None then Inr (0, None)
      else res_bind (permFIFO_save_tabledisk sys now f) (\<lambda>(_, f'). Inr (0, fifo_file f')))"

end
