(* ===== verification/Perm_Fifo_Loops.thy ===== *)
theory Perm_Fifo_Loops
  imports Perm_Fifo_File
begin

text \<open>
  What the loops of the permanent FIFO do on a well-formed file: a main header followed by records, each a header and its data.
\<close>

section \<open>Bytes\<close>

lemma length_le_bytes [simp]: "length (le_bytes n v) = n"
  by (induction n arbitrary: v) auto

lemma le_value_bytes: "le_value (le_bytes n v) = v mod 256 ^ n"
proof (induction n arbitrary: v)
  case (Suc n)
  have "unat (of_nat (v mod 256) :: u8) = v mod 256" by (rule unat_of_nat_small) simp
  then show ?case using Suc.IH[of "v div 256"] by (simp add: mod_mult2_eq)
qed simp

lemma length_header_bytes [simp]: "length (sub_bytes h) = header_size" "length (main_bytes m) = header_size"
  by (simp_all add: sub_bytes_def main_bytes_def header_size_def)

lemma header_size_pos [simp]: "0 < header_size" by (simp add: header_size_def)

lemma sub_bytes_ne [simp]: "sub_bytes h \<noteq> []"
  by (metis header_size_pos length_0_conv length_header_bytes(1) less_irrefl)

lemma sub_round_trip:
  assumes "sh_tag h < 2 ^ 32" "sh_size h < 2 ^ 64" "sh_id h < 2 ^ 64"
  shows "sub_of_bytes (sub_bytes h) = h"
  using assms by (simp add: sub_of_bytes_def sub_bytes_def le_value_bytes)

lemma main_round_trip:
  assumes "mh_tag h < 2 ^ 32" "lastAckId h < 2 ^ 64" "mh_currentId h < 2 ^ 64"
  shows "main_of_bytes (main_bytes h) = h"
  using assms by (simp add: main_of_bytes_def main_bytes_def le_value_bytes)


section \<open>Records\<close>

definition record_bytes :: "entry \<Rightarrow> u8 list" where
  "record_bytes e = sub_bytes \<lparr>sh_tag = FIFO_FILE_TAG, sh_size = length (snd e), sh_id = fst e\<rparr> @ snd e"

definition records_bytes :: "entry list \<Rightarrow> u8 list" where
  "records_bytes es = concat (map record_bytes es)"

definition ids_fit :: "entry list \<Rightarrow> bool" where
  "ids_fit es \<longleftrightarrow> (\<forall>e \<in> set es. fst e < 2 ^ 64)"

lemma records_bytes_simps [simp]:
  "records_bytes [] = []" "records_bytes (e # es) = record_bytes e @ records_bytes es"
  "records_bytes (es @ fs) = records_bytes es @ records_bytes fs"
  by (simp_all add: records_bytes_def)

lemma ids_fit_simps [simp]:
  "ids_fit []" "ids_fit (e # es) \<longleftrightarrow> fst e < 2 ^ 64 \<and> ids_fit es" "ids_fit (es @ fs) \<longleftrightarrow> ids_fit es \<and> ids_fit fs"
  by (auto simp: ids_fit_def)

lemma length_record_bytes [simp]: "length (record_bytes e) = header_size + length (snd e)"
  by (simp add: record_bytes_def)

text \<open>Reading at the beginning of a record, and at the end of the file.\<close>

lemma read_record:
  assumes eq: "file = pre @ record_bytes e @ rest" and fit: "fst e < 2 ^ 64" "length file < 2 ^ 63"
  shows "file_read file (length pre) header_size = sub_bytes \<lparr>sh_tag = FIFO_FILE_TAG, sh_size = length (snd e), sh_id = fst e\<rparr>"
    and "sub_of_bytes (file_read file (length pre) header_size) = \<lparr>sh_tag = FIFO_FILE_TAG, sh_size = length (snd e), sh_id = fst e\<rparr>"
    and "file_read file (length pre + header_size) (length (snd e)) = snd e"
    and "lseek_cur (length pre + header_size) (length (snd e)) = Some (length (pre @ record_bytes e))"
proof -
  show h: "file_read file (length pre) header_size = sub_bytes \<lparr>sh_tag = FIFO_FILE_TAG, sh_size = length (snd e), sh_id = fst e\<rparr>"
    by (simp add: eq file_read_def record_bytes_def)
  show "sub_of_bytes (file_read file (length pre) header_size) = \<lparr>sh_tag = FIFO_FILE_TAG, sh_size = length (snd e), sh_id = fst e\<rparr>"
    unfolding h using fit by (intro sub_round_trip) (simp_all add: FIFO_FILE_TAG_def eq)
  show "file_read file (length pre + header_size) (length (snd e)) = snd e"
    by (simp add: eq file_read_def record_bytes_def)
  show "lseek_cur (length pre + header_size) (length (snd e)) = Some (length (pre @ record_bytes e))"
    using fit(2) by (simp add: eq lseek_cur_def Let_def nat_add_distrib add.assoc flip: of_nat_add)
qed

lemma read_end: "file_read file (length file) n = []"
  by (simp add: file_read_def)

lemma scan_last_id_records:
  assumes "ids_fit es" "length (pre @ records_bytes es) < 2 ^ 63"
  shows "scan_last_id (pre @ records_bytes es) (length pre) cur = Some (Inr (if es = [] then cur else fst (last es)))"
  using assms
proof (induction es arbitrary: pre cur)
  case Nil
  then show ?case by (subst scan_last_id.simps) (simp add: file_read_def)
next
  case (Cons e es)
  note r = read_record[of "pre @ record_bytes e @ records_bytes es" pre e "records_bytes es"]
  have "scan_last_id ((pre @ record_bytes e) @ records_bytes es) (length (pre @ record_bytes e)) (fst e)
      = Some (Inr (if es = [] then fst e else fst (last es)))"
    using Cons.prems by (intro Cons.IH) simp_all
  then show ?case using Cons.prems r by (subst scan_last_id.simps) (simp add: Let_def)
qed

lemma skip_acked_records:
  assumes "ids_fit es" "length (pre @ records_bytes es) < 2 ^ 63"
  shows "skip_acked (pre @ records_bytes es) ack (length pre)
    = Some (Inr (length (pre @ records_bytes (takeWhile (\<lambda>e. fst e \<le> ack) es))))"
  using assms
proof (induction es arbitrary: pre)
  case Nil
  then show ?case by (subst skip_acked.simps) (simp add: file_read_def)
next
  case (Cons e es)
  note r = read_record[of "pre @ record_bytes e @ records_bytes es" pre e "records_bytes es"]
  have "skip_acked ((pre @ record_bytes e) @ records_bytes es) ack (length (pre @ record_bytes e))
      = Some (Inr (length ((pre @ record_bytes e) @ records_bytes (takeWhile (\<lambda>e. fst e \<le> ack) es))))"
    using Cons.prems by (intro Cons.IH) simp_all
  then show ?case using Cons.prems r by (subst skip_acked.simps) (simp add: Let_def)
qed

fun renumber :: "nat \<Rightarrow> entry list \<Rightarrow> entry list" where
  "renumber cur [] = []"
| "renumber cur (e # es) = (cur + 1, snd e) # renumber (cur + 1) es"

definition calls_succeed :: "(int \<Rightarrow> nat \<Rightarrow> bool) \<Rightarrow> bool" where
  "calls_succeed sys \<longleftrightarrow> (\<forall>c n. sys c n)"

lemma calls_succeedD: "calls_succeed sys \<Longrightarrow> sys c n"
  by (simp add: calls_succeed_def)

lemma copy_records_all:
  assumes "ids_fit es" "length (pre @ records_bytes es) < 2 ^ 63"
  shows "\<exists>c cur' out'. copy_records sys (pre @ records_bytes es) (length pre) cur out = Some (c, cur', out')
    \<and> (c = 0 \<longrightarrow> cur' = cur + length es \<and> out' = out @ records_bytes (renumber cur es))
    \<and> (calls_succeed sys \<longrightarrow> c = 0)"
  using assms
proof (induction es arbitrary: pre cur out)
  case Nil
  then show ?case by (subst copy_records.simps) (simp add: file_read_def)
next
  case (Cons e es)
  note r = read_record[of "pre @ record_bytes e @ records_bytes es" pre e "records_bytes es"]
  let ?h = "sub_bytes \<lparr>sh_tag = FIFO_FILE_TAG, sh_size = length (snd e), sh_id = cur + 1\<rparr>"
  have "\<exists>c cur' out'. copy_records sys ((pre @ record_bytes e) @ records_bytes es) (length (pre @ record_bytes e)) (cur + 1) (out @ ?h @ snd e)
      = Some (c, cur', out')
    \<and> (c = 0 \<longrightarrow> cur' = (cur + 1) + length es \<and> out' = (out @ ?h @ snd e) @ records_bytes (renumber (cur + 1) es))
    \<and> (calls_succeed sys \<longrightarrow> c = 0)"
    using Cons.prems by (intro Cons.IH) simp_all
  moreover have "record_bytes (cur + 1, snd e) = ?h @ snd e" by (simp add: record_bytes_def)
  ultimately show ?case using Cons.prems r
    by (subst copy_records.simps) (auto simp: Let_def add.assoc dest: calls_succeedD)
qed


section \<open>Tables and files\<close>

lemma save_items_all:
  assumes "ct_inv t" "\<forall>e \<in> set (ct_contents t). snd e \<noteq> []"
  shows "\<exists>t'. save_items (length (ct_contents t)) file t = Inr (file @ records_bytes (ct_contents t), t')
    \<and> ct_inv t' \<and> ct_contents t' = [] \<and> ct_capacity t' = ct_capacity t"
  using assms
proof (induction "ct_contents t" arbitrary: t "file")
  case Nil
  then show ?case by auto
next
  case (Cons e es)
  obtain t' where t': "ct_read EMPTY_FIFO_ITEM t = Inr (0, entry_item e, t')" "ct_inv t'" "ct_contents t' = es"
      "ct_capacity t' = ct_capacity t"
    using ct_read_item[OF Cons.prems(1) Cons.hyps(2)[symmetric]] by blast
  have ne: "snd e \<noteq> []" using Cons.prems(2) Cons.hyps(2)[symmetric] by simp
  have "\<exists>t''. save_items (length (ct_contents t')) (file @ record_bytes e) t'
      = Inr ((file @ record_bytes e) @ records_bytes (ct_contents t'), t'') \<and> ct_inv t'' \<and> ct_contents t'' = []
      \<and> ct_capacity t'' = ct_capacity t'"
    using Cons.hyps(1)[of t' "file @ record_bytes e"] t' Cons.prems(2) Cons.hyps(2)[symmetric] by simp
  then show ?case unfolding Cons.hyps(2)[symmetric] using t' ne by (auto simp: record_bytes_def)
qed

text \<open>\<open>to_load idn es\<close> are the records that \<^verbatim>\<open>ct_load\<close> does not skip.\<close>

definition to_load :: "nat \<Rightarrow> entry list \<Rightarrow> entry list" where
  "to_load idn es = filter (\<lambda>e. \<not> (idn \<noteq> 0 \<and> fst e < idn)) es"

lemma ct_load_records:
  assumes "ids_fit es" "length (pre @ records_bytes es) < 2 ^ 63" "ct_inv t"
  shows "\<exists>r pos t'. ct_load (pre @ records_bytes es) (length pre) idn t = Some (Inr (r, pos, t'))
    \<and> ct_inv t' \<and> ct_capacity t' = ct_capacity t
    \<and> ct_contents t' = ct_contents t @ take (ct_capacity t - length (ct_contents t)) (to_load idn es)
    \<and> (r = 0 \<longrightarrow> pos = length (pre @ records_bytes es) \<and> length (to_load idn es) < ct_capacity t - length (ct_contents t))"
  using assms
proof (induction es arbitrary: pre t)
  case Nil
  show ?case
  proof (cases "n_items t = ct_size t")
    case True
    then show ?thesis using Nil.prems by (subst ct_load.simps) (simp add: to_load_def)
  next
    case False
    then have "length (ct_contents t) < ct_capacity t" using ct_shape[OF Nil.prems(3)] by (simp add: ct_capacity_def)
    then show ?thesis using Nil.prems False by (subst ct_load.simps) (simp add: file_read_def to_load_def)
  qed
next
  case (Cons e es)
  show ?case
  proof (cases "n_items t = ct_size t")
    case True
    then have "ct_capacity t = length (ct_contents t)" using ct_shape[OF Cons.prems(3)] by (simp add: ct_capacity_def)
    then show ?thesis using Cons.prems True by (subst ct_load.simps) simp
  next
    case False
    then have space: "length (ct_contents t) < ct_capacity t" using ct_shape[OF Cons.prems(3)] by (simp add: ct_capacity_def)
    note r = read_record[of "pre @ record_bytes e @ records_bytes es" pre e "records_bytes es"]
    show ?thesis
    proof (cases "idn \<noteq> 0 \<and> fst e < idn")
      case True
      then have "ct_load (pre @ records_bytes (e # es)) (length pre) idn t
          = ct_load ((pre @ record_bytes e) @ records_bytes es) (length (pre @ record_bytes e)) idn t"
        using Cons.prems False r by (subst ct_load.simps) (simp add: Let_def)
      moreover have "to_load idn (e # es) = to_load idn es" using True by (simp add: to_load_def)
      ultimately show ?thesis using Cons.IH[of "pre @ record_bytes e" t] Cons.prems by simp
    next
      case skip: False
      obtain t' where t': "ct_write (entry_item e) t = Inr (0, t')" "ct_inv t'" "ct_contents t' = ct_contents t @ [e]"
          "ct_capacity t' = ct_capacity t"
        using ct_write_space[OF Cons.prems(3) space] by blast
      have "ct_load (pre @ records_bytes (e # es)) (length pre) idn t
          = ct_load ((pre @ record_bytes e) @ records_bytes es) (length (pre @ record_bytes e)) idn t'"
        using Cons.prems False skip r t'(1) by (cases "idn = 0"; subst ct_load.simps) (simp_all add: Let_def add.assoc entry_item_def)
      moreover have "to_load idn (e # es) = e # to_load idn es" using skip by (simp add: to_load_def)
      moreover obtain k where "ct_capacity t - length (ct_contents t) = Suc k" "ct_capacity t - length (ct_contents t') = k"
        using space t'(3) by (metis Suc_diff_Suc diff_Suc_Suc length_append_singleton)
      ultimately show ?thesis using Cons.IH[of "pre @ record_bytes e" t'] Cons.prems t' by simp
    qed
  qed
qed

end
