(* ===== verification/Perm_Fifo_Invariant.thy ===== *)
theory Perm_Fifo_Invariant
  imports Perm_Fifo_Loops
begin

text \<open>
  The invariant of the permanent FIFO on a file. The items of a session, those found in the file when it was opened and those
  written since, form a list \<open>gq\<close>; the item at position \<open>p\<close> has the identifier \<open>gB + p + 1\<close>. Of them \<open>gr\<close> have been read and \<open>gm\<close> acknowledged, the client table holds the
  next \<open>gn\<close>, the file those from \<open>ga\<close> up to \<open>gL\<close>, of which the reader has passed the ones below \<open>gc\<close>, and the disk table the rest.
\<close>

section \<open>Segments\<close>

definition seg :: "nat \<Rightarrow> u8 list list \<Rightarrow> nat \<Rightarrow> nat \<Rightarrow> entry list" where
  "seg B q x y = map (\<lambda>p. (B + p + 1, q ! p)) [x..<y]"

lemma length_seg [simp]: "length (seg B q x y) = y - x"
  by (simp add: seg_def)

lemma seg_nil [simp]: "y \<le> x \<Longrightarrow> seg B q x y = []"
  by (simp add: seg_def)

lemma seg_empty_iff: "seg B q x y = [] \<longleftrightarrow> y \<le> x"
  by (auto simp: seg_def)

lemma seg_Cons: "x < y \<Longrightarrow> seg B q x y = (B + x + 1, q ! x) # seg B q (x + 1) y"
  by (simp add: seg_def upt_conv_Cons)

lemma seg_append:
  assumes "x \<le> y" "y \<le> z"
  shows "seg B q x y @ seg B q y z = seg B q x z"
proof -
  obtain k where "z = y + k" using assms(2) by (metis le_add_diff_inverse)
  then show ?thesis using upt_add_eq_append[OF assms(1), of k] by (simp add: seg_def)
qed

lemma seg_snoc: "x \<le> length q \<Longrightarrow> seg B (q @ [d]) x (Suc (length q)) = seg B q x (length q) @ [(B + length q + 1, d)]"
  by (simp add: seg_def nth_append)

lemma seg_grow: "y \<le> length q \<Longrightarrow> seg B (q @ [d]) x y = seg B q x y"
  by (simp add: seg_def nth_append)

lemma seg_last: "x < y \<Longrightarrow> last (seg B q x y) = (B + y, q ! (y - 1))"
  by (simp add: seg_def last_map)

lemma seg_take: "take n (seg B q x y) = seg B q x (min y (x + n))"
  by (simp add: seg_def take_map min_def)

lemma seg_nth: "p < y - x \<Longrightarrow> seg B q x y ! p = (B + (x + p) + 1, q ! (x + p))"
  by (simp add: seg_def)

lemma filter_upt_ge: "filter (\<lambda>p. k \<le> p) [x..<y] = [max x k..<y]"
proof (induction y)
  case (Suc y)
  then show ?case by (cases "x \<le> y"; cases "k \<le> y"; cases "k \<le> x") (simp_all add: max_def)
qed simp

lemma seg_from: "filter (\<lambda>e. idn \<le> fst e) (seg B q x y) = seg B q (max x (idn - (B + 1))) y"
proof -
  have "filter (\<lambda>e. idn \<le> fst e) (seg B q x y) = map (\<lambda>p. (B + p + 1, q ! p)) (filter (\<lambda>p. idn - (B + 1) \<le> p) [x..<y])"
    unfolding seg_def filter_map by (intro arg_cong[where f = "map _"] filter_cong) auto
  then show ?thesis by (simp only: filter_upt_ge seg_def)
qed

lemma seg_to_load: "to_load (Suc k) (seg B q x y) = seg B q (max x (k - B)) y"
proof -
  have "to_load (Suc k) es = filter (\<lambda>e. Suc k \<le> fst e) es" for es
    by (simp add: to_load_def not_less)
  then show ?thesis by (simp add: seg_from)
qed

lemma seg_takeWhile: "takeWhile (\<lambda>e. fst e \<le> k) (seg B q x y) = seg B q x (min y (max x (k - B)))"
proof (induction "y - x" arbitrary: x)
  case (Suc n)
  then have xy: "x < y" by simp
  show ?case
  proof (cases "B + x + 1 \<le> k")
    case True
    then have "takeWhile (\<lambda>e. fst e \<le> k) (seg B q x y) = (B + x + 1, q ! x) # seg B q (x + 1) (min y (max (x + 1) (k - B)))"
      using Suc.hyps(1)[of "x + 1"] Suc.hyps(2) xy by (simp add: seg_Cons)
    also have "\<dots> = seg B q x (min y (max x (k - B)))" using True xy by (subst (2) seg_Cons) (auto simp: max_def)
    finally show ?thesis .
  next
    case False
    then show ?thesis using xy by (simp add: seg_Cons)
  qed
qed simp

lemma seg_fit: "B + y < 2 ^ 64 \<Longrightarrow> ids_fit (seg B q x y)"
  by (auto simp: seg_def ids_fit_def)

definition queue_bytes :: "u8 list list \<Rightarrow> nat" where
  "queue_bytes q = sum_list (map (\<lambda>d. header_size + length d) q)"

lemma seg_bytes:
  assumes "y \<le> length q"
  shows "length (records_bytes (seg B q x y)) \<le> queue_bytes q"
proof -
  have "map (\<lambda>p. header_size + length (q ! p)) [0..<length q] = map (\<lambda>d. header_size + length d) q"
    by (rule nth_equalityI) simp_all
  then have all: "length (records_bytes (seg B q 0 (length q))) = queue_bytes q"
    by (simp add: seg_def records_bytes_def queue_bytes_def length_concat comp_def)
  show ?thesis
  proof (cases "x \<le> y")
    case True
    then have "seg B q 0 (length q) = seg B q 0 x @ seg B q x y @ seg B q y (length q)" using assms by (simp add: seg_append)
    then have "queue_bytes q = length (records_bytes (seg B q 0 x)) + (length (records_bytes (seg B q x y))
        + length (records_bytes (seg B q y (length q))))"
      using all by simp
    then show ?thesis by linarith
  qed simp
qed


section \<open>The invariant\<close>

record ghost =
  gB :: nat
  gq :: "u8 list list"
  gr :: nat
  gm :: nat
  gn :: nat
  ga :: nat
  gL :: nat
  gc :: nat
  gK :: nat
  gh :: FIFO_file_main_header

abbreviation gN :: "ghost \<Rightarrow> nat" where "gN g \<equiv> length (gq g)"
abbreviation gseg :: "ghost \<Rightarrow> nat \<Rightarrow> nat \<Rightarrow> entry list" where "gseg g \<equiv> seg (gB g) (gq g)"

definition client_ok :: "ghost \<Rightarrow> permFIFO \<Rightarrow> bool" where
  "client_ok g f \<longleftrightarrow>
     (\<exists>t. table_client f = Some t \<and> ct_inv t \<and> ct_capacity t = gK g \<and> ct_contents t = gseg g (gr g) (gr g + gn g))
     \<and> gr g + gn g \<le> gN g \<and> lastIdOut f = (if gr g = 0 then 0 else gB g + gr g)
     \<and> nextIdInClientTable f \<le> gB g + gN g + 1 \<and> (nextIdInClientTable f = gB g + gN g + 1 \<longrightarrow> gr g + gn g = gN g)"

definition disk_places :: "ghost \<Rightarrow> bool" where
  "disk_places g \<longleftrightarrow> ga g \<le> gc g \<and> gc g \<le> gL g \<and> gL g \<le> gN g \<and> gc g \<le> gr g + gn g \<and> gm g \<le> gr g \<and> gr g \<le> gN g
     \<and> (gL g < gm g \<longrightarrow> ga g = gL g) \<and> (gB g = 0 \<or> 0 < gr g \<or> (ga g = 0 \<and> 0 < gL g \<and> gn g = 0))"

definition header_ok :: "ghost \<Rightarrow> bool" where
  "header_ok g \<longleftrightarrow> min (max (ga g) (lastAckId (gh g) - gB g)) (gL g) = min (gm g) (gL g) \<and> lastAckId (gh g) \<le> gB g + gm g
     \<and> mh_tag (gh g) = FIFO_FILE_TAG \<and> mh_currentId (gh g) < 2 ^ 64
     \<and> (lastAckId (gh g) = 0 \<and> mh_currentId (gh g) \<noteq> 0 \<longrightarrow> ga g = 0 \<and> 0 < gL g)"

definition disk_ok :: "ghost \<Rightarrow> permFIFO \<Rightarrow> bool" where
  "disk_ok g f \<longleftrightarrow>
     (\<exists>t. table_disk f = Some t \<and> ct_inv t \<and> ct_capacity t = gK g \<and> ct_contents t = gseg g (max (gL g) (gm g)) (gN g))
     \<and> fifo_file f = Some (main_bytes (gh g) @ records_bytes (gseg g (ga g) (gL g)))
     \<and> lastOutOffset f = header_size + length (records_bytes (gseg g (ga g) (gc g)))
     \<and> lastIdOnDisk f = gB g + gL g \<and> (\<not> ackOnDisk f \<longrightarrow> gL g \<le> gm g \<and> ga g = gL g) \<and> disk_places g \<and> header_ok g"

definition ghost_bounds :: "ghost \<Rightarrow> bool" where
  "ghost_bounds g \<longleftrightarrow> 0 < gK g \<and> (\<forall>d \<in> set (gq g). d \<noteq> []) \<and> gB g + gN g < 2 ^ 32 - 1
     \<and> header_size + queue_bytes (gq g) < 2 ^ 63"

definition perm_inv :: "ghost \<Rightarrow> permFIFO \<Rightarrow> bool" where
  "perm_inv g f \<longleftrightarrow> client_ok g f \<and> disk_ok g f \<and> ghost_bounds g \<and> currentId f = gB g + gN g"


section \<open>Saving and writing\<close>

definition saved :: "ghost \<Rightarrow> ghost" where
  "saved g =
     (if max (gL g) (gm g) = gN g then g
      else if gL g < gm g then g\<lparr>ga := gm g, gc := gm g, gL := gN g\<rparr>
      else g\<lparr>gL := gN g\<rparr>)"

lemma saved_same [simp]:
  "gB (saved g) = gB g" "gq (saved g) = gq g" "gr (saved g) = gr g" "gm (saved g) = gm g" "gn (saved g) = gn g" "gK (saved g) = gK g"
  "gh (saved g) = gh g"
  by (simp_all add: saved_def)

lemma save_table:
  assumes "table_disk f = Some t" "ct_inv t" "\<forall>e \<in> set (ct_contents t). snd e \<noteq> []" "fifo_file f = Some file'" "sys SaveSeek"
  shows "\<exists>t'. permFIFO_save_tabledisk sys now f
      = Inr (0, f\<lparr>lastIdOnDisk := (if ct_contents t = [] then lastIdOnDisk f else fst (last (ct_contents t))), table_disk := Some t',
                  fifo_file := Some (file' @ records_bytes (ct_contents t)), ackOnDisk := (ackOnDisk f \<or> ct_contents t \<noteq> []), lastFlush := now\<rparr>)
    \<and> ct_inv t' \<and> ct_contents t' = [] \<and> ct_capacity t' = ct_capacity t"
proof (cases "ct_contents t = []")
  case True
  then have "n_items t = 0" using ct_shape[OF assms(2)] by simp
  then show ?thesis using assms True by (auto simp: permFIFO_save_tabledisk_def need_def intro!: exI[of _ t])
next
  case False
  note sh = ct_shape[OF assms(2)]
  have n: "nat (n_items t) = length (ct_contents t)" "n_items t \<noteq> 0" using sh(4) False by simp_all
  have "vec_get (items t) (last_index t) = Inr (entry_item (last (ct_contents t)))" using assms(2) False by (rule ct_last)
  moreover obtain t' where "save_items (length (ct_contents t)) file' t = Inr (file' @ records_bytes (ct_contents t), t')"
      "ct_inv t'" "ct_contents t' = []" "ct_capacity t' = ct_capacity t"
    using save_items_all[OF assms(2,3), of file'] by blast
  ultimately show ?thesis using assms False n
    by (intro exI[of _ t']) (simp add: permFIFO_save_tabledisk_def need_def ct_save_def Let_def)
qed

lemma gseg_data:
  assumes "ghost_bounds g" "y \<le> gN g"
  shows "\<forall>e \<in> set (gseg g x y). snd e \<noteq> []"
  using assms by (auto simp: seg_def ghost_bounds_def)

lemma saved_places:
  assumes "disk_places g"
  shows "disk_places (saved g)" "max (gL (saved g)) (gm g) = gN g"
  using assms by (auto simp: saved_def disk_places_def max_def)

lemma saved_header:
  assumes pl: "disk_places g" and hd: "header_ok g"
  shows "header_ok (saved g)"
proof -
  let ?la = "lastAckId (gh g) - gB g"
  have p: "ga g \<le> gL g" "gL g \<le> gN g" "gm g \<le> gN g" "gL g < gm g \<Longrightarrow> ga g = gL g" using pl by (auto simp: disk_places_def)
  have h: "min (max (ga g) ?la) (gL g) = min (gm g) (gL g)" "?la \<le> gm g"
      "lastAckId (gh g) = 0 \<and> mh_currentId (gh g) \<noteq> 0 \<Longrightarrow> ga g = 0 \<and> 0 < gL g"
    using hd by (auto simp: header_ok_def)
  consider (nothing) "max (gL g) (gm g) = gN g" | (gap) "max (gL g) (gm g) \<noteq> gN g" "gL g < gm g"
    | (more) "max (gL g) (gm g) \<noteq> gN g" "gm g \<le> gL g" by linarith
  then show ?thesis
  proof cases
    case nothing
    then show ?thesis using hd by (simp add: saved_def)
  next
    case gap
    then have "saved g = g\<lparr>ga := gm g, gc := gm g, gL := gN g\<rparr>" by (simp add: saved_def)
    moreover have "lastAckId (gh g) = 0 \<Longrightarrow> mh_currentId (gh g) = 0" using h(3) p(4)[OF gap(2)] by linarith
    ultimately show ?thesis using hd h(2) by (auto simp: header_ok_def max_absorb1)
  next
    case more
    then have e: "saved g = g\<lparr>gL := gN g\<rparr>" by (simp add: saved_def)
    have "max (ga g) ?la = gm g" using h(1,2) p(1) more(2) by linarith
    then show ?thesis unfolding e using hd h(3) p(2) by (auto simp: header_ok_def)
  qed
qed

lemma saved_file:
  assumes "disk_places g"
  shows "records_bytes (gseg g (ga g) (gL g)) @ records_bytes (gseg g (max (gL g) (gm g)) (gN g))
      = records_bytes (gseg g (ga (saved g)) (gL (saved g)))"
    and "records_bytes (gseg g (ga (saved g)) (gc (saved g))) = records_bytes (gseg g (ga g) (gc g))"
proof -
  have p: "ga g \<le> gc g" "gc g \<le> gL g" "gL g \<le> gN g" "gm g \<le> gN g" "gL g < gm g \<Longrightarrow> ga g = gL g"
    using assms by (auto simp: disk_places_def)
  show "records_bytes (gseg g (ga g) (gL g)) @ records_bytes (gseg g (max (gL g) (gm g)) (gN g))
      = records_bytes (gseg g (ga (saved g)) (gL (saved g)))"
  proof (cases "gL g < gm g")
    case True
    then show ?thesis using p by (auto simp: saved_def max_def)
  next
    case False
    then have "records_bytes (gseg g (ga g) (gL g)) @ records_bytes (gseg g (gL g) (gN g)) = records_bytes (gseg g (ga g) (gN g))"
      using p seg_append[of "ga g" "gL g" "gN g" "gB g" "gq g"] by (metis le_trans records_bytes_simps(3))
    then show ?thesis using False by (auto simp: saved_def max_def)
  qed
  show "records_bytes (gseg g (ga (saved g)) (gc (saved g))) = records_bytes (gseg g (ga g) (gc g))"
    using p by (auto simp: saved_def)
qed

text \<open>What saving and writing leave alone.\<close>

definition same_client :: "permFIFO \<Rightarrow> permFIFO \<Rightarrow> bool" where
  "same_client f f' \<longleftrightarrow> table_client f' = table_client f \<and> currentId f' = currentId f \<and> lastIdOut f' = lastIdOut f
     \<and> nextIdInClientTable f' = nextIdInClientTable f"

lemma save_ok:
  assumes d: "disk_ok g f" and b: "ghost_bounds g" and sys: "sys SaveSeek"
  shows "\<exists>f'. permFIFO_save_tabledisk sys now f = Inr (0, f') \<and> disk_ok (saved g) f' \<and> same_client f f'"
proof -
  obtain t where t: "table_disk f = Some t" "ct_inv t" "ct_capacity t = gK g" "ct_contents t = gseg g (max (gL g) (gm g)) (gN g)"
    using d by (auto simp: disk_ok_def)
  have f: "fifo_file f = Some (main_bytes (gh g) @ records_bytes (gseg g (ga g) (gL g)))" and pl: "disk_places g"
    and hd: "header_ok g" and L: "lastIdOnDisk f = gB g + gL g" and ak: "\<not> ackOnDisk f \<Longrightarrow> gL g \<le> gm g \<and> ga g = gL g"
    and off: "lastOutOffset f = header_size + length (records_bytes (gseg g (ga g) (gc g)))"
    using d by (auto simp: disk_ok_def)
  have ne: "\<forall>e \<in> set (ct_contents t). snd e \<noteq> []" unfolding t(4) using b by (rule gseg_data) simp
  let ?f = "\<lambda>t'. f\<lparr>lastIdOnDisk := (if ct_contents t = [] then lastIdOnDisk f else fst (last (ct_contents t))), table_disk := Some t',
      fifo_file := Some ((main_bytes (gh g) @ records_bytes (gseg g (ga g) (gL g))) @ records_bytes (ct_contents t)),
      ackOnDisk := (ackOnDisk f \<or> ct_contents t \<noteq> []), lastFlush := now\<rparr>"
  obtain t' where t': "permFIFO_save_tabledisk sys now f = Inr (0, ?f t')" "ct_inv t'" "ct_contents t' = []" "ct_capacity t' = ct_capacity t"
    using save_table[OF t(1,2) ne f, of sys now] sys by blast
  have e: "ct_contents t = [] \<longleftrightarrow> max (gL g) (gm g) = gN g"
    using pl unfolding t(4) by (auto simp: disk_places_def seg_def)
  have l: "(if ct_contents t = [] then lastIdOnDisk f else fst (last (ct_contents t))) = gB g + gL (saved g)"
  proof (cases "ct_contents t = []")
    case True
    then show ?thesis using e L by (simp add: saved_def)
  next
    case False
    then have "max (gL g) (gm g) < gN g" using e pl by (auto simp: disk_places_def)
    then show ?thesis using False e unfolding t(4) by (simp add: seg_last saved_def)
  qed
  have a: "\<not> (ackOnDisk f \<or> ct_contents t \<noteq> []) \<longrightarrow> gL (saved g) \<le> gm g \<and> ga (saved g) = gL (saved g)" using ak e by (auto simp: saved_def)
  have "disk_ok (saved g) (?f t')"
    unfolding disk_ok_def using t t' f l a pl hd off saved_places[OF pl] saved_file[OF pl] saved_header[OF pl hd]
    by (auto simp flip: t(4))
  then show ?thesis using t'(1) by (auto simp: same_client_def)
qed

lemma disk_ok_more:
  assumes "disk_ok g f" "gn g \<le> n'" "gB g = 0 \<or> 0 < gr g"
  shows "disk_ok (g\<lparr>gn := n'\<rparr>) f"
  using assms by (auto simp: disk_ok_def disk_places_def header_ok_def)

lemma disk_append:
  assumes d: "disk_ok g f" and t: "table_disk f = Some t"
    and t': "ct_inv t'" "ct_contents t' = ct_contents t @ [(gB g + gN g + 1, x)]" "ct_capacity t' = ct_capacity t"
  shows "disk_ok (g\<lparr>gq := gq g @ [x]\<rparr>) (f\<lparr>table_disk := Some t'\<rparr>)"
proof -
  have pl: "gc g \<le> gL g" "gL g \<le> gN g" "gm g \<le> gN g" using d by (auto simp: disk_ok_def disk_places_def)
  have "ct_contents t' = seg (gB g) (gq g @ [x]) (max (gL g) (gm g)) (Suc (gN g))"
    using t'(2) d t pl by (simp add: disk_ok_def seg_snoc)
  moreover have "disk_places (g\<lparr>gq := gq g @ [x]\<rparr>)" "header_ok (g\<lparr>gq := gq g @ [x]\<rparr>)"
    using d by (auto simp: disk_ok_def disk_places_def header_ok_def)
  ultimately show ?thesis using d t t' pl by (auto simp: disk_ok_def seg_grow)
qed

lemma disk_write_ok:
  assumes d: "disk_ok g f" and b: "ghost_bounds g" and sys: "sys SaveSeek"
  shows "\<exists>f' g'. disk_write sys now (entry_item (gB g + gN g + 1, x)) dc f = Inr (0, f') \<and> same_client f f'
    \<and> g' \<in> {g, saved g} \<and> disk_ok (g'\<lparr>gq := gq g @ [x]\<rparr>) f'"
proof -
  obtain t where t: "table_disk f = Some t" "ct_inv t" "ct_capacity t = gK g" using d by (auto simp: disk_ok_def)
  show ?thesis
  proof (cases "length (ct_contents t) < ct_capacity t")
    case True
    from ct_write_space[OF t(2) True, of "(gB g + gN g + 1, x)"] obtain t'
      where t': "ct_write (entry_item (gB g + gN g + 1, x)) t = Inr (0, t')" "ct_inv t'"
        "ct_contents t' = ct_contents t @ [(gB g + gN g + 1, x)]" "ct_capacity t' = ct_capacity t" by blast
    then have "disk_write sys now (entry_item (gB g + gN g + 1, x)) dc f = Inr (0, f\<lparr>table_disk := Some t'\<rparr>)"
      using t by (simp add: disk_write_def need_def)
    then show ?thesis using disk_append[OF d t(1) t'(2,3,4)] by (auto simp: same_client_def)
  next
    case False
    then have "length (ct_contents t) = ct_capacity t" using ct_shape(5)[OF t(2)] by simp
    then have full: "ct_write (entry_item (gB g + gN g + 1, x)) t = Inr (-1, t)" using t(2) by (intro ct_write_full)
    obtain f1 where f1: "permFIFO_save_tabledisk sys now f = Inr (0, f1)" "disk_ok (saved g) f1" "same_client f f1"
      using save_ok[OF d b, of sys now] sys by blast
    obtain u where u: "table_disk f1 = Some u" "ct_inv u" "ct_capacity u = gK g"
        "ct_contents u = gseg g (max (gL (saved g)) (gm g)) (gN g)"
      using f1(2) by (auto simp: disk_ok_def)
    have "ct_contents u = []" using u(4) saved_places(2) d by (auto simp: disk_ok_def)
    then have "length (ct_contents u) < ct_capacity u" using u(3) b by (simp add: ghost_bounds_def)
    from ct_write_space[OF u(2) this, of "(gB g + gN g + 1, x)"] obtain u'
      where u': "ct_write (entry_item (gB g + gN g + 1, x)) u = Inr (0, u')" "ct_inv u'"
        "ct_contents u' = ct_contents u @ [(gB g + gN g + 1, x)]" "ct_capacity u' = ct_capacity u" by blast
    have same: "f\<lparr>table_disk := Some t\<rparr> = f" using t(1) by simp
    have "permFIFO_save_tabledisk sys now (f\<lparr>table_disk := Some t\<rparr>) = Inr (0, f1)" unfolding same by (rule f1(1))
    then have "disk_write sys now (entry_item (gB g + gN g + 1, x)) dc f = Inr (0, f1\<lparr>table_disk := Some u'\<rparr>)"
      using t(1) full u(1) u'(1) by (simp add: disk_write_def need_def)
    moreover have "disk_ok (saved g\<lparr>gq := gq g @ [x]\<rparr>) (f1\<lparr>table_disk := Some u'\<rparr>)"
      using disk_append[OF f1(2) u(1) u'(2) _ u'(4)] u'(3) by simp
    ultimately show ?thesis using f1(3) by (intro exI[of _ "f1\<lparr>table_disk := Some u'\<rparr>"] exI[of _ "saved g"]) (simp add: same_client_def)
  qed
qed

lemma client_ok_cong:
  assumes "client_ok g f" "same_client f f'" "gB g' = gB g" "gq g' = gq g" "gr g' = gr g" "gn g' = gn g" "gK g' = gK g"
  shows "client_ok g' f'"
  using assms by (auto simp: client_ok_def same_client_def)

lemma written_inv:
  assumes "client_ok (g'\<lparr>gq := q'\<rparr>) f'" "disk_ok (g'\<lparr>gq := q'\<rparr>) f'" "ghost_bounds (g\<lparr>gq := q'\<rparr>)" "currentId f' = gB g + length q'"
    "gB g' = gB g" "gK g' = gK g"
  shows "perm_inv (g'\<lparr>gq := q'\<rparr>) f'"
  using assms by (simp add: perm_inv_def ghost_bounds_def)

text \<open>An item is written.\<close>

lemma write_ok:
  assumes inv: "perm_inv g f" and sys: "sys SaveSeek" and n: "0 \<le> n" and x: "item_bytes bytes n = x"
    and b': "ghost_bounds (g\<lparr>gq := gq g @ [x]\<rparr>)"
  shows "\<exists>f' g'. permFIFO_write sys now (Some bytes) n f = Inr (0, f') \<and> perm_inv g' f'
    \<and> gB g' = gB g \<and> gq g' = gq g @ [x] \<and> gr g' = gr g \<and> gm g' = gm g \<and> gK g' = gK g"
proof -
  let ?e = "(gB g + gN g + 1, x)" and ?f = "f\<lparr>currentId := currentId f + 1\<rparr>"
  have cl: "client_ok g f" and d: "disk_ok g f" and b: "ghost_bounds g" and cur: "currentId f = gB g + gN g"
    using inv by (auto simp: perm_inv_def)
  obtain td where td: "table_disk f = Some td" using d by (auto simp: disk_ok_def)
  obtain t where t: "table_client f = Some t" "ct_inv t" "ct_capacity t = gK g" "ct_contents t = gseg g (gr g) (gr g + gn g)"
    using cl by (auto simp: client_ok_def)
  have d1: "disk_ok g ?f" using d by (simp add: disk_ok_def)
  have le: "gr g + gn g \<le> gN g" using cl by (simp add: client_ok_def)
  show ?thesis
  proof (cases "nextIdInClientTable f = gB g + gN g + 1")
    case False
    obtain f' g' where f': "disk_write sys now (entry_item ?e) False ?f = Inr (0, f')" "same_client ?f f'" "g' \<in> {g, saved g}"
        "disk_ok (g'\<lparr>gq := gq g @ [x]\<rparr>) f'"
      using disk_write_ok[OF d1 b, of sys now x False] sys by auto
    have "permFIFO_write sys now (Some bytes) n f = Inr (0, f')"
      using n x td cur False f'(1) by (simp add: permFIFO_write_def Let_def entry_item_def)
    moreover have "client_ok (g'\<lparr>gq := gq g @ [x]\<rparr>) f'"
      using cl False f'(2,3) le by (auto simp: client_ok_def same_client_def seg_grow)
    moreover have "gB g' = gB g" "gK g' = gK g" "gr g' = gr g" "gm g' = gm g" using f'(3) by auto
    moreover have "currentId f' = gB g + length (gq g @ [x])" using f'(2) cur by (simp add: same_client_def)
    ultimately show ?thesis using written_inv[OF _ f'(4) b'] by (intro exI[of _ f'] exI[of _ "g'\<lparr>gq := gq g @ [x]\<rparr>"]) simp
  next
    case nx: True
    then have all: "gr g + gn g = gN g" using cl by (simp add: client_ok_def)
    then have start: "gB g = 0 \<or> 0 < gr g" using d by (auto simp: disk_ok_def disk_places_def)
    show ?thesis
    proof (cases "length (ct_contents t) < ct_capacity t")
      case True
      from ct_write_space[OF t(2) True, of ?e] obtain t'
        where t': "ct_write (entry_item ?e) t = Inr (0, t')" "ct_inv t'" "ct_contents t' = ct_contents t @ [?e]" "ct_capacity t' = ct_capacity t"
        by blast
      let ?f2 = "?f\<lparr>table_client := Some t', nextIdInClientTable := nextIdInClientTable f + 1\<rparr>" and ?g = "g\<lparr>gn := gn g + 1\<rparr>"
      have "disk_ok ?g ?f2" using disk_ok_more[OF d _ start, of "gn g + 1"] by (simp add: disk_ok_def)
      moreover have "ghost_bounds ?g" using b by (simp add: ghost_bounds_def)
      ultimately obtain f' g' where f': "disk_write sys now (entry_item ?e) True ?f2 = Inr (0, f')" "same_client ?f2 f'" "g' \<in> {?g, saved ?g}"
          "disk_ok (g'\<lparr>gq := gq g @ [x]\<rparr>) f'"
        using disk_write_ok[of ?g ?f2 sys now x True] sys by auto
      have w: "permFIFO_write sys now (Some bytes) n f = Inr (0, f')"
        using n x td cur nx f'(1) t(1) t'(1) by (simp add: permFIFO_write_def Let_def client_write_def entry_item_def)
      have "ct_contents t' = seg (gB g) (gq g @ [x]) (gr g) (Suc (gN g))"
        using t'(3) t(4) all le by (simp add: seg_snoc)
      moreover have "gB g' = gB g" "gr g' = gr g" "gn g' = gn g + 1" "gK g' = gK g" using f'(3) by auto
      moreover have "table_client f' = Some t'" "nextIdInClientTable f' = gB g + gN g + 2" "lastIdOut f' = lastIdOut f"
        using f'(2) nx by (simp_all add: same_client_def)
      moreover have "lastIdOut f = (if gr g = 0 then 0 else gB g + gr g)" using cl by (simp add: client_ok_def)
      ultimately have "client_ok (g'\<lparr>gq := gq g @ [x]\<rparr>) f'"
        using all t'(2,4) t(3) unfolding client_ok_def by simp
      moreover have "gB g' = gB g" "gK g' = gK g" "gr g' = gr g" "gm g' = gm g" using f'(3) by auto
      moreover have "currentId f' = gB g + length (gq g @ [x])" using f'(2) cur by (simp add: same_client_def)
      ultimately show ?thesis using w written_inv[OF _ f'(4) b'] by (intro exI[of _ f'] exI[of _ "g'\<lparr>gq := gq g @ [x]\<rparr>"]) simp
    next
      case False
      then have "length (ct_contents t) = ct_capacity t" using ct_shape(5)[OF t(2)] by simp
      then have full: "ct_write (entry_item ?e) t = Inr (-1, t)" using t(2) by (intro ct_write_full)
      let ?f2 = "?f\<lparr>table_client := Some t, nextIdInClientTable := 0\<rparr>"
      have "disk_ok g ?f2" using d by (simp add: disk_ok_def)
      then obtain f3 where f3: "permFIFO_save_tabledisk sys now ?f2 = Inr (0, f3)" "disk_ok (saved g) f3" "same_client ?f2 f3"
        using save_ok[OF _ b, of ?f2 sys now] sys by blast
      have "ghost_bounds (saved g)" using b by (simp add: ghost_bounds_def)
      then obtain f' g' where f': "disk_write sys now (entry_item ?e) False f3 = Inr (0, f')" "same_client f3 f'" "g' \<in> {saved g, saved (saved g)}"
          "disk_ok (g'\<lparr>gq := gq g @ [x]\<rparr>) f'"
        using disk_write_ok[OF f3(2), of sys now x False] sys by auto
      have "permFIFO_write sys now (Some bytes) n f = Inr (0, f')"
        using n x td cur nx f'(1) f3(1) t(1) full by (simp add: permFIFO_write_def Let_def client_write_def entry_item_def)
      moreover have "client_ok (g'\<lparr>gq := gq g @ [x]\<rparr>) f'"
        using cl f'(2,3) f3(3) le t by (auto simp: client_ok_def same_client_def seg_grow)
      moreover have "gB g' = gB g" "gK g' = gK g" "gr g' = gr g" "gm g' = gm g" using f'(3) by auto
      moreover have "currentId f' = gB g + length (gq g @ [x])" using f'(2) f3(3) cur by (simp add: same_client_def)
      ultimately show ?thesis using written_inv[OF _ f'(4) b'] by (intro exI[of _ f'] exI[of _ "g'\<lparr>gq := gq g @ [x]\<rparr>"]) simp
    qed
  qed
qed

end
