(* ===== verification/Perm_Fifo_Ops.thy ===== *)
theory Perm_Fifo_Ops
  imports Perm_Fifo_Invariant
begin

text \<open>
  Acknowledging, flushing and reading keep the invariant of the permanent FIFO, and a read delivers the next item.
\<close>

section \<open>Acknowledging and flushing\<close>

lemma ct_read_parts:
  assumes "ct_read x t = Inr (0, y, t')"
  shows "\<exists>xs. vec_get (items t) (index_first t) = Inr y \<and> vec_set (items t) (index_first t) EMPTY_FIFO_ITEM = Inr xs
    \<and> t' = t\<lparr>items := xs, n_items := n_items t - 1,
            index_first := (if index_first t + 1 \<ge> ct_size t then index_first t + 1 - ct_size t else index_first t + 1)\<rparr>"
  using assms by (auto simp: ct_read_def Let_def split: if_splits)

lemma ack_items_all:
  assumes "ct_inv t"
  shows "\<exists>t'. ack_items (length (ct_contents t)) idn t = Inr t' \<and> ct_inv t' \<and> ct_capacity t' = ct_capacity t
    \<and> ct_contents t' = dropWhile (\<lambda>e. fst e \<le> idn) (ct_contents t)"
  using assms
proof (induction "ct_contents t" arbitrary: t)
  case Nil
  then show ?case by auto
next
  case (Cons e es)
  obtain t' where t': "ct_read EMPTY_FIFO_ITEM t = Inr (0, entry_item e, t')" "ct_inv t'" "ct_contents t' = es" "ct_capacity t' = ct_capacity t"
    using ct_read_item[OF Cons.prems Cons.hyps(2)[symmetric]] by blast
  note p = ct_read_parts[OF t'(1)]
  show ?case
  proof (cases "fst e \<le> idn")
    case True
    then have "ack_items (Suc (length es)) idn t = ack_items (length es) idn t'" using p by (auto simp: Let_def)
    then show ?thesis using Cons.hyps(1)[of t'] t' True unfolding Cons.hyps(2)[symmetric] by auto
  next
    case False
    then have a: "ack_items (Suc (length es)) idn t = Inr t" using p by auto
    have dw: "dropWhile (\<lambda>e. fst e \<le> idn) (ct_contents t) = ct_contents t" unfolding Cons.hyps(2)[symmetric] using False by simp
    have l: "length (ct_contents t) = Suc (length es)" by (simp flip: Cons.hyps(2))
    show ?thesis unfolding dw l a using Cons.prems by simp
  qed
qed

lemma seg_dropWhile: "dropWhile (\<lambda>e. fst e \<le> k) (seg B q x y) = seg B q (max x (k - B)) y"
proof (induction "y - x" arbitrary: x)
  case (Suc n)
  then have xy: "x < y" by simp
  show ?case
  proof (cases "B + x + 1 \<le> k")
    case True
    then show ?thesis using Suc.hyps(1)[of "x + 1"] Suc.hyps(2) xy by (simp add: seg_Cons max_def)
  next
    case False
    then have "k - B \<le> x" by linarith
    then have "max x (k - B) = x" by simp
    then show ?thesis using xy False by (simp add: seg_Cons)
  qed
qed simp

lemma ack_ok:
  assumes inv: "perm_inv g f" and sys: "\<forall>c. sys c" and j: "gm g \<le> j" "j < gr g"
  shows "\<exists>f' g'. permFIFO_ack sys (gB g + j + 1) f = Inr (0, f') \<and> perm_inv g' f'
    \<and> gB g' = gB g \<and> gq g' = gq g \<and> gr g' = gr g \<and> gm g' = j + 1 \<and> gK g' = gK g"
proof -
  let ?i = "gB g + j + 1" and ?m = "j + 1"
  let ?hm = "\<lparr>mh_tag = FIFO_FILE_TAG, lastAckId = ?i, mh_currentId = gB g + gL g\<rparr>"
  have cl: "client_ok g f" and d: "disk_ok g f" and b: "ghost_bounds g" and cur: "currentId f = gB g + gN g"
    using inv by (auto simp: perm_inv_def)
  obtain t where t: "table_disk f = Some t" "ct_inv t" "ct_capacity t = gK g" "ct_contents t = gseg g (max (gL g) (gm g)) (gN g)"
    using d by (auto simp: disk_ok_def)
  obtain t' where t': "ack_items (nat (n_items t)) ?i t = Inr t'" "ct_inv t'" "ct_capacity t' = gK g"
      "ct_contents t' = gseg g (max (gL g) ?m) (gN g)"
    using ack_items_all[OF t(2), of ?i] ct_shape(4)[OF t(2)] t(3) j(1) unfolding t(4) seg_dropWhile
    by (auto simp: max_def split: if_splits)
  let ?f = "f\<lparr>table_disk := Some t'\<rparr>"
  have pl: "disk_places g" and hd: "header_ok g" and L: "lastIdOnDisk f = gB g + gL g"
    and fl: "fifo_file f = Some (main_bytes (gh g) @ records_bytes (gseg g (ga g) (gL g)))"
    using d by (auto simp: disk_ok_def)
  have mhm: "mh_currentId ?hm < 2 ^ 64" using pl b by (auto simp: disk_places_def ghost_bounds_def)
  consider (mem) "\<not> ackOnDisk f" | (all) "ackOnDisk f" "gL g \<le> ?m" | (some) "ackOnDisk f" "?m < gL g" by linarith
  then show ?thesis
  proof cases
    case mem
    then have "gL g \<le> gm g" "ga g = gL g" using d by (auto simp: disk_ok_def)
    then have "header_ok (g\<lparr>gm := ?m\<rparr>)" "disk_places (g\<lparr>gm := ?m\<rparr>)"
      using pl hd j by (auto simp: disk_places_def header_ok_def)
    then have "disk_ok (g\<lparr>gm := ?m\<rparr>) ?f" using d t' mem j by (auto simp: disk_ok_def)
    moreover have "permFIFO_ack sys ?i f = Inr (0, ?f)" using t(1) t'(1) mem by (simp add: permFIFO_ack_def Let_def)
    ultimately show ?thesis using cl b cur
      by (intro exI[of _ ?f] exI[of _ "g\<lparr>gm := ?m\<rparr>"]) (simp add: perm_inv_def client_ok_def ghost_bounds_def)
  next
    case all
    let ?g = "g\<lparr>gm := ?m, ga := gL g, gc := gL g, gh := ?hm\<rparr>"
    let ?f2 = "?f\<lparr>fifo_file := Some (main_bytes ?hm), lastOutOffset := header_size, ackOnDisk := False\<rparr>"
    have "take header_size (main_bytes (gh g) @ records_bytes (gseg g (ga g) (gL g))) = main_bytes (gh g)" by simp
    then have "permFIFO_ack sys ?i f = Inr (0, ?f2)"
      using t(1) t'(1) all fl L sys by (simp add: permFIFO_ack_def Let_def need_def lseek_write_def)
    moreover have "disk_places ?g" using pl j all by (auto simp: disk_places_def)
    moreover have "header_ok ?g" using mhm all by (auto simp: header_ok_def)
    ultimately show ?thesis using d t' L all cl b cur
      by (intro exI[of _ ?f2] exI[of _ ?g]) (simp add: perm_inv_def client_ok_def ghost_bounds_def disk_ok_def)
  next
    case some
    let ?g = "g\<lparr>gm := ?m, gh := ?hm\<rparr>"
    let ?f2 = "?f\<lparr>fifo_file := Some (main_bytes ?hm @ records_bytes (gseg g (ga g) (gL g)))\<rparr>"
    have "permFIFO_ack sys ?i f = Inr (0, ?f2)"
      using t(1) t'(1) some fl L sys by (simp add: permFIFO_ack_def Let_def need_def lseek_write_def)
    moreover have "disk_places ?g" using pl j some by (auto simp: disk_places_def)
    moreover have "ga g \<le> gm g" using hd some j by (auto simp: header_ok_def min_def max_def split: if_splits)
    then have "header_ok ?g" using mhm some j by (auto simp: header_ok_def)
    ultimately show ?thesis using d t' L some cl b cur
      by (intro exI[of _ ?f2] exI[of _ ?g]) (simp add: perm_inv_def client_ok_def ghost_bounds_def disk_ok_def)
  qed
qed

lemma save_inv:
  assumes inv: "perm_inv g f" and sys: "sys SaveSeek"
  shows "\<exists>f'. permFIFO_save_tabledisk sys now f = Inr (0, f') \<and> perm_inv (saved g) f'"
proof -
  have cl: "client_ok g f" and d: "disk_ok g f" and b: "ghost_bounds g" and cur: "currentId f = gB g + gN g"
    using inv by (auto simp: perm_inv_def)
  obtain f' where f': "permFIFO_save_tabledisk sys now f = Inr (0, f')" "disk_ok (saved g) f'" "same_client f f'"
    using save_ok[OF d b, of sys now] sys by blast
  then show ?thesis using client_ok_cong[OF cl f'(3), of "saved g"] b cur
    by (auto simp: perm_inv_def ghost_bounds_def same_client_def)
qed

lemma flush_ok:
  assumes "perm_inv g f" "sys SaveSeek"
  shows "\<exists>f' g'. permFIFO_flush sys now timeout f = Inr (0, f') \<and> perm_inv g' f' \<and> g' \<in> {g, saved g}"
  using save_inv[OF assms(1), of sys now] assms by (auto simp: permFIFO_flush_def)



section \<open>Reading\<close>

text \<open>The scan of the disk table passes the items below \<open>nextid\<close>, and copies the rest when the first of them has that identifier.\<close>

lemma disk_scan_skip:
  assumes inv: "ct_inv t" and "drop i (ct_contents t) = xs @ ys" "\<forall>e \<in> set xs. fst e < nextid"
  shows "disk_scan (length (xs @ ys)) (int i) t nextid k item f = disk_scan (length ys) (int (i + length xs)) t nextid k item f"
  using assms(2,3)
proof (induction xs arbitrary: i)
  case (Cons e xs)
  have i: "i < length (ct_contents t)" using Cons.prems(1) by (metis append_Cons drop_eq_Nil list.discI not_le)
  then have "ct_contents t ! i = e" and "drop (Suc i) (ct_contents t) = xs @ ys"
    using Cons.prems(1) by (simp_all add: Cons_nth_drop_Suc[symmetric])
  then show ?case using ct_nth[OF inv i] Cons.prems(2) Cons.IH[of "Suc i"] by (simp add: Let_def add.commute)
qed simp

lemma disk_scan_copy:
  assumes inv: "ct_inv t" and "drop i (ct_contents t) = ys" "\<forall>p < length ys. fst (ys ! p) = nextid + p"
    and "nextid + length ys < 2 ^ 32" "k \<noteq> 0" "table_client f = Some c" "ct_inv c"
    and "length (ct_contents c) + length ys \<le> ct_capacity c"
  shows "\<exists>c'. disk_scan (length ys) (int i) t nextid k item f = Inr (k + length ys, item,
      f\<lparr>table_client := Some c', nextIdInClientTable := (if ys = [] then nextIdInClientTable f else nextid + length ys)\<rparr>)
    \<and> ct_inv c' \<and> ct_capacity c' = ct_capacity c \<and> ct_contents c' = ct_contents c @ ys"
  using assms(2-)
proof (induction ys arbitrary: i nextid k f c)
  case Nil
  then show ?case by (intro exI[of _ c]) simp
next
  case (Cons e ys)
  have i: "i < length (ct_contents t)" using Cons.prems(1) by (metis drop_eq_Nil list.discI not_le)
  then have e: "ct_contents t ! i = e" and dr: "drop (Suc i) (ct_contents t) = ys"
    using Cons.prems(1) by (simp_all add: Cons_nth_drop_Suc[symmetric])
  have id_e: "fst e = nextid" using Cons.prems(2) by (metis add.right_neutral length_greater_0_conv list.discI nth_Cons_0)
  have ids: "\<forall>p < length ys. fst (ys ! p) = (nextid + 1) + p" using Cons.prems(2) by auto
  obtain c1 where c1: "ct_write (entry_item e) c = Inr (0, c1)" "ct_inv c1" "ct_contents c1 = ct_contents c @ [e]" "ct_capacity c1 = ct_capacity c"
    using ct_write_space[OF Cons.prems(6), of e] Cons.prems(7) by auto
  let ?f = "f\<lparr>table_client := Some c1, nextIdInClientTable := nextid + 1\<rparr>"
  have u: "uint32 (nextid + 1) = nextid + 1" using Cons.prems(3) by (simp add: uint32_def)
  have "disk_scan (length (e # ys)) (int i) t nextid k item f = disk_scan (length ys) (int (Suc i)) t (nextid + 1) (k + 1) item ?f"
    using ct_nth[OF inv i] e id_e u Cons.prems(4,5) c1(1) by (simp add: Let_def client_write_def add.commute)
  moreover obtain c' where "disk_scan (length ys) (int (Suc i)) t (nextid + 1) (k + 1) item ?f = Inr (k + 1 + length ys, item,
      ?f\<lparr>table_client := Some c', nextIdInClientTable := (if ys = [] then nextIdInClientTable ?f else nextid + 1 + length ys)\<rparr>)"
    "ct_inv c'" "ct_capacity c' = ct_capacity c1" "ct_contents c' = ct_contents c1 @ ys"
    using Cons.IH[OF dr ids, of "k + 1" ?f c1] Cons.prems c1 by auto
  ultimately show ?case using c1 by (intro exI[of _ c']) (simp del: disk_scan.simps)
qed

lemma disk_scan_find:
  assumes inv: "ct_inv t" and es: "ct_contents t = xs @ y # ys" and sk: "\<forall>e \<in> set xs. fst e < nextid"
    and ids: "\<forall>p < length (y # ys). fst ((y # ys) ! p) = nextid + p" and nx: "nextid + length (y # ys) < 2 ^ 32"
    and c: "table_client f = Some c" "ct_inv c" "ct_contents c = []" "length ys \<le> ct_capacity c"
  shows "\<exists>c' k. disk_scan (length (ct_contents t)) 0 t nextid 0 item f = Inr (Suc k, entry_item y,
      f\<lparr>table_client := Some c', nextIdInClientTable := nextid + length (y # ys)\<rparr>)
    \<and> ct_inv c' \<and> ct_capacity c' = ct_capacity c \<and> ct_contents c' = ys"
proof -
  let ?i = "length xs" and ?f = "f\<lparr>nextIdInClientTable := nextid + 1\<rparr>"
  have "disk_scan (length (ct_contents t)) 0 t nextid 0 item f = disk_scan (length (y # ys)) (int ?i) t nextid 0 item f"
    using disk_scan_skip[OF inv, of 0 xs "y # ys" nextid 0 item f] es sk by simp
  also have "\<dots> = disk_scan (length ys) (int (Suc ?i)) t (nextid + 1) 1 (entry_item y) ?f"
  proof -
    have i: "?i < length (ct_contents t)" "ct_contents t ! ?i = y" using es by simp_all
    have y: "fst y = nextid" using ids by (metis add.right_neutral length_greater_0_conv list.discI nth_Cons_0)
    have "uint32 (nextid + 1) = nextid + 1" using nx by (simp add: uint32_def)
    then show ?thesis using ct_nth[OF inv i(1)] i(2) y by (simp add: Let_def add.commute)
  qed
  finally have s: "disk_scan (length (ct_contents t)) 0 t nextid 0 item f
      = disk_scan (length ys) (int (Suc ?i)) t (nextid + 1) 1 (entry_item y) ?f" .
  have "drop (Suc ?i) (ct_contents t) = ys" "\<forall>p < length ys. fst (ys ! p) = (nextid + 1) + p" using es ids by auto
  from disk_scan_copy[OF inv this, of 1 ?f c "entry_item y"] obtain c'
    where "disk_scan (length ys) (int (Suc ?i)) t (nextid + 1) 1 (entry_item y) ?f = Inr (1 + length ys, entry_item y,
      ?f\<lparr>table_client := Some c', nextIdInClientTable := (if ys = [] then nextIdInClientTable ?f else nextid + 1 + length ys)\<rparr>)"
    "ct_inv c'" "ct_capacity c' = ct_capacity c" "ct_contents c' = ct_contents c @ ys"
    using nx c by auto
  then show ?thesis unfolding s using c(3) by (intro exI[of _ c'] exI[of _ "length ys"]) simp
qed

lemma disk_scan_none:
  assumes "ct_inv t" "\<forall>e \<in> set (ct_contents t). nextid < fst e"
  shows "disk_scan (length (ct_contents t)) 0 t nextid 0 item f = Inr (0, item, f)"
proof (cases "ct_contents t")
  case (Cons e es)
  have "vec_get (items t) (if index_first t + 0 \<ge> ct_size t then index_first t + 0 - ct_size t else index_first t + 0) = Inr (entry_item e)"
    using ct_nth[OF assms(1), of 0] Cons by (simp split: if_splits)
  moreover have "nextid < fst e" using assms(2) Cons by simp
  ultimately show ?thesis using Cons by (simp add: Let_def)
qed simp

text \<open>What a read changes of the ghost state.\<close>

definition read_ghost :: "ghost \<Rightarrow> ghost \<Rightarrow> bool" where
  "read_ghost g g' \<longleftrightarrow> gB g' = gB g \<and> gq g' = gq g \<and> gr g' = gr g + 1 \<and> gm g' = gm g \<and> gK g' = gK g"

lemma read_ghostI: "read_ghost g (g\<lparr>gr := gr g + 1, gn := n, gc := p\<rparr>)"
  by (simp add: read_ghost_def)

text \<open>An item of the client table is read.\<close>

lemma client_take:
  assumes "table_client f = Some c" "ct_inv c" "ct_contents c = e # es"
  shows "\<exists>c'. client_read x f = Inr (0, entry_item e, f\<lparr>table_client := Some c'\<rparr>) \<and> ct_inv c' \<and> ct_contents c' = es
    \<and> ct_capacity c' = ct_capacity c"
  using ct_read_item[OF assms(2,3), of x] assms(1) by (auto simp: client_read_def)

lemma client_none:
  assumes "table_client f = Some c" "ct_inv c" "ct_contents c = []"
  shows "client_read x f = Inr (-1, x, f)"
  using ct_read_empty[OF assms(2,3), of x] assms(1) by (simp add: client_read_def)

text \<open>The reader is told apart from the rest of the state by one lemma: what must hold after a read.\<close>

lemma reader_moves:
  assumes inv: "perm_inv g f"
    and c: "table_client f' = Some c" "ct_inv c" "ct_capacity c = gK g" "ct_contents c = gseg g (gr g + 1) y"
    and y: "gr g + 1 \<le> y" "y \<le> gN g"
    and nx: "nextIdInClientTable f' \<le> gB g + gN g + 1" "nextIdInClientTable f' = gB g + gN g + 1 \<Longrightarrow> y = gN g"
    and o: "lastIdOut f' = gB g + gr g + 1"
    and off: "lastOutOffset f' = header_size + length (records_bytes (gseg g (ga g) p))" "gc g \<le> p" "p \<le> gL g" "p \<le> y"
    and same: "table_disk f' = table_disk f" "fifo_file f' = fifo_file f" "currentId f' = currentId f" "lastIdOnDisk f' = lastIdOnDisk f"
      "ackOnDisk f' = ackOnDisk f"
  shows "perm_inv (g\<lparr>gr := gr g + 1, gn := y - (gr g + 1), gc := p\<rparr>) f'"
proof -
  have d: "disk_ok g f" and b: "ghost_bounds g" and cur: "currentId f = gB g + gN g" using inv by (auto simp: perm_inv_def)
  let ?g = "g\<lparr>gr := gr g + 1, gn := y - (gr g + 1), gc := p\<rparr>"
  have s: "gr g + 1 + (y - (gr g + 1)) = y" using y by simp
  have "disk_places ?g" "header_ok ?g" using d off y by (auto simp: disk_ok_def disk_places_def header_ok_def)
  then have "disk_ok ?g f'" using d off(1) same by (simp add: disk_ok_def)
  moreover have "0 < gN g" using y by linarith
  then have "client_ok ?g f'" unfolding client_ok_def using c y nx o s by simp
  ultimately show ?thesis using b cur same(3) by (simp add: perm_inv_def ghost_bounds_def)
qed

lemma read_from_client:
  assumes inv: "perm_inv g f" and n: "0 < gn g"
  shows "\<exists>f' g'. read_item f = Some (Inr (0, entry_item (gB g + gr g + 1, gq g ! gr g), f')) \<and> perm_inv g' f' \<and> read_ghost g g'"
proof -
  have cl: "client_ok g f" and d: "disk_ok g f" using inv by (auto simp: perm_inv_def)
  obtain c where c: "table_client f = Some c" "ct_inv c" "ct_capacity c = gK g" "ct_contents c = gseg g (gr g) (gr g + gn g)"
    using cl by (auto simp: client_ok_def)
  let ?e = "(gB g + gr g + 1, gq g ! gr g)" and ?y = "gr g + gn g"
  have e: "ct_contents c = ?e # gseg g (gr g + 1) ?y" using c(4) n by (simp add: seg_Cons)
  obtain c' where c': "client_read EMPTY_FIFO_ITEM f = Inr (0, entry_item ?e, f\<lparr>table_client := Some c'\<rparr>)" "ct_inv c'"
      "ct_contents c' = gseg g (gr g + 1) ?y" "ct_capacity c' = ct_capacity c"
    using client_take[OF c(1,2) e] by blast
  let ?f = "f\<lparr>table_client := Some c', lastIdOut := gB g + gr g + 1\<rparr>"
  have "read_item f = Some (Inr (0, entry_item ?e, ?f))" using c'(1) by (simp add: read_item_def Let_def)
  moreover have "perm_inv (g\<lparr>gr := gr g + 1, gn := ?y - (gr g + 1), gc := gc g\<rparr>) ?f"
    using cl d n c' c by (intro reader_moves[OF inv]) (auto simp: client_ok_def disk_ok_def disk_places_def)
  ultimately show ?thesis using read_ghostI by blast
qed

lemma read_from_disk_table:
  assumes inv: "perm_inv g f" and r: "gr g < gN g" and n: "gn g = 0" and le: "max (gL g) (gm g) \<le> gr g"
  shows "\<exists>f' g'. read_item f = Some (Inr (0, entry_item (gB g + gr g + 1, gq g ! gr g), f')) \<and> perm_inv g' f' \<and> read_ghost g g'"
proof -
  have cl: "client_ok g f" and d: "disk_ok g f" and b: "ghost_bounds g" using inv by (auto simp: perm_inv_def)
  have nb: "gB g + gN g < 2 ^ 32 - 1" using b by (simp add: ghost_bounds_def)
  obtain c where c: "table_client f = Some c" "ct_inv c" "ct_capacity c = gK g" "ct_contents c = []"
    using cl n by (auto simp: client_ok_def)
  obtain t where t: "table_disk f = Some t" "ct_inv t" "ct_capacity t = gK g" "ct_contents t = gseg g (max (gL g) (gm g)) (gN g)"
    using d by (auto simp: disk_ok_def)
  have pos: "gB g = 0 \<or> 0 < gr g" using d le by (auto simp: disk_ok_def disk_places_def)
  then have out: "lastIdOut f = gB g + gr g" using cl by (auto simp: client_ok_def)
  let ?e = "(gB g + gr g + 1, gq g ! gr g)" and ?x = "gB g + gr g + 1"
  have es: "ct_contents t = gseg g (max (gL g) (gm g)) (gr g) @ ?e # gseg g (gr g + 1) (gN g)"
    using t(4) le r seg_append[OF le, of "gN g" "gB g" "gq g"] by (simp add: seg_Cons)
  have sk: "\<forall>e \<in> set (gseg g (max (gL g) (gm g)) (gr g)). fst e < ?x" by (auto simp: seg_def)
  have ids: "\<forall>p < length (?e # gseg g (gr g + 1) (gN g)). fst ((?e # gseg g (gr g + 1) (gN g)) ! p) = ?x + p"
    using seg_Cons[OF r, of "gB g" "gq g", symmetric] r by (simp add: seg_nth)
  have lim: "?x + length (?e # gseg g (gr g + 1) (gN g)) < 2 ^ 32" using nb r by simp
  have cap: "length (gseg g (gr g + 1) (gN g)) \<le> ct_capacity c" using ct_shape(5)[OF t(2)] es c(3) t(3) by simp
  obtain c' k where c': "disk_scan (length (ct_contents t)) 0 t ?x 0 EMPTY_FIFO_ITEM f = Inr (Suc k, entry_item ?e,
      f\<lparr>table_client := Some c', nextIdInClientTable := ?x + length (?e # gseg g (gr g + 1) (gN g))\<rparr>)"
      "ct_inv c'" "ct_capacity c' = ct_capacity c" "ct_contents c' = gseg g (gr g + 1) (gN g)"
    using disk_scan_find[OF t(2) es sk ids lim c(1,2,4) cap] by blast
  have nx: "?x + length (?e # gseg g (gr g + 1) (gN g)) = gB g + gN g + 1" using r by simp
  let ?f = "f\<lparr>table_client := Some c', nextIdInClientTable := gB g + gN g + 1, lastIdOut := gB g + gr g + 1\<rparr>"
  have "uint32 (lastIdOut f + 1) = ?x" using out nb r by (simp add: uint32_def)
  then have "read_item f = Some (Inr (0, entry_item ?e, ?f))"
    using client_none[OF c(1,2,4), of EMPTY_FIFO_ITEM] t(1) c'(1) ct_shape(4)[OF t(2)] unfolding nx
    by (simp add: read_item_def Let_def)
  moreover have "perm_inv (g\<lparr>gr := gr g + 1, gn := gN g - (gr g + 1), gc := gc g\<rparr>) ?f"
    using d r n c' c(3) by (intro reader_moves[OF inv]) (simp_all add: disk_ok_def disk_places_def)
  ultimately show ?thesis using read_ghostI by blast
qed

lemma read_from_file:
  assumes inv: "perm_inv g f" and n: "gn g = 0" and lt: "gr g < max (gL g) (gm g)"
  shows "\<exists>f' g'. read_item f = Some (Inr (0, entry_item (gB g + gr g + 1, gq g ! gr g), f')) \<and> perm_inv g' f' \<and> read_ghost g g'"
proof -
  have cl: "client_ok g f" and d: "disk_ok g f" and b: "ghost_bounds g" using inv by (auto simp: perm_inv_def)
  have pl: "ga g \<le> gc g" "gc g \<le> gL g" "gL g \<le> gN g" "gc g \<le> gr g" "gm g \<le> gr g" using d n by (auto simp: disk_ok_def disk_places_def)
  then have rL: "gr g < gL g" using lt by simp
  obtain c where c: "table_client f = Some c" "ct_inv c" "ct_capacity c = gK g" "ct_contents c = []"
    using cl n by (auto simp: client_ok_def)
  obtain t where t: "table_disk f = Some t" "ct_inv t" "ct_contents t = gseg g (max (gL g) (gm g)) (gN g)"
    using d by (auto simp: disk_ok_def)
  have out: "lastIdOut f \<le> gB g + gr g" "lastIdOut f - gB g = gr g" using cl by (auto simp: client_ok_def)
  have K: "0 < gK g" using b by (simp add: ghost_bounds_def)
  have "uint32 (lastIdOut f + 1) \<le> gB g + gr g + 1" using out(1) mod_less_eq_dividend[of "lastIdOut f + 1" "2 ^ 32"] unfolding uint32_def by linarith
  then have "\<forall>e \<in> set (ct_contents t). uint32 (lastIdOut f + 1) < fst e" using rL unfolding t(3) by (auto simp: seg_def)
  then have scan: "disk_scan (nat (n_items t)) 0 t (uint32 (lastIdOut f + 1)) 0 EMPTY_FIFO_ITEM f = Inr (0, EMPTY_FIFO_ITEM, f)"
    using disk_scan_none[OF t(2)] ct_shape(4)[OF t(2)] by simp
  let ?pre = "main_bytes (gh g) @ records_bytes (gseg g (ga g) (gc g))" and ?y = "min (gL g) (gr g + gK g)"
  let ?e = "(gB g + gr g + 1, gq g ! gr g)"
  have "gseg g (ga g) (gL g) = gseg g (ga g) (gc g) @ gseg g (gc g) (gL g)" using pl by (simp add: seg_append)
  then have fl: "fifo_file f = Some (?pre @ records_bytes (gseg g (gc g) (gL g)))" using d by (simp add: disk_ok_def)
  have off: "lastOutOffset f = length ?pre" using d by (simp add: disk_ok_def)
  have len: "length (?pre @ records_bytes (gseg g (gc g) (gL g))) = header_size + length (records_bytes (gseg g (ga g) (gL g)))"
    using d fl by (simp add: disk_ok_def)
  have "length (?pre @ records_bytes (gseg g (gc g) (gL g))) < 2 ^ 63"
    unfolding len using seg_bytes[OF pl(3), of "gB g" "ga g"] b by (simp add: ghost_bounds_def)
  moreover have "ids_fit (gseg g (gc g) (gL g))" using b pl by (intro seg_fit) (simp add: ghost_bounds_def)
  moreover have "to_load (Suc (lastIdOut f)) (gseg g (gc g) (gL g)) = gseg g (gr g) (gL g)" using out(2) pl by (simp add: seg_to_load)
  ultimately obtain r pos c1 where ld: "ct_load (?pre @ records_bytes (gseg g (gc g) (gL g))) (length ?pre) (Suc (lastIdOut f)) c = Some (Inr (r, pos, c1))"
      "ct_inv c1" "ct_capacity c1 = gK g" "ct_contents c1 = gseg g (gr g) ?y"
      "r = 0 \<longrightarrow> pos = length (?pre @ records_bytes (gseg g (gc g) (gL g))) \<and> gL g - gr g < gK g"
    using ct_load_records[of "gseg g (gc g) (gL g)" ?pre c "Suc (lastIdOut f)"] c by (auto simp: seg_take)
  have y: "gr g < ?y" using rL K by simp
  have es: "ct_contents c1 = ?e # gseg g (gr g + 1) ?y" using ld(4) y by (simp add: seg_Cons)
  have last: "vec_get (items c1) (last_index c1) = Inr (entry_item (gB g + ?y, gq g ! (?y - 1)))"
    using ct_last[OF ld(2)] es ld(4) seg_last[OF y, of "gB g" "gq g"] by simp
  have npos: "0 < n_items c1" using ct_shape(4)[OF ld(2)] es by simp
  let ?p = "if r = 0 then gL g else gc g"
  let ?f1 = "f\<lparr>table_client := Some c1\<rparr>"
  let ?f2 = "(if r = 0 then ?f1\<lparr>lastOutOffset := pos\<rparr> else ?f1)\<lparr>nextIdInClientTable := gB g + ?y + 1\<rparr>"
  have c1: "table_client ?f2 = Some c1" by simp
  obtain c' where c': "client_read EMPTY_FIFO_ITEM ?f2 = Inr (0, entry_item ?e, ?f2\<lparr>table_client := Some c'\<rparr>)" "ct_inv c'"
      "ct_contents c' = gseg g (gr g + 1) ?y" "ct_capacity c' = ct_capacity c1"
    using client_take[OF c1 ld(2) es, of EMPTY_FIFO_ITEM] by blast
  have "load_client EMPTY_FIFO_ITEM f = Some (Inr (0, entry_item ?e, ?f2\<lparr>table_client := Some c'\<rparr>))"
    using fl c(1) off ld(1) npos last c'(1) by (simp add: load_client_def Let_def)
  then have rd: "read_item f = Some (Inr (0, entry_item ?e, ?f2\<lparr>table_client := Some c', lastIdOut := gB g + gr g + 1\<rparr>))"
    using client_none[OF c(1,2,4), of EMPTY_FIFO_ITEM] t(1) scan by (simp add: read_item_def Let_def)
  have offs: "lastOutOffset ?f2 = header_size + length (records_bytes (gseg g (ga g) ?p))"
    using ld(5) len off by simp
  have "perm_inv (g\<lparr>gr := gr g + 1, gn := ?y - (gr g + 1), gc := ?p\<rparr>) (?f2\<lparr>table_client := Some c', lastIdOut := gB g + gr g + 1\<rparr>)"
    using y pl ld(3,5) c' offs by (intro reader_moves[OF inv]) auto
  then show ?thesis using rd read_ghostI by blast
qed

lemma read_ok:
  assumes inv: "perm_inv g f" and r: "gr g < gN g"
  shows "\<exists>f' g'. permFIFO_read wait 0 f = Some (Inr (0, entry_item (gB g + gr g + 1, gq g ! gr g), f')) \<and> perm_inv g' f' \<and> read_ghost g g'"
proof -
  have "lastIdOut f < currentId f" using inv r by (auto simp: perm_inv_def client_ok_def)
  then have "permFIFO_read wait 0 f = read_item f" by (simp add: permFIFO_read_def)
  moreover consider "0 < gn g" | "gn g = 0" "max (gL g) (gm g) \<le> gr g" | "gn g = 0" "gr g < max (gL g) (gm g)" by linarith
  then have "\<exists>f' g'. read_item f = Some (Inr (0, entry_item (gB g + gr g + 1, gq g ! gr g), f')) \<and> perm_inv g' f' \<and> read_ghost g g'"
    using inv r by cases (erule read_from_client read_from_disk_table read_from_file; assumption)+
  ultimately show ?thesis by simp
qed

lemma read_nothing:
  assumes inv: "perm_inv g f" and r: "gr g = gN g"
  shows "permFIFO_read wait 0 f = Some (Inr (1, EMPTY_FIFO_ITEM, f))"
proof -
  have "gN g = 0 \<Longrightarrow> gB g = 0" using inv r by (auto simp: perm_inv_def disk_ok_def disk_places_def)
  then have "\<not> lastIdOut f < currentId f" using inv r by (auto simp: perm_inv_def client_ok_def)
  then show ?thesis by (simp add: permFIFO_read_def)
qed

end
