(* ===== verification/Perm_Fifo_Sessions.thy ===== *)
theory Perm_Fifo_Sessions
  imports Perm_Fifo_Ops
begin

text \<open>
  The life of a permanent FIFO over several runs of the process: it is opened on its files, used by a client that writes, reads, acknowledges items it has received and
  flushes, closed or killed, and opened again.
\<close>

section \<open>A client and its specification\<close>

text \<open>A write is a buffer and a size, a flush has its timeout; both look at the clock. The client acknowledges the \<open>k\<close>-th item that it has received, and never goes back.\<close>

datatype perm_op = PWrite "u8 list" int int | PRead | PAck nat | PFlush int int
datatype perm_reply = Code int | Item "u8 list"

abbreviation all_ok :: "'a \<Rightarrow> bool" where "all_ok \<equiv> \<lambda>_. True"

fun perm_do :: "perm_op \<Rightarrow> permFIFO \<Rightarrow> entry list \<Rightarrow> nat \<Rightarrow> (perm_reply \<times> permFIFO \<times> entry list \<times> nat) res option" where
  "perm_do (PWrite bytes n now) f ds m =
     Some (res_bind (permFIFO_write all_ok now (Some bytes) n f) (\<lambda>(r, f'). Inr (Code r, f', ds, m)))"
| "perm_do PRead f ds m =
     map_option (\<lambda>x. res_bind x (\<lambda>(r, item, f').
       if r = 0 then Inr (Item (snd (item_entry item)), f', ds @ [item_entry item], m) else Inr (Code r, f', ds, m)))
       (permFIFO_read (\<lambda>f. (True, f)) 0 f)"
| "perm_do (PAck k) f ds m =
     Some (if m \<le> k \<and> k < length ds
           then res_bind (permFIFO_ack all_ok (fst (ds ! k)) f) (\<lambda>(r, f'). Inr (Code r, f', ds, k + 1))
           else Inr (Code 0, f, ds, m))"
| "perm_do (PFlush timeout now) f ds m =
     Some (res_bind (permFIFO_flush all_ok now timeout f) (\<lambda>(r, f'). Inr (Code r, f', ds, m)))"

fun perm_run :: "perm_op list \<Rightarrow> permFIFO \<Rightarrow> entry list \<Rightarrow> nat \<Rightarrow> (perm_reply list \<times> permFIFO \<times> entry list \<times> nat) res option" where
  "perm_run [] f ds m = Some (Inr ([], f, ds, m))"
| "perm_run (op # ops) f ds m =
     (case perm_do op f ds m of
        None \<Rightarrow> None
      | Some (Inl e) \<Rightarrow> Some (Inl e)
      | Some (Inr (rep, f', ds', m')) \<Rightarrow>
          map_option (\<lambda>x. res_bind x (\<lambda>(reps, s). Inr (rep # reps, s))) (perm_run ops f' ds' m'))"

text \<open>The specification: the list of the items, how many of them have been read and how many acknowledged.\<close>

fun spec_do :: "perm_op \<Rightarrow> u8 list list \<times> nat \<times> nat \<Rightarrow> perm_reply \<times> u8 list list \<times> nat \<times> nat" where
  "spec_do (PWrite bytes n now) (q, r, m) = (Code 0, q @ [item_bytes bytes n], r, m)"
| "spec_do PRead (q, r, m) = (if r < length q then (Item (q ! r), q, r + 1, m) else (Code 1, q, r, m))"
| "spec_do (PAck k) (q, r, m) = (Code 0, q, r, if m \<le> k \<and> k < r then k + 1 else m)"
| "spec_do (PFlush timeout now) (q, r, m) = (Code 0, q, r, m)"

fun spec_run :: "perm_op list \<Rightarrow> u8 list list \<times> nat \<times> nat \<Rightarrow> perm_reply list \<times> u8 list list \<times> nat \<times> nat" where
  "spec_run [] s = ([], s)"
| "spec_run (op # ops) s = (case spec_do op s of (rep, s') \<Rightarrow> case spec_run ops s' of (reps, s'') \<Rightarrow> (rep # reps, s''))"

fun op_ok :: "perm_op \<Rightarrow> bool" where
  "op_ok (PWrite bytes n now) \<longleftrightarrow> 0 \<le> n \<and> (0 < n \<longrightarrow> bytes \<noteq> [])"
| "op_ok _ \<longleftrightarrow> True"

fun op_written :: "perm_op \<Rightarrow> u8 list list" where
  "op_written (PWrite bytes n now) = [item_bytes bytes n]"
| "op_written _ = []"

definition written :: "perm_op list \<Rightarrow> u8 list list" where
  "written ops = concat (map op_written ops)"

text \<open>The numbers of items and bytes that keep the identifiers and file positions in their types.\<close>

definition in_limits :: "nat \<Rightarrow> u8 list list \<Rightarrow> bool" where
  "in_limits B q \<longleftrightarrow> B + length q < 2 ^ 32 - 1 \<and> header_size + queue_bytes q < 2 ^ 63"

lemma in_limits_append: "in_limits B (q @ q') \<Longrightarrow> in_limits B q"
  by (auto simp: in_limits_def queue_bytes_def)

lemma item_bytes_ne: "0 \<le> n \<Longrightarrow> (0 < n \<longrightarrow> bytes \<noteq> []) \<Longrightarrow> item_bytes bytes n \<noteq> []"
  by (cases "n = 0") (auto simp: item_bytes_def)

definition client_view :: "ghost \<Rightarrow> u8 list list \<times> nat \<times> nat" where
  "client_view g = (gq g, gr g, gm g)"

lemma perm_do_ok:
  assumes inv: "perm_inv g f" and ok: "op_ok op" and lim: "in_limits (gB g) (gq g @ op_written op)"
  shows "\<exists>f' g'. perm_do op f (gseg g 0 (gr g)) (gm g) = Some (Inr (fst (spec_do op (client_view g)), f', gseg g' 0 (gr g'), gm g'))
    \<and> perm_inv g' f' \<and> client_view g' = snd (spec_do op (client_view g)) \<and> gB g' = gB g \<and> gK g' = gK g
    \<and> gq g' = gq g @ op_written op"
proof (cases op)
  case (PWrite bytes n now)
  let ?x = "item_bytes bytes n"
  have n: "0 \<le> n" and x: "?x \<noteq> []" using ok PWrite item_bytes_ne[of n bytes] by auto
  have "ghost_bounds (g\<lparr>gq := gq g @ [?x]\<rparr>)" using inv lim PWrite x by (auto simp: perm_inv_def ghost_bounds_def in_limits_def)
  then obtain f' g' where w: "permFIFO_write all_ok now (Some bytes) n f = Inr (0, f')" "perm_inv g' f'" "gB g' = gB g"
      "gq g' = gq g @ [?x]" "gr g' = gr g" "gm g' = gm g" "gK g' = gK g"
    using write_ok[where sys = all_ok and bytes = bytes and now = now, OF inv _ n refl] by auto
  have "gr g \<le> gN g" using inv by (auto simp: perm_inv_def disk_ok_def disk_places_def)
  then have "gseg g' 0 (gr g') = gseg g 0 (gr g)" using w by (simp add: seg_grow)
  then show ?thesis using w PWrite by (intro exI[of _ f'] exI[of _ g']) (simp add: client_view_def)
next
  case PRead
  show ?thesis
  proof (cases "gr g < gN g")
    case True
    obtain f' g' where r: "permFIFO_read (\<lambda>f. (True, f)) 0 f = Some (Inr (0, entry_item (gB g + gr g + 1, gq g ! gr g), f'))"
        "perm_inv g' f'" "read_ghost g g'"
      using read_ok[OF inv True] by blast
    have "gseg g' 0 (gr g') = gseg g 0 (gr g) @ [(gB g + gr g + 1, gq g ! gr g)]" using r(3) by (simp add: read_ghost_def seg_def)
    then show ?thesis using r True PRead by (intro exI[of _ f'] exI[of _ g']) (simp add: client_view_def read_ghost_def)
  next
    case False
    then have "gr g = gN g" using inv by (auto simp: perm_inv_def disk_ok_def disk_places_def)
    then show ?thesis using read_nothing[OF inv] inv PRead by (intro exI[of _ f] exI[of _ g]) (simp add: client_view_def)
  qed
next
  case (PAck k)
  show ?thesis
  proof (cases "gm g \<le> k \<and> k < gr g")
    case True
    obtain f' g' where a: "permFIFO_ack all_ok (gB g + k + 1) f = Inr (0, f')" "perm_inv g' f'" "gB g' = gB g" "gq g' = gq g" "gr g' = gr g"
        "gm g' = k + 1" "gK g' = gK g"
      using ack_ok[OF inv _, of all_ok k] True by auto
    have "fst (gseg g 0 (gr g) ! k) = gB g + k + 1" using True by (simp add: seg_nth)
    then show ?thesis using a True PAck by (intro exI[of _ f'] exI[of _ g']) (simp add: client_view_def)
  next
    case False
    then show ?thesis using inv PAck by (intro exI[of _ f] exI[of _ g]) (auto simp: client_view_def)
  qed
next
  case (PFlush timeout now)
  obtain f' g' where "permFIFO_flush all_ok now timeout f = Inr (0, f')" "perm_inv g' f'" "g' \<in> {g, saved g}"
    using flush_ok[OF inv, of all_ok now timeout] by auto
  then show ?thesis using PFlush by (intro exI[of _ f'] exI[of _ g']) (auto simp: client_view_def)
qed

lemma perm_run_ok:
  assumes "perm_inv g f" "list_all op_ok ops" "in_limits (gB g) (gq g @ written ops)"
  shows "\<exists>f' g'. perm_run ops f (gseg g 0 (gr g)) (gm g) = Some (Inr (fst (spec_run ops (client_view g)), f', gseg g' 0 (gr g'), gm g'))
    \<and> perm_inv g' f' \<and> client_view g' = snd (spec_run ops (client_view g)) \<and> gB g' = gB g \<and> gK g' = gK g
    \<and> gq g' = gq g @ written ops"
  using assms
proof (induction ops arbitrary: g f)
  case Nil
  then show ?case by (intro exI[of _ f] exI[of _ g]) (simp add: written_def)
next
  case (Cons op ops)
  have "in_limits (gB g) (gq g @ op_written op)" using Cons.prems(3) in_limits_append[of "gB g" "gq g @ op_written op"] by (simp add: written_def)
  then obtain f1 g1 where s: "perm_do op f (gseg g 0 (gr g)) (gm g) = Some (Inr (fst (spec_do op (client_view g)), f1, gseg g1 0 (gr g1), gm g1))"
      "perm_inv g1 f1" "client_view g1 = snd (spec_do op (client_view g))" "gB g1 = gB g" "gK g1 = gK g" "gq g1 = gq g @ op_written op"
    using perm_do_ok[OF Cons.prems(1), of op] Cons.prems(2) by auto
  obtain f' g' where r: "perm_run ops f1 (gseg g1 0 (gr g1)) (gm g1) = Some (Inr (fst (spec_run ops (client_view g1)), f', gseg g' 0 (gr g'), gm g'))"
      "perm_inv g' f'" "client_view g' = snd (spec_run ops (client_view g1))" "gB g' = gB g1" "gK g' = gK g1" "gq g' = gq g1 @ written ops"
    using Cons.IH[OF s(2)] Cons.prems(2,3) s(4,6) by (auto simp: written_def)
  then show ?case using s by (intro exI[of _ f'] exI[of _ g']) (auto simp: written_def split: prod.split)
qed

end
