(* ===== verification/Perm_Fifo_Reopen.thy ===== *)
theory Perm_Fifo_Reopen
  imports Perm_Fifo_Sessions
begin

text \<open>
  Cleaning of the files and opening of the FIFO: what a session finds of the items of the one before it, and what an interrupted cleaning
  leaves behind.
\<close>

section \<open>Cleaning\<close>

definition stored :: "FIFO_file_main_header \<Rightarrow> entry list \<Rightarrow> u8 list" where
  "stored hm es = main_bytes hm @ records_bytes es"

definition stored_ok :: "FIFO_file_main_header \<Rightarrow> entry list \<Rightarrow> bool" where
  "stored_ok hm es \<longleftrightarrow> mh_tag hm = FIFO_FILE_TAG \<and> lastAckId hm < 2 ^ 64 \<and> mh_currentId hm < 2 ^ 64 \<and> ids_fit es
     \<and> length (stored hm es) < 2 ^ 63"

definition clean_header :: "FIFO_file_main_header \<Rightarrow> entry list \<Rightarrow> FIFO_file_main_header" where
  "clean_header hm es =
     (if lastAckId hm = 0 then (if es = [] \<or> fst (last es) = 0 then hm else hm\<lparr>mh_currentId := fst (last es)\<rparr>)
      else FIFOFILE_DEFAULT_MAIN_HEADER\<lparr>mh_currentId := length (dropWhile (\<lambda>e. fst e \<le> lastAckId hm) es)\<rparr>)"

definition clean_items :: "FIFO_file_main_header \<Rightarrow> entry list \<Rightarrow> entry list" where
  "clean_items hm es = (if lastAckId hm = 0 then es else renumber 0 (dropWhile (\<lambda>e. fst e \<le> lastAckId hm) es))"

lemma read_main:
  assumes "stored_ok hm es"
  shows "file_read (stored hm es) 0 header_size = main_bytes hm" "main_of_bytes (main_bytes hm) = hm"
  using assms by (simp_all add: stored_def file_read_def stored_ok_def main_round_trip FIFO_FILE_TAG_def)

lemma rewrite_main: "lseek_write (main_bytes h) (main_bytes hm @ xs) = main_bytes h @ xs"
  by (simp add: lseek_write_def)

lemma records_from:
  "main_bytes hm @ records_bytes es
    = (main_bytes hm @ records_bytes (takeWhile P es)) @ records_bytes (dropWhile P es)"
  by (metis append.assoc records_bytes_simps(3) takeWhile_dropWhile_id)

text \<open>Whatever call fails, the cleaning ends, and one of the two files still holds the items: either as they were, or already cleaned.\<close>

definition holds_file :: "fifo_fs \<Rightarrow> u8 list \<Rightarrow> bool" where
  "holds_file fs file' \<longleftrightarrow> f_current fs = Some file' \<or> (f_current fs = None \<and> f_old fs = Some file')"

lemma clean_unacked_any:
  assumes st: "stored_ok hm es" and ack: "lastAckId hm = 0" and cur: "f_current fs = Some (stored hm es)"
  shows "\<exists>c fs'. clean_unacked sys hm (stored hm es) fs = Some (c, fs') \<and> f_old fs' = f_old fs \<and> f_new fs' = f_new fs
    \<and> f_current fs' = Some (stored (if c = 0 then clean_header hm es else hm) es) \<and> (calls_succeed sys \<longrightarrow> c = 0)"
proof -
  have "scan_last_id (main_bytes hm @ records_bytes es) (length (main_bytes hm)) 0 = Some (Inr (if es = [] then 0 else fst (last es)))"
    using st by (intro scan_last_id_records) (auto simp: stored_ok_def stored_def)
  then show ?thesis using ack cur by (auto simp: clean_unacked_def clean_header_def stored_def rewrite_main dest: calls_succeedD)
qed

lemma renumber_length [simp]: "length (renumber c es) = length es"
  by (induction es arbitrary: c) auto

lemma clean_finish_any:
  assumes "(if cur \<noteq> 0 then lseek_write (main_bytes (FIFOFILE_DEFAULT_MAIN_HEADER\<lparr>mh_currentId := cur\<rparr>)) out else out) = cleaned"
    and "f_current fs = Some orig" "f_old fs = None" "f_new fs = None"
  shows "(holds_file (snd (clean_finish sys cur out fs)) orig \<or> holds_file (snd (clean_finish sys cur out fs)) cleaned)
    \<and> (fst (clean_finish sys cur out fs) = 0 \<longrightarrow>
        snd (clean_finish sys cur out fs) = \<lparr>f_current = Some cleaned, f_old = None, f_new = None\<rparr>)
    \<and> (calls_succeed sys \<longrightarrow> fst (clean_finish sys cur out fs) = 0)"
  using assms(2-) unfolding clean_finish_def Let_def assms(1)
  by (cases fs) (simp add: holds_file_def calls_succeed_def)

lemma clean_acked_any:
  assumes st: "stored_ok hm es" and ack: "lastAckId hm \<noteq> 0" and fs: "f_current fs = Some (stored hm es)" "f_old fs = None" "f_new fs = None"
  shows "\<exists>c fs'. clean_acked sys hm (stored hm es) fs = Some (c, fs')
    \<and> (holds_file fs' (stored hm es) \<or> holds_file fs' (stored (clean_header hm es) (clean_items hm es)))
    \<and> (c = 0 \<longrightarrow> fs' = \<lparr>f_current = Some (stored (clean_header hm es) (clean_items hm es)), f_old = None, f_new = None\<rparr>)
    \<and> (calls_succeed sys \<longrightarrow> c = 0)"
proof -
  let ?P = "\<lambda>e. fst e \<le> lastAckId hm" and ?d = "dropWhile (\<lambda>e. fst e \<le> lastAckId hm) es"
  let ?pre = "main_bytes hm @ records_bytes (takeWhile ?P es)" and ?D = "main_bytes FIFOFILE_DEFAULT_MAIN_HEADER"
  have len: "length (main_bytes hm @ records_bytes es) < 2 ^ 63" and fit: "ids_fit es" using st by (auto simp: stored_ok_def stored_def)
  have "ids_fit ?d" using fit by (auto simp: ids_fit_def dest: set_dropWhileD)
  moreover have "length (?pre @ records_bytes ?d) < 2 ^ 63" using len records_from[of hm es ?P] by simp
  ultimately obtain c cur out where cp: "copy_records sys (stored hm es) (length ?pre) 0 ?D = Some (c, cur, out)"
      "c = 0 \<Longrightarrow> cur = length ?d \<and> out = ?D @ records_bytes (renumber 0 ?d)" "calls_succeed sys \<Longrightarrow> c = 0"
    using copy_records_all[of ?d ?pre sys 0 ?D] unfolding stored_def records_from[of hm es ?P] by auto
  have sk: "skip_acked (stored hm es) (lastAckId hm) header_size = Some (Inr (length ?pre))"
    using skip_acked_records[OF fit len, of "lastAckId hm"] by (simp add: stored_def)
  show ?thesis
  proof (cases "sys 7 0 \<and> sys 8 0 \<and> c = 0")
    case False
    then show ?thesis using sk cp(1,3) fs by (auto simp: clean_acked_def holds_file_def dest: calls_succeedD)
  next
    case True
    have o: "out = ?D @ records_bytes (clean_items hm es)" and cu: "cur = length ?d" using cp(2) True ack by (auto simp: clean_items_def)
    have "(if cur \<noteq> 0 then lseek_write (main_bytes (FIFOFILE_DEFAULT_MAIN_HEADER\<lparr>mh_currentId := cur\<rparr>)) out else out)
        = stored (clean_header hm es) (clean_items hm es)"
    proof -
      have h: "clean_header hm es = FIFOFILE_DEFAULT_MAIN_HEADER\<lparr>mh_currentId := cur\<rparr>" using ack cu by (simp add: clean_header_def)
      show ?thesis unfolding o rewrite_main by (cases "cur = 0") (simp_all add: h stored_def FIFOFILE_DEFAULT_MAIN_HEADER_def)
    qed
    moreover have "clean_acked sys hm (stored hm es) fs = Some (clean_finish sys cur out fs)"
      using sk cp(1) True by (simp add: clean_acked_def)
    ultimately show ?thesis using fs clean_finish_any[of cur out "stored (clean_header hm es) (clean_items hm es)" fs "stored hm es" sys]
      by (cases "clean_finish sys cur out fs") simp
  qed
qed

lemma clean_existing_any:
  assumes st: "stored_ok hm es" and fs: "f_current fs = Some (stored hm es)"
  shows "\<exists>c fs'. clean_existing sys (stored hm es) fs = Some (c, fs')
    \<and> (holds_file fs' (stored hm es) \<or> holds_file fs' (stored (clean_header hm es) (clean_items hm es)))
    \<and> (c = 0 \<longrightarrow> fs' = \<lparr>f_current = Some (stored (clean_header hm es) (clean_items hm es)), f_old = None, f_new = None\<rparr>)
    \<and> (calls_succeed sys \<longrightarrow> c = 0)"
proof (cases "sys 4 0")
  case False
  then show ?thesis using fs by (auto simp: clean_existing_def holds_file_def dest: calls_succeedD)
next
  case True
  let ?fs = "fs\<lparr>f_old := None, f_new := None\<rparr>"
  have tag: "mh_tag hm = FIFO_FILE_TAG" using st by (simp add: stored_ok_def)
  show ?thesis
  proof (cases "lastAckId hm = 0")
    case ack: True
    then have "clean_existing sys (stored hm es) fs = clean_unacked sys hm (stored hm es) ?fs"
      using True read_main[OF st] tag by (simp add: clean_existing_def Let_def)
    moreover have "clean_items hm es = es" using ack by (simp add: clean_items_def)
    ultimately show ?thesis using clean_unacked_any[OF st ack, of ?fs sys] fs by (auto simp: holds_file_def split: if_splits)
  next
    case ack: False
    then have "clean_existing sys (stored hm es) fs = clean_acked sys hm (stored hm es) ?fs"
      using True read_main[OF st] tag by (simp add: clean_existing_def Let_def)
    then show ?thesis using clean_acked_any[OF st ack, of ?fs sys] fs by simp
  qed
qed

lemma clean_any:
  assumes st: "stored_ok hm es" and fs: "holds_file fs (stored hm es)"
  shows "\<exists>c fs'. permFIFO_file_clean sys fs = Some (c, fs')
    \<and> (holds_file fs' (stored hm es) \<or> holds_file fs' (stored (clean_header hm es) (clean_items hm es)))
    \<and> (c = 0 \<longrightarrow> fs' = \<lparr>f_current = Some (stored (clean_header hm es) (clean_items hm es)), f_old = None, f_new = None\<rparr>)
    \<and> (calls_succeed sys \<longrightarrow> c = 0)"
proof (cases "f_current fs")
  case (Some x)
  then have "f_current fs = Some (stored hm es)" using fs by (simp add: holds_file_def)
  then show ?thesis using clean_existing_any[OF st, of fs sys] by (simp add: permFIFO_file_clean_def)
next
  case None
  then have old: "f_old fs = Some (stored hm es)" using fs by (simp add: holds_file_def)
  let ?fs = "fs\<lparr>f_current := Some (stored hm es), f_old := None\<rparr>"
  show ?thesis
  proof (cases "sys 3 0")
    case True
    then show ?thesis using clean_existing_any[OF st, of ?fs sys] None old by (simp add: permFIFO_file_clean_def)
  next
    case False
    then show ?thesis using None old fs by (auto simp: permFIFO_file_clean_def dest: calls_succeedD)
  qed
qed

text \<open>A clean file stays as it is.\<close>

lemma clean_again:
  assumes "stored_ok hm es"
  shows "clean_header (clean_header hm es) (clean_items hm es) = clean_header hm es"
    and "clean_items (clean_header hm es) (clean_items hm es) = clean_items hm es"
proof -
  have z: "lastAckId (clean_header hm es) = 0" by (auto simp: clean_header_def FIFOFILE_DEFAULT_MAIN_HEADER_def)
  then show "clean_items (clean_header hm es) (clean_items hm es) = clean_items hm es" by (simp add: clean_items_def)
  have l: "fst (last (renumber c xs)) = c + length xs" if "xs \<noteq> []" for xs :: "entry list" and c
    using that
  proof (induction xs arbitrary: c)
    case (Cons x xs)
    then show ?case by (cases xs) simp_all
  qed simp
  have e: "renumber 0 xs = [] \<longleftrightarrow> xs = []" for xs by (cases xs) auto
  show "clean_header (clean_header hm es) (clean_items hm es) = clean_header hm es"
  proof (cases "lastAckId hm = 0")
    case True
    then show ?thesis by (auto simp: clean_header_def clean_items_def)
  next
    case False
    define d where "d = dropWhile (\<lambda>e. fst e \<le> lastAckId hm) es"
    have h: "clean_header hm es = FIFOFILE_DEFAULT_MAIN_HEADER\<lparr>mh_currentId := length d\<rparr>" and i: "clean_items hm es = renumber 0 d"
      using False by (simp_all add: clean_header_def clean_items_def d_def)
    show ?thesis unfolding h i using l[of d 0] e[of d]
      by (cases "d = []") (auto simp: clean_header_def FIFOFILE_DEFAULT_MAIN_HEADER_def)
  qed
qed


section \<open>Opening\<close>

lemma seg_shift: "y \<le> length q \<Longrightarrow> seg B q x y = seg (B + x) (drop x (take y q)) 0 (y - x)"
  by (rule nth_equalityI) (auto simp: seg_nth)

lemma renumber_nth: "p < length es \<Longrightarrow> renumber c es ! p = (c + p + 1, snd (es ! p))"
  by (induction es arbitrary: c p) (auto simp: nth_Cons split: nat.splits)

lemma renumber_seg: "y \<le> length q \<Longrightarrow> renumber c (seg B q x y) = seg c (drop x (take y q)) 0 (y - x)"
  by (rule nth_equalityI) (auto simp: seg_nth renumber_nth)

text \<open>The items that a session leaves in its file.\<close>

definition left_items :: "ghost \<Rightarrow> u8 list list" where
  "left_items g = drop (gm g) (take (gL g) (gq g))"

definition fresh_ghost :: "nat \<Rightarrow> u8 list list \<Rightarrow> nat \<Rightarrow> FIFO_file_main_header \<Rightarrow> ghost" where
  "fresh_ghost B q K h = \<lparr>gB = B, gq = q, gr = 0, gm = 0, gn = 0, ga = 0, gL = length q, gc = 0, gK = K, gh = h\<rparr>"

definition ghost_file :: "ghost \<Rightarrow> u8 list" where
  "ghost_file g = stored (gh g) (gseg g (ga g) (gL g))"

lemma left_segment:
  assumes "disk_places g" "header_ok g"
  shows "gseg g (max (ga g) (lastAckId (gh g) - gB g)) (gL g) = gseg g (gm g) (gL g)"
  using assms(2) by (cases "gm g < gL g") (auto simp: header_ok_def min_def max_def split: if_splits)

lemma ghost_stored_ok:
  assumes "disk_places g" "header_ok g" "ghost_bounds g"
  shows "stored_ok (gh g) (gseg g (ga g) (gL g))"
proof -
  have L: "gL g \<le> gN g" "gm g \<le> gN g" using assms(1) by (auto simp: disk_places_def)
  have "ids_fit (gseg g (ga g) (gL g))" using assms(3) L by (intro seg_fit) (simp add: ghost_bounds_def)
  moreover have "length (stored (gh g) (gseg g (ga g) (gL g))) < 2 ^ 63"
    using seg_bytes[OF L(1), of "gB g" "ga g"] assms(3) by (simp add: stored_def ghost_bounds_def)
  moreover have "lastAckId (gh g) < 2 ^ 64" using assms(2,3) L(2) by (auto simp: header_ok_def ghost_bounds_def)
  ultimately show ?thesis using assms(2) by (simp add: stored_ok_def header_ok_def)
qed

lemma clean_ghost:
  assumes pl: "disk_places g" and hd: "header_ok g" and b: "ghost_bounds g"
  defines "h \<equiv> clean_header (gh g) (gseg g (ga g) (gL g))"
  shows "\<exists>B. clean_items (gh g) (gseg g (ga g) (gL g)) = seg B (left_items g) 0 (length (left_items g))
    \<and> mh_currentId h = B + length (left_items g) \<and> lastAckId h = 0 \<and> mh_tag h = FIFO_FILE_TAG
    \<and> B + length (left_items g) \<le> gB g + gN g \<and> (left_items g = [] \<longrightarrow> B = 0)"
proof -
  have L: "gL g \<le> gN g" "gm g \<le> gN g" using pl by (auto simp: disk_places_def)
  have len: "length (left_items g) = gL g - gm g" using L by (simp add: left_items_def)
  note ls = left_segment[OF pl hd]
  show ?thesis
  proof (cases "lastAckId (gh g) = 0")
    case True
    then have es: "gseg g (ga g) (gL g) = gseg g (gm g) (gL g)" using ls by simp
    show ?thesis
    proof (cases "gm g < gL g")
      case lt: True
      have "h = (gh g)\<lparr>mh_currentId := gB g + gL g\<rparr>" using True lt unfolding h_def es by (simp add: clean_header_def seg_last seg_empty_iff)
      moreover have "clean_items (gh g) (gseg g (ga g) (gL g)) = seg (gB g + gm g) (left_items g) 0 (length (left_items g))"
        unfolding es len unfolding left_items_def clean_items_def using True seg_shift[OF L(1), of "gB g" "gm g"] by (simp only: if_True refl)
      moreover have "left_items g \<noteq> []" using len lt by auto
      ultimately show ?thesis using True lt L len hd
        by (intro exI[of _ "gB g + gm g"]) (simp add: header_ok_def)
    next
      case False
      then have nil: "gseg g (ga g) (gL g) = []" "left_items g = []" using es len by simp_all
      then have "gL g \<le> ga g" by (metis diff_is_0_eq length_seg list.size(3))
      then have "mh_currentId (gh g) = 0" using hd True by (auto simp: header_ok_def)
      then show ?thesis using True nil hd unfolding h_def by (simp add: clean_items_def clean_header_def header_ok_def)
    qed
  next
    case False
    have dw: "dropWhile (\<lambda>e. fst e \<le> lastAckId (gh g)) (gseg g (ga g) (gL g)) = gseg g (gm g) (gL g)"
      using ls by (simp add: seg_dropWhile)
    have "renumber 0 (gseg g (gm g) (gL g)) = seg 0 (left_items g) 0 (length (left_items g))"
      using L(1) len by (simp add: renumber_seg left_items_def)
    then show ?thesis using False dw len L unfolding h_def
      by (intro exI[of _ 0]) (simp add: clean_items_def clean_header_def FIFOFILE_DEFAULT_MAIN_HEADER_def)
  qed
qed

lemma left_queue_bytes: "queue_bytes (left_items g) \<le> queue_bytes (gq g)"
proof -
  have "gq g = take (gL g) (gq g) @ drop (gL g) (gq g)" by simp
  moreover have "take (gL g) (gq g) = take (gm g) (take (gL g) (gq g)) @ left_items g" unfolding left_items_def by (metis append_take_drop_id)
  ultimately have "gq g = take (gm g) (take (gL g) (gq g)) @ left_items g @ drop (gL g) (gq g)" by (metis append.assoc)
  then have "queue_bytes (gq g) = queue_bytes (take (gm g) (take (gL g) (gq g))) + queue_bytes (left_items g) + queue_bytes (drop (gL g) (gq g))"
    by (metis add.assoc map_append queue_bytes_def sum_list_append)
  then show ?thesis by linarith
qed

lemma left_bounds:
  assumes "ghost_bounds g" "0 < K" "B + length (left_items g) \<le> gB g + gN g"
  shows "ghost_bounds (fresh_ghost B (left_items g) K h)"
proof -
  have "set (left_items g) \<subseteq> set (gq g)" by (auto simp: left_items_def dest: in_set_dropD in_set_takeD)
  then show ?thesis using assms left_queue_bytes[of g] by (auto simp: ghost_bounds_def fresh_ghost_def)
qed

lemma open_ok:
  assumes pl: "disk_places g" and hd: "header_ok g" and b: "ghost_bounds g" and K: "0 < K"
    and fs: "holds_file fs (ghost_file g)" and sys: "calls_succeed sys"
  shows "\<exists>f B h. permFIFO_new sys True now K (Some fs) = Some (Some f, Some \<lparr>f_current = fifo_file f, f_old = None, f_new = None\<rparr>)
    \<and> perm_inv (fresh_ghost B (left_items g) (nat K) h) f \<and> B + length (left_items g) \<le> gB g + gN g"
proof -
  let ?es = "gseg g (ga g) (gL g)" and ?q = "left_items g"
  let ?h = "clean_header (gh g) ?es"
  obtain B where B: "clean_items (gh g) ?es = seg B ?q 0 (length ?q)" "mh_currentId ?h = B + length ?q" "lastAckId ?h = 0"
      "mh_tag ?h = FIFO_FILE_TAG" "B + length ?q \<le> gB g + gN g" "?q = [] \<longrightarrow> B = 0"
    using clean_ghost[OF pl hd b] by blast
  let ?g = "fresh_ghost B ?q (nat K) ?h" and ?file = "stored ?h (seg B ?q 0 (length ?q))"
  have gb: "ghost_bounds ?g" using b K B(5) by (intro left_bounds) simp_all
  have gpl: "disk_places ?g" "header_ok ?g" using B gb by (auto simp: disk_places_def header_ok_def fresh_ghost_def ghost_bounds_def)
  have st: "stored_ok ?h (seg B ?q 0 (length ?q))" using ghost_stored_ok[OF gpl gb] by (simp add: fresh_ghost_def)
  have cl: "permFIFO_file_clean sys fs = Some (0, \<lparr>f_current = Some ?file, f_old = None, f_new = None\<rparr>)"
    using clean_any[OF ghost_stored_ok[OF pl hd b], of fs sys] fs sys B(1) by (auto simp: ghost_file_def)
  obtain t where t: "ct_new K = Some t" "ct_inv t" "ct_contents t = []" "ct_capacity t = nat K" using ct_new_inv[OF K] by blast
  let ?f = "(permFIFO_empty now K (Some ?file))\<lparr>currentId := B + length ?q, lastIdOnDisk := B + length ?q, ackOnDisk := (B + length ?q \<noteq> 0)\<rparr>"
  have "permFIFO_new sys True now K (Some fs) = Some (Some ?f, Some \<lparr>f_current = Some ?file, f_old = None, f_new = None\<rparr>)"
    using cl read_main[OF st] B(2,4) by (simp add: permFIFO_new_def Let_def)
  moreover have "client_ok ?g ?f" using t B(6) by (simp add: client_ok_def permFIFO_empty_def fresh_ghost_def)
  moreover have "disk_ok ?g ?f" using t gpl unfolding disk_ok_def by (simp add: permFIFO_empty_def fresh_ghost_def stored_def)
  ultimately show ?thesis using gb B(5) by (intro exI[of _ ?f] exI[of _ B] exI[of _ ?h]) (simp add: perm_inv_def fresh_ghost_def permFIFO_empty_def)
qed

lemma open_empty:
  assumes "0 < K" "calls_succeed sys"
  shows "\<exists>f h. permFIFO_new sys True now K (Some \<lparr>f_current = None, f_old = None, f_new = None\<rparr>)
      = Some (Some f, Some \<lparr>f_current = fifo_file f, f_old = None, f_new = None\<rparr>)
    \<and> perm_inv (fresh_ghost 0 [] (nat K) h) f"
proof -
  let ?h = FIFOFILE_DEFAULT_MAIN_HEADER
  obtain t where t: "ct_new K = Some t" "ct_inv t" "ct_contents t = []" "ct_capacity t = nat K" using ct_new_inv[OF assms(1)] by blast
  have "stored_ok ?h []" by (simp add: stored_ok_def stored_def FIFOFILE_DEFAULT_MAIN_HEADER_def header_size_def)
  note m = read_main[OF this, unfolded stored_def records_bytes_simps append_Nil2]
  let ?f = "permFIFO_empty now K (Some (main_bytes ?h))"
  have "permFIFO_new sys True now K (Some \<lparr>f_current = None, f_old = None, f_new = None\<rparr>)
      = Some (Some ?f, Some \<lparr>f_current = Some (main_bytes ?h), f_old = None, f_new = None\<rparr>)"
    using assms(2) m by (simp add: permFIFO_new_def permFIFO_file_clean_def Let_def calls_succeedD FIFOFILE_DEFAULT_MAIN_HEADER_def permFIFO_empty_def)
  moreover have "perm_inv (fresh_ghost 0 [] (nat K) ?h) ?f"
    using t assms(1) by (simp add: perm_inv_def client_ok_def disk_ok_def disk_places_def header_ok_def ghost_bounds_def fresh_ghost_def permFIFO_empty_def
        FIFOFILE_DEFAULT_MAIN_HEADER_def queue_bytes_def header_size_def)
  ultimately show ?thesis by (intro exI[of _ ?f] exI[of _ ?h]) (simp add: permFIFO_empty_def)
qed


section \<open>Sessions\<close>

text \<open>A session is a list of client operations and whether the process is killed at its end instead of closing the FIFO.\<close>

fun perm_sessions :: "int \<Rightarrow> int \<Rightarrow> (perm_op list \<times> bool) list \<Rightarrow> fifo_fs \<Rightarrow> perm_reply list list res option" where
  "perm_sessions now K [] fs = Some (Inr [])"
| "perm_sessions now K ((ops, killed) # ss) fs =
     (case permFIFO_new (\<lambda>_ _. True) True now K (Some fs) of
        Some (Some f, _) \<Rightarrow>
          (case perm_run ops f [] 0 of
             Some (Inr (reps, f', ds, m)) \<Rightarrow>
               (case (if killed then Inr (0, fifo_file f') else permFIFO_destroy all_ok now f') of
                  Inl e \<Rightarrow> Some (Inl e)
                | Inr (c, file') \<Rightarrow>
                    map_option (\<lambda>x. res_bind x (\<lambda>rs. Inr (reps # rs)))
                      (perm_sessions now K ss \<lparr>f_current = file', f_old = None, f_new = None\<rparr>))
           | Some (Inl e) \<Rightarrow> Some (Inl e)
           | None \<Rightarrow> None)
      | Some (None, _) \<Rightarrow> Some (Inl (RuntimeError ''permFIFO_new''))
      | None \<Rightarrow> None)"

text \<open>What a client may see: in each session it finds the unacknowledged items of the one before it; when that one was killed, the newest of them may be
  missing, no more than fit into the table.\<close>

fun sessions_spec :: "nat \<Rightarrow> (perm_op list \<times> bool) list \<Rightarrow> u8 list list \<Rightarrow> perm_reply list list \<Rightarrow> bool" where
  "sessions_spec K [] q rs \<longleftrightarrow> rs = []"
| "sessions_spec K ((ops, killed) # ss) q [] \<longleftrightarrow> False"
| "sessions_spec K ((ops, killed) # ss) q (r # rs) \<longleftrightarrow>
     (case spec_run ops (q, 0, 0) of (reps, q', _, m) \<Rightarrow>
        r = reps
        \<and> (if killed then \<exists>L \<in> set [0..<length q' + 1]. length q' \<le> max L m + K \<and> sessions_spec K ss (drop m (take L q')) rs
           else sessions_spec K ss (drop m q') rs))"

definition openable :: "int \<Rightarrow> int \<Rightarrow> fifo_fs \<Rightarrow> nat \<Rightarrow> u8 list list \<Rightarrow> bool" where
  "openable now K fs B q \<longleftrightarrow>
     (\<exists>f h. permFIFO_new (\<lambda>_ _. True) True now K (Some fs) = Some (Some f, Some \<lparr>f_current = fifo_file f, f_old = None, f_new = None\<rparr>)
        \<and> perm_inv (fresh_ghost B q (nat K) h) f)"

lemma reopen:
  assumes inv: "perm_inv g f" and K: "0 < K"
  shows "\<exists>B. openable now K \<lparr>f_current = fifo_file f, f_old = None, f_new = None\<rparr> B (left_items g) \<and> B + length (left_items g) \<le> gB g + gN g"
proof -
  have "disk_ok g f" "ghost_bounds g" using inv by (auto simp: perm_inv_def)
  then have p: "disk_places g" "header_ok g" "fifo_file f = Some (ghost_file g)" by (auto simp: disk_ok_def ghost_file_def stored_def)
  then have "holds_file \<lparr>f_current = fifo_file f, f_old = None, f_new = None\<rparr> (ghost_file g)" by (simp add: holds_file_def)
  from open_ok[OF p(1,2) \<open>ghost_bounds g\<close> K this, of "\<lambda>_ _. True" now]
  show ?thesis unfolding openable_def calls_succeed_def by blast
qed

lemma sessions_ok:
  assumes "openable now K fs B q" "0 < K" "\<forall>s \<in> set ss. list_all op_ok (fst s)"
    and "in_limits B (q @ concat (map (written \<circ> fst) ss))"
  shows "\<exists>rs. perm_sessions now K ss fs = Some (Inr rs) \<and> sessions_spec (nat K) ss q rs"
  using assms
proof (induction ss arbitrary: fs B q)
  case Nil
  then show ?case by simp
next
  case (Cons s ss)
  obtain ops killed where s: "s = (ops, killed)" by (cases s)
  obtain f h where f: "permFIFO_new (\<lambda>_ _. True) True now K (Some fs) = Some (Some f, Some \<lparr>f_current = fifo_file f, f_old = None, f_new = None\<rparr>)"
      "perm_inv (fresh_ghost B q (nat K) h) f"
    using Cons.prems(1) by (auto simp: openable_def)
  let ?g = "fresh_ghost B q (nat K) h"
  have v: "client_view ?g = (q, 0, 0)" "gB ?g = B" "gq ?g = q" "gr ?g = 0" "gm ?g = 0" "gK ?g = nat K" by (simp_all add: client_view_def fresh_ghost_def)
  have "in_limits B (q @ written ops)"
    using Cons.prems(4) s in_limits_append[of B "q @ written ops"] by simp
  then obtain f' g' where r: "perm_run ops f [] 0 = Some (Inr (fst (spec_run ops (q, 0, 0)), f', gseg g' 0 (gr g'), gm g'))"
      "perm_inv g' f'" "client_view g' = snd (spec_run ops (q, 0, 0))" "gB g' = B" "gK g' = nat K" "gq g' = q @ written ops"
    using perm_run_ok[OF f(2), of ops] Cons.prems(3) s unfolding v by auto
  obtain reps where sp: "spec_run ops (q, 0, 0) = (reps, gq g', gr g', gm g')"
    using r(3) by (cases "spec_run ops (q, 0, 0)") (simp add: client_view_def)
  define g2 where "g2 = (if killed then g' else saved g')"
  obtain f2 where f2: "(if killed then Inr (0, fifo_file f') else permFIFO_destroy all_ok now f') = Inr (0, fifo_file f2)" "perm_inv g2 f2"
  proof (cases killed)
    case True
    then show ?thesis using r(2) that by (simp add: g2_def)
  next
    case False
    obtain f2 where s: "permFIFO_save_tabledisk all_ok now f' = Inr (0, f2)" "perm_inv (saved g') f2" using save_inv[OF r(2), of all_ok now] by auto
    obtain y where "fifo_file f' = Some y" using r(2) by (auto simp: perm_inv_def disk_ok_def)
    then have "permFIFO_destroy all_ok now f' = Inr (0, fifo_file f2)" using s(1) by (simp add: permFIFO_destroy_def)
    then show ?thesis using s(2) that[of f2] False by (simp add: g2_def)
  qed
  obtain B2 where B2: "openable now K \<lparr>f_current = fifo_file f2, f_old = None, f_new = None\<rparr> B2 (left_items g2)"
      "B2 + length (left_items g2) \<le> gB g2 + gN g2"
    using reopen[OF f2(2) Cons.prems(2)] by blast
  have "gq g2 = q @ written ops" "gB g2 = B" "gm g2 = gm g'" using r by (simp_all add: g2_def)
  have lim: "in_limits B2 (left_items g2 @ concat (map (written \<circ> fst) ss))"
    using Cons.prems(4) s B2(2) left_queue_bytes[of g2] \<open>gq g2 = q @ written ops\<close> \<open>gB g2 = B\<close>
    by (auto simp: in_limits_def queue_bytes_def comp_def)
  obtain rs where rs: "perm_sessions now K ss \<lparr>f_current = fifo_file f2, f_old = None, f_new = None\<rparr> = Some (Inr rs)"
      "sessions_spec (nat K) ss (left_items g2) rs"
    using Cons.IH[OF B2(1) Cons.prems(2) _ lim] Cons.prems(3) by auto
  have run: "perm_sessions now K (s # ss) fs = Some (Inr (reps # rs))"
    using s f(1) r(1) f2(1) rs(1) sp by simp
  have dl: "disk_ok g' f'" using r(2) by (simp add: perm_inv_def)
  have "sessions_spec (nat K) (s # ss) q (reps # rs)"
  proof (cases killed)
    case True
    have pl: "gL g' \<le> gN g'" using dl by (simp add: disk_ok_def disk_places_def)
    have "gN g' - max (gL g') (gm g') \<le> nat K" using dl r(5) by (auto simp: disk_ok_def dest: ct_shape(5))
    then have bd: "gL g' \<in> set [0..<gN g' + 1]" "gN g' \<le> max (gL g') (gm g') + nat K" using pl by auto
    have "sessions_spec (nat K) ss (drop (gm g') (take (gL g') (gq g'))) rs" using rs(2) True by (simp add: g2_def left_items_def)
    then have "\<exists>L \<in> set [0..<gN g' + 1]. gN g' \<le> max L (gm g') + nat K \<and> sessions_spec (nat K) ss (drop (gm g') (take L (gq g'))) rs"
      using bd by blast
    then show ?thesis unfolding s sessions_spec.simps sp using True by (simp only: prod.case fst_conv if_True)
  next
    case False
    have "max (gL (saved g')) (gm g') = gN g'" using saved_places(2) dl by (simp add: disk_ok_def)
    then have "left_items g2 = drop (gm g') (gq g')" using False by (auto simp: g2_def left_items_def max_def split: if_splits)
    then have "sessions_spec (nat K) ss (drop (gm g') (gq g')) rs" using rs(2) by simp
    then show ?thesis unfolding s sessions_spec.simps sp using False by (simp only: prod.case fst_conv if_False)
  qed
  then show ?case using run by blast
qed

end
