(* ===== verification/Log_Properties.thy ===== *)
theory Log_Properties
  imports Perm_Fifo_Reopen
begin

text \<open>The properties of the log transport.\<close>

section \<open>The permanent FIFO\<close>

text \<open>(C5) Nothing that is written to a permanent FIFO is lost, repeated or reordered, over any number of runs of the process. In each session
  the client reads the items that it had not acknowledged in the one before, then those it writes, in order, and learns that there is nothing left
  only when it has read all; every write, acknowledgement and flush succeeds. If a process is killed, the next one may miss the newest items, no more than the size of
  the FIFO, and none from the middle. This holds up to \<open>2 ^ 32 - 2\<close> items and \<open>2 ^ 63\<close> bytes.\<close>

theorem perm_fifo_sessions:
  assumes "0 < K" "\<forall>s \<in> set ss. list_all op_ok (fst s)" "in_limits 0 (concat (map (written \<circ> fst) ss))"
  shows "\<exists>rs. perm_sessions now K ss \<lparr>f_current = None, f_old = None, f_new = None\<rparr> = Some (Inr rs) \<and> sessions_spec (nat K) ss [] rs"
proof -
  have "openable now K \<lparr>f_current = None, f_old = None, f_new = None\<rparr> 0 []"
    using open_empty[OF assms(1), of "\<lambda>_ _. True" now] by (simp add: openable_def calls_succeed_def)
  then show ?thesis using sessions_ok[of now K _ 0 "[]" ss] assms by simp
qed

definition test_sessions :: "(perm_op list \<times> bool) list" where
  "test_sessions =
     [([PWrite [7] 1 0, PWrite [8] 1 0, PWrite [9] 1 0, PRead, PRead, PAck 0], False),
      ([PRead, PWrite [65, 66, 0, 67] 0 0, PRead, PRead, PRead, PAck 1, PFlush 0 0], False)]"

theorem perm_fifo_sessions_witness:
  "perm_sessions 0 2 test_sessions \<lparr>f_current = None, f_old = None, f_new = None\<rparr> = Some (Inr
     [[Code 0, Code 0, Code 0, Item [7], Item [8], Code 0],
      [Item [8], Code 0, Item [9], Item [65, 66, 0], Code 1, Code 0, Code 0]])"
proof -
  have "\<exists>rs. perm_sessions 0 2 test_sessions \<lparr>f_current = None, f_old = None, f_new = None\<rparr> = Some (Inr rs)
        \<and> sessions_spec (nat 2) test_sessions [] rs"
    by (rule perm_fifo_sessions)
      (simp_all add: test_sessions_def written_def item_bytes_def in_limits_def queue_bytes_def header_size_def)
  then obtain rs where rs: "perm_sessions 0 2 test_sessions \<lparr>f_current = None, f_old = None, f_new = None\<rparr> = Some (Inr rs)"
      "sessions_spec (nat 2) test_sessions [] rs"
    by blast
  obtain r1 r2 where "rs = [r1, r2]"
    using rs(2) unfolding test_sessions_def by (cases rs; cases "tl rs") (auto simp: item_bytes_def split: prod.splits)
  then have "rs = [[Code 0, Code 0, Code 0, Item [7], Item [8], Code 0],
      [Item [8], Code 0, Item [9], Item [65, 66, 0], Code 1, Code 0, Code 0]]"
    using rs(2) by (simp add: test_sessions_def item_bytes_def)
  with rs(1) show ?thesis by simp
qed

text \<open>The identifier of the next item is cut to 32 bits in one place, so a FIFO that has counted to \<open>2 ^ 32\<close> does not find an item that is only in its
  disk table: the read fails although the item is there.\<close>

lemma perm_fifo_long_run:
  assumes c: "table_client f = Some c" "ct_inv c" "ct_contents c = []" and t: "table_disk f = Some t" "ct_inv t" "ct_contents t = [(2 ^ 32, d)]"
    and f: "fifo_file f = Some (main_bytes hm)" "lastOutOffset f = header_size" "lastIdOut f = 2 ^ 32 - 1" "currentId f = 2 ^ 32"
    and K: "0 < ct_capacity c"
  shows "permFIFO_read wait 0 f = Some (Inr (-1, EMPTY_FIFO_ITEM, f))"
proof -
  have "uint32 (lastIdOut f + 1) = 0" using f(3) by (simp add: uint32_def)
  then have s: "disk_scan (nat (n_items t)) 0 t (uint32 (lastIdOut f + 1)) 0 EMPTY_FIFO_ITEM f = Inr (0, EMPTY_FIFO_ITEM, f)"
    using disk_scan_none[OF t(2), of 0 EMPTY_FIFO_ITEM f] t(3) ct_shape(4)[OF t(2)] by simp
  have "n_items c \<noteq> ct_size c" using ct_shape(2,4)[OF c(2)] c(3) by simp
  then have l: "ct_load (main_bytes hm) header_size (lastIdOut f + 1) c = Some (Inr (0, header_size, c))"
    by (subst ct_load.simps) (simp add: file_read_def)
  have same: "f\<lparr>table_client := Some c, lastOutOffset := header_size\<rparr> = f" using c(1) f(2) by simp
  have "n_items c = 0" using ct_shape(4)[OF c(2)] c(3) by simp
  moreover have "client_read EMPTY_FIFO_ITEM f = Inr (-1, EMPTY_FIFO_ITEM, f)" using client_none[OF c] .
  ultimately have "load_client EMPTY_FIFO_ITEM f = Some (Inr (-1, EMPTY_FIFO_ITEM, f))"
    using c(1) f(1,2) l unfolding load_client_def by (simp only: option.case prod.case sum.case Let_def if_True same) simp
  moreover have "lastIdOut f < currentId f" using f by simp
  ultimately show ?thesis using client_none[OF c] t(1) s by (simp add: permFIFO_read_def read_item_def Let_def)
qed

section \<open>Its files\<close>

fun clean_attempts :: "(int \<Rightarrow> nat \<Rightarrow> bool) list \<Rightarrow> fifo_fs \<Rightarrow> fifo_fs option" where
  "clean_attempts [] fs = Some fs"
| "clean_attempts (sys # ss) fs = (case permFIFO_file_clean sys fs of None \<Rightarrow> None | Some (c, fs') \<Rightarrow> clean_attempts ss fs')"

lemma clean_stored_ok:
  assumes "stored_ok hm es"
  shows "stored_ok (clean_header hm es) (clean_items hm es)"
proof (cases "lastAckId hm = 0")
  case True
  then show ?thesis using assms by (cases "es = []") (auto simp: stored_ok_def clean_header_def clean_items_def stored_def ids_fit_def)
next
  case False
  define d where "d = dropWhile (\<lambda>e. fst e \<le> lastAckId hm) es"
  have h: "clean_header hm es = FIFOFILE_DEFAULT_MAIN_HEADER\<lparr>mh_currentId := length d\<rparr>" and i: "clean_items hm es = renumber 0 d"
    using False by (simp_all add: clean_header_def clean_items_def d_def)
  have l: "length (records_bytes (renumber c xs)) = length (records_bytes xs)" for c and xs :: "entry list"
    by (induction xs arbitrary: c) auto
  have n: "length xs \<le> length (records_bytes xs)" for xs :: "entry list"
    by (induction xs) (auto simp: header_size_def)
  have ids: "\<forall>e \<in> set (renumber c xs). fst e \<le> c + length xs" for c and xs :: "entry list"
    by (induction xs arbitrary: c) (auto, fastforce)
  have "length (records_bytes es) = length (records_bytes (takeWhile (\<lambda>e. fst e \<le> lastAckId hm) es)) + length (records_bytes d)"
    unfolding d_def by (metis length_append records_bytes_simps(3) takeWhile_dropWhile_id)
  then have b: "header_size + length (records_bytes d) < 2 ^ 63" using assms by (auto simp: stored_ok_def stored_def)
  then have "length d < 2 ^ 63" using n[of d] by linarith
  moreover have "ids_fit (renumber 0 d)" using ids[of 0 d] \<open>length d < 2 ^ 63\<close> by (force simp: ids_fit_def)
  ultimately show ?thesis unfolding h i using b l[of 0 d] by (simp add: stored_ok_def stored_def FIFOFILE_DEFAULT_MAIN_HEADER_def)
qed

text \<open>(C16) Cleaning the files is safe against interruption. For any well-formed FIFO file, after any number of attempts in which any of the system calls
  fail, a cleaning that succeeds leaves exactly what it would have left at once: the items that have not been acknowledged, in order, and no
  other file.\<close>

theorem clean_crash_safe:
  assumes "stored_ok hm es" "holds_file fs (stored hm es)" "calls_succeed sys"
  shows "\<exists>fs'. clean_attempts attempts fs = Some fs' \<and> permFIFO_file_clean sys fs'
    = Some (0, \<lparr>f_current = Some (stored (clean_header hm es) (clean_items hm es)), f_old = None, f_new = None\<rparr>)"
proof -
  let ?h = "clean_header hm es" and ?i = "clean_items hm es"
  have st: "stored_ok ?h ?i" using assms(1) by (rule clean_stored_ok)
  have "\<exists>fs'. clean_attempts attempts fs = Some fs' \<and> (holds_file fs' (stored hm es) \<or> holds_file fs' (stored ?h ?i))"
    if "holds_file fs (stored hm es) \<or> holds_file fs (stored ?h ?i)"
    using that
  proof (induction attempts arbitrary: fs)
    case (Cons a attempts)
    obtain c fs1 where "permFIFO_file_clean a fs = Some (c, fs1)" "holds_file fs1 (stored hm es) \<or> holds_file fs1 (stored ?h ?i)"
      using Cons.prems clean_any[OF assms(1), of fs a] clean_any[OF st, of fs a] clean_again[OF assms(1)] by auto
    then show ?case using Cons.IH[of fs1] by simp
  qed simp
  then obtain fs' where fs': "clean_attempts attempts fs = Some fs'" "holds_file fs' (stored hm es) \<or> holds_file fs' (stored ?h ?i)"
    using assms(2) by blast
  then show ?thesis
    using clean_any[OF assms(1), of fs' sys] clean_any[OF st, of fs' sys] clean_again[OF assms(1)] assms(3) by auto
qed

definition test_file :: "u8 list" where
  "test_file = stored \<lparr>mh_tag = FIFO_FILE_TAG, lastAckId = 1, mh_currentId = 2\<rparr> [(1, [7]), (2, [8])]"

theorem clean_crash_safe_witness:
  "\<exists>fs'. clean_attempts [\<lambda>c n. c \<noteq> 16, \<lambda>c n. c \<noteq> 42] \<lparr>f_current = Some test_file, f_old = None, f_new = None\<rparr> = Some fs'
    \<and> permFIFO_file_clean (\<lambda>_ _. True) fs'
      = Some (0, \<lparr>f_current = Some (stored (FIFOFILE_DEFAULT_MAIN_HEADER\<lparr>mh_currentId := 1\<rparr>) [(1, [8])]), f_old = None, f_new = None\<rparr>)"
proof -
  let ?h = "\<lparr>mh_tag = FIFO_FILE_TAG, lastAckId = 1, mh_currentId = 2\<rparr>" and ?es = "[(1, [7]), (2, [8])] :: entry list"
  have "stored_ok ?h ?es" by (simp add: stored_ok_def stored_def record_bytes_def header_size_def)
  moreover have "holds_file \<lparr>f_current = Some test_file, f_old = None, f_new = None\<rparr> (stored ?h ?es)"
    by (simp add: holds_file_def test_file_def)
  moreover have "calls_succeed (\<lambda>_ _. True)" by (simp add: calls_succeed_def)
  moreover have "clean_header ?h ?es = FIFOFILE_DEFAULT_MAIN_HEADER\<lparr>mh_currentId := 1\<rparr>" "clean_items ?h ?es = [(1, [8])]"
    by (simp_all add: clean_header_def clean_items_def)
  ultimately show ?thesis using clean_crash_safe[of ?h ?es _ "\<lambda>_ _. True" "[\<lambda>c n. c \<noteq> 16, \<lambda>c n. c \<noteq> 42]"] by simp
qed

text \<open>The first creation is not safe: when the new file has been created but its header has not been written, every later attempt to open the
  FIFO fails with error 5 and leaves the empty file in place.\<close>

lemma clean_empty_file_stays:
  assumes "sys 1 0" "\<not> sys 2 0" "sys' 4 0"
  shows "\<exists>fs. permFIFO_file_clean sys \<lparr>f_current = None, f_old = None, f_new = None\<rparr> = Some (2, fs)
    \<and> permFIFO_file_clean sys' fs = Some (5, fs) \<and> permFIFO_new sys' ok now K (Some fs) = Some (None, Some fs)"
  using assms by (simp add: permFIFO_file_clean_def clean_existing_def permFIFO_new_def Let_def file_read_def)

end
