(* ===== verification/Log_Message.thy ===== *)
theory Log_Message
  imports Text_Input
begin

text \<open>
  Log messages and their text form (src/InfoLogger/src/infoLoggerMessage.c and infoLoggerMessage.h): the table of
  protocols, the bounded print buffer \<^verbatim>\<open>mysprintf\<close>, the encoder that writes one record per line of a message, and the
  conversion of a message to the default protocol.

  \<^item> A C string is the list of its characters without the terminating zero; a NULL pointer is \<open>None\<close>.
  \<^item> The undefined flag and the value of a field are an option. Reading another member of the value union than the one
    that was stored is the exception \<open>WrongUnionMember\<close>.
  \<^item> A protocol is referred to by its place in the table, as the code does with pointers into it. The descriptions of the
    fields, all empty, are left out.
  \<^item> How \<^verbatim>\<open>%lf\<close> prints and scans a double is an argument; \<^verbatim>\<open>%d\<close> is defined here. A printed text is shorter than
    \<open>2^31\<close> characters, so \<^verbatim>\<open>vsnprintf\<close> never answers with an error.
  \<^item> Error results are the numbers of the source lines that return them, as in the code.
\<close>

section \<open>Protocols\<close>

datatype field_type = TypeNull | TypeString | TypeInt | TypeDouble

record field_def =
  fieldType :: field_type
  fieldName :: "string option"

record log_protocol =
  protoVersion :: "string option"
  numberOfFields :: int
  protoFields :: "field_def list"
  convertIndex :: "int list"

definition INFOLOG_FIELDS_MAX :: nat where "INFOLOG_FIELDS_MAX = 18"

definition field :: "field_type \<Rightarrow> string \<Rightarrow> field_def" where
  "field t n = \<lparr>fieldType = t, fieldName = Some n\<rparr>"

text \<open>The rest of an array that is only partly initialised is zero.\<close>

definition fields_array :: "field_def list \<Rightarrow> field_def list" where
  "fields_array fs = fs @ replicate (INFOLOG_FIELDS_MAX - length fs) \<lparr>fieldType = TypeNull, fieldName = None\<rparr>"

definition protocol_def :: "string \<Rightarrow> int \<Rightarrow> field_def list \<Rightarrow> log_protocol" where
  "protocol_def v n fs = \<lparr>protoVersion = Some v, numberOfFields = n, protoFields = fields_array fs,
     convertIndex = -1 # replicate (INFOLOG_FIELDS_MAX - 1) 0\<rparr>"

definition protocol_1_4 :: log_protocol where
  "protocol_1_4 = protocol_def ''1.4'' 16
     [field TypeString ''severity'', field TypeInt ''level'', field TypeDouble ''timestamp'', field TypeString ''hostname'',
      field TypeString ''rolename'', field TypeInt ''pid'', field TypeString ''username'', field TypeString ''system'',
      field TypeString ''facility'', field TypeString ''detector'', field TypeString ''partition'', field TypeInt ''run'',
      field TypeInt ''errcode'', field TypeInt ''errline'', field TypeString ''errsource'', field TypeString ''message'']"

definition protocol_1_3 :: log_protocol where
  "protocol_1_3 = protocol_def ''1.3'' 17
     [field TypeString ''severity'', field TypeInt ''level'', field TypeDouble ''timestamp'', field TypeString ''hostname'',
      field TypeString ''rolename'', field TypeInt ''pid'', field TypeString ''username'', field TypeString ''system'',
      field TypeString ''facility'', field TypeString ''detector'', field TypeString ''partition'', field TypeString ''dest'',
      field TypeInt ''run'', field TypeInt ''errcode'', field TypeInt ''errline'', field TypeString ''errsource'',
      field TypeString ''message'']"

definition protocol_1_2 :: log_protocol where
  "protocol_1_2 = protocol_def ''1.2'' 11
     [field TypeString ''severity'', field TypeDouble ''timestamp'', field TypeString ''hostname'', field TypeString ''rolename'',
      field TypeInt ''pid'', field TypeString ''username'', field TypeString ''system'', field TypeString ''facility'',
      field TypeString ''dest'', field TypeInt ''run'', field TypeString ''message'']"

text \<open>The two statics of the file: the table and whether the conversion indices have been filled in.\<close>

record log_statics =
  protocols :: "log_protocol list"
  infolog_msg_isInit :: bool

definition initial_statics :: log_statics where
  "initial_statics = \<lparr>protocols = [protocol_1_4, protocol_1_3, protocol_1_2], infolog_msg_isInit = False\<rparr>"

text \<open>The checks of \<^verbatim>\<open>infoLog_proto_init\<close> on one protocol, in their order.\<close>

fun check_fields :: "field_def list \<Rightarrow> int" where
  "check_fields [] = 0"
| "check_fields (f # fs) =
     (if fieldName f = None then 328 else if fieldType f = TypeNull then 332 else check_fields fs)"

definition check_protocol :: "log_protocol \<Rightarrow> int" where
  "check_protocol p =
     (if protoVersion p = None then 324
      else if numberOfFields p \<le> 0 then 325
      else if numberOfFields p > int INFOLOG_FIELDS_MAX then 326
      else let n = nat (numberOfFields p); e = check_fields (take n (protoFields p)); l = protoFields p ! (n - 1)
           in if e \<noteq> 0 then e
              else if fieldType l \<noteq> TypeString then 336
              else if fieldName l \<noteq> Some ''message'' then 337
              else 0)"

text \<open>The place of the field with the same name and type in the default protocol, \<open>-1\<close> if it has none.\<close>

fun matching_field :: "field_def \<Rightarrow> field_def list \<Rightarrow> int \<Rightarrow> int" where
  "matching_field f [] k = -1"
| "matching_field f (g # gs) k =
     (if fieldType g = fieldType f \<and> fieldName g = fieldName f then k else matching_field f gs (k + 1))"

definition init_conversion :: "log_protocol \<Rightarrow> log_protocol \<Rightarrow> log_protocol" where
  "init_conversion p0 p =
     (let n = nat (numberOfFields p); reference = take (nat (numberOfFields p0)) (protoFields p0)
      in p\<lparr>convertIndex := map (\<lambda>f. matching_field f reference 0) (take n (protoFields p)) @ drop n (convertIndex p)\<rparr>)"

fun init_protocols :: "log_protocol \<Rightarrow> log_protocol list \<Rightarrow> int \<times> log_protocol list" where
  "init_protocols p0 [] = (0, [])"
| "init_protocols p0 (p # ps) =
     (if check_protocol p \<noteq> 0 then (check_protocol p, p # ps)
      else let (e, ps') = init_protocols p0 ps in (e, init_conversion p0 p # ps'))"

definition infoLog_proto_init :: "log_statics \<Rightarrow> int \<times> log_statics" where
  "infoLog_proto_init st =
     (let (e, ps) = init_protocols (hd (protocols st)) (protocols st)
      in (e, st\<lparr>protocols := ps, infolog_msg_isInit := infolog_msg_isInit st \<or> e = 0\<rparr>))"


section \<open>Messages\<close>

datatype 'd field_value = VString "string option" | VInt int | VDouble 'd

record 'd msg_field =
  fieldValue :: "'d field_value option"
  fieldLength :: int

record 'd log_msg =
  msgValues :: "'d msg_field list"
  msgProtocol :: "nat option"

definition undefined_field :: "'d msg_field" where
  "undefined_field = \<lparr>fieldValue = None, fieldLength = 0\<rparr>"

definition infoLog_msg_init :: "'d log_msg" where
  "infoLog_msg_init = \<lparr>msgValues = replicate INFOLOG_FIELDS_MAX undefined_field, msgProtocol = None\<rparr>"

fun find_field :: "string \<Rightarrow> field_def list \<Rightarrow> int \<Rightarrow> int" where
  "find_field n [] i = -1"
| "find_field n (f # fs) i = (if fieldName f = Some n then i else find_field n fs (i + 1))"

definition infoLog_msg_findField :: "log_statics \<Rightarrow> string option \<Rightarrow> int" where
  "infoLog_msg_findField st name =
     (case name of
        None \<Rightarrow> -1
      | Some n \<Rightarrow> find_field n (take (nat (numberOfFields (protocols st ! 0))) (protoFields (protocols st ! 0))) 0)"

text \<open>The conversion of a message to the default protocol, field by field in the order of its own protocol.\<close>

fun convert_values :: "int list \<Rightarrow> 'd msg_field list \<Rightarrow> 'd msg_field list \<Rightarrow> 'd msg_field list" where
  "convert_values [] vs new = new"
| "convert_values (c # cs) [] new = new"
| "convert_values (c # cs) (v # vs) new = convert_values cs vs (if c = -1 then new else new[nat c := v])"

definition infoLog_msg_convert :: "log_statics \<Rightarrow> 'd log_msg \<Rightarrow> int \<times> 'd log_msg" where
  "infoLog_msg_convert st m =
     (if msgProtocol m = Some 0 then (0, m)
      else if \<not> infolog_msg_isInit st then (370, m)
      else case msgProtocol m of
             None \<Rightarrow> (371, m)
           | Some i \<Rightarrow>
               let p = protocols st ! i
               in (0, m\<lparr>msgValues := convert_values (take (nat (numberOfFields p)) (convertIndex p)) (msgValues m)
                                        (replicate INFOLOG_FIELDS_MAX undefined_field),
                        msgProtocol := Some 0\<rparr>))"


section \<open>The print buffer\<close>

record out_buffer =
  outSize :: int
  outText :: string
  outError :: bool

abbreviation strLength :: "out_buffer \<Rightarrow> int" where
  "strLength s \<equiv> int (length (outText s))"

definition mysprintf_init :: "int \<Rightarrow> int \<times> out_buffer" where
  "mysprintf_init n =
     (if n \<le> 0 then (134, \<lparr>outSize = 0, outText = [], outError = True\<rparr>)
      else (0, \<lparr>outSize = n, outText = [], outError = False\<rparr>))"

definition mysprintf :: "string \<Rightarrow> out_buffer \<Rightarrow> int \<times> out_buffer" where
  "mysprintf text s =
     (if outError s then (-1, s)
      else if int (length text) + strLength s \<ge> outSize s
      then (-1, s\<lparr>outError := True, outText := take (nat (outSize s - 1)) (outText s @ text)\<rparr>)
      else (0, s\<lparr>outText := outText s @ text\<rparr>))"

abbreviation sprint :: "string \<Rightarrow> out_buffer \<Rightarrow> out_buffer" where
  "sprint text s \<equiv> snd (mysprintf text s)"

text \<open>\<^verbatim>\<open>strLength=ix; buffer[ix]=0; isError=0\<close>.\<close>

definition cut_at :: "int \<Rightarrow> out_buffer \<Rightarrow> out_buffer" where
  "cut_at ix s = s\<lparr>outText := take (nat ix) (outText s), outError := False\<rparr>"


section \<open>Printing and scanning numbers\<close>

definition digit_char :: "nat \<Rightarrow> char" where "digit_char d = ''0123456789'' ! d"

fun print_nat :: "nat \<Rightarrow> string" where
  "print_nat n = (if n < 10 then [digit_char n] else print_nat (n div 10) @ [digit_char (n mod 10)])"

declare print_nat.simps [simp del]

definition print_int :: "int \<Rightarrow> string" where
  "print_int i = (if i < 0 then CHR ''-'' # print_nat (nat (- i)) else print_nat (nat i))"

definition is_space :: "char \<Rightarrow> bool" where
  "is_space c \<longleftrightarrow> c \<in> {CHR '' '', CHR 0x09, CHR 0x0A, CHR 0x0B, CHR 0x0C, CHR 0x0D}"

definition is_digit :: "char \<Rightarrow> bool" where
  "is_digit c \<longleftrightarrow> c \<in> set ''0123456789''"

fun digits_value :: "nat \<Rightarrow> string \<Rightarrow> nat" where
  "digits_value n [] = n"
| "digits_value n (c # cs) = digits_value (10 * n + ((of_char c :: nat) - 48)) cs"

text \<open>\<^verbatim>\<open>sscanf(start,"%d",&i)\<close>: white space, a sign, digits. A number that an \<^verbatim>\<open>int\<close> cannot hold is undefined behaviour.\<close>

definition scan_int :: "string \<Rightarrow> int option res" where
  "scan_int s =
     (let t = dropWhile is_space s;
          negative = (t \<noteq> [] \<and> hd t = CHR ''-'');
          u = (if t \<noteq> [] \<and> (hd t = CHR ''-'' \<or> hd t = CHR ''+'') then tl t else t);
          ds = takeWhile is_digit u;
          v = (if negative then - int (digits_value 0 ds) else int (digits_value 0 ds))
      in if ds = [] then Inr None
         else if v < - (2 ^ 31) \<or> 2 ^ 31 \<le> v then Inl SignedOverflow
         else Inr (Some v))"

record 'd double_text =
  printDouble :: "'d \<Rightarrow> string"
  scanDouble :: "string \<Rightarrow> 'd option"
  isPositive :: "'d \<Rightarrow> bool"


section \<open>The encoder\<close>

definition clean_char :: "char \<Rightarrow> char" where
  "clean_char c = (if c = CHR ''*'' \<or> c = CHR ''#'' \<or> c = newline then CHR ''?'' else c)"

text \<open>The replacement of the special characters, from the place \<open>ix\<close> of the buffer on.\<close>

definition replace_special :: "int \<Rightarrow> out_buffer \<Rightarrow> out_buffer" where
  "replace_special ix s = s\<lparr>outText := take (nat ix) (outText s) @ map clean_char (drop (nat ix) (outText s))\<rparr>"

text \<open>
  One field: \<open>split\<close> says that it is the field whose lines become records, \<open>sol\<close> is what is left of its text. The result is
  the buffer, the place where the text of a string starts (or \<open>-1\<close>) and an error number.
\<close>

definition encode_field ::
  "'d double_text \<Rightarrow> bool \<Rightarrow> string option \<Rightarrow> field_def \<times> 'd msg_field \<Rightarrow> out_buffer \<Rightarrow> (out_buffer \<times> int \<times> int) res" where
  "encode_field D split sol fv s =
     (let s1 = sprint ''#'' s
      in case fieldValue (snd fv) of
           None \<Rightarrow> Inr (s1, -1, 0)
         | Some value \<Rightarrow>
             (case fieldType (fst fv) of
                TypeString \<Rightarrow>
                  (case value of
                     VString v \<Rightarrow>
                       let ix = strLength s1
                       in (case (if split then sol else v) of
                             None \<Rightarrow> Inr (s1, ix, 0)
                           | Some text \<Rightarrow>
                               let s2 = sprint text s1;
                                   newl = ix + int (length (takeWhile (\<lambda>c. c \<noteq> newline) text));
                                   s3 = (if split \<and> newline \<in> set text \<and> 0 \<le> newl \<and> newl < outSize s2
                                         then cut_at newl s2 else s2)
                               in Inr (replace_special ix s3, ix, 0))
                   | _ \<Rightarrow> Inl WrongUnionMember)
              | TypeInt \<Rightarrow> (case value of VInt i \<Rightarrow> Inr (sprint (print_int i) s1, -1, 0) | _ \<Rightarrow> Inl WrongUnionMember)
              | TypeDouble \<Rightarrow>
                  (case value of VDouble d \<Rightarrow> Inr (sprint (printDouble D d) s1, -1, 0) | _ \<Rightarrow> Inl WrongUnionMember)
              | TypeNull \<Rightarrow> Inr (sprint ''?'' s1, -1, 260)))"

text \<open>The loop over the fields stops behind the first field that does not fit; \<open>i\<close> is the place it has reached.\<close>

fun encode_fields ::
  "'d double_text \<Rightarrow> int \<Rightarrow> string option \<Rightarrow> int \<Rightarrow> (field_def \<times> 'd msg_field) list
     \<Rightarrow> out_buffer \<times> int \<times> int \<Rightarrow> (out_buffer \<times> int \<times> int \<times> int) res" where
  "encode_fields D split sol i [] (s, ix, err) = Inr (s, ix, i, err)"
| "encode_fields D split sol i (fv # fvs) (s, ix, err) =
     res_bind (encode_field D (i = split) sol fv s)
       (\<lambda>(s', ix', e).
          let err' = (if e \<noteq> 0 then e else err)
          in if outError s' then Inr (s', ix', i, err')
             else encode_fields D split sol (i + 1) fvs (s', ix', err'))"

definition truncateMsg :: string where "truncateMsg = '' [...]'' @ [newline]"

definition sizeof_truncateMsg :: int where "sizeof_truncateMsg = 8"

text \<open>\<^verbatim>\<open>(int)\<close> of a \<^verbatim>\<open>size_t\<close>.\<close>

definition to_int :: "int \<Rightarrow> int" where "to_int x = sint (word_of_int x :: 32 word)"

text \<open>Where the mark of a truncated text goes, \<open>-1\<close> for nowhere.\<close>

definition truncate_at :: "int \<Rightarrow> int \<Rightarrow> int \<Rightarrow> int \<Rightarrow> int \<Rightarrow> int" where
  "truncate_at bufferSize n ix i lastGood =
     (let t = to_int (bufferSize - sizeof_truncateMsg);
          a = (if ix \<ge> 0 \<and> i + 1 \<ge> n then (if t < ix then -1 else t) else -1)
      in if a < 0 \<and> lastGood \<ge> 0 then lastGood - 1 else a)"

text \<open>
  One pass of the loop over the lines: the buffer, the error number and whether the text has been truncated. \<open>another\<close> says
  that there is a line behind this one.
\<close>

definition encode_record ::
  "'d double_text \<Rightarrow> string \<Rightarrow> int \<Rightarrow> (field_def \<times> 'd msg_field) list \<Rightarrow> int \<Rightarrow> int \<Rightarrow> string option \<Rightarrow> bool
     \<Rightarrow> int \<Rightarrow> out_buffer \<Rightarrow> (out_buffer \<times> int \<times> bool) res" where
  "encode_record D version n fvs bufferSize split sol another lastGood s =
     res_bind (encode_fields D split sol 0 fvs (sprint (CHR ''*'' # version) s, -1, 0))
       (\<lambda>(s1, ix, i, err).
          let s2 = sprint [newline] s1
          in if outError s2 \<or> another \<and> to_int (strLength s2 + sizeof_truncateMsg) > bufferSize
             then let t = truncate_at bufferSize n ix i lastGood
                  in if t < 0 \<or> to_int (t + sizeof_truncateMsg) > bufferSize
                     then Inr (s2, if outError s2 then 296 else 287, False)
                     else let s3 = sprint truncateMsg (cut_at t s2)
                          in Inr (s3, if outError s3 then 296 else err, True)
             else Inr (s2, err, False))"

lemma next_line_shorter: "newline \<in> set t \<Longrightarrow> length (tl (dropWhile (\<lambda>c. c \<noteq> newline) t)) < length t"
  using length_dropWhile_le[of "\<lambda>c. c \<noteq> newline" t] by (cases t) auto

function encode_lines ::
  "'d double_text \<Rightarrow> string \<Rightarrow> int \<Rightarrow> (field_def \<times> 'd msg_field) list \<Rightarrow> int \<Rightarrow> int \<Rightarrow> string option
     \<Rightarrow> int \<Rightarrow> out_buffer \<Rightarrow> (int \<times> string) res" where
  "encode_lines D version n fvs bufferSize split sol lastGood s =
     (let another = (case sol of None \<Rightarrow> False | Some t \<Rightarrow> newline \<in> set t)
      in res_bind (encode_record D version n fvs bufferSize split sol another lastGood s)
           (\<lambda>(s', err, truncated).
              if truncated then Inr (-1, outText s')
              else if err \<noteq> 0 then Inr (err, outText s')
              else if \<not> another then Inr (0, outText s')
              else encode_lines D version n fvs bufferSize split
                     (Some (tl (dropWhile (\<lambda>c. c \<noteq> newline) (the sol)))) (strLength s') s'))"
  by pat_completeness auto
termination
proof (relation "measure (\<lambda>(D, version, n, fvs, bufferSize, split, sol, lastGood, s). length (case sol of None \<Rightarrow> [] | Some t \<Rightarrow> t))")
qed (auto simp: next_line_shorter simp del: length_tl split: option.splits)

declare encode_lines.simps [simp del]

text \<open>
  \<^verbatim>\<open>infoLog_msg_encode\<close> for a message and a buffer that are not NULL: the result and the text that the buffer then holds,
  \<open>old\<close> when the arguments are refused.
\<close>

definition infoLog_msg_encode ::
  "log_statics \<Rightarrow> 'd double_text \<Rightarrow> 'd log_msg \<Rightarrow> int \<Rightarrow> int \<Rightarrow> string \<Rightarrow> (int \<times> string) res" where
  "infoLog_msg_encode st D msg bufferSize split old =
     (case msgProtocol msg of
        None \<Rightarrow> Inr (190, old)
      | Some k \<Rightarrow>
          let p = protocols st ! k;
              n = numberOfFields p;
              f = protoFields p ! nat split;
              v = fieldValue (msgValues msg ! nat split)
          in if bufferSize \<le> 0 then Inr (192, old)
             else if split < -1 then Inr (193, old)
             else if split \<ge> 0 \<and> split \<ge> n then Inr (195, old)
             else if split \<ge> 0 \<and> fieldType f \<noteq> TypeString then Inr (196, old)
             else case (if split \<ge> 0 \<and> v \<noteq> None then v else Some (VString None)) of
                    Some (VString sol) \<Rightarrow>
                      encode_lines D (the (protoVersion p)) n (take (nat n) (zip (protoFields p) (msgValues msg))) bufferSize split
                        sol (-1) (snd (mysprintf_init bufferSize))
                  | _ \<Rightarrow> Inl WrongUnionMember)"

end
