(* ===== verification/Log_Decode.thy ===== *)
theory Log_Decode
  imports Log_Message
begin

text \<open>
  The decoder of log messages (src/InfoLogger/src/infoLoggerMessageDecode.c) and the table of protocols it finds them in.

  \<^item> A file of the transport is the list of its blobs, each the list of its bytes. Behind the bytes of a blob there is one
    more byte that is zero, as the transport server allocates it; the decoder reads and writes that byte.
  \<^item> The result is the list of messages, \<open>None\<close> after an error, and what is then reported: the number of the source line that
    found the error and the copy of a message.
\<close>

definition hash :: char where "hash = CHR ''#''"

text \<open>The string that starts at a pointer ends at the first zero.\<close>

definition c_string :: "string \<Rightarrow> string" where
  "c_string s = takeWhile (\<lambda>c. c \<noteq> CHR 0x00) s"

section \<open>Fields\<close>

text \<open>The switch over the type of the field; \<open>len\<close> is the length of its text in the blob.\<close>

definition decode_field :: "'d double_text \<Rightarrow> field_type \<Rightarrow> string \<Rightarrow> nat \<Rightarrow> 'd msg_field res" where
  "decode_field D t text len =
     (let start = c_string text
      in case t of
           TypeString \<Rightarrow>
             Inr (if len \<noteq> 0 then \<lparr>fieldValue = Some (VString (Some start)), fieldLength = int len\<rparr> else undefined_field)
         | TypeInt \<Rightarrow>
             if start = [] then Inr undefined_field
             else res_bind (scan_int start)
                    (\<lambda>r. case r of
                           None \<Rightarrow> Inr undefined_field
                         | Some i \<Rightarrow> Inr (if i > 0 then \<lparr>fieldValue = Some (VInt i), fieldLength = 0\<rparr> else undefined_field))
         | TypeDouble \<Rightarrow>
             if start = [] then Inr undefined_field
             else (case scanDouble D start of
                     None \<Rightarrow> Inr undefined_field
                   | Some d \<Rightarrow> Inr (if isPositive D d then \<lparr>fieldValue = Some (VDouble d), fieldLength = 0\<rparr> else undefined_field))
         | TypeNull \<Rightarrow> Inr undefined_field)"

text \<open>
  The loop over the fields up to the one of type NULL, with the error number so far, which ends it behind a field. The last
  field takes all that is left.
\<close>

fun decode_fields :: "'d double_text \<Rightarrow> int \<Rightarrow> field_def list \<Rightarrow> string \<Rightarrow> (int \<times> 'd msg_field list) res" where
  "decode_fields D err [] text = Inl OutOfBounds"
| "decode_fields D err (f # fs) text =
     (if fieldType f = TypeNull then Inr (err, [])
      else if fs = [] then Inl OutOfBounds
      else if fieldType (hd fs) = TypeNull then
        res_bind (decode_field D (fieldType f) text (length (c_string text))) (\<lambda>v. Inr (err, [v]))
      else if hash \<notin> set text then Inr (109, [])
      else let start = takeWhile (\<lambda>c. c \<noteq> hash) text; rest = tl (dropWhile (\<lambda>c. c \<noteq> hash) text)
           in res_bind (decode_field D (fieldType f) start (length start))
                (\<lambda>v. if err \<noteq> 0 then Inr (err, [v])
                     else res_bind (decode_fields D err fs rest) (\<lambda>(e, vs). Inr (e, v # vs))))"

section \<open>Messages\<close>

text \<open>The place of the first protocol with this version.\<close>

fun find_protocol :: "string \<Rightarrow> log_protocol list \<Rightarrow> nat \<Rightarrow> nat option" where
  "find_protocol v [] i = None"
| "find_protocol v (p # ps) i = (if protoVersion p = Some v then Some i else find_protocol v ps (Suc i))"

text \<open>
  One blob, with the error number so far: the new error number, the message, and whether the loop over the blobs ends here.
\<close>

definition decode_message ::
  "log_statics \<Rightarrow> 'd double_text \<Rightarrow> int \<Rightarrow> string \<Rightarrow> (int \<times> 'd log_msg \<times> bool) res" where
  "decode_message st D err blob =
     (if blob = [] \<or> hd blob \<noteq> CHR ''*'' then Inr (68, infoLog_msg_init, True)
      else if tl blob = [] then Inr (70, infoLog_msg_init, True)
      else if hash \<notin> set (tl blob) then Inr (74, infoLog_msg_init, True)
      else let version = c_string (takeWhile (\<lambda>c. c \<noteq> hash) (tl blob)); text = tl (dropWhile (\<lambda>c. c \<noteq> hash) (tl blob))
           in case find_protocol version (protocols st) 0 of
                None \<Rightarrow> Inr (86, infoLog_msg_init, True)
              | Some k \<Rightarrow>
                  res_bind (decode_fields D err (protoFields (protocols st ! k)) text)
                    (\<lambda>(e, vs).
                       let msg = \<lparr>msgValues = vs @ drop (length vs) (msgValues infoLog_msg_init), msgProtocol = Some k\<rparr>;
                           (c, msg') = infoLog_msg_convert st msg
                       in Inr (if c \<noteq> 0 then (163, msg', True) else (e, msg', False))))"

definition MSG_BUFFER_SIZE :: nat where "MSG_BUFFER_SIZE = 200"

text \<open>The loop over the blobs: the error number, the copy of the last message looked at and the messages so far.\<close>

fun decode_blobs ::
  "log_statics \<Rightarrow> 'd double_text \<Rightarrow> string list \<Rightarrow> int \<times> string \<times> 'd log_msg list \<Rightarrow> (int \<times> string \<times> 'd log_msg list) res" where
  "decode_blobs st D [] (err, buffer, msgs) = Inr (err, buffer, msgs)"
| "decode_blobs st D (b # bs) (err, buffer, msgs) =
     res_bind (decode_message st D err b)
       (\<lambda>(err', msg, stop).
          let s = (err', take MSG_BUFFER_SIZE b, msgs @ [msg])
          in if stop then Inr s else decode_blobs st D bs s)"

text \<open>\<^verbatim>\<open>infoLog_decode\<close>: a file without blobs gives an empty list, which is NULL in the code as well.\<close>

definition infoLog_decode ::
  "log_statics \<Rightarrow> 'd double_text \<Rightarrow> string list \<Rightarrow> ('d log_msg list option \<times> (int \<times> string) option) res" where
  "infoLog_decode st D blobs =
     res_bind (decode_blobs st D blobs (0, [], []))
       (\<lambda>(err, buffer, msgs).
          Inr (if err = 0 then (if msgs = [] then None else Some msgs, None)
               else (None, Some (err, c_string buffer))))"

end
