(* ===== verification/Log_Encoding.thy ===== *)
theory Log_Encoding
  imports Parameters Log_Decode
begin

text \<open>
  Lemmas on the encoder of log messages: the text of one field and of one record, what the print buffer holds when the text
  does not fit, and the loop over the lines. The record of a line is the text without the bounds of the buffer.
\<close>

section \<open>Numbers\<close>

lemma digit_char_simps: "d < 10 \<Longrightarrow> is_digit (digit_char d) \<and> (of_char (digit_char d) :: nat) - 48 = d"
  by (auto simp: less_Suc_eq numeral_eq_Suc digit_char_def is_digit_def)

lemma digits_value_append: "digits_value n (s @ t) = digits_value (digits_value n s) t"
  by (induction s arbitrary: n) auto

lemma print_nat_digits: "print_nat n \<noteq> [] \<and> (\<forall>c \<in> set (print_nat n). is_digit c) \<and> digits_value 0 (print_nat n) = n"
proof (induction n rule: print_nat.induct)
  case (1 n)
  show ?case
  proof (cases "n < 10")
    case True
    then show ?thesis using digit_char_simps[of n] by (subst (1 2 3) print_nat.simps) simp
  next
    case False
    then show ?thesis using 1 digit_char_simps[of "n mod 10"] by (subst (1 2 3) print_nat.simps) (auto simp: digits_value_append)
  qed
qed

lemma digit_plain: "is_digit c \<Longrightarrow> \<not> is_space c \<and> c \<noteq> CHR ''-'' \<and> c \<noteq> CHR ''+''"
  by (auto simp: is_digit_def is_space_def)

lemma scan_digits:
  assumes "t = print_nat n"
  shows "takeWhile is_digit t = t \<and> dropWhile is_space t = t \<and> t \<noteq> [] \<and> hd t \<noteq> CHR ''-'' \<and> hd t \<noteq> CHR ''+''
    \<and> digits_value 0 t = n"
proof -
  have d: "t \<noteq> []" "\<forall>c \<in> set t. is_digit c" "digits_value 0 t = n" using assms print_nat_digits[of n] by auto
  moreover have "is_digit (hd t)" using d by simp
  then have h: "\<not> is_space (hd t)" "hd t \<noteq> CHR ''-''" "hd t \<noteq> CHR ''+''" using digit_plain by blast+
  moreover have "dropWhile is_space t = t" using d(1) h(1) by (cases t) auto
  moreover have "takeWhile is_digit t = t" using d(2) by (simp add: takeWhile_eq_all_conv)
  ultimately show ?thesis by blast
qed

lemma scan_print_int:
  assumes "- (2 ^ 31) \<le> i" "i < 2 ^ 31"
  shows "scan_int (print_int i) = Inr (Some i)"
proof (cases "i < 0")
  case True
  then have p: "print_int i = CHR ''-'' # print_nat (nat (- i))" by (simp add: print_int_def)
  obtain t where t: "t = print_nat (nat (- i))" by blast
  have w: "takeWhile is_digit t = t" "t \<noteq> []" "digits_value 0 t = nat (- i)" using scan_digits[OF t] by blast+
  have "dropWhile is_space (CHR ''-'' # t) = CHR ''-'' # t" by (simp add: is_space_def)
  then show ?thesis using True assms unfolding p t[symmetric] by (simp add: scan_int_def Let_def w)
next
  case False
  then have p: "print_int i = print_nat (nat i)" by (simp add: print_int_def)
  obtain t where t: "t = print_nat (nat i)" by blast
  have w: "takeWhile is_digit t = t" "dropWhile is_space t = t" "t \<noteq> []" "hd t \<noteq> CHR ''-''" "hd t \<noteq> CHR ''+''"
    "digits_value 0 t = nat i" using scan_digits[OF t] by blast+
  show ?thesis using False assms unfolding p t[symmetric] by (simp add: scan_int_def Let_def w)
qed

definition number_char :: "char \<Rightarrow> bool" where
  "number_char c \<longleftrightarrow> is_digit c \<or> c \<in> set ''-.infa''"

lemma print_int_chars: "print_int i \<noteq> [] \<and> (\<forall>c \<in> set (print_int i). number_char c)"
  using print_nat_digits by (auto simp: print_int_def number_char_def)

lemma number_char_plain: "number_char c \<Longrightarrow> c \<noteq> hash \<and> c \<noteq> newline \<and> c \<noteq> CHR 0x00 \<and> c \<noteq> CHR ''*''"
  by (auto simp: number_char_def is_digit_def hash_def newline_def)

text \<open>What \<^verbatim>\<open>%lf\<close> prints: digits, a sign and a point, or \<^verbatim>\<open>inf\<close> or \<^verbatim>\<open>nan\<close>.\<close>

definition prints_numbers :: "'d double_text \<Rightarrow> bool" where
  "prints_numbers D \<longleftrightarrow> (\<forall>d. printDouble D d \<noteq> [] \<and> (\<forall>c \<in> set (printDouble D d). number_char c))"


section \<open>Records\<close>

fun value_has_type :: "'d field_value \<Rightarrow> field_type \<Rightarrow> bool" where
  "value_has_type (VString _) t \<longleftrightarrow> t = TypeString"
| "value_has_type (VInt _) t \<longleftrightarrow> t = TypeInt"
| "value_has_type (VDouble _) t \<longleftrightarrow> t = TypeDouble"

definition field_typed :: "field_def \<times> 'd msg_field \<Rightarrow> bool" where
  "field_typed fv \<longleftrightarrow> (case fieldValue (snd fv) of None \<Rightarrow> True | Some v \<Rightarrow> value_has_type v (fieldType (fst fv)))"

definition field_text :: "'d double_text \<Rightarrow> bool \<Rightarrow> string option \<Rightarrow> field_def \<times> 'd msg_field \<Rightarrow> string" where
  "field_text D split line fv =
     (case fieldValue (snd fv) of
        None \<Rightarrow> []
      | Some (VString v) \<Rightarrow> map clean_char (case (if split then line else v) of None \<Rightarrow> [] | Some t \<Rightarrow> t)
      | Some (VInt i) \<Rightarrow> print_int i
      | Some (VDouble d) \<Rightarrow> printDouble D d)"

fun fields_text :: "'d double_text \<Rightarrow> int \<Rightarrow> string option \<Rightarrow> int \<Rightarrow> (field_def \<times> 'd msg_field) list \<Rightarrow> string" where
  "fields_text D split line i [] = []"
| "fields_text D split line i (fv # fvs) = hash # field_text D (i = split) line fv @ fields_text D split line (i + 1) fvs"

definition record_head :: "'d double_text \<Rightarrow> string \<Rightarrow> int \<Rightarrow> (field_def \<times> 'd msg_field) list \<Rightarrow> string option \<Rightarrow> string" where
  "record_head D version split fvs line = CHR ''*'' # version @ fields_text D split line 0 (butlast fvs) @ [hash]"

definition record_tail :: "'d double_text \<Rightarrow> int \<Rightarrow> (field_def \<times> 'd msg_field) list \<Rightarrow> string option \<Rightarrow> string" where
  "record_tail D split fvs line = field_text D (int (length fvs) - 1 = split) line (last fvs)"

definition record_text :: "'d double_text \<Rightarrow> string \<Rightarrow> int \<Rightarrow> (field_def \<times> 'd msg_field) list \<Rightarrow> string option \<Rightarrow> string" where
  "record_text D version split fvs line = record_head D version split fvs line @ record_tail D split fvs line @ [newline]"

text \<open>A record whose last field has been cut after \<open>k\<close> characters and marked.\<close>

definition cut_record :: "'d double_text \<Rightarrow> string \<Rightarrow> int \<Rightarrow> (field_def \<times> 'd msg_field) list \<Rightarrow> string option \<Rightarrow> nat \<Rightarrow> string" where
  "cut_record D version split fvs line k =
     record_head D version split fvs line @ take k (record_tail D split fvs line) @ truncateMsg"

text \<open>The lines of the message text; without a text there is one record.\<close>

definition record_lines :: "string option \<Rightarrow> string option list" where
  "record_lines sol = (case sol of None \<Rightarrow> [None] | Some t \<Rightarrow> map Some (split_on newline t))"

lemma fields_text_last:
  "fvs \<noteq> [] \<Longrightarrow> fields_text D split line i fvs =
     fields_text D split line i (butlast fvs) @ hash # field_text D (i + int (length fvs) - 1 = split) line (last fvs)"
proof (induction fvs arbitrary: i)
  case (Cons fv fvs)
  then show ?case using Cons.IH[of "i + 1"] by (cases "fvs = []") simp_all
qed simp

lemma record_text_fields:
  "fvs \<noteq> [] \<Longrightarrow> record_text D version split fvs line = CHR ''*'' # version @ fields_text D split line 0 fvs @ [newline]"
  by (simp add: record_text_def record_head_def record_tail_def fields_text_last)


section \<open>The bounded buffer\<close>

text \<open>The buffer has been given the text \<open>T\<close> and holds what there is room for.\<close>

definition holds :: "out_buffer \<Rightarrow> string \<Rightarrow> bool" where
  "holds s T \<longleftrightarrow> 0 < outSize s \<and> outText s = take (nat (outSize s - 1)) T \<and> (outError s \<longrightarrow> outSize s \<le> int (length T))"

lemma outSize_simps [simp]:
  "outSize (sprint x s) = outSize s" "outSize (cut_at ix s) = outSize s" "outSize (replace_special ix s) = outSize s"
  "outError (replace_special ix s) = outError s" "outError (cut_at ix s) = False"
  by (simp_all add: mysprintf_def cut_at_def replace_special_def)

lemma holds_print: "holds s T \<Longrightarrow> holds (sprint x s) (T @ x)"
  by (auto simp: holds_def mysprintf_def min_def)

lemma holds_print_exact:
  assumes "holds s T" "x \<noteq> []" "\<not> outError (sprint x s)"
  shows "outText (sprint x s) = T @ x \<and> int (length (T @ x)) < outSize s \<and> \<not> outError s"
proof -
  have n: "\<not> outError s" "int (length x) + strLength s < outSize s"
    using assms(3) by (auto simp: mysprintf_def split: if_splits)
  moreover have "0 < length x" using assms(2) by simp
  ultimately have "length (outText s) < nat (outSize s - 1)" by linarith
  then have "outText s = T" using assms(1) by (auto simp: holds_def min_def split: if_splits)
  then show ?thesis using n by (auto simp: mysprintf_def)
qed

lemma holds_full: "holds s T \<Longrightarrow> outError s \<Longrightarrow> holds s (T @ x)"
  by (auto simp: holds_def)

lemma holds_length: "holds s T \<Longrightarrow> strLength s = min (outSize s - 1) (int (length T))"
  by (auto simp: holds_def)

lemma replace_prefix:
  "ix = min k (length P) \<Longrightarrow> take ix (take k (P @ L)) @ map f (drop ix (take k (P @ L))) = take k (P @ map f L)"
  by (cases "k \<le> length P") (auto simp: take_map drop_map)

lemma holds_replace:
  assumes "holds s (P @ L)"
  shows "holds (replace_special (min (outSize s - 1) (int (length P))) s) (P @ map clean_char L)"
proof -
  let ?ix = "nat (min (outSize s - 1) (int (length P)))" and ?k = "nat (outSize s - 1)"
  have "?ix = min ?k (length P)" using assms by (auto simp: holds_def)
  note replace_prefix[OF this, of L clean_char]
  then show ?thesis using assms by (auto simp: holds_def replace_special_def)
qed

lemma holds_cut:
  assumes "holds s (P @ L @ newline # R)" "newl = min (outSize s - 1) (int (length P)) + int (length L)" "newl < outSize s"
  shows "holds (cut_at newl s) (P @ L)"
proof (cases "int (length P) \<le> outSize s - 1")
  case True
  then have "newl = int (length (P @ L))" using assms(2) by simp
  then show ?thesis using assms(1,3) True by (auto simp: holds_def cut_at_def min_def)
next
  case False
  then have "L = []" "newl = outSize s - 1" using assms(2,3) by auto
  then show ?thesis using assms(1) False by (auto simp: holds_def cut_at_def)
qed

lemma holds_uncut:
  assumes "holds s (P @ L @ newline # R)" "outSize s \<le> min (outSize s - 1) (int (length P)) + int (length L)"
  shows "holds s (P @ L)"
  using assms by (auto simp: holds_def)


section \<open>Encoding a record\<close>

abbreviation first_line :: "string option \<Rightarrow> string option" where
  "first_line sol \<equiv> map_option (takeWhile (\<lambda>c. c \<noteq> newline)) sol"

lemma split_at_newline:
  "newline \<in> set t \<Longrightarrow> t = takeWhile (\<lambda>c. c \<noteq> newline) t @ newline # tl (dropWhile (\<lambda>c. c \<noteq> newline) t)"
proof -
  assume "newline \<in> set t"
  then have d: "dropWhile (\<lambda>c. c \<noteq> newline) t \<noteq> []" by (simp add: dropWhile_eq_Nil_conv)
  then have "hd (dropWhile (\<lambda>c. c \<noteq> newline) t) = newline" using hd_dropWhile by blast
  then show ?thesis using d by (metis list.collapse takeWhile_dropWhile_id)
qed

text \<open>The text of a string field, of which one line is taken when it is the split field.\<close>

lemma encode_string:
  assumes s1: "holds s1 P" and ix: "ix = strLength s1"
    and s3: "s3 = (let s2 = sprint text s1; newl = ix + int (length (takeWhile (\<lambda>c. c \<noteq> newline) text))
       in if split \<and> newline \<in> set text \<and> 0 \<le> newl \<and> newl < outSize s2 then cut_at newl s2 else s2)"
  shows "holds (replace_special ix s3) (P @ map clean_char (if split then takeWhile (\<lambda>c. c \<noteq> newline) text else text))
    \<and> outSize (replace_special ix s3) = outSize s1"
proof -
  let ?L = "takeWhile (\<lambda>c. c \<noteq> newline) text" and ?L' = "if split then takeWhile (\<lambda>c. c \<noteq> newline) text else text"
  have m: "ix = min (outSize s1 - 1) (int (length P))" using holds_length[OF s1] ix by simp
  have s2: "holds (sprint text s1) (P @ text)" using s1 by (rule holds_print)
  have "holds s3 (P @ ?L') \<and> outSize s3 = outSize s1"
  proof (cases "split \<and> newline \<in> set text")
    case True
    then have "holds (sprint text s1) (P @ ?L @ newline # tl (dropWhile (\<lambda>c. c \<noteq> newline) text))"
      using s2 split_at_newline[of "text"] by simp
    note a = holds_cut[OF this, of "ix + int (length ?L)"] holds_uncut[OF this]
    show ?thesis
    proof (cases "ix + int (length ?L) < outSize s1")
      case True2: True
      then have "s3 = cut_at (ix + int (length ?L)) (sprint text s1)" using True s3 ix by (simp add: Let_def)
      then show ?thesis using a(1) True True2 m by simp
    next
      case False
      then have "s3 = sprint text s1" using True s3 ix by (simp add: Let_def)
      then show ?thesis using a(2) True False m by simp
    qed
  next
    case False
    then have "?L' = text" by (auto simp: takeWhile_eq_all_conv)
    moreover have "s3 = sprint text s1" using False s3 by (auto simp: Let_def)
    ultimately show ?thesis using s2 by (simp only: outSize_simps)
  qed
  then show ?thesis using holds_replace[of s3 P ?L'] m by simp
qed

lemma encode_field_holds:
  assumes s: "holds s T" and ty: "field_typed fv"
  shows "\<exists>s' ix. encode_field D sp sol fv s = Inr (s', ix, 0) \<and> holds s' (T @ hash # field_text D sp (first_line sol) fv)
    \<and> outSize s' = outSize s \<and> (ix = -1 \<or> ix = min (outSize s - 1) (int (length T) + 1))"
proof -
  have s1: "holds (sprint ''#'' s) (T @ [hash])" using holds_print[OF s, of "''#''"] by (simp add: hash_def)
  note defs = encode_field_def Let_def field_text_def
  show ?thesis
  proof (cases "fieldValue (snd fv)")
    case None
    then show ?thesis using s1 by (auto simp: defs)
  next
    case (Some val)
    show ?thesis
    proof (cases val)
      case (VString v)
      then have ft: "fieldType (fst fv) = TypeString" using ty Some by (simp add: field_typed_def)
      have l: "strLength (sprint ''#'' s) = min (outSize s - 1) (int (length T) + 1)" using holds_length[OF s1] by simp
      show ?thesis
      proof (cases "if sp then sol else v")
        case None
        then show ?thesis using s1 Some VString ft l by (auto simp: defs)
      next
        case (Some str)
        note e = encode_string[OF s1 refl refl, of str sp]
        have t: "(if sp then first_line sol else v) = Some (if sp then takeWhile (\<lambda>c. c \<noteq> newline) str else str)"
          using Some by (auto split: if_splits)
        have "encode_field D sp sol fv s = Inr (replace_special (strLength (sprint ''#'' s))
            (let s2 = sprint str (sprint ''#'' s);
                 newl = strLength (sprint ''#'' s) + int (length (takeWhile (\<lambda>c. c \<noteq> newline) str))
             in if sp \<and> newline \<in> set str \<and> 0 \<le> newl \<and> newl < outSize s2 then cut_at newl s2 else s2),
          strLength (sprint ''#'' s), 0)"
          using Some \<open>fieldValue (snd fv) = Some val\<close> VString ft by (simp add: encode_field_def Let_def)
        moreover have "field_text D sp (first_line sol) fv
            = map clean_char (if sp then takeWhile (\<lambda>c. c \<noteq> newline) str else str)"
          using t \<open>fieldValue (snd fv) = Some val\<close> VString by (simp add: field_text_def)
        ultimately show ?thesis using e l by simp
      qed
    next
      case (VInt i)
      then have ft: "fieldType (fst fv) = TypeInt" using ty Some by (simp add: field_typed_def)
      show ?thesis using holds_print[OF s1, of "print_int i"] Some VInt ft by (simp add: defs)
    next
      case (VDouble d)
      then have ft: "fieldType (fst fv) = TypeDouble" using ty Some by (simp add: field_typed_def)
      show ?thesis using holds_print[OF s1, of "printDouble D d"] Some VDouble ft by (simp add: defs)
    qed
  qed
qed

text \<open>All fields; the place \<open>ix\<close> matters only when the loop has reached the last field.\<close>

lemma encode_fields_holds:
  assumes "holds s T" "\<forall>fv \<in> set fvs. field_typed fv"
  shows "\<exists>s' ix' i'. encode_fields D split sol i fvs (s, ix, 0) = Inr (s', ix', i', 0)
    \<and> holds s' (T @ fields_text D split (first_line sol) i fvs) \<and> outSize s' = outSize s
    \<and> (fvs \<noteq> [] \<and> ix' \<ge> 0 \<and> i' + 1 \<ge> i + int (length fvs) \<longrightarrow>
        ix' = min (outSize s - 1) (int (length T + length (fields_text D split (first_line sol) i (butlast fvs))) + 1))"
  using assms
proof (induction fvs arbitrary: s T i ix)
  case Nil
  then show ?case by simp
next
  case (Cons fv fvs)
  obtain s1 ix1 where f: "encode_field D (i = split) sol fv s = Inr (s1, ix1, 0)"
    "holds s1 (T @ hash # field_text D (i = split) (first_line sol) fv)" "outSize s1 = outSize s"
    "ix1 = -1 \<or> ix1 = min (outSize s - 1) (int (length T) + 1)"
    using encode_field_holds[OF Cons.prems(1), of fv D "i = split" sol] Cons.prems(2) by auto
  show ?case
  proof (cases "outError s1")
    case True
    then have "encode_fields D split sol i (fv # fvs) (s, ix, 0) = Inr (s1, ix1, i, 0)" using f(1) by (simp add: Let_def)
    moreover have "holds s1 (T @ fields_text D split (first_line sol) i (fv # fvs))"
      using holds_full[OF f(2) True, of "fields_text D split (first_line sol) (i + 1) fvs"] by simp
    ultimately show ?thesis using f(3,4)
      by (intro exI[of _ s1] exI[of _ ix1] exI[of _ i]) (cases "fvs = []"; auto simp del: encode_fields.simps)
  next
    case False
    then have e: "encode_fields D split sol i (fv # fvs) (s, ix, 0) = encode_fields D split sol (i + 1) fvs (s1, ix1, 0)"
      using f(1) by (simp add: Let_def)
    show ?thesis
    proof (cases "fvs = []")
      case True
      then have "encode_fields D split sol i (fv # fvs) (s, ix, 0) = Inr (s1, ix1, i + 1, 0)" using e by simp
      then show ?thesis using f(2-4) True
        by (intro exI[of _ s1] exI[of _ ix1] exI[of _ "i + 1"]) (auto simp del: encode_fields.simps)
    next
      case False
      then show ?thesis using Cons.IH[OF f(2), of "i + 1" ix1] Cons.prems(2) f(3) unfolding e by (auto simp: algebra_simps)
    qed
  qed
qed


lemma to_int_small: "- (2 ^ 31) \<le> x \<Longrightarrow> x < 2 ^ 31 \<Longrightarrow> to_int x = x"
  by (simp add: to_int_def signed_take_bit_int_eq_self signed_of_int)

text \<open>The buffer behind a record: the whole record, or what there was room for.\<close>

lemma encode_record_text:
  assumes s: "holds s T" "\<not> outError s" "outText s = T"
    and fvs: "\<forall>fv \<in> set fvs. field_typed fv" "fvs \<noteq> []"
  obtains s1 ix i where "encode_fields D split sol 0 fvs (sprint (CHR ''*'' # version) s, -1, 0) = Inr (s1, ix, i, 0)"
    "outSize (sprint [newline] s1) = outSize s"
    "holds (sprint [newline] s1) (T @ record_text D version split fvs (first_line sol))"
    "\<not> outError (sprint [newline] s1) \<Longrightarrow>
         outText (sprint [newline] s1) = T @ record_text D version split fvs (first_line sol)
         \<and> int (length (T @ record_text D version split fvs (first_line sol))) < outSize s"
    "0 \<le> ix \<and> int (length fvs) \<le> i + 1 \<Longrightarrow>
         ix = min (outSize s - 1) (int (length (T @ record_head D version split fvs (first_line sol))))"
proof -
  have s0: "holds (sprint (CHR ''*'' # version) s) (T @ CHR ''*'' # version)" using s(1) by (rule holds_print)
  obtain s1 ix i where e: "encode_fields D split sol 0 fvs (sprint (CHR ''*'' # version) s, -1, 0) = Inr (s1, ix, i, 0)"
    "holds s1 ((T @ CHR ''*'' # version) @ fields_text D split (first_line sol) 0 fvs)" "outSize s1 = outSize s"
    "0 \<le> ix \<and> int (length fvs) \<le> i + 1 \<longrightarrow>
        ix = min (outSize s - 1) (int (length (T @ CHR ''*'' # version) + length (fields_text D split (first_line sol) 0 (butlast fvs))) + 1)"
    using encode_fields_holds[OF s0 fvs(1), of D split sol 0 "-1"] fvs(2) by auto
  have r: "T @ record_text D version split fvs (first_line sol)
      = ((T @ CHR ''*'' # version) @ fields_text D split (first_line sol) 0 fvs) @ [newline]"
    using fvs(2) by (simp add: record_text_fields)
  have h: "int (length (T @ CHR ''*'' # version) + length (fields_text D split (first_line sol) 0 (butlast fvs))) + 1
      = int (length (T @ record_head D version split fvs (first_line sol)))"
    by (simp add: record_head_def)
  have ix: "0 \<le> ix \<and> int (length fvs) \<le> i + 1 \<longrightarrow>
      ix = min (outSize s - 1) (int (length (T @ record_head D version split fvs (first_line sol))))"
    using e(4)[unfolded h] .
  show ?thesis
  proof (rule that[OF e(1)])
    show "holds (sprint [newline] s1) (T @ record_text D version split fvs (first_line sol))"
      unfolding r by (rule holds_print[OF e(2)])
    show "outText (sprint [newline] s1) = T @ record_text D version split fvs (first_line sol)
         \<and> int (length (T @ record_text D version split fvs (first_line sol))) < outSize s"
      if "\<not> outError (sprint [newline] s1)"
      using holds_print_exact[OF e(2) _ that] e(3) unfolding r by simp
  qed (use e(3) ix in simp_all)
qed

lemma sizeof_truncate [simp]: "length truncateMsg = 7"
  by (simp add: truncateMsg_def)

lemma cut_and_mark:
  assumes "outText s = take (nat (outSize s - 1)) T" "0 \<le> t" "t + 8 \<le> outSize s"
  shows "sprint truncateMsg (cut_at t s) = s\<lparr>outText := take (nat t) T @ truncateMsg, outError := False\<rparr>"
proof -
  have "take (nat t) (outText s) = take (nat t) T" using assms by (simp add: min_def)
  then show ?thesis using assms(2,3) by (auto simp: mysprintf_def cut_at_def)
qed

lemma encode_record_spec:
  assumes s: "holds s T" "\<not> outError s" "outText s = T" "outSize s = bufferSize" "bufferSize + 8 < 2 ^ 31"
    and fvs: "\<forall>fv \<in> set fvs. field_typed fv" "fvs \<noteq> []" "n = int (length fvs)"
    and l: "line = first_line sol" and good: "lastGood = -1 \<or> lastGood = int (length T) \<and> T \<noteq> [] \<and> int (length T) + 8 \<le> bufferSize"
  obtains
    (complete) s' where "encode_record D version n fvs bufferSize split sol another lastGood s = Inr (s', 0, False)"
      "outText s' = T @ record_text D version split fvs line" "holds s' (outText s')" "\<not> outError s'" "outSize s' = bufferSize"
      "strLength s' < bufferSize" "another \<Longrightarrow> strLength s' + 8 \<le> bufferSize"
  | (truncated) s' err k where "encode_record D version n fvs bufferSize split sol another lastGood s = Inr (s', err, True)"
      "outText s' = T @ cut_record D version split fvs line k \<or> lastGood \<noteq> -1 \<and> outText s' = butlast T @ truncateMsg"
      "strLength s' < bufferSize" "bufferSize < int (length (T @ record_text D version split fvs line)) + 8"
  | (failed) s' err where "encode_record D version n fvs bufferSize split sol another lastGood s = Inr (s', err, False)"
      "0 < err" "lastGood = -1" "strLength s' < bufferSize"
      "bufferSize < int (length (T @ record_text D version split fvs line)) + 8"
proof -
  let ?R = "record_text D version split fvs line" and ?H = "record_head D version split fvs line"
  obtain s1 ix i where e: "encode_fields D split sol 0 fvs (sprint (CHR ''*'' # version) s, -1, 0) = Inr (s1, ix, i, 0)"
    "outSize (sprint [newline] s1) = bufferSize" "holds (sprint [newline] s1) (T @ ?R)"
    "\<not> outError (sprint [newline] s1) \<Longrightarrow> outText (sprint [newline] s1) = T @ ?R \<and> int (length (T @ ?R)) < bufferSize"
    "0 \<le> ix \<and> n \<le> i + 1 \<Longrightarrow> ix = min (bufferSize - 1) (int (length (T @ ?H)))"
    using encode_record_text[OF s(1-3) fvs(1,2), of D split sol version] unfolding s(4) l fvs(3) by blast
  define s2 where "s2 = sprint [newline] s1"
  note e = e[folded s2_def]
  have len: "0 < bufferSize" "strLength s2 < bufferSize" using e(2,3) by (auto simp: holds_def)
  have i1: "to_int (strLength s2 + sizeof_truncateMsg) = strLength s2 + 8" "to_int (bufferSize - sizeof_truncateMsg) = bufferSize - 8"
    using len s(5) by (simp_all add: to_int_small sizeof_truncateMsg_def)
  define t where "t = truncate_at bufferSize n ix i lastGood"
  let ?trouble = "outError s2 \<or> another \<and> to_int (strLength s2 + sizeof_truncateMsg) > bufferSize"
  have r: "encode_record D version n fvs bufferSize split sol another lastGood s =
      (if ?trouble then if t < 0 \<or> to_int (t + sizeof_truncateMsg) > bufferSize
                     then Inr (s2, if outError s2 then 296 else 287, False)
                     else Inr (sprint truncateMsg (cut_at t s2), if outError (sprint truncateMsg (cut_at t s2)) then 296 else 0, True)
       else Inr (s2, 0, False))"
    using e(1) by (simp add: encode_record_def Let_def s2_def t_def)
  show ?thesis
  proof (cases ?trouble)
    case False
    then have ok: "\<not> outError s2" "another \<Longrightarrow> strLength s2 + 8 \<le> bufferSize" using i1(1) by auto
    then have o: "outText s2 = T @ ?R" using e(4) by blast
    show ?thesis
    proof (rule complete[OF _ o _ ok(1) e(2) len(2) ok(2)])
      show "encode_record D version n fvs bufferSize split sol another lastGood s = Inr (s2, 0, False)"
        unfolding r using False by (simp only: if_False)
      show "holds s2 (outText s2)" unfolding o by (rule e(3))
    qed
  next
    case True
    have big: "bufferSize < int (length (T @ ?R)) + 8"
    proof (cases "outError s2")
      case True
      then show ?thesis using e(2,3) unfolding holds_def by linarith
    next
      case False
      then show ?thesis using e(4) True i1(1) by simp
    qed
    have tcase: "t = -1 \<and> lastGood = -1 \<or> t = bufferSize - 8 \<and> 0 \<le> ix \<and> n \<le> i + 1 \<and> ix \<le> t \<or> t = lastGood - 1 \<and> lastGood \<noteq> -1"
      unfolding t_def truncate_at_def Let_def i1(2) by (simp split: if_splits) (use good in linarith)
    have kept: "outText s2 = take (nat (outSize s2 - 1)) (T @ ?R)" using e(3) by (simp add: holds_def)
    show ?thesis
    proof (cases "t = -1 \<and> lastGood = -1")
      case True2: True
      then have "encode_record D version n fvs bufferSize split sol another lastGood s
          = Inr (s2, if outError s2 then 296 else 287, False)" unfolding r using True by simp
      then show ?thesis by (rule failed) (use True2 len(2) big in simp_all)
    next
      case False
      have small: "0 \<le> t" "t + 8 \<le> bufferSize" using tcase False good by (auto simp: Suc_le_eq)
      then have "to_int (t + sizeof_truncateMsg) = t + 8" using s(5) by (simp add: to_int_small sizeof_truncateMsg_def)
      then have r': "encode_record D version n fvs bufferSize split sol another lastGood s
          = Inr (sprint truncateMsg (cut_at t s2), if outError (sprint truncateMsg (cut_at t s2)) then 296 else 0, True)"
        unfolding r using True small by simp
      have c: "outText (sprint truncateMsg (cut_at t s2)) = take (nat t) (T @ ?R) @ truncateMsg"
        using cut_and_mark[OF kept small(1)] small(2) e(2) by simp
      have shape: "take (nat t) (T @ ?R) = T @ ?H @ take (nat t - length (T @ ?H)) (record_tail D split fvs line)
          \<or> lastGood \<noteq> -1 \<and> take (nat t) (T @ ?R) = butlast T"
      proof (cases "t = lastGood - 1 \<and> lastGood \<noteq> -1")
        case True3: True
        then have "nat t = length T - 1" using good by auto
        then show ?thesis using True3 by (simp add: butlast_conv_take)
      next
        case False2: False
        then have "t = bufferSize - 8" "ix \<le> t" "ix = min (bufferSize - 1) (int (length (T @ ?H)))" using tcase False e(5) by auto
        then have "length (T @ ?H) \<le> nat t" "nat t - length (T @ ?H) \<le> length (record_tail D split fvs line)"
          using big by (auto simp: record_text_def min_def split: if_splits)
        then show ?thesis by (simp add: record_text_def)
      qed
      show ?thesis
      proof (rule truncated[OF r' _ _ big])
        show "outText (sprint truncateMsg (cut_at t s2)) = T @ cut_record D version split fvs line (nat t - length (T @ ?H))
          \<or> lastGood \<noteq> -1 \<and> outText (sprint truncateMsg (cut_at t s2)) = butlast T @ truncateMsg"
          using shape unfolding c by (auto simp: cut_record_def)
        show "strLength (sprint truncateMsg (cut_at t s2)) < bufferSize" unfolding c using small by auto
      qed
    qed
  qed
qed


section \<open>Encoding a message\<close>

definition records_text :: "'d double_text \<Rightarrow> string \<Rightarrow> int \<Rightarrow> (field_def \<times> 'd msg_field) list \<Rightarrow> string option list \<Rightarrow> string" where
  "records_text D version split fvs ls = concat (map (record_text D version split fvs) ls)"

text \<open>
  What the encoder promises on the lines \<open>ls\<close> and a buffer of \<open>n\<close> bytes: with the result 0 the text is all the records; with
  -1 it is the records of some lines followed by one whose last field is cut and marked; another result means that
  already the first record does not fit. The text always leaves room for the zero, and it is complete if the records and a
  mark fit.
\<close>

definition encoded_as ::
  "'d double_text \<Rightarrow> string \<Rightarrow> int \<Rightarrow> (field_def \<times> 'd msg_field) list \<Rightarrow> string option list \<Rightarrow> int \<Rightarrow> int \<Rightarrow> string \<Rightarrow> bool" where
  "encoded_as D version split fvs ls n code out \<longleftrightarrow>
     int (length out) < n
     \<and> (code = 0 \<and> out = records_text D version split fvs ls
        \<or> code = -1 \<and> (\<exists>pre l post k. ls = pre @ l # post \<and> out = records_text D version split fvs pre @ cut_record D version split fvs l k)
        \<or> code > 0 \<and> n < int (length (record_text D version split fvs (hd ls))) + 8)
     \<and> (int (length (records_text D version split fvs ls)) + 8 \<le> n \<longrightarrow> code = 0)"

lemma record_lines_step:
  "newline \<in> set t \<Longrightarrow> record_lines (Some t) = first_line (Some t) # record_lines (Some (tl (dropWhile (\<lambda>c. c \<noteq> newline) t)))"
  "newline \<notin> set t \<Longrightarrow> record_lines (Some t) = [first_line (Some t)]"
proof -
  assume "newline \<in> set t"
  then have "split_on newline t = takeWhile (\<lambda>c. c \<noteq> newline) t # split_on newline (tl (dropWhile (\<lambda>c. c \<noteq> newline) t))"
    using split_on_append[of newline "takeWhile (\<lambda>c. c \<noteq> newline) t" "tl (dropWhile (\<lambda>c. c \<noteq> newline) t)"]
      split_at_newline[of t] by (metis (mono_tags, lifting) set_takeWhileD)
  then show "record_lines (Some t) = first_line (Some t) # record_lines (Some (tl (dropWhile (\<lambda>c. c \<noteq> newline) t)))"
    by (simp add: record_lines_def)
next
  assume "newline \<notin> set t"
  then have "takeWhile (\<lambda>c. c \<noteq> newline) t = t" "record_lines (Some t) = [Some t]"
    by (auto simp: takeWhile_eq_all_conv record_lines_def split_on_no_sep)
  then show "record_lines (Some t) = [first_line (Some t)]" by (simp only: option.map)
qed

lemma record_lines_ne: "record_lines sol \<noteq> []"
proof (cases sol)
  case (Some t)
  then show ?thesis using record_lines_step[of t] by (cases "newline \<in> set t") simp_all
qed (simp add: record_lines_def)

lemma next_record_lines:
  "record_lines sol = first_line sol # (if case sol of None \<Rightarrow> False | Some t \<Rightarrow> newline \<in> set t
     then record_lines (Some (tl (dropWhile (\<lambda>c. c \<noteq> newline) (the sol)))) else [])"
proof (cases sol)
  case (Some t)
  then show ?thesis using record_lines_step[of t] by (cases "newline \<in> set t") simp_all
qed (simp add: record_lines_def)

lemma record_text_ne: "record_text D version split fvs l \<noteq> []"
  by (simp add: record_text_def)

lemma records_text_simps [simp]:
  "records_text D version split fvs [] = []"
  "records_text D version split fvs (l # ls) = record_text D version split fvs l @ records_text D version split fvs ls"
  "records_text D version split fvs (ls @ ks) = records_text D version split fvs ls @ records_text D version split fvs ks"
  by (simp_all add: records_text_def)

lemma cut_before:
  assumes "done \<noteq> []"
  shows "butlast (records_text D version split fvs done) @ truncateMsg =
    records_text D version split fvs (butlast done) @ cut_record D version split fvs (last done) (length (record_tail D split fvs (last done)))"
proof -
  have "records_text D version split fvs done = records_text D version split fvs (butlast done) @ record_text D version split fvs (last done)"
    using assms by (metis append_butlast_last_id records_text_simps(1,2,3) append_Nil2)
  then show ?thesis by (simp add: record_text_def cut_record_def butlast_append)
qed

lemma encode_lines_spec:
  assumes fvs: "\<forall>fv \<in> set fvs. field_typed fv" "fvs \<noteq> []" "n = int (length fvs)" and small: "bufferSize + 8 < 2 ^ 31"
    and s: "holds s (records_text D version split fvs done)" "\<not> outError s" "outText s = records_text D version split fvs done"
      "outSize s = bufferSize"
    and good: "lastGood = (if done = [] then -1 else strLength s)" "done \<noteq> [] \<longrightarrow> strLength s + 8 \<le> bufferSize"
  shows "\<exists>code out. encode_lines D version n fvs bufferSize split sol lastGood s = Inr (code, out)
    \<and> encoded_as D version split fvs (done @ record_lines sol) bufferSize code out"
  using s good
proof (induction "record_lines sol" arbitrary: sol s lastGood "done")
  case Nil
  then show ?case using record_lines_ne[of sol] by simp
next
  case (Cons l ls)
  let ?rec = "\<lambda>l. record_text D version split fvs l" and ?recs = "records_text D version split fvs"
  define another where "another = (case sol of None \<Rightarrow> False | Some t \<Rightarrow> newline \<in> set t)"
  let ?t = "tl (dropWhile (\<lambda>c. c \<noteq> newline) (the sol))"
  have l: "l = first_line sol" "ls = (if another then record_lines (Some ?t) else [])"
    using Cons.hyps(2) next_record_lines[of sol] unfolding another_def by simp_all
  have g: "lastGood = -1 \<or> lastGood = int (length (?recs done)) \<and> ?recs done \<noteq> [] \<and> int (length (?recs done)) + 8 \<le> bufferSize"
    using Cons.prems(3,5,6) record_text_ne[of D version split fvs] by (cases "done") auto
  have e: "encode_lines D version n fvs bufferSize split sol lastGood s =
      res_bind (encode_record D version n fvs bufferSize split sol another lastGood s)
        (\<lambda>(s', err, truncated). if truncated then Inr (-1, outText s') else if err \<noteq> 0 then Inr (err, outText s')
           else if \<not> another then Inr (0, outText s') else encode_lines D version n fvs bufferSize split (Some ?t) (strLength s') s')"
    unfolding another_def by (subst encode_lines.simps) (simp only: Let_def)
  have all: "done @ record_lines sol = done @ l # ls" using Cons.hyps(2) by simp
  have sz: "bufferSize < int (length (?recs done @ ?rec l)) + 8 \<Longrightarrow> bufferSize < int (length (?recs (done @ l # ls))) + 8" by simp
  show ?case
  proof (cases rule: encode_record_spec[OF Cons.prems(1-4) small fvs l(1) g, of D version split another, case_names complete truncated failed])
    case (complete s')
    show ?thesis
    proof (cases another)
      case True
      have "\<exists>code out. encode_lines D version n fvs bufferSize split (Some ?t) (strLength s') s' = Inr (code, out)
          \<and> encoded_as D version split fvs ((done @ [l]) @ record_lines (Some ?t)) bufferSize code out"
        using complete True by (intro Cons.hyps(1)) (simp_all add: l(2))
      then show ?thesis using complete(1) True unfolding e all by (simp add: l(2))
    next
      case False
      then have "encoded_as D version split fvs (done @ l # ls) bufferSize 0 (outText s')"
        using complete(2,6) l(2) by (simp add: encoded_as_def)
      then show ?thesis using complete(1) False unfolding e all by simp
    qed
  next
    case (truncated s' err k)
    have "\<exists>pre l' post k. done @ l # ls = pre @ l' # post \<and> outText s' = ?recs pre @ cut_record D version split fvs l' k"
    proof (cases "outText s' = ?recs done @ cut_record D version split fvs l k")
      case False
      then have ne: "done \<noteq> []" "outText s' = butlast (?recs done) @ truncateMsg" using truncated(2) Cons.prems(5) by auto
      then have "done @ l # ls = butlast done @ last done # l # ls" by simp
      then show ?thesis using ne(2) unfolding cut_before[OF ne(1)] by blast
    qed blast
    then have "encoded_as D version split fvs (done @ l # ls) bufferSize (-1) (outText s')"
      using truncated(3) sz[OF truncated(4)] unfolding encoded_as_def by auto
    then show ?thesis using truncated(1) unfolding e all by simp
  next
    case (failed s' err)
    then have d: "done = []" using Cons.prems(5) by (auto split: if_splits)
    then have "encoded_as D version split fvs (done @ l # ls) bufferSize err (outText s')"
      using failed(2,4,5) sz[OF failed(5)] unfolding encoded_as_def by auto
    then show ?thesis using failed(1,2) unfolding e all by simp
  qed
qed

end
