(* ===== verification/Log_Decoding.thy ===== *)
theory Log_Decoding
  imports Log_Encoding
begin

text \<open>
  Lemmas on the decoder of log messages: what it reads back from the text of a field and of a record, the types of the
  messages it produces, and the conversion to the default protocol.
\<close>

section \<open>Reading a record back\<close>

definition plain_text :: "string \<Rightarrow> bool" where
  "plain_text s \<longleftrightarrow> CHR 0x00 \<notin> set s \<and> hash \<notin> set s \<and> newline \<notin> set s"

lemma c_string_id: "CHR 0x00 \<notin> set s \<Longrightarrow> c_string s = s"
  by (auto simp: c_string_def takeWhile_eq_all_conv)

lemma c_string_zero_free: "CHR 0x00 \<notin> set (c_string s)"
  by (auto simp: c_string_def dest: set_takeWhileD)

text \<open>A C string has no zero inside.\<close>

definition string_ok :: "string option \<Rightarrow> bool" where
  "string_ok v = (case v of None \<Rightarrow> True | Some t \<Rightarrow> CHR 0x00 \<notin> set t)"

definition value_ok :: "'d field_value \<Rightarrow> bool" where
  "value_ok v = (case v of VString s \<Rightarrow> string_ok s | VInt i \<Rightarrow> - (2 ^ 31) \<le> i \<and> i < 2 ^ 31 | VDouble d \<Rightarrow> True)"

definition field_ok :: "field_def \<times> 'd msg_field \<Rightarrow> bool" where
  "field_ok fv \<longleftrightarrow> field_typed fv \<and> (case fieldValue (snd fv) of None \<Rightarrow> True | Some v \<Rightarrow> value_ok v)"

lemma clean_char_plain: "clean_char c \<noteq> hash \<and> clean_char c \<noteq> newline \<and> (clean_char c = CHR 0x00 \<longleftrightarrow> c = CHR 0x00)"
  by (auto simp: clean_char_def hash_def newline_def)

lemma clean_plain: "CHR 0x00 \<notin> set s \<Longrightarrow> plain_text (map clean_char s)"
  unfolding plain_text_def set_map image_iff using clean_char_plain by metis

lemma numbers_plain: "\<forall>c \<in> set s. number_char c \<Longrightarrow> plain_text s"
  using number_char_plain unfolding plain_text_def by blast

lemma field_text_plain:
  assumes "field_ok fv" "string_ok line" "prints_numbers D"
  shows "plain_text (field_text D sp line fv)"
proof (cases "fieldValue (snd fv)")
  case None
  then show ?thesis by (simp add: field_text_def plain_text_def)
next
  case (Some v)
  show ?thesis
  proof (cases v)
    case (VString t)
    then have "string_ok (if sp then line else t)" using assms Some by (simp add: field_ok_def value_ok_def)
    then show ?thesis using Some VString clean_plain
      by (cases "if sp then line else t") (simp_all add: field_text_def string_ok_def plain_text_def)
  qed (use Some assms(3) print_int_chars numbers_plain in \<open>auto simp: field_text_def prints_numbers_def\<close>)
qed

text \<open>What a field becomes: empty texts and numbers that are not positive are undefined.\<close>

definition normal_field :: "'d double_text \<Rightarrow> bool \<Rightarrow> string option \<Rightarrow> field_def \<times> 'd msg_field \<Rightarrow> 'd msg_field" where
  "normal_field D sp line fv =
     (case fieldValue (snd fv) of
        None \<Rightarrow> undefined_field
      | Some (VString v) \<Rightarrow>
          let t = field_text D sp line fv
          in if t = [] then undefined_field else \<lparr>fieldValue = Some (VString (Some t)), fieldLength = int (length t)\<rparr>
      | Some (VInt i) \<Rightarrow> if i > 0 then \<lparr>fieldValue = Some (VInt i), fieldLength = 0\<rparr> else undefined_field
      | Some (VDouble d) \<Rightarrow>
          (case scanDouble D (printDouble D d) of
             None \<Rightarrow> undefined_field
           | Some e \<Rightarrow> if isPositive D e then \<lparr>fieldValue = Some (VDouble e), fieldLength = 0\<rparr> else undefined_field))"

lemma decode_field_text:
  assumes "field_ok fv" "string_ok line" "prints_numbers D"
  shows "decode_field D (fieldType (fst fv)) (field_text D sp line fv) (length (field_text D sp line fv))
    = Inr (normal_field D sp line fv)"
proof -
  have c: "c_string (field_text D sp line fv) = field_text D sp line fv"
    using field_text_plain[OF assms] by (simp add: c_string_id plain_text_def)
  have e: "c_string [] = []" by (simp add: c_string_def)
  show ?thesis
  proof (cases "fieldValue (snd fv)")
    case None
    then show ?thesis by (auto simp: decode_field_def normal_field_def field_text_def e split: field_type.split)
  next
    case (Some v)
    have ty: "value_has_type v (fieldType (fst fv))" "value_ok v"
      using assms(1) Some by (auto simp: field_ok_def field_typed_def)
    show ?thesis
    proof (cases v)
      case (VString t)
      then show ?thesis using ty c Some by (simp add: decode_field_def normal_field_def Let_def)
    next
      case (VInt i)
      then have t: "field_text D sp line fv = print_int i" using Some by (simp add: field_text_def)
      moreover have "- (2 ^ 31) \<le> i" "i < 2 ^ 31" using ty(2) VInt by (simp_all add: value_ok_def)
      ultimately show ?thesis using ty(1) c[unfolded t] Some VInt print_int_chars[of i]
        by (simp add: decode_field_def normal_field_def scan_print_int)
    next
      case (VDouble d)
      then have t: "field_text D sp line fv = printDouble D d" using Some by (simp add: field_text_def)
      have "printDouble D d \<noteq> []" using assms(3) by (simp add: prints_numbers_def)
      then show ?thesis using ty(1) c[unfolded t] Some VDouble t
        by (auto simp: decode_field_def normal_field_def split: option.split)
    qed
  qed
qed

text \<open>The texts of the fields, with the separators between them.\<close>

fun joined :: "string list \<Rightarrow> string" where
  "joined [] = []"
| "joined [t] = t"
| "joined (t # u # us) = t @ hash # joined (u # us)"

lemma take_to_hash:
  "hash \<notin> set t \<Longrightarrow> takeWhile (\<lambda>c. c \<noteq> hash) (t @ hash # r) = t \<and> dropWhile (\<lambda>c. c \<noteq> hash) (t @ hash # r) = hash # r"
  by (induction t) auto

lemma decode_fields_joined:
  assumes "length ts = length fs" "length vs = length fs" "fs \<noteq> []" "\<forall>f \<in> set fs. fieldType f \<noteq> TypeNull"
    and "\<forall>t \<in> set ts. plain_text t" "fieldType f0 = TypeNull"
    and "\<forall>i < length fs. decode_field D (fieldType (fs ! i)) (ts ! i) (length (ts ! i)) = Inr (vs ! i)"
  shows "decode_fields D 0 (fs @ f0 # r) (joined ts) = Inr (0, vs)"
  using assms
proof (induction fs arbitrary: ts vs)
  case Nil
  then show ?case by simp
next
  case (Cons f fs)
  obtain t ts' where ts: "ts = t # ts'" using Cons.prems(1) by (cases ts) auto
  obtain v vs' where vs: "vs = v # vs'" using Cons.prems(2) by (cases vs) auto
  have d: "decode_field D (fieldType f) t (length t) = Inr v" using Cons.prems(7) ts vs by (metis length_Cons nth_Cons_0 zero_less_Suc)
  have c: "c_string t = t" "hash \<notin> set t" using Cons.prems(5) ts by (auto simp: plain_text_def c_string_id)
  show ?case
  proof (cases "fs = []")
    case True
    then show ?thesis using Cons.prems d c ts vs by simp
  next
    case False
    then obtain u us where u: "ts' = u # us" using Cons.prems(1) ts by (cases ts') auto
    have "\<forall>i < length fs. decode_field D (fieldType (fs ! i)) (ts' ! i) (length (ts' ! i)) = Inr (vs' ! i)"
    proof (intro allI impI)
      fix i
      assume "i < length fs"
      then show "decode_field D (fieldType (fs ! i)) (ts' ! i) (length (ts' ! i)) = Inr (vs' ! i)"
        using Cons.prems(7)[rule_format, of "Suc i"] ts vs by simp
    qed
    then have "decode_fields D 0 (fs @ f0 # r) (joined ts') = Inr (0, vs')"
      using Cons.prems False ts vs by (intro Cons.IH) auto
    moreover have "fs @ f0 # r \<noteq> []" "fieldType (hd (fs @ f0 # r)) \<noteq> TypeNull" using False Cons.prems(4) by (auto simp: hd_append)
    ultimately show ?thesis using Cons.prems(4) d c take_to_hash[OF c(2), of "joined ts'"] ts vs u by (simp add: Let_def)
  qed
qed


section \<open>Messages and batches\<close>

text \<open>What the code relies on in its table of protocols.\<close>

definition protocol_ok :: "log_protocol \<Rightarrow> bool" where
  "protocol_ok p \<longleftrightarrow>
     (let n = nat (numberOfFields p)
      in 0 < n \<and> n < length (protoFields p) \<and> n \<le> INFOLOG_FIELDS_MAX
         \<and> protoVersion p \<noteq> None \<and> plain_text (the (protoVersion p))
         \<and> (\<forall>f \<in> set (take n (protoFields p)). fieldType f \<noteq> TypeNull) \<and> fieldType (protoFields p ! n) = TypeNull
         \<and> fieldType (protoFields p ! (n - 1)) = TypeString)"

definition statics_ok :: "log_statics \<Rightarrow> bool" where
  "statics_ok st \<longleftrightarrow> protocols st \<noteq> [] \<and>
     (\<forall>k < length (protocols st). protocol_ok (protocols st ! k)
        \<and> find_protocol (the (protoVersion (protocols st ! k))) (protocols st) 0 = Some k)"

text \<open>The fields of a message with their definitions, as the encoder pairs them.\<close>

definition message_fields :: "log_statics \<Rightarrow> nat \<Rightarrow> 'd log_msg \<Rightarrow> (field_def \<times> 'd msg_field) list" where
  "message_fields st k msg = take (nat (numberOfFields (protocols st ! k))) (zip (protoFields (protocols st ! k)) (msgValues msg))"

fun field_texts :: "'d double_text \<Rightarrow> int \<Rightarrow> string option \<Rightarrow> int \<Rightarrow> (field_def \<times> 'd msg_field) list \<Rightarrow> string list" where
  "field_texts D split line i [] = []"
| "field_texts D split line i (fv # fvs) = field_text D (i = split) line fv # field_texts D split line (i + 1) fvs"

fun normal_fields :: "'d double_text \<Rightarrow> int \<Rightarrow> string option \<Rightarrow> int \<Rightarrow> (field_def \<times> 'd msg_field) list \<Rightarrow> 'd msg_field list" where
  "normal_fields D split line i [] = []"
| "normal_fields D split line i (fv # fvs) = normal_field D (i = split) line fv # normal_fields D split line (i + 1) fvs"

lemma field_texts_nth:
  "length (field_texts D split line i fvs) = length fvs"
  "j < length fvs \<Longrightarrow> field_texts D split line i fvs ! j = field_text D (i + int j = split) line (fvs ! j)"
  by (induction fvs arbitrary: i j) (auto simp: nth_Cons algebra_simps split: nat.split)

lemma normal_fields_nth:
  "length (normal_fields D split line i fvs) = length fvs"
  "j < length fvs \<Longrightarrow> normal_fields D split line i fvs ! j = normal_field D (i + int j = split) line (fvs ! j)"
  by (induction fvs arbitrary: i j) (auto simp: nth_Cons algebra_simps split: nat.split)

lemma fields_text_joined: "fvs \<noteq> [] \<Longrightarrow> fields_text D split line i fvs = hash # joined (field_texts D split line i fvs)"
proof (induction fvs arbitrary: i)
  case (Cons fv fvs)
  then show ?case using Cons.IH[of "i + 1"] by (cases fvs) (simp_all del: One_nat_def)
qed simp

definition stored_message :: "log_statics \<Rightarrow> nat \<Rightarrow> 'd msg_field list \<Rightarrow> 'd log_msg" where
  "stored_message st k vs = snd (infoLog_msg_convert st \<lparr>msgValues = vs @ replicate (INFOLOG_FIELDS_MAX - length vs) undefined_field,
     msgProtocol = Some k\<rparr>)"

text \<open>A record whose field texts are plain is decoded field by field.\<close>

lemma decode_record:
  fixes D :: "'d double_text"
  assumes st: "statics_ok st" "k < length (protocols st)" "k = 0 \<or> infolog_msg_isInit st"
    and p: "p = protocols st ! k" "n = nat (numberOfFields p)"
    and ts: "length ts = n" "\<forall>t \<in> set ts. plain_text t"
    and vs: "length vs = n" "\<forall>i < n. decode_field D (fieldType (protoFields p ! i)) (ts ! i) (length (ts ! i)) = Inr (vs ! i)"
  shows "decode_message st D 0 (CHR ''*'' # the (protoVersion p) @ hash # joined ts) = Inr (0, stored_message st k vs, False)"
proof -
  have ok: "0 < n" "n < length (protoFields p)" "protoVersion p \<noteq> None" "plain_text (the (protoVersion p))"
    "\<forall>f \<in> set (take n (protoFields p)). fieldType f \<noteq> TypeNull" "fieldType (protoFields p ! n) = TypeNull"
    "find_protocol (the (protoVersion p)) (protocols st) 0 = Some k"
    using st(1,2) p unfolding statics_ok_def protocol_ok_def Let_def by auto
  let ?v = "the (protoVersion p)" and ?fs = "take n (protoFields p)"
  have split: "protoFields p = ?fs @ protoFields p ! n # drop (Suc n) (protoFields p)" using ok(2) by (simp add: id_take_nth_drop)
  have d: "decode_fields D 0 (protoFields p) (joined ts) = Inr (0, vs)"
    by (subst split, rule decode_fields_joined) (use ok ts vs in auto)
  have v: "c_string ?v = ?v" "hash \<notin> set ?v" using ok(4) by (auto simp: plain_text_def c_string_id)
  have c: "fst (infoLog_msg_convert st m) = 0" if "msgProtocol m = Some k" for m :: "'d log_msg"
    using st(3) that by (auto simp: infoLog_msg_convert_def Let_def)
  have r: "drop n (msgValues infoLog_msg_init) = replicate (INFOLOG_FIELDS_MAX - n) (undefined_field :: 'd msg_field)"
    by (simp add: infoLog_msg_init_def)
  obtain m' where m': "infoLog_msg_convert st \<lparr>msgValues = vs @ replicate (INFOLOG_FIELDS_MAX - n) undefined_field,
      msgProtocol = Some k\<rparr> = (0, m')"
    using c[of "\<lparr>msgValues = vs @ replicate (INFOLOG_FIELDS_MAX - n) undefined_field, msgProtocol = Some k\<rparr>"]
    by (cases "infoLog_msg_convert st \<lparr>msgValues = vs @ replicate (INFOLOG_FIELDS_MAX - n) undefined_field, msgProtocol = Some k\<rparr>")
      simp
  show ?thesis using take_to_hash[OF v(2), of "joined ts"] v ok(7) d vs(1) p(1) r m'
    by (simp add: decode_message_def Let_def stored_message_def)
qed

lemma decode_blobs_all:
  assumes "length ms = length bs" "\<forall>i < length bs. decode_message st D 0 (bs ! i) = Inr (0, ms ! i, False)"
  shows "\<exists>buffer'. decode_blobs st D bs (0, buffer, ms0) = Inr (0, buffer', ms0 @ ms)"
  using assms
proof (induction bs arbitrary: ms buffer ms0)
  case (Cons b bs)
  obtain m ms' where ms: "ms = m # ms'" using Cons.prems(1) by (cases ms) auto
  have "decode_message st D 0 b = Inr (0, m, False)" using Cons.prems(2)[rule_format, of 0] ms by simp
  moreover have "\<exists>buffer'. decode_blobs st D bs (0, take MSG_BUFFER_SIZE b, ms0 @ [m]) = Inr (0, buffer', (ms0 @ [m]) @ ms')"
    using Cons.prems ms by (intro Cons.IH) (auto dest: spec[of _ "Suc _"])
  ultimately show ?case using ms by (simp add: Let_def)
qed simp

lemma decode_all:
  assumes "length ms = length bs" "bs \<noteq> []" "\<forall>i < length bs. decode_message st D 0 (bs ! i) = Inr (0, ms ! i, False)"
  shows "infoLog_decode st D bs = Inr (Some ms, None)"
proof -
  obtain buffer' where "decode_blobs st D bs (0, [], []) = Inr (0, buffer', [] @ ms)"
    using decode_blobs_all[OF assms(1,3), of "[]" "[]"] by blast
  moreover have "ms \<noteq> []" using assms(1,2) by auto
  ultimately show ?thesis by (simp add: infoLog_decode_def)
qed


section \<open>From the encoder to the decoder\<close>

definition message_ok :: "log_statics \<Rightarrow> nat \<Rightarrow> 'd log_msg \<Rightarrow> bool" where
  "message_ok st k msg \<longleftrightarrow> msgProtocol msg = Some k \<and> k < length (protocols st) \<and> length (msgValues msg) = INFOLOG_FIELDS_MAX
     \<and> (\<forall>fv \<in> set (message_fields st k msg). field_ok fv)"

text \<open>The index of the field to split is -1 or that of a string field.\<close>

definition split_ok :: "log_statics \<Rightarrow> nat \<Rightarrow> int \<Rightarrow> bool" where
  "split_ok st k split \<longleftrightarrow> split = -1 \<or> 0 \<le> split \<and> split < numberOfFields (protocols st ! k)
     \<and> fieldType (protoFields (protocols st ! k) ! nat split) = TypeString"

definition split_text :: "'d log_msg \<Rightarrow> int \<Rightarrow> string option" where
  "split_text msg split = (if split < 0 then None
     else case fieldValue (msgValues msg ! nat split) of Some (VString t) \<Rightarrow> t | _ \<Rightarrow> None)"

lemma message_fields_facts:
  assumes "statics_ok st" "message_ok st k msg"
  defines "n \<equiv> nat (numberOfFields (protocols st ! k))"
  shows "length (message_fields st k msg) = n" "message_fields st k msg \<noteq> []" "int n = numberOfFields (protocols st ! k)"
    "j < n \<Longrightarrow> message_fields st k msg ! j = (protoFields (protocols st ! k) ! j, msgValues msg ! j)"
    "\<forall>fv \<in> set (message_fields st k msg). field_ok fv"
  using assms by (auto simp: statics_ok_def protocol_ok_def message_ok_def message_fields_def Let_def)

lemma encode_message:
  assumes "statics_ok st" "message_ok st k msg" "split_ok st k split" "0 < bufferSize" "bufferSize + 8 < 2 ^ 31"
  shows "\<exists>code out. infoLog_msg_encode st D msg bufferSize split old = Inr (code, out)
    \<and> encoded_as D (the (protoVersion (protocols st ! k))) split (message_fields st k msg) (record_lines (split_text msg split))
        bufferSize code out"
proof -
  let ?p = "protocols st ! k" and ?fvs = "message_fields st k msg" and ?v = "fieldValue (msgValues msg ! nat split)"
  note f = message_fields_facts[OF assms(1,2)]
  have v: "(if split \<ge> 0 \<and> ?v \<noteq> None then ?v else Some (VString None)) = Some (VString (split_text msg split))"
  proof (cases "split \<ge> 0 \<and> ?v \<noteq> None")
    case True
    then have s: "nat split < nat (numberOfFields ?p)" "fieldType (protoFields ?p ! nat split) = TypeString"
      using assms(3) by (auto simp: split_ok_def)
    then have "(protoFields ?p ! nat split, msgValues msg ! nat split) \<in> set ?fvs" using f(1,4) by (metis nth_mem)
    then have "field_typed (protoFields ?p ! nat split, msgValues msg ! nat split)" using f(5) by (auto simp: field_ok_def)
    then obtain t where "?v = Some (VString t)" using True s(2)
      by (cases "?v"; cases "the ?v") (auto simp: field_typed_def)
    then show ?thesis using True by (simp add: split_text_def)
  qed (auto simp: split_text_def split: option.splits)
  have b: "snd (mysprintf_init bufferSize) = \<lparr>outSize = bufferSize, outText = [], outError = False\<rparr>"
    using assms(4) by (simp add: mysprintf_init_def)
  have "infoLog_msg_encode st D msg bufferSize split old =
      encode_lines D (the (protoVersion ?p)) (numberOfFields ?p) ?fvs bufferSize split (split_text msg split) (-1)
        \<lparr>outSize = bufferSize, outText = [], outError = False\<rparr>"
    using assms(2-4) v b unfolding infoLog_msg_encode_def message_ok_def split_ok_def message_fields_def Let_def
    by (auto simp del: not_None_eq)
  moreover have "\<exists>code out. encode_lines D (the (protoVersion ?p)) (numberOfFields ?p) ?fvs bufferSize split (split_text msg split) (-1)
        \<lparr>outSize = bufferSize, outText = [], outError = False\<rparr> = Inr (code, out)
      \<and> encoded_as D (the (protoVersion ?p)) split ?fvs ([] @ record_lines (split_text msg split)) bufferSize code out"
    using f assms(4,5) by (intro encode_lines_spec) (auto simp: field_ok_def holds_def)
  ultimately show ?thesis by simp
qed

text \<open>A line of the encoder without its end is a blob for the decoder.\<close>

definition blob_of :: "string \<Rightarrow> string" where "blob_of r = butlast r"

definition normal_message :: "log_statics \<Rightarrow> 'd double_text \<Rightarrow> nat \<Rightarrow> int \<Rightarrow> 'd log_msg \<Rightarrow> string option \<Rightarrow> 'd log_msg" where
  "normal_message st D k split msg line = stored_message st k (normal_fields D split line 0 (message_fields st k msg))"

lemma record_texts:
  assumes "fvs \<noteq> []" "length ts = length fvs" "butlast ts = butlast (field_texts D split line 0 fvs)"
  shows "CHR ''*'' # version @ hash # joined ts = record_head D version split fvs line @ last ts"
proof -
  have j: "joined (us @ [u]) = concat (map (\<lambda>t. t @ [hash]) us) @ u" for us u
  proof (induction us)
    case (Cons w ws)
    then show ?case by (cases ws) auto
  qed simp
  have b: "hash # concat (map (\<lambda>t. t @ [hash]) (field_texts D split line i gs)) = fields_text D split line i gs @ [hash]" for i gs
    by (induction gs arbitrary: i) auto
  have bl: "butlast (field_texts D split line i gs) = field_texts D split line i (butlast gs)" for i gs
  proof (induction gs arbitrary: i)
    case (Cons g gs)
    then show ?case using Cons.IH[of "i + 1"] by (cases gs) simp_all
  qed simp
  have "ts \<noteq> []" using assms(1,2) by auto
  then have "ts = butlast ts @ [last ts]" by simp
  then have "joined ts = concat (map (\<lambda>t. t @ [hash]) (field_texts D split line 0 (butlast fvs))) @ last ts"
    using assms(3) j bl by metis
  then show ?thesis using b[of 0 "butlast fvs"] by (simp add: record_head_def)
qed

lemma decode_line:
  assumes "statics_ok st" "message_ok st k msg" "string_ok line" "prints_numbers D" "k = 0 \<or> infolog_msg_isInit st"
  shows "decode_message st D 0 (blob_of (record_text D (the (protoVersion (protocols st ! k))) split (message_fields st k msg) line))
    = Inr (0, normal_message st D k split msg line, False)"
proof -
  let ?fvs = "message_fields st k msg" and ?v = "the (protoVersion (protocols st ! k))"
  let ?ts = "field_texts D split line 0 ?fvs"
  note f = message_fields_facts[OF assms(1,2)]
  have fo: "field_ok (?fvs ! i)" if "i < length ?fvs" for i using f(5) that by simp
  have l: "last ?ts = record_tail D split ?fvs line"
  proof -
    have "?ts \<noteq> []" using f(2) field_texts_nth(1)[of D split line 0 ?fvs] by auto
    then have "last ?ts = ?ts ! (length ?fvs - 1)" by (simp add: last_conv_nth field_texts_nth(1))
    moreover have "length ?fvs - 1 < length ?fvs" using f(2) by simp
    moreover from this have "int (length ?fvs - 1) = int (length ?fvs) - 1" by linarith
    ultimately show ?thesis using f(2) by (simp add: field_texts_nth(2) last_conv_nth record_tail_def)
  qed
  have "blob_of (record_text D ?v split ?fvs line) = CHR ''*'' # ?v @ hash # joined ?ts"
    using record_texts[OF f(2), of ?ts D split line ?v] l by (simp add: blob_of_def record_text_def field_texts_nth butlast_append)
  moreover have "decode_message st D 0 (CHR ''*'' # ?v @ hash # joined ?ts) = Inr (0, normal_message st D k split msg line, False)"
    unfolding normal_message_def
  proof (rule decode_record[OF assms(1) _ assms(5) refl refl])
    show "k < length (protocols st)" using assms(2) by (simp add: message_ok_def)
    show "length ?ts = nat (numberOfFields (protocols st ! k))"
      "length (normal_fields D split line 0 ?fvs) = nat (numberOfFields (protocols st ! k))"
      using f(1) by (simp_all add: field_texts_nth normal_fields_nth)
    show "\<forall>t \<in> set ?ts. plain_text t"
    proof
      fix t
      assume "t \<in> set ?ts"
      then obtain i where "i < length ?fvs" "t = ?ts ! i" by (auto simp: in_set_conv_nth field_texts_nth)
      then show "plain_text t" using field_text_plain[OF fo assms(3,4)] by (simp add: field_texts_nth(2))
    qed
    show "\<forall>i < nat (numberOfFields (protocols st ! k)). decode_field D (fieldType (protoFields (protocols st ! k) ! i)) (?ts ! i)
        (length (?ts ! i)) = Inr (normal_fields D split line 0 ?fvs ! i)"
    proof (intro allI impI)
      fix i
      assume i: "i < nat (numberOfFields (protocols st ! k))"
      have "decode_field D (fieldType (fst (?fvs ! i))) (field_text D (int i = split) line (?fvs ! i))
          (length (field_text D (int i = split) line (?fvs ! i))) = Inr (normal_field D (int i = split) line (?fvs ! i))"
        using fo[of i] i f(1) by (intro decode_field_text[OF _ assms(3,4)]) simp
      then show "decode_field D (fieldType (protoFields (protocols st ! k) ! i)) (?ts ! i) (length (?ts ! i))
          = Inr (normal_fields D split line 0 ?fvs ! i)"
        using i f(1) f(4)[OF i] by (simp add: field_texts_nth(2) normal_fields_nth(2))
    qed
  qed
  ultimately show ?thesis by simp
qed


lemma cut_mark_plain: "plain_text t \<Longrightarrow> plain_text (take j t @ '' [...]'')"
  by (auto simp: plain_text_def hash_def newline_def dest: in_set_takeD)

text \<open>A record whose last field has been cut is read back as well.\<close>

lemma decode_cut_line:
  assumes "statics_ok st" "message_ok st k msg" "string_ok line" "prints_numbers D" "k = 0 \<or> infolog_msg_isInit st"
  shows "\<exists>m. decode_message st D 0 (blob_of (cut_record D (the (protoVersion (protocols st ! k))) split (message_fields st k msg) line j))
    = Inr (0, m, False)"
proof -
  let ?fvs = "message_fields st k msg" and ?v = "the (protoVersion (protocols st ! k))"
  let ?p = "protocols st ! k"
  define n where "n = nat (numberOfFields ?p)"
  define t where "t = take j (record_tail D split ?fvs line) @ '' [...]''"
  define ts where "ts = butlast (field_texts D split line 0 ?fvs) @ [t]"
  define vs where "vs = butlast (normal_fields D split line 0 ?fvs)
    @ [\<lparr>fieldValue = Some (VString (Some t)), fieldLength = int (length t)\<rparr>]"
  note f = message_fields_facts[OF assms(1,2), folded n_def]
  have k: "k < length (protocols st)" using assms(2) by (simp add: message_ok_def)
  have n: "0 < n" "fieldType (protoFields ?p ! (n - 1)) = TypeString"
    using assms(1) k unfolding n_def statics_ok_def protocol_ok_def Let_def by auto
  have fo: "field_ok (?fvs ! i)" if "i < n" for i using f(1,5) that by simp
  have tp: "plain_text t"
  proof -
    have "last ?fvs = ?fvs ! (n - 1)" using f(1,2) by (simp add: last_conv_nth)
    then have "field_ok (last ?fvs)" using fo[of "n - 1"] n(1) by simp
    then have "plain_text (record_tail D split ?fvs line)"
      unfolding record_tail_def by (rule field_text_plain[OF _ assms(3,4)])
    then show ?thesis unfolding t_def by (rule cut_mark_plain)
  qed
  have len: "length ts = n" "length vs = n" using f(1) n(1) by (simp_all add: ts_def vs_def field_texts_nth normal_fields_nth)
  have "blob_of (cut_record D ?v split ?fvs line j) = CHR ''*'' # ?v @ hash # joined ts"
  proof -
    have "CHR ''*'' # ?v @ hash # joined ts = record_head D ?v split ?fvs line @ last ts"
      by (rule record_texts) (use f(1,2) len in \<open>simp_all add: ts_def\<close>)
    then show ?thesis by (simp add: blob_of_def cut_record_def truncateMsg_def ts_def t_def butlast_append)
  qed
  moreover have "decode_message st D 0 (CHR ''*'' # ?v @ hash # joined ts) = Inr (0, stored_message st k vs, False)"
  proof (rule decode_record[OF assms(1) k assms(5) refl n_def len(1) _ len(2)])
    show "\<forall>t \<in> set ts. plain_text t"
    proof
      fix u
      assume "u \<in> set ts"
      then consider "u = t" | "u \<in> set (field_texts D split line 0 ?fvs)" unfolding ts_def by (auto dest: in_set_butlastD)
      then show "plain_text u"
      proof cases
        case 2
        then obtain i where "i < n" "u = field_texts D split line 0 ?fvs ! i"
          using f(1) by (auto simp: in_set_conv_nth field_texts_nth(1))
        then show ?thesis using field_text_plain[OF fo assms(3,4)] f(1) by (simp add: field_texts_nth(2))
      qed (use tp in simp)
    qed
    show "\<forall>i < n. decode_field D (fieldType (protoFields ?p ! i)) (ts ! i) (length (ts ! i)) = Inr (vs ! i)"
    proof (intro allI impI)
      fix i
      assume i: "i < n"
      show "decode_field D (fieldType (protoFields ?p ! i)) (ts ! i) (length (ts ! i)) = Inr (vs ! i)"
      proof (cases "i = n - 1")
        case True
        have "ts ! i = t" "vs ! i = \<lparr>fieldValue = Some (VString (Some t)), fieldLength = int (length t)\<rparr>"
          using True f(1) by (simp_all add: ts_def vs_def nth_append field_texts_nth normal_fields_nth)
        moreover have "c_string t = t" "t \<noteq> []" using tp by (auto simp: t_def plain_text_def c_string_id)
        ultimately show ?thesis using n(2) True by (simp add: decode_field_def Let_def)
      next
        case False
        then have "i < n - 1" using i by simp
        then have "ts ! i = field_text D (int i = split) line (?fvs ! i)" "vs ! i = normal_field D (int i = split) line (?fvs ! i)"
          using i f(1) by (simp_all add: ts_def vs_def nth_append nth_butlast field_texts_nth normal_fields_nth)
        moreover have "decode_field D (fieldType (fst (?fvs ! i))) (field_text D (int i = split) line (?fvs ! i))
            (length (field_text D (int i = split) line (?fvs ! i))) = Inr (normal_field D (int i = split) line (?fvs ! i))"
          by (rule decode_field_text[OF fo[OF i] assms(3,4)])
        ultimately show ?thesis using f(4)[OF i] by simp
      qed
    qed
  qed
  ultimately show ?thesis by simp
qed

text \<open>The lines of the text of an encoded message are the blobs.\<close>

lemma record_lines_ok:
  assumes "message_ok st k msg" "statics_ok st" "split_ok st k split" "l \<in> set (record_lines (split_text msg split))"
  shows "string_ok l"
proof (cases "split_text msg split")
  case None
  then show ?thesis using assms(4) by (simp add: record_lines_def string_ok_def)
next
  case (Some t)
  then have s: "0 \<le> split" "fieldValue (msgValues msg ! nat split) = Some (VString (Some t))"
    by (auto simp: split_text_def split: if_splits option.splits field_value.splits)
  then have i: "nat split < nat (numberOfFields (protocols st ! k))" using assms(3) by (auto simp: split_ok_def)
  note f = message_fields_facts[OF assms(2,1)]
  have "field_ok (protoFields (protocols st ! k) ! nat split, msgValues msg ! nat split)" using f(1,4,5) i by (metis nth_mem)
  then have z: "CHR 0x00 \<notin> set t" using s(2) by (simp add: field_ok_def value_ok_def string_ok_def)
  have part: "u \<in> set (split_on c xs) \<Longrightarrow> set u \<subseteq> set xs" for u c xs
  proof (induction xs arbitrary: u)
    case (Cons x xs)
    have "set v \<subseteq> set xs" if "v \<in> set (split_on c xs)" for v using Cons.IH[OF that] .
    with Cons.prems show ?case by (cases "split_on c xs") (fastforce split: if_splits)+
  qed simp
  obtain u where "l = Some u" "u \<in> set (split_on newline t)" using assms(4) Some by (auto simp: record_lines_def)
  then show ?thesis using part[of u newline t] z by (auto simp: string_ok_def)
qed

end
