(* ===== verification/Log_Protocols.thy ===== *)
theory Log_Protocols
  imports Log_Decoding
begin

text \<open>
  The table of protocols of the program, before and after \<^verbatim>\<open>infoLog_proto_init\<close>: what the codec relies on holds for it, the
  conversion to the default protocol keeps the fields that both have, and every message that the decoder hands out has the
  types of the default protocol.
\<close>

section \<open>The table\<close>

definition initialised_statics :: log_statics where
  "initialised_statics = snd (infoLog_proto_init initial_statics)"

definition program_statics :: "log_statics \<Rightarrow> bool" where
  "program_statics st \<longleftrightarrow> st = initial_statics \<or> st = initialised_statics"

text \<open>The indices of the conversion lead to fields with the same name and type, and no two to the same one.\<close>

definition conversion_ok :: "log_statics \<Rightarrow> bool" where
  "conversion_ok st \<longleftrightarrow>
     (\<forall>k < length (protocols st).
        let p = protocols st ! k; p0 = protocols st ! 0; cs = take (nat (numberOfFields p)) (convertIndex p)
        in length cs = nat (numberOfFields p) \<and> distinct (filter (\<lambda>c. c \<noteq> -1) cs)
           \<and> (\<forall>j < length cs. cs ! j = -1 \<or>
                0 \<le> cs ! j \<and> cs ! j < numberOfFields p0 \<and> protoFields p0 ! nat (cs ! j) = protoFields p ! j))"

lemma program_statics_ok: "program_statics st \<Longrightarrow> statics_ok st"
proof -
  have "statics_ok initial_statics" "statics_ok initialised_statics" by code_simp+
  then show "program_statics st \<Longrightarrow> statics_ok st" by (auto simp: program_statics_def)
qed

lemma program_conversion_ok: "program_statics st \<Longrightarrow> infolog_msg_isInit st \<Longrightarrow> conversion_ok st"
proof -
  have "conversion_ok initialised_statics" "\<not> infolog_msg_isInit initial_statics" by code_simp+
  then show "program_statics st \<Longrightarrow> infolog_msg_isInit st \<Longrightarrow> conversion_ok st" by (auto simp: program_statics_def)
qed

lemma program_init: "fst (infoLog_proto_init initial_statics) = 0 \<and> infolog_msg_isInit initialised_statics \<and> length (protocols initialised_statics) = 3"
  by code_simp


section \<open>Conversion\<close>

lemma convert_values_length [simp]: "length (convert_values cs vs new) = length new"
  by (induction cs vs new rule: convert_values.induct) auto

lemma convert_values_other: "\<forall>c \<in> set cs. c = -1 \<or> nat c \<noteq> q \<Longrightarrow> convert_values cs vs new ! q = new ! q"
  by (induction cs vs new rule: convert_values.induct) auto

lemma convert_values_at:
  assumes "distinct (filter (\<lambda>c. c \<noteq> -1) cs)" "\<forall>c \<in> set cs. -1 \<le> c \<and> c < int (length new)" "length cs \<le> length vs"
    and "j < length cs" "cs ! j = int q"
  shows "convert_values cs vs new ! q = vs ! j"
  using assms
proof (induction cs vs new arbitrary: j rule: convert_values.induct)
  case (3 c cs v vs new)
  show ?case
  proof (cases j)
    case 0
    then have c: "c = int q" "q < length new" using "3.prems" by auto
    then have "\<forall>d \<in> set cs. d = -1 \<or> nat d \<noteq> q" using "3.prems"(1,2) by auto
    then show ?thesis using c 0 by (simp add: convert_values_other)
  next
    case (Suc i)
    then show ?thesis using "3.prems" "3.IH"[of i] by (cases "c = -1") auto
  qed
qed auto

lemma converted_field:
  assumes "conversion_ok st" "infolog_msg_isInit st" "k < length (protocols st)" "k \<noteq> 0" "msgProtocol m = Some k"
    and "length (msgValues m) = INFOLOG_FIELDS_MAX" "statics_ok st"
  defines "p \<equiv> protocols st ! k" and "cs \<equiv> take (nat (numberOfFields (protocols st ! k))) (convertIndex (protocols st ! k))"
  shows "infoLog_msg_convert st m = (0, m\<lparr>msgValues := convert_values cs (msgValues m) (replicate INFOLOG_FIELDS_MAX undefined_field),
           msgProtocol := Some 0\<rparr>)"
    and "j < length cs \<Longrightarrow> cs ! j = int q \<Longrightarrow>
      convert_values cs (msgValues m) (replicate INFOLOG_FIELDS_MAX undefined_field) ! q = msgValues m ! j"
    and "q < INFOLOG_FIELDS_MAX \<Longrightarrow> int q \<notin> set cs \<Longrightarrow>
      convert_values cs (msgValues m) (replicate INFOLOG_FIELDS_MAX undefined_field) ! q = undefined_field"
proof -
  have c: "length cs = nat (numberOfFields p)" "distinct (filter (\<lambda>c. c \<noteq> -1) cs)"
    "\<forall>j < length cs. cs ! j = -1 \<or> 0 \<le> cs ! j \<and> cs ! j < numberOfFields (protocols st ! 0)"
    using assms(1)[unfolded conversion_ok_def Let_def, rule_format, OF assms(3)] unfolding cs_def p_def by blast+
  have n: "nat (numberOfFields p) \<le> INFOLOG_FIELDS_MAX" "nat (numberOfFields (protocols st ! 0)) \<le> INFOLOG_FIELDS_MAX"
    using assms(3,7) unfolding statics_ok_def protocol_ok_def Let_def p_def by auto
  have r: "\<forall>c \<in> set cs. -1 \<le> c \<and> c < int (length (replicate INFOLOG_FIELDS_MAX (undefined_field :: 'a msg_field)))"
    using c(3) n(2) by (fastforce simp: in_set_conv_nth INFOLOG_FIELDS_MAX_def)
  show "infoLog_msg_convert st m = (0, m\<lparr>msgValues := convert_values cs (msgValues m) (replicate INFOLOG_FIELDS_MAX undefined_field),
           msgProtocol := Some 0\<rparr>)"
    using assms(2,4,5) by (simp add: infoLog_msg_convert_def Let_def cs_def)
  show "convert_values cs (msgValues m) (replicate INFOLOG_FIELDS_MAX undefined_field) ! q = msgValues m ! j"
    if "j < length cs" "cs ! j = int q"
    using convert_values_at[OF c(2) r _ that] c(1) n(1) assms(6) by simp
  show "convert_values cs (msgValues m) (replicate INFOLOG_FIELDS_MAX undefined_field) ! q = undefined_field"
    if "q < INFOLOG_FIELDS_MAX" "int q \<notin> set cs"
    using that r by (subst convert_values_other) (auto simp: nat_eq_iff)
qed


section \<open>Types of decoded messages\<close>

text \<open>
  A decoded message: as many values as the array has, of the types of the default protocol, none of them a NULL string, an
  empty one of length 0 or a number that is not positive.
\<close>

definition value_positive :: "'d double_text \<Rightarrow> 'd msg_field \<Rightarrow> bool" where
  "value_positive D v = (case fieldValue v of
       None \<Rightarrow> fieldLength v = 0
     | Some (VString t) \<Rightarrow> t \<noteq> None \<and> fieldLength v > 0
     | Some (VInt i) \<Rightarrow> i > 0 \<and> fieldLength v = 0
     | Some (VDouble d) \<Rightarrow> isPositive D d \<and> fieldLength v = 0)"

definition decoded_ok :: "'d double_text \<Rightarrow> log_protocol \<Rightarrow> 'd msg_field list \<Rightarrow> bool" where
  "decoded_ok D p vs \<longleftrightarrow> (\<forall>i < length vs. value_positive D (vs ! i)
     \<and> (if i < nat (numberOfFields p) then field_ok (protoFields p ! i, vs ! i) else vs ! i = undefined_field))"

lemma undefined_ok [simp]: "value_positive D undefined_field" "field_ok (f, undefined_field)"
  by (simp_all add: value_positive_def undefined_field_def field_ok_def field_typed_def)

lemma scan_int_range: "scan_int s = Inr (Some i) \<Longrightarrow> - (2 ^ 31) \<le> i \<and> i < 2 ^ 31"
  by (auto simp: scan_int_def Let_def split: if_splits)

lemma decode_field_typed:
  "decode_field D (fieldType f) t n = Inr v \<Longrightarrow> value_positive D v \<and> field_ok (f, v)"
proof (cases "fieldType f")
  case TypeString
  moreover assume "decode_field D (fieldType f) t n = Inr v"
  ultimately show ?thesis
    by (auto simp: decode_field_def Let_def value_positive_def field_ok_def field_typed_def value_ok_def string_ok_def
        undefined_field_def c_string_zero_free split: if_splits)
next
  case TypeInt
  moreover assume "decode_field D (fieldType f) t n = Inr v"
  ultimately show ?thesis
  proof (cases "c_string t = []")
    case False
    obtain r where r: "scan_int (c_string t) = Inr r"
      "v = (case r of None \<Rightarrow> undefined_field
          | Some i \<Rightarrow> if i > 0 then \<lparr>fieldValue = Some (VInt i), fieldLength = 0\<rparr> else undefined_field)"
      using \<open>decode_field D (fieldType f) t n = Inr v\<close> TypeInt False
      by (auto simp: decode_field_def Let_def split: option.splits)
    then show ?thesis using scan_int_range TypeInt
      by (auto simp: value_positive_def field_ok_def field_typed_def value_ok_def undefined_field_def split: option.split)
  qed (auto simp: decode_field_def Let_def)
next
  case TypeDouble
  moreover assume "decode_field D (fieldType f) t n = Inr v"
  ultimately show ?thesis
    by (auto simp: decode_field_def Let_def value_positive_def field_ok_def field_typed_def value_ok_def
        undefined_field_def split: if_splits option.splits)
next
  case TypeNull
  moreover assume "decode_field D (fieldType f) t n = Inr v"
  ultimately show ?thesis by (auto simp: decode_field_def Let_def)
qed

lemma decode_fields_typed:
  assumes "decode_fields D err fs t = Inr (e, vs)" "n < length fs" "fieldType (fs ! n) = TypeNull"
  shows "length vs \<le> n \<and> (\<forall>i < length vs. value_positive D (vs ! i) \<and> field_ok (fs ! i, vs ! i))"
  using assms
proof (induction D err fs t arbitrary: e vs n rule: decode_fields.induct)
  case (2 D err f fs t)
  show ?case
  proof (cases "fieldType f = TypeNull")
    case True
    then show ?thesis using "2.prems" by simp
  next
    case False
    then obtain m where m: "n = Suc m" "m < length fs" "fieldType (fs ! m) = TypeNull"
      using "2.prems"(2,3) by (cases n) auto
    then have ne: "fs \<noteq> []" by auto
    show ?thesis
    proof (cases "fieldType (hd fs) = TypeNull")
      case True
      then obtain v where v: "decode_field D (fieldType f) t (length (c_string t)) = Inr v" "vs = [v]"
        using "2.prems"(1) False ne by (auto simp: Let_def)
      then show ?thesis using decode_field_typed[OF v(1)] m(1) by simp
    next
      case nl: False
      show ?thesis
      proof (cases "hash \<in> set t")
        case False2: False
        then show ?thesis using "2.prems"(1) False nl ne by simp
      next
        case True
        obtain v where v: "decode_field D (fieldType f) (takeWhile (\<lambda>c. c \<noteq> hash) t) (length (takeWhile (\<lambda>c. c \<noteq> hash) t)) = Inr v"
          using "2.prems"(1) False nl ne True by (auto simp: Let_def)
        show ?thesis
        proof (cases "err = 0")
          case False3: False
          then show ?thesis using "2.prems"(1) False nl ne True v decode_field_typed[OF v] m(1) by (auto simp: Let_def)
        next
          case z: True
          then obtain ws where w: "decode_fields D err fs (tl (dropWhile (\<lambda>c. c \<noteq> hash) t)) = Inr (e, ws)" "vs = v # ws"
            using "2.prems"(1) False nl ne True v by (auto simp: Let_def)
          have "length ws \<le> m \<and> (\<forall>i < length ws. value_positive D (ws ! i) \<and> field_ok (fs ! i, ws ! i))"
            using "2.IH" False ne nl True z w(1) m(2,3) by simp
          then show ?thesis using w(2) m(1) decode_field_typed[OF v] by (auto simp: nth_Cons split: nat.split)
        qed
      qed
    qed
  qed
qed simp


lemma stored_ok:
  assumes st: "statics_ok st" "k < length (protocols st)" "infolog_msg_isInit st \<longrightarrow> conversion_ok st"
    and vs: "length vs \<le> nat (numberOfFields (protocols st ! k))"
      "\<forall>i < length vs. value_positive D (vs ! i) \<and> field_ok (protoFields (protocols st ! k) ! i, vs ! i)"
    and c: "infoLog_msg_convert st \<lparr>msgValues = vs @ drop (length vs) (msgValues infoLog_msg_init), msgProtocol = Some k\<rparr> = (0, m)"
  shows "msgProtocol m = Some 0 \<and> length (msgValues m) = INFOLOG_FIELDS_MAX \<and> decoded_ok D (protocols st ! 0) (msgValues m)"
proof -
  let ?all = "vs @ drop (length vs) (msgValues (infoLog_msg_init :: 'a log_msg))"
  let ?p = "protocols st ! k" and ?dp = "protocols st ! 0"
  have n: "nat (numberOfFields ?p) \<le> INFOLOG_FIELDS_MAX"
    using st(1,2) unfolding statics_ok_def protocol_ok_def Let_def by auto
  have len: "length ?all = INFOLOG_FIELDS_MAX" using vs(1) n by (simp add: infoLog_msg_init_def)
  have rest: "?all ! i = undefined_field" if "length vs \<le> i" "i < INFOLOG_FIELDS_MAX" for i
    using that by (simp add: nth_append infoLog_msg_init_def)
  have ok: "value_positive D (?all ! i) \<and> (if i < nat (numberOfFields ?p) then field_ok (protoFields ?p ! i, ?all ! i)
      else ?all ! i = undefined_field)" if "i < INFOLOG_FIELDS_MAX" for i
  proof (cases "i < length vs")
    case True
    then show ?thesis using vs by (auto simp: nth_append)
  next
    case False
    then have "?all ! i = undefined_field" using rest that by simp
    then show ?thesis by simp
  qed
  show ?thesis
  proof (cases "k = 0")
    case True
    then have "m = \<lparr>msgValues = ?all, msgProtocol = Some 0\<rparr>" using c by (simp add: infoLog_msg_convert_def)
    then show ?thesis using ok len True unfolding decoded_ok_def by auto
  next
    case False
    then have i: "infolog_msg_isInit st" using c by (auto simp: infoLog_msg_convert_def split: if_splits)
    then have co: "conversion_ok st" using st(3) by simp
    let ?cs = "take (nat (numberOfFields ?p)) (convertIndex ?p)"
    let ?new = "convert_values ?cs ?all (replicate INFOLOG_FIELDS_MAX undefined_field)"
    note f = converted_field[OF co i st(2) False _ _ st(1), of "\<lparr>msgValues = ?all, msgProtocol = Some k\<rparr>"]
    have m: "m = \<lparr>msgValues = ?new, msgProtocol = Some 0\<rparr>" using f(1) c len by simp
    have cs: "length ?cs = nat (numberOfFields ?p)"
      "\<forall>j < length ?cs. ?cs ! j = -1 \<or> 0 \<le> ?cs ! j \<and> ?cs ! j < numberOfFields ?dp \<and> protoFields ?dp ! nat (?cs ! j) = protoFields ?p ! j"
      using co[unfolded conversion_ok_def Let_def, rule_format, OF st(2)] by blast+
    have "value_positive D (?new ! q) \<and> (if q < nat (numberOfFields ?dp) then field_ok (protoFields ?dp ! q, ?new ! q)
        else ?new ! q = undefined_field)" if q: "q < INFOLOG_FIELDS_MAX" for q
    proof (cases "int q \<in> set ?cs")
      case True
      then obtain j where j: "j < length ?cs" "?cs ! j = int q" by (auto simp only: in_set_conv_nth)
      then have "?new ! q = ?all ! j" using f(2) len by simp
      moreover have "q < nat (numberOfFields ?dp)" "protoFields ?dp ! q = protoFields ?p ! j" using cs(2) j by auto
      moreover have "j < nat (numberOfFields ?p)" "j < INFOLOG_FIELDS_MAX" using j(1) cs(1) n by linarith+
      ultimately show ?thesis using ok[of j] by simp
    next
      case False
      then have "?new ! q = undefined_field" using f(3)[OF _ _ q] len by simp
      then show ?thesis by simp
    qed
    then show ?thesis unfolding m decoded_ok_def by simp
  qed
qed

lemma decode_message_cases:
  assumes "decode_message st D err b = Inr (e, m, stop)"
  obtains "e \<in> {68, 70, 74, 86}"
  | k e' vs c where "find_protocol (c_string (takeWhile (\<lambda>c. c \<noteq> hash) (tl b))) (protocols st) 0 = Some k"
      "decode_fields D err (protoFields (protocols st ! k)) (tl (dropWhile (\<lambda>c. c \<noteq> hash) (tl b))) = Inr (e', vs)"
      "infoLog_msg_convert st \<lparr>msgValues = vs @ drop (length vs) (msgValues infoLog_msg_init), msgProtocol = Some k\<rparr> = (c, m)"
      "e = (if c \<noteq> 0 then 163 else e')"
proof (cases "e \<in> {68, 70, 74, 86}")
  case False
  then obtain k where k: "find_protocol (c_string (takeWhile (\<lambda>c. c \<noteq> hash) (tl b))) (protocols st) 0 = Some k"
    using assms by (auto simp: decode_message_def Let_def split: if_splits option.splits)
  obtain e' vs where f: "decode_fields D err (protoFields (protocols st ! k)) (tl (dropWhile (\<lambda>c. c \<noteq> hash) (tl b))) = Inr (e', vs)"
    using assms k False by (cases "decode_fields D err (protoFields (protocols st ! k)) (tl (dropWhile (\<lambda>c. c \<noteq> hash) (tl b)))")
      (auto simp: decode_message_def Let_def split: if_splits)
  obtain x m' where c: "infoLog_msg_convert st \<lparr>msgValues = vs @ drop (length vs) (msgValues infoLog_msg_init), msgProtocol = Some k\<rparr> = (x, m')"
    by fastforce
  moreover have "m' = m \<and> e = (if x \<noteq> 0 then 163 else e')"
    using assms k f c False by (auto simp: decode_message_def Let_def split: if_splits)
  ultimately show ?thesis using that(2) k f by blast
qed (rule that(1))

lemma decode_message_typed:
  assumes st: "statics_ok st" "infolog_msg_isInit st \<longrightarrow> conversion_ok st"
    and d: "decode_message st D err b = Inr (0, m, stop)"
  shows "msgProtocol m = Some 0 \<and> length (msgValues m) = INFOLOG_FIELDS_MAX \<and> decoded_ok D (protocols st ! 0) (msgValues m)"
proof -
  let ?version = "c_string (takeWhile (\<lambda>c. c \<noteq> hash) (tl b))" and ?t = "tl (dropWhile (\<lambda>c. c \<noteq> hash) (tl b))"
  have bound: "find_protocol v ps i = Some j \<Longrightarrow> j < i + length ps" for v ps i j
  proof (induction ps arbitrary: i)
    case (Cons p ps)
    then show ?case using Cons.IH[of "Suc i"] by (auto split: if_splits)
  qed simp
  from d obtain k e vs where k: "find_protocol ?version (protocols st) 0 = Some k"
    and f: "decode_fields D err (protoFields (protocols st ! k)) ?t = Inr (e, vs)"
    and c: "infoLog_msg_convert st \<lparr>msgValues = vs @ drop (length vs) (msgValues infoLog_msg_init), msgProtocol = Some k\<rparr> = (0, m)"
    by (elim decode_message_cases) (auto split: if_splits)
  have kl: "k < length (protocols st)" using bound[OF k] by simp
  then have "nat (numberOfFields (protocols st ! k)) < length (protoFields (protocols st ! k))"
    "fieldType (protoFields (protocols st ! k) ! nat (numberOfFields (protocols st ! k))) = TypeNull"
    using st(1) unfolding statics_ok_def protocol_ok_def Let_def by auto
  note t = decode_fields_typed[OF f this]
  show ?thesis by (rule stored_ok[OF st(1) kl st(2) _ _ c]) (use t in auto)
qed

text \<open>An error stays: the result of the whole file is then an error.\<close>

lemma decode_fields_error: "decode_fields D err fs t = Inr (0, vs) \<Longrightarrow> err = 0"
  by (cases fs; cases "err = 0") (auto simp: Let_def split: if_splits)

lemma decode_message_error: "decode_message st D err b = Inr (0, m, stop) \<Longrightarrow> err = 0"
  by (elim decode_message_cases) (auto split: if_splits dest: decode_fields_error)

lemma decode_blobs_error: "decode_blobs st D bs (err, buffer, ms) = Inr (0, buffer', ms') \<Longrightarrow> err = 0"
proof (induction bs arbitrary: err buffer ms)
  case (Cons b bs)
  obtain e m stop where d: "decode_message st D err b = Inr (e, m, stop)" using Cons.prems by (auto simp: Let_def)
  moreover from this have "e = 0" using Cons.prems Cons.IH by (cases stop) (auto simp: Let_def)
  ultimately show ?case using decode_message_error by blast
qed simp

lemma decode_blobs_typed:
  assumes st: "statics_ok st" "infolog_msg_isInit st \<longrightarrow> conversion_ok st"
    and "decode_blobs st D bs (err, buffer, ms) = Inr (0, buffer', ms')"
    and "\<forall>m \<in> set ms. msgProtocol m = Some 0 \<and> length (msgValues m) = INFOLOG_FIELDS_MAX \<and> decoded_ok D (protocols st ! 0) (msgValues m)"
  shows "\<forall>m \<in> set ms'. msgProtocol m = Some 0 \<and> length (msgValues m) = INFOLOG_FIELDS_MAX \<and> decoded_ok D (protocols st ! 0) (msgValues m)"
  using assms(3,4)
proof (induction bs arbitrary: err buffer ms)
  case Nil
  then show ?case by simp
next
  case (Cons b bs)
  obtain e m stop where d: "decode_message st D err b = Inr (e, m, stop)" using Cons.prems(1) by (auto simp: Let_def)
  have e: "e = 0"
  proof (cases stop)
    case False
    then have "decode_blobs st D bs (e, take MSG_BUFFER_SIZE b, ms @ [m]) = Inr (0, buffer', ms')"
      using Cons.prems(1) d by (simp add: Let_def)
    then show ?thesis by (rule decode_blobs_error)
  next
    case True
    then show ?thesis using Cons.prems(1) d by (simp add: Let_def)
  qed
  have "\<forall>x \<in> set (ms @ [m]). msgProtocol x = Some 0 \<and> length (msgValues x) = INFOLOG_FIELDS_MAX
      \<and> decoded_ok D (protocols st ! 0) (msgValues x)"
    using Cons.prems(2) decode_message_typed[OF st d[unfolded e]] by simp
  note new = this
  show ?case
  proof (cases stop)
    case True
    then show ?thesis using Cons.prems(1) d new by (simp add: Let_def)
  next
    case False
    then have "decode_blobs st D bs (e, take MSG_BUFFER_SIZE b, ms @ [m]) = Inr (0, buffer', ms')"
      using Cons.prems(1) d by (simp add: Let_def)
    then show ?thesis by (rule Cons.IH) (rule new)
  qed
qed

end
