(* ===== verification/Log_Daemon.thy ===== *)
theory Log_Daemon
  imports Text_Input
begin

text \<open>
  The local daemon of the log (src/InfoLogger/src/infoLoggerD.cxx): it reads what its clients send, cuts it into lines and
  passes each line on as one message. What \<^verbatim>\<open>select\<close>, \<^verbatim>\<open>read\<close> and \<^verbatim>\<open>accept\<close> answer is an input of the loop; the messages
  given to \<^verbatim>\<open>TR_client_send_msg\<close> and those printed to the local log are part of the state. Start-up, log output and the
  calls that close a socket are left out.
\<close>

record log_client =
  clientSocket :: int
  clientBuffer :: string

record log_daemon =
  isInitialized :: bool
  rxMaxConnections :: int
  outputToServer :: bool
  outputToLog :: bool
  daemonClients :: "log_client list"
  numberOfMessagesReceived :: u64
  printedMessages :: "string list"
  sentMessages :: "string list"

text \<open>
  The loop over the bytes of one read: \<open>pending\<close> are the bytes from \<open>ix\<close> to \<open>i\<close>, \<open>buffer\<close> the pending data of the client and
  \<open>ls\<close> the lines found so far.
\<close>

fun cut_data :: "string \<Rightarrow> string \<Rightarrow> string \<Rightarrow> string list \<Rightarrow> string \<times> string list" where
  "cut_data [] pending buffer ls = (buffer, ls)"
| "cut_data (c # cs) pending buffer ls =
     (let endOfLine = (c = newline);
          endOfBuffer = (cs = []);
          toPush = (if endOfLine then pending else if endOfBuffer then pending @ [c] else [])
      in if toPush \<noteq> [] then
           (if endOfLine then cut_data cs [] [] (ls @ [buffer @ toPush]) else cut_data cs [] (buffer @ toPush) ls)
         else cut_data cs (pending @ [c]) buffer ls)"

text \<open>A message is passed on as a C string.\<close>

definition to_c_str :: "string \<Rightarrow> string" where
  "to_c_str s = takeWhile (\<lambda>c. c \<noteq> CHR 0x00) s"

definition receive_message :: "string \<Rightarrow> log_daemon \<Rightarrow> log_daemon" where
  "receive_message m d =
     d\<lparr>numberOfMessagesReceived := numberOfMessagesReceived d + 1,
       printedMessages := (if outputToLog d then printedMessages d @ [to_c_str m] else printedMessages d),
       sentMessages := (if outputToServer d then sentMessages d @ [to_c_str m] else sentMessages d)\<rparr>"

datatype client_input = NoInput | InputData string | InputEnd

definition read_client :: "client_input \<Rightarrow> log_client \<Rightarrow> log_daemon \<Rightarrow> log_client \<times> log_daemon" where
  "read_client x c d =
     (case x of
        NoInput \<Rightarrow> (c, d)
      | InputEnd \<Rightarrow> (c\<lparr>clientSocket := -1\<rparr>, d)
      | InputData s \<Rightarrow>
          let (b, ls) = cut_data s [] (clientBuffer c) []
          in (c\<lparr>clientBuffer := b\<rparr>, fold receive_message ls d))"

fun read_clients :: "client_input list \<Rightarrow> log_client list \<Rightarrow> log_daemon \<Rightarrow> log_client list \<times> log_daemon" where
  "read_clients xs [] d = ([], d)"
| "read_clients [] cs d = (cs, d)"
| "read_clients (x # xs) (c # cs) d =
     (let (c', d1) = read_client x c d; (cs', d2) = read_clients xs cs d1 in (c' # cs', d2))"

text \<open>\<^verbatim>\<open>accept\<close>: no request, a failure, or the new socket.\<close>

datatype connect_input = NoRequest | AcceptFailed | Accepted int

definition accept_client :: "connect_input \<Rightarrow> log_daemon \<Rightarrow> log_daemon" where
  "accept_client x d =
     (case x of
        Accepted sock \<Rightarrow>
          if int (length (daemonClients d)) \<ge> rxMaxConnections d \<and> rxMaxConnections d > 0 then d
          else d\<lparr>daemonClients := daemonClients d @ [\<lparr>clientSocket = sock, clientBuffer = []\<rparr>]\<rparr>
      | _ \<Rightarrow> d)"

datatype loop_status = LoopOk | LoopError

text \<open>One pass of the main loop; \<open>None\<close> stands for a \<^verbatim>\<open>select\<close> that times out or fails.\<close>

definition InfoLoggerD_doLoop :: "(client_input list \<times> connect_input) option \<Rightarrow> log_daemon \<Rightarrow> loop_status \<times> log_daemon" where
  "InfoLoggerD_doLoop ev d =
     (if \<not> isInitialized d then (LoopError, d)
      else case ev of
             None \<Rightarrow> (LoopOk, d)
           | Some (xs, x) \<Rightarrow>
               let (cs, d1) = read_clients xs (daemonClients d) d
               in (LoopOk, accept_client x (d1\<lparr>daemonClients := filter (\<lambda>c. clientSocket c \<noteq> -1) cs\<rparr>)))"


section \<open>Lines\<close>

text \<open>No line is empty: \<open>inside\<close> says that the text before ends inside a line.\<close>

fun no_empty_line :: "bool \<Rightarrow> string \<Rightarrow> bool" where
  "no_empty_line inside [] = True"
| "no_empty_line inside (c # cs) = (if c = newline then inside \<and> no_empty_line False cs else no_empty_line True cs)"

lemma cut_data_text:
  assumes "no_empty_line (pending \<noteq> []) s" "newline \<notin> set pending" "newline \<notin> set buffer" "\<forall>l \<in> set ls. newline \<notin> set l"
    and "s \<noteq> [] \<or> pending = []"
  shows "case cut_data s pending buffer ls of (b, ks) \<Rightarrow>
     concat (map (\<lambda>l. l @ [newline]) ks) @ b = concat (map (\<lambda>l. l @ [newline]) ls) @ buffer @ pending @ s
     \<and> newline \<notin> set b \<and> (\<forall>l \<in> set ks. newline \<notin> set l)"
  using assms
proof (induction s pending buffer ls rule: cut_data.induct)
  case (2 c cs pending buffer ls)
  consider "c = newline" "pending \<noteq> []" | "c \<noteq> newline" "cs = []" | "c \<noteq> newline" "cs \<noteq> []"
    using "2.prems"(1) by (auto split: if_splits)
  then show ?case
  proof cases
    case 1
    then show ?thesis using "2.IH"(1)[OF refl refl refl] "2.prems" by (auto simp: Let_def split: prod.splits)
  next
    case 2
    then show ?thesis using "2.prems" by (simp add: Let_def)
  next
    case 3
    then show ?thesis using "2.IH"(3)[OF refl refl refl] "2.prems" by (auto simp: Let_def split: prod.splits)
  qed
qed simp

lemma no_empty_line_parts:
  "no_empty_line x (s @ t) \<Longrightarrow> no_empty_line x s \<and> (t = [] \<or> hd t = newline \<or> no_empty_line False t)"
proof (induction s arbitrary: x)
  case Nil
  then show ?case by (cases t) auto
next
  case (Cons c s)
  then show ?case by (auto split: if_splits)
qed

text \<open>Several reads from one client.\<close>

definition cut_chunk :: "string \<Rightarrow> string \<times> string list \<Rightarrow> string \<times> string list" where
  "cut_chunk s bl = cut_data s [] (fst bl) (snd bl)"

lemma cut_chunks_text:
  assumes "no_empty_line False (concat chunks)" "\<forall>c \<in> set chunks. c \<noteq> [] \<and> hd c \<noteq> newline"
    and "newline \<notin> set buffer" "\<forall>l \<in> set ls. newline \<notin> set l"
  shows "case fold cut_chunk chunks (buffer, ls) of (b, ks) \<Rightarrow>
     concat (map (\<lambda>l. l @ [newline]) ks) @ b = concat (map (\<lambda>l. l @ [newline]) ls) @ buffer @ concat chunks
     \<and> newline \<notin> set b \<and> (\<forall>l \<in> set ks. newline \<notin> set l)"
  using assms
proof (induction chunks arbitrary: buffer ls)
  case (Cons c cs)
  have p: "no_empty_line False c" "no_empty_line False (concat cs)"
  proof -
    have h: "hd (concat cs) \<noteq> newline" if "concat cs \<noteq> []" using Cons.prems(2) that by (cases cs) auto
    show "no_empty_line False c" "no_empty_line False (concat cs)"
      using no_empty_line_parts[of False c "concat cs"] Cons.prems(1) h by (cases "concat cs = []"; simp del: concat_eq_Nil_conv)+
  qed
  obtain b ks where c: "cut_data c [] buffer ls = (b, ks)" by fastforce
  have "concat (map (\<lambda>l. l @ [newline]) ks) @ b = concat (map (\<lambda>l. l @ [newline]) ls) @ buffer @ c
      \<and> newline \<notin> set b \<and> (\<forall>l \<in> set ks. newline \<notin> set l)"
    using cut_data_text[of "[]" c buffer ls] p(1) Cons.prems(3,4) unfolding c by simp
  then show ?case using Cons.IH[of b ks] p(2) Cons.prems(2) c by (auto simp: cut_chunk_def split: prod.splits)
qed simp


section \<open>Passes of the main loop\<close>

lemma cut_data_acc: "cut_data s p b (ks @ ls) = (fst (cut_data s p b ls), ks @ snd (cut_data s p b ls))"
proof (induction s p b ls rule: cut_data.induct)
  case (2 c cs p b ls)
  then show ?case by (auto simp: Let_def)
qed simp

lemma fold_receive:
  "fold receive_message ls d = d\<lparr>numberOfMessagesReceived := numberOfMessagesReceived d + of_nat (length ls),
     printedMessages := (if outputToLog d then printedMessages d @ map to_c_str ls else printedMessages d),
     sentMessages := (if outputToServer d then sentMessages d @ map to_c_str ls else sentMessages d)\<rparr>"
  by (induction ls arbitrary: d) (auto simp: receive_message_def algebra_simps)

text \<open>A daemon with one client, which sends the given data in this division.\<close>

definition daemon_feed :: "string list \<Rightarrow> log_daemon \<Rightarrow> log_daemon" where
  "daemon_feed chunks d = fold (\<lambda>s d. snd (InfoLoggerD_doLoop (Some ([InputData s], NoRequest)) d)) chunks d"

lemma daemon_feed_lines:
  assumes "isInitialized d" "daemonClients d = [\<lparr>clientSocket = sock, clientBuffer = buffer\<rparr>]" "sock \<noteq> -1"
    and "fold cut_chunk chunks (buffer, []) = (b, ks)" "outputToServer d"
  shows "daemonClients (daemon_feed chunks d) = [\<lparr>clientSocket = sock, clientBuffer = b\<rparr>]
    \<and> sentMessages (daemon_feed chunks d) = sentMessages d @ map to_c_str ks
    \<and> numberOfMessagesReceived (daemon_feed chunks d) = numberOfMessagesReceived d + of_nat (length ks)"
  using assms
proof (induction chunks arbitrary: d buffer ks)
  case Nil
  then show ?case by (simp add: daemon_feed_def)
next
  case (Cons s chunks)
  obtain b1 k1 where c: "cut_data s [] buffer [] = (b1, k1)" by fastforce
  have acc: "fold cut_chunk cs (x, us @ vs) = (fst (fold cut_chunk cs (x, vs)), us @ snd (fold cut_chunk cs (x, vs)))" for cs x us vs
    by (induction cs arbitrary: x vs) (simp_all add: cut_chunk_def cut_data_acc)
  obtain k2 where k: "fold cut_chunk chunks (b1, []) = (b, k2)" "ks = k1 @ k2"
  proof -
    have "cut_chunk s (buffer, []) = (b1, k1)" by (simp add: cut_chunk_def c)
    then have "fold cut_chunk chunks (b1, k1) = (b, ks)" using Cons.prems(4) by simp
    then show ?thesis using that acc[of chunks b1 k1 "[]"] by (cases "fold cut_chunk chunks (b1, [])") simp
  qed
  define d1 where "d1 = snd (InfoLoggerD_doLoop (Some ([InputData s], NoRequest)) d)"
  have d1: "isInitialized d1" "daemonClients d1 = [\<lparr>clientSocket = sock, clientBuffer = b1\<rparr>]" "outputToServer d1"
    "sentMessages d1 = sentMessages d @ map to_c_str k1" "numberOfMessagesReceived d1 = numberOfMessagesReceived d + of_nat (length k1)"
    using Cons.prems(1,2,3,5) c
    by (simp_all add: d1_def InfoLoggerD_doLoop_def read_client_def accept_client_def fold_receive)
  have "daemon_feed (s # chunks) d = daemon_feed chunks d1" by (simp add: daemon_feed_def d1_def)
  then show ?case using Cons.IH[OF d1(1,2) Cons.prems(3) k(1) d1(3)] d1(4,5) k(2) by simp
qed

end
