(* ===== verification/Message_Properties.thy ===== *)
theory Message_Properties
  imports Log_Protocols Log_Daemon
begin

text \<open>
  Properties of the log messages on their way from a program through the local daemon to the server: the encoder respects
  its buffer, what it writes is read back, what the server decodes has the types it expects, and what happens to records of
  older protocols and at the borders of the reads of the daemon.
\<close>

section \<open>Lines of the encoder\<close>

lemma fields_text_lines:
  assumes "\<forall>fv \<in> set fvs. field_ok fv" "string_ok line" "prints_numbers D"
  shows "newline \<notin> set (fields_text D split line i fvs) \<and> CHR 0x00 \<notin> set (fields_text D split line i fvs)"
  using assms(1)
proof (induction fvs arbitrary: i)
  case (Cons fv fvs)
  have "newline \<notin> set (field_text D (i = split) line fv) \<and> CHR 0x00 \<notin> set (field_text D (i = split) line fv)"
    using field_text_plain[OF _ assms(2,3), of fv "i = split"] Cons.prems by (simp add: plain_text_def)
  then show ?case using Cons by (simp add: hash_def newline_def)
qed simp

definition line_of :: "string \<Rightarrow> bool" where
  "line_of b \<longleftrightarrow> b \<noteq> [] \<and> newline \<notin> set b \<and> CHR 0x00 \<notin> set b"

lemma line_blob:
  assumes "\<forall>fv \<in> set fvs. field_ok fv" "fvs \<noteq> []" "string_ok line" "prints_numbers D" "plain_text version"
  shows "record_text D version split fvs line = blob_of (record_text D version split fvs line) @ [newline]
      \<and> line_of (blob_of (record_text D version split fvs line))"
    and "cut_record D version split fvs line j = blob_of (cut_record D version split fvs line j) @ [newline]
      \<and> line_of (blob_of (cut_record D version split fvs line j))"
proof -
  have "newline \<notin> set (fields_text D split line 0 (butlast fvs)) \<and> CHR 0x00 \<notin> set (fields_text D split line 0 (butlast fvs))"
    by (rule fields_text_lines) (use assms in \<open>auto dest: in_set_butlastD\<close>)
  then have h: "newline \<notin> set (record_head D version split fvs line)" "CHR 0x00 \<notin> set (record_head D version split fvs line)"
    using assms(5) by (simp_all add: record_head_def plain_text_def hash_def newline_def)
  have t: "newline \<notin> set (record_tail D split fvs line)" "CHR 0x00 \<notin> set (record_tail D split fvs line)"
    using field_text_plain[OF _ assms(3,4)] assms(1,2) by (simp_all add: record_tail_def plain_text_def)
  show "record_text D version split fvs line = blob_of (record_text D version split fvs line) @ [newline]
      \<and> line_of (blob_of (record_text D version split fvs line))"
    using h t by (auto simp: record_text_def blob_of_def butlast_append record_head_def line_of_def)
  show "cut_record D version split fvs line j = blob_of (cut_record D version split fvs line j) @ [newline]
      \<and> line_of (blob_of (cut_record D version split fvs line j))"
    using h t
    by (auto simp: cut_record_def blob_of_def butlast_append record_head_def truncateMsg_def newline_def line_of_def dest: in_set_takeD)
qed

lemma no_empty_line_concat:
  assumes "\<forall>b \<in> set bs. line_of b"
  shows "no_empty_line False (concat (map (\<lambda>l. l @ [newline]) bs))"
proof -
  have s: "newline \<notin> set b \<Longrightarrow> no_empty_line True (b @ newline # t) = no_empty_line False t" for b t
    by (induction b) auto
  show ?thesis using assms
  proof (induction bs)
    case (Cons b bs)
    obtain c d where b: "b = c # d" using Cons.prems by (cases b) (auto simp: line_of_def)
    then show ?case using Cons[unfolded line_of_def] s[of d "concat (map (\<lambda>l. l @ [newline]) bs)"] by auto
  qed simp
qed

text \<open>The daemon cuts the text of such lines into exactly these lines, however the reads divide it, unless a read starts with the end of a line.\<close>

lemma daemon_lines:
  assumes "\<forall>b \<in> set bs. line_of b" "concat chunks = concat (map (\<lambda>l. l @ [newline]) bs)"
    and "\<forall>c \<in> set chunks. c \<noteq> [] \<and> hd c \<noteq> newline"
  shows "fold cut_chunk chunks ([], []) = ([], bs)"
proof -
  obtain b ks where f: "fold cut_chunk chunks ([], []) = (b, ks)" by fastforce
  have "no_empty_line False (concat chunks)" using no_empty_line_concat[OF assms(1)] assms(2) by simp
  from cut_chunks_text[OF this assms(3), of "[]" "[]"] f
  have "concat (map (\<lambda>l. l @ [newline]) ks) @ b = concat (map (\<lambda>l. l @ [newline]) bs) @ []" "newline \<notin> set b"
    "\<forall>l \<in> set ks. newline \<notin> set l" using assms(2) by auto
  then have "ks = bs \<and> b = []" using assms(1) by (intro line_division_unique) (auto simp: line_of_def)
  then show ?thesis using f by simp
qed

lemma to_c_str_line: "line_of b \<Longrightarrow> to_c_str b = b"
  by (auto simp: line_of_def to_c_str_def takeWhile_eq_all_conv)

lemma daemon_sends_lines:
  assumes "isInitialized d" "outputToServer d" "daemonClients d = [\<lparr>clientSocket = sock, clientBuffer = []\<rparr>]" "sock \<noteq> -1"
    and "\<forall>b \<in> set bs. line_of b" "concat chunks = concat (map (\<lambda>l. l @ [newline]) bs)" "\<forall>c \<in> set chunks. c \<noteq> [] \<and> hd c \<noteq> newline"
  shows "sentMessages (daemon_feed chunks d) = sentMessages d @ bs"
proof -
  have "map to_c_str bs = bs" using assms(5) to_c_str_line by (simp add: map_idI)
  then show ?thesis using daemon_feed_lines[OF assms(1,3,4) daemon_lines[OF assms(5-7)] assms(2)] by simp
qed

text \<open>The messages that travel in a test: numbers in place of doubles, a text of two lines.\<close>

definition int_text :: "int double_text" where
  "int_text = \<lparr>printDouble = print_int, scanDouble = (\<lambda>s. case scan_int s of Inr r \<Rightarrow> r | Inl e \<Rightarrow> None), isPositive = (\<lambda>d. d > 0)\<rparr>"

lemma int_text_prints: "prints_numbers int_text"
  using print_int_chars by (simp add: prints_numbers_def int_text_def)

definition test_field :: "int field_value \<Rightarrow> int msg_field" where
  "test_field v = \<lparr>fieldValue = Some v, fieldLength = 0\<rparr>"

definition test_message :: "int log_msg" where
  "test_message = \<lparr>msgValues = test_field (VString (Some ''I'')) # undefined_field # test_field (VDouble 5)
     # replicate 12 undefined_field @ [test_field (VString (Some (''a#'' @ [newline] @ ''b''))), undefined_field, undefined_field],
     msgProtocol = Some 0\<rparr>"

definition test_daemon :: log_daemon where
  "test_daemon = \<lparr>isInitialized = True, rxMaxConnections = 10, outputToServer = True, outputToLog = False,
     daemonClients = [\<lparr>clientSocket = 5, clientBuffer = []\<rparr>], numberOfMessagesReceived = 0, printedMessages = [], sentMessages = []\<rparr>"

definition test_line :: "string" where
  "test_line = ''*1.4#I##5#############''"

lemma test_message_ok: "message_ok initial_statics 0 test_message \<and> split_ok initial_statics 0 15"
  by code_simp


section \<open>Encoding and decoding\<close>



text \<open>(C6) A message goes through the encoder, the local daemon and the decoder of the server: however the reads of the daemon divide the
  encoded text, as long as no read starts with the end of a line, the daemon passes on one message for each line, the server decodes all of them,
  and each is the original message with that line as its text, up to the replaced special characters and the numbers and empty strings that count
  as undefined. When the encoder had to cut the text, all complete records and the cut one are decoded.\<close>

theorem log_message_path:
  assumes st: "program_statics st" "message_ok st k msg" "split_ok st k split" "0 < bufferSize" "bufferSize + 8 < 2 ^ 31"
    and D: "prints_numbers D" "k = 0 \<or> infolog_msg_isInit st"
    and out: "infoLog_msg_encode st D msg bufferSize split old = Inr (code, out)" "code \<le> 0"
    and d: "isInitialized d" "outputToServer d" "daemonClients d = [\<lparr>clientSocket = sock, clientBuffer = []\<rparr>]" "sock \<noteq> -1"
    and chunks: "concat chunks = out" "\<forall>c \<in> set chunks. c \<noteq> [] \<and> hd c \<noteq> newline"
  shows "\<exists>blobs msgs. sentMessages (daemon_feed chunks d) = sentMessages d @ blobs \<and> infoLog_decode st D blobs = Inr (Some msgs, None)
    \<and> (if code = 0 then msgs = map (normal_message st D k split msg) (record_lines (split_text msg split))
       else \<exists>pre l post m. record_lines (split_text msg split) = pre @ l # post \<and> msgs = map (normal_message st D k split msg) pre @ [m])"
proof -
  let ?v = "the (protoVersion (protocols st ! k))" and ?fvs = "message_fields st k msg" and ?ls = "record_lines (split_text msg split)"
  let ?rec = "\<lambda>l. blob_of (record_text D ?v split ?fvs l)" and ?cut = "\<lambda>l j. blob_of (cut_record D ?v split ?fvs l j)"
  note so = program_statics_ok[OF st(1)]
  note f = message_fields_facts[OF so st(2)]
  have v: "plain_text ?v" using so st(2) unfolding statics_ok_def protocol_ok_def message_ok_def Let_def by auto
  note lb = line_blob[OF f(5) f(2) _ D(1) v]
  have ok: "string_ok l" if "l \<in> set ?ls" for l using record_lines_ok[OF st(2) so st(3) that] .
  have recs: "records_text D ?v split ?fvs ls = concat (map (\<lambda>b. b @ [newline]) (map ?rec ls))" if "set ls \<subseteq> set ?ls" for ls
    using that by (induction ls) (use lb(1) ok in auto)
  have enc: "encoded_as D ?v split ?fvs ?ls bufferSize code out"
    using encode_message[OF so st(2-5), of D old] out(1) by simp
  have ready: "sentMessages (daemon_feed chunks d) = sentMessages d @ bs"
    if "out = concat (map (\<lambda>b. b @ [newline]) bs)" "\<forall>b \<in> set bs. line_of b" for bs
    using daemon_sends_lines[OF d that(2) _ chunks(2)] chunks(1) that(1) by simp
  show ?thesis
  proof (cases "code = 0")
    case True
    then have o: "out = concat (map (\<lambda>b. b @ [newline]) (map ?rec ?ls))" using enc recs[of ?ls] by (simp add: encoded_as_def)
    have "\<forall>b \<in> set (map ?rec ?ls). line_of b" using lb(1) ok by auto
    note r = ready[OF o this]
    have "infoLog_decode st D (map ?rec ?ls) = Inr (Some (map (normal_message st D k split msg) ?ls), None)"
      by (rule decode_all) (use decode_line[OF so st(2) ok D] record_lines_ne in auto)
    then show ?thesis using r True by (intro exI[of _ "map ?rec ?ls"] exI[of _ "map (normal_message st D k split msg) ?ls"]) simp
  next
    case False
    then obtain pre l post j where c: "?ls = pre @ l # post" "out = records_text D ?v split ?fvs pre @ cut_record D ?v split ?fvs l j"
      using enc out(2) by (auto simp: encoded_as_def)
    have sub: "set pre \<subseteq> set ?ls" "l \<in> set ?ls" unfolding c(1) by auto
    have o: "out = concat (map (\<lambda>b. b @ [newline]) (map ?rec pre @ [?cut l j]))"
      using c(2) recs[OF sub(1)] lb(2)[OF ok[OF sub(2)]] by simp
    have "\<forall>b \<in> set (map ?rec pre @ [?cut l j]). line_of b" using lb ok sub by auto
    note r = ready[OF o this]
    obtain m where m: "decode_message st D 0 (?cut l j) = Inr (0, m, False)" using decode_cut_line[OF so st(2) ok[OF sub(2)] D] by blast
    have "infoLog_decode st D (map ?rec pre @ [?cut l j]) = Inr (Some (map (normal_message st D k split msg) pre @ [m]), None)"
    proof (rule decode_all)
      show "\<forall>i < length (map ?rec pre @ [?cut l j]). decode_message st D 0 ((map ?rec pre @ [?cut l j]) ! i)
          = Inr (0, (map (normal_message st D k split msg) pre @ [m]) ! i, False)"
        using decode_line[OF so st(2) ok D] sub(1) m by (auto simp: nth_append less_Suc_eq subset_iff)
    qed auto
    moreover have "\<exists>pre' l' post' m'. ?ls = pre' @ l' # post'
        \<and> map (normal_message st D k split msg) pre @ [m] = map (normal_message st D k split msg) pre' @ [m']"
      using c(1) by blast
    ultimately show ?thesis using r False
      by (intro exI[of _ "map ?rec pre @ [?cut l j]"] exI[of _ "map (normal_message st D k split msg) pre @ [m]"]) simp
  qed
qed

theorem log_message_path_witness:
  "\<exists>blobs msgs. sentMessages (daemon_feed [test_line @ ''a'', ''?'' @ [newline] @ test_line @ ''b'' @ [newline]] test_daemon) = blobs
    \<and> infoLog_decode initial_statics int_text blobs = Inr (Some msgs, None)
    \<and> msgs = map (normal_message initial_statics int_text 0 15 test_message) [Some ''a#'', Some ''b'']"
proof -
  let ?out = "test_line @ ''a?'' @ [newline] @ test_line @ ''b'' @ [newline]"
  have e: "infoLog_msg_encode initial_statics int_text test_message 100 15 [] = Inr (0, ?out)" by code_simp
  have l: "record_lines (split_text test_message 15) = [Some ''a#'', Some ''b'']" by code_simp
  have c: "concat [test_line @ ''a'', ''?'' @ [newline] @ test_line @ ''b'' @ [newline]] = ?out"
    "\<forall>c \<in> set [test_line @ ''a'', ''?'' @ [newline] @ test_line @ ''b'' @ [newline]]. c \<noteq> [] \<and> hd c \<noteq> newline"
    by (simp_all add: test_line_def newline_def)
  show ?thesis
    using log_message_path[OF _ _ _ _ _ int_text_prints _ e _ _ _ _ _ c, where d = test_daemon and sock = 5] test_message_ok unfolding l
    by (simp add: program_statics_def test_daemon_def)
qed


text \<open>(C17) Whatever bytes arrive, the messages that the decoder hands out have the types of the default protocol: each has the fixed number of
  values, each value has the type of its field, strings are not NULL and do not have length 0, numbers are positive, and the values behind the
  last field are undefined. So the encoder, which reads the values again for the online clients, never reads a wrong member of the union.\<close>

theorem decoded_messages_typed:
  assumes "program_statics st" "infoLog_decode st D blobs = Inr (Some msgs, report)" "m \<in> set msgs"
  shows "message_ok st 0 m \<and> decoded_ok D (protocols st ! 0) (msgValues m)"
proof -
  note so = program_statics_ok[OF assms(1)]
  obtain err buffer where d: "decode_blobs st D blobs (0, [], []) = Inr (err, buffer, msgs)" "err = 0"
    using assms(2) by (auto simp: infoLog_decode_def split: if_splits)
  have m: "msgProtocol m = Some 0" "length (msgValues m) = INFOLOG_FIELDS_MAX" "decoded_ok D (protocols st ! 0) (msgValues m)"
    using decode_blobs_typed[OF so _ d(1)[unfolded d(2)]] program_conversion_ok[OF assms(1)] assms(3) by auto
  have l: "0 < length (protocols st)" using so by (simp add: statics_ok_def)
  then have n: "nat (numberOfFields (protocols st ! 0)) \<le> INFOLOG_FIELDS_MAX"
    using so unfolding statics_ok_def protocol_ok_def Let_def by auto
  have "field_ok (f, v)" if "(f, v) \<in> set (message_fields st 0 m)" for f v
    using that m(2,3) n by (auto simp: message_fields_def in_set_conv_nth decoded_ok_def)
  then have "\<forall>fv \<in> set (message_fields st 0 m). field_ok fv" by auto
  then show ?thesis using m l by (simp add: message_ok_def)
qed

theorem decoded_messages_typed_witness:
  "\<exists>m. infoLog_decode initialised_statics int_text [''*1.2#I#7#host##-4######text''] = Inr (Some [m], None)
    \<and> message_ok initialised_statics 0 m"
proof -
  have "case infoLog_decode initialised_statics int_text [''*1.2#I#7#host##-4######text''] of
      Inr (Some [m], None) \<Rightarrow> True | _ \<Rightarrow> False"
    by code_simp
  then obtain m where m: "infoLog_decode initialised_statics int_text [''*1.2#I#7#host##-4######text''] = Inr (Some [m], None)"
    by (auto split: sum.splits prod.splits option.splits list.splits)
  moreover have "message_ok initialised_statics 0 m"
    using decoded_messages_typed[OF _ m, of m] by (simp add: program_statics_def)
  ultimately show ?thesis by blast
qed

text \<open>(C34) The conversion of an older message keeps its content: a value of the converted message is the value of the field with the same name
  and type, and undefined when the old protocol has no such field.\<close>

theorem conversion_keeps_fields:
  assumes "k < 3" "msgProtocol m = Some k" "length (msgValues m) = INFOLOG_FIELDS_MAX"
  shows "\<exists>m'. infoLog_msg_convert initialised_statics m = (0, m') \<and> msgProtocol m' = Some 0
    \<and> (\<forall>q < nat (numberOfFields (protocols initialised_statics ! 0)). \<forall>j < nat (numberOfFields (protocols initialised_statics ! k)).
        protoFields (protocols initialised_statics ! k) ! j = protoFields (protocols initialised_statics ! 0) ! q
          \<longrightarrow> msgValues m' ! q = msgValues m ! j)
    \<and> (\<forall>q < nat (numberOfFields (protocols initialised_statics ! 0)).
        (\<forall>j < nat (numberOfFields (protocols initialised_statics ! k)).
           protoFields (protocols initialised_statics ! k) ! j \<noteq> protoFields (protocols initialised_statics ! 0) ! q)
          \<longrightarrow> msgValues m' ! q = undefined_field)"
proof (cases "k = 0")
  case True
  have "\<forall>q < nat (numberOfFields (protocols initialised_statics ! 0)). \<forall>j < nat (numberOfFields (protocols initialised_statics ! 0)).
      protoFields (protocols initialised_statics ! 0) ! j = protoFields (protocols initialised_statics ! 0) ! q \<longrightarrow> j = q"
    by code_simp
  then show ?thesis using assms(2) True by (auto simp: infoLog_msg_convert_def)
next
  case False
  let ?st = initialised_statics
  let ?cs = "take (nat (numberOfFields (protocols ?st ! k))) (convertIndex (protocols ?st ! k))"
  let ?new = "convert_values ?cs (msgValues m) (replicate INFOLOG_FIELDS_MAX undefined_field)"
  have p: "program_statics ?st" "infolog_msg_isInit ?st" "k < length (protocols ?st)"
    using program_init assms(1) by (auto simp: program_statics_def)
  note f = converted_field[OF program_conversion_ok[OF p(1,2)] p(2,3) False assms(2,3) program_statics_ok[OF p(1)]]
  have cs: "length ?cs = nat (numberOfFields (protocols ?st ! k))"
    "\<forall>q < nat (numberOfFields (protocols ?st ! 0)). \<forall>j < nat (numberOfFields (protocols ?st ! k)).
      protoFields (protocols ?st ! k) ! j = protoFields (protocols ?st ! 0) ! q \<longleftrightarrow> ?cs ! j = int q"
    "nat (numberOfFields (protocols ?st ! 0)) \<le> INFOLOG_FIELDS_MAX"
  proof -
    have "\<forall>k < 3. length (take (nat (numberOfFields (protocols ?st ! k))) (convertIndex (protocols ?st ! k)))
          = nat (numberOfFields (protocols ?st ! k))"
      "\<forall>k < 3. \<forall>q < nat (numberOfFields (protocols ?st ! 0)). \<forall>j < nat (numberOfFields (protocols ?st ! k)).
      protoFields (protocols ?st ! k) ! j = protoFields (protocols ?st ! 0) ! q
        \<longleftrightarrow> take (nat (numberOfFields (protocols ?st ! k))) (convertIndex (protocols ?st ! k)) ! j = int q"
      "nat (numberOfFields (protocols ?st ! 0)) \<le> INFOLOG_FIELDS_MAX"
      by code_simp+
    then show "length ?cs = nat (numberOfFields (protocols ?st ! k))"
      "\<forall>q < nat (numberOfFields (protocols ?st ! 0)). \<forall>j < nat (numberOfFields (protocols ?st ! k)).
        protoFields (protocols ?st ! k) ! j = protoFields (protocols ?st ! 0) ! q \<longleftrightarrow> ?cs ! j = int q"
      "nat (numberOfFields (protocols ?st ! 0)) \<le> INFOLOG_FIELDS_MAX"
      using assms(1) by blast+
  qed
  have kept: "?new ! q = msgValues m ! j"
    if "q < nat (numberOfFields (protocols ?st ! 0))" "j < nat (numberOfFields (protocols ?st ! k))"
      "protoFields (protocols ?st ! k) ! j = protoFields (protocols ?st ! 0) ! q" for q j
    using f(2)[of j q] cs that by (simp only:)
  have gone: "?new ! q = undefined_field"
    if "q < nat (numberOfFields (protocols ?st ! 0))"
      "\<forall>j < nat (numberOfFields (protocols ?st ! k)). protoFields (protocols ?st ! k) ! j \<noteq> protoFields (protocols ?st ! 0) ! q" for q
  proof (rule f(3))
    show "q < INFOLOG_FIELDS_MAX" using that(1) cs(3) by linarith
    show "int q \<notin> set ?cs"
    proof
      assume "int q \<in> set ?cs"
      then obtain j where "j < length ?cs" "?cs ! j = int q" by (auto simp only: in_set_conv_nth)
      then show False using cs(1,2) that by (metis (no_types))
    qed
  qed
  show ?thesis using f(1) kept gone by (intro exI[of _ "m\<lparr>msgValues := ?new, msgProtocol := Some 0\<rparr>"]) simp
qed

theorem conversion_keeps_fields_witness:
  "\<exists>m'. infoLog_msg_convert initialised_statics (test_message\<lparr>msgProtocol := Some 2\<rparr>) = (0, m') \<and> msgValues m' ! 0 = test_field (VString (Some ''I''))"
proof -
  have c: "(0::nat) < nat (numberOfFields (protocols initialised_statics ! 0))" "(0::nat) < nat (numberOfFields (protocols initialised_statics ! 2))"
    "protoFields (protocols initialised_statics ! 2) ! 0 = protoFields (protocols initialised_statics ! 0) ! 0"
    by code_simp+
  have l: "length (msgValues (test_message\<lparr>msgProtocol := Some 2\<rparr>)) = INFOLOG_FIELDS_MAX"
    by (simp add: test_message_def INFOLOG_FIELDS_MAX_def)
  obtain m' where "infoLog_msg_convert initialised_statics (test_message\<lparr>msgProtocol := Some 2\<rparr>) = (0, m')"
    "msgValues m' ! 0 = msgValues (test_message\<lparr>msgProtocol := Some 2\<rparr>) ! 0"
    using conversion_keeps_fields[OF _ _ l, of 2] c by auto
  then show ?thesis by (simp add: test_message_def)
qed


text \<open>A batch with a message that is refused gives nothing, whatever stands before and behind that message.\<close>

lemma stop_is_error: "decode_message st D err b = Inr (e, m, True) \<Longrightarrow> e \<noteq> 0"
  by (cases "find_protocol (c_string (takeWhile (\<lambda>c. c \<noteq> hash) (tl b))) (protocols st) 0")
    (auto simp: decode_message_def Let_def case_prod_unfold split: if_splits)

lemma refused_batch:
  assumes "\<And>err e m stop. decode_message st D err b = Inr (e, m, stop) \<Longrightarrow> e \<noteq> 0"
  shows "decode_blobs st D (pre @ b # post) (err, buffer, ms) \<noteq> Inr (0, buffer', ms')"
proof (induction pre arbitrary: err buffer ms)
  case Nil
  show ?case
  proof
    assume a: "decode_blobs st D ([] @ b # post) (err, buffer, ms) = Inr (0, buffer', ms')"
    then obtain e m stop where d: "decode_message st D err b = Inr (e, m, stop)" by (auto simp: Let_def)
    then show False using a assms[OF d] decode_blobs_error[of st D post e] by (cases stop) (auto simp: Let_def)
  qed
next
  case (Cons c pre)
  show ?case
  proof
    assume a: "decode_blobs st D ((c # pre) @ b # post) (err, buffer, ms) = Inr (0, buffer', ms')"
    then obtain e m stop where d: "decode_message st D err c = Inr (e, m, stop)" by (auto simp: Let_def)
    show False
    proof (cases stop)
      case True
      then show False using a d stop_is_error[of st D err c e m] by (simp add: Let_def)
    next
      case False
      then show False using a d Cons.IH by (simp add: Let_def)
    qed
  qed
qed

text \<open>(C38) The server never calls \<^verbatim>\<open>infoLog_proto_init\<close>: with the statics as they are at the start of a program, one message of protocol 1.3
  or 1.2 makes the decoder refuse the whole file, also the messages of the current protocol before and behind it.\<close>

theorem old_protocol_loses_batch:
  assumes "version = ''1.3'' \<or> version = ''1.2''"
  shows "infoLog_decode initial_statics D (pre @ (CHR ''*'' # version @ hash # content) # post) \<noteq> Inr (Some msgs, report)"
proof -
  let ?b = "CHR ''*'' # version @ hash # content"
  have h: "hash \<notin> set version" "c_string version = version" using assms by (auto simp: hash_def c_string_def)
  have v: "c_string (takeWhile (\<lambda>c. c \<noteq> hash) (tl ?b)) = version" using take_to_hash[OF h(1), of content] h(2) by simp
  have k: "find_protocol version (protocols initial_statics) 0 = Some (if version = ''1.3'' then 1 else 2)"
    using assms by (auto simp: initial_statics_def protocol_1_4_def protocol_1_3_def protocol_1_2_def protocol_def_def)
  have "e \<noteq> 0" if "decode_message initial_statics D err ?b = Inr (e, m, stop)" for err e m stop
    using that
  proof (rule decode_message_cases)
    fix k' e' vs c
    assume a: "find_protocol (c_string (takeWhile (\<lambda>c. c \<noteq> hash) (tl ?b))) (protocols initial_statics) 0 = Some k'"
      "infoLog_msg_convert initial_statics \<lparr>msgValues = vs @ drop (length vs) (msgValues infoLog_msg_init), msgProtocol = Some k'\<rparr> = (c, m)"
      "e = (if c \<noteq> 0 then 163 else e')"
    then have "k' \<noteq> 0" unfolding v using k by (auto split: if_splits)
    then have "c = 370" using a(2) by (simp add: infoLog_msg_convert_def initial_statics_def)
    then show "e \<noteq> 0" using a(3) by simp
  qed auto
  then have "decode_blobs initial_statics D (pre @ ?b # post) (0, [], []) \<noteq> Inr (0, buffer', ms')" for buffer' ms'
    by (rule refused_batch)
  then show ?thesis by (auto simp: infoLog_decode_def split: if_splits)
qed

theorem old_protocol_loses_batch_witness:
  "infoLog_decode initial_statics int_text (map blob_of [test_line @ ''a'' @ [newline]] @ [''*1.3#I###############old''])
    \<noteq> Inr (Some [infoLog_msg_init], None)"
  using old_protocol_loses_batch[of "''1.3''" int_text "map blob_of [test_line @ ''a'' @ [newline]]" "''I###############old''" "[]"
      "[infoLog_msg_init]" None] by (simp add: hash_def)


section \<open>The daemon\<close>

text \<open>(C33) As long as no line is empty and no read starts with the end of a line, the daemon passes on to the server exactly the lines that the
  class \<^verbatim>\<open>LineBuffer\<close> of the common library finds in the same reads, and keeps the same rest.\<close>

theorem daemon_agrees_with_line_buffer:
  assumes "isInitialized d" "outputToServer d" "daemonClients d = [\<lparr>clientSocket = sock, clientBuffer = []\<rparr>]" "sock \<noteq> -1"
    and "no_empty_line False (concat chunks)" "\<forall>c \<in> set chunks. c \<noteq> [] \<and> hd c \<noteq> newline \<and> CHR 0x00 \<notin> set c"
  shows "let b = snd (LineBuffer_appendFromFileDescriptor (map ReadData chunks) LineBuffer_new) in
    daemonClients (daemon_feed chunks d) = [\<lparr>clientSocket = sock, clientBuffer = pendingLine b\<rparr>]
    \<and> sentMessages (daemon_feed chunks d) = sentMessages d @ completeLines b"
proof -
  obtain r ks where f: "fold cut_chunk chunks ([], []) = (r, ks)" by fastforce
  let ?b = "snd (LineBuffer_appendFromFileDescriptor (map ReadData chunks) LineBuffer_new)"
  have t: "concat (map (\<lambda>l. l @ [newline]) ks) @ r = concat chunks" "newline \<notin> set r" "\<forall>l \<in> set ks. newline \<notin> set l"
    using cut_chunks_text[OF assms(5), of "[]" "[]"] assms(6) f by auto
  then have "buffer_text \<lparr>pendingLine = r, completeLines = ks\<rparr> = concat chunks" "buffer_lines \<lparr>pendingLine = r, completeLines = ks\<rparr>"
    by (simp_all add: buffer_text_def buffer_lines_def)
  moreover have "buffer_text ?b = concat chunks" "buffer_lines ?b"
    using append_chunks_text[of chunks LineBuffer_new] assms(6) by (simp_all add: buffer_text_def buffer_lines_def LineBuffer_new_def)
  ultimately have b: "?b = \<lparr>pendingLine = r, completeLines = ks\<rparr>" by (intro line_buffer_unique) simp_all
  have z: "CHR 0x00 \<notin> set (concat (map (\<lambda>l. l @ [newline]) ks) @ r)" unfolding t(1) using assms(6) by simp
  have "to_c_str l = l" if "l \<in> set ks" for l
  proof -
    have "CHR 0x00 \<notin> set l" using z that by (cases "ks = []") auto
    then show ?thesis by (auto simp: to_c_str_def takeWhile_eq_all_conv)
  qed
  then have "map to_c_str ks = ks" by (simp add: map_idI)
  then show ?thesis using daemon_feed_lines[OF assms(1,3,4) f assms(2)] b by simp
qed

theorem daemon_agrees_with_line_buffer_witness:
  "sentMessages (daemon_feed [''ab'', ''c'' @ [newline] @ ''d''] test_daemon) =
    completeLines (snd (LineBuffer_appendFromFileDescriptor (map ReadData [''ab'', ''c'' @ [newline] @ ''d'']) LineBuffer_new))"
proof -
  have "no_empty_line False (concat [''ab'', ''c'' @ [newline] @ ''d''])"
    "\<forall>c \<in> set [''ab'', ''c'' @ [newline] @ ''d'']. c \<noteq> [] \<and> hd c \<noteq> newline \<and> CHR 0x00 \<notin> set c"
    by (simp_all add: newline_def)
  from daemon_agrees_with_line_buffer[OF _ _ _ _ this, of test_daemon 5] show ?thesis by (simp add: test_daemon_def Let_def)
qed

text \<open>(C35) When a read ends right before the end of a line, that line is not passed on. If the rest of the next line comes with the same read,
  the two become one message; if the end of the line comes alone, it is lost and the next line is appended without a separation. The same data
  divided elsewhere gives the two messages.\<close>

theorem daemon_glues_lines:
  assumes "isInitialized d" "outputToServer d" "daemonClients d = [\<lparr>clientSocket = sock, clientBuffer = []\<rparr>]" "sock \<noteq> -1"
    and "a \<noteq> []" "b \<noteq> []" "newline \<notin> set a" "newline \<notin> set b"
  shows "sentMessages (daemon_feed [a, newline # b @ [newline]] d) = sentMessages d @ [to_c_str (a @ newline # b)]
    \<and> sentMessages (daemon_feed [a, [newline], b @ [newline]] d) = sentMessages d @ [to_c_str (a @ b)]
    \<and> sentMessages (daemon_feed [a @ [newline], b @ [newline]] d) = sentMessages d @ [to_c_str a, to_c_str b]"
proof -
  have w: "newline \<notin> set s \<Longrightarrow> s \<noteq> [] \<Longrightarrow> cut_data s p buffer ls = (buffer @ p @ s, ls)" for s p buffer ls
    by (induction s p buffer ls rule: cut_data.induct) (auto simp: Let_def)
  have l: "newline \<notin> set s \<Longrightarrow> p @ s \<noteq> [] \<Longrightarrow> cut_data (s @ [newline]) p buffer ls = ([], ls @ [buffer @ p @ s])" for s p buffer ls
    by (induction s arbitrary: p) (auto simp: Let_def)
  have "cut_data [newline] [] buffer ls = (buffer, ls)" for buffer ls by (simp add: Let_def)
  moreover have "cut_data (newline # b @ [newline]) [] a [] = ([], [a @ newline # b])"
    using l[OF assms(8), of "[newline]" a "[]"] by (simp add: Let_def)
  ultimately have c: "fold cut_chunk [a, newline # b @ [newline]] ([], []) = ([], [a @ newline # b])"
    "fold cut_chunk [a, [newline], b @ [newline]] ([], []) = ([], [a @ b])"
    "fold cut_chunk [a @ [newline], b @ [newline]] ([], []) = ([], [a, b])"
    using w[OF assms(7,5)] l[OF assms(7), of "[]"] l[OF assms(8), of "[]"] assms(5,6) by (simp_all add: cut_chunk_def)
  note f = daemon_feed_lines[OF assms(1,3,4) _ assms(2)]
  show ?thesis using f[OF c(1)] f[OF c(2)] f[OF c(3)] by simp
qed

theorem daemon_glues_lines_witness:
  "sentMessages (daemon_feed [''*1.4#I'', newline # ''*1.4#W'' @ [newline]] test_daemon) = [to_c_str (''*1.4#I'' @ newline # ''*1.4#W'')]"
  using daemon_glues_lines[of test_daemon 5 "''*1.4#I''" "''*1.4#W''"] by (simp add: newline_def test_daemon_def)

end
