(* ===== verification/Util_Fifo.thy ===== *)
theory Util_Fifo
  imports Queue_Interface
begin

text \<open>
  The two queues of pointers of the log transport (src/InfoLogger/src/utility.c): \<^verbatim>\<open>struct FIFO\<close>, used under the locks of the
  transport client, and \<^verbatim>\<open>struct ptFIFO\<close>, which locks and waits by itself. Both are a ring of \<open>size + 1\<close> slots in which
  \<open>index_start\<close> is the slot of the first item and \<open>index_end\<close> the slot behind the last one.

  \<^item> A pointer is an option, \<open>None\<close> the null pointer; the queue itself is never null where it is used. The last slot of a new
    queue is not cleared by the code, its content \<open>junk\<close> is whatever the allocation returns.
  \<^item> The calls of a \<^verbatim>\<open>ptFIFO\<close> run under its mutex, so each is one step; only \<^verbatim>\<open>pthread_cond_wait\<close> and
    \<^verbatim>\<open>pthread_cond_timedwait\<close> let other threads in. What they do to the queue meanwhile is an input, the list of the ends of
    the waits; a wait that never ends is \<open>None\<close>. The user of the queue may keep more fields beside it, which the other
    threads change too, so the operations work on the extensible record.
\<close>

record 'a ptr_ring =
  ring_size :: int
  index_start :: int
  index_end :: int
  slots :: "'a option list"

record 'a FIFO = "'a ptr_ring" +
  total_files :: int

type_synonym 'a ptFIFO = "'a ptr_ring"

section \<open>The queue without locks\<close>

definition FIFO_new :: "'a option \<Rightarrow> int \<Rightarrow> 'a FIFO" where
  "FIFO_new junk n =
     \<lparr>ring_size = n, index_start = 0, index_end = 0, slots = replicate (nat n) None @ [junk], total_files = 0\<rparr>"

definition next_index :: "('a, 'b) ptr_ring_scheme \<Rightarrow> int \<Rightarrow> int" where
  "next_index f i = (if i + 1 > ring_size f then 0 else i + 1)"

definition ring_take :: "('a, 'b) ptr_ring_scheme \<Rightarrow> ('a option \<times> ('a, 'b) ptr_ring_scheme) res" where
  "ring_take f =
     res_bind (vec_get (slots f) (index_start f)) (\<lambda>x.
     res_bind (vec_set (slots f) (index_start f) None) (\<lambda>d.
       Inr (x, f\<lparr>slots := d, index_start := next_index f (index_start f)\<rparr>)))"

definition ring_put :: "'a \<Rightarrow> ('a, 'b) ptr_ring_scheme \<Rightarrow> ('a, 'b) ptr_ring_scheme res" where
  "ring_put x f =
     res_bind (vec_set (slots f) (index_end f) (Some x)) (\<lambda>d.
       Inr (f\<lparr>slots := d, index_end := next_index f (index_end f)\<rparr>))"

definition FIFO_read :: "'a FIFO \<Rightarrow> ('a option \<times> 'a FIFO) res" where
  "FIFO_read f = (if index_start f = index_end f then Inr (None, f) else ring_take f)"

definition FIFO_write :: "'a option \<Rightarrow> 'a FIFO \<Rightarrow> (int \<times> 'a FIFO) res" where
  "FIFO_write item f =
     (case item of
        None \<Rightarrow> Inr (-1, f)
      | Some x \<Rightarrow>
          if next_index f (index_end f) = index_start f then Inr (-1, f)
          else res_bind (ring_put x f) (\<lambda>g. Inr (0, g\<lparr>total_files := total_files g + 1\<rparr>)))"

definition FIFO_is_full :: "('a, 'b) ptr_ring_scheme \<Rightarrow> int" where
  "FIFO_is_full f = (if next_index f (index_end f) = index_start f then 1 else 0)"

definition FIFO_is_empty :: "('a, 'b) ptr_ring_scheme \<Rightarrow> int" where
  "FIFO_is_empty f = (if index_start f = index_end f then 1 else 0)"

definition ring_used :: "('a, 'b) ptr_ring_scheme \<Rightarrow> int" where
  "ring_used f = (let su = index_end f - index_start f in if index_end f < index_start f then su + (ring_size f + 1) else su)"

definition FIFO_get_space_left :: "('a, 'b) ptr_ring_scheme \<Rightarrow> int" where
  "FIFO_get_space_left f = ring_size f - ring_used f"

text \<open>The loop of \<^verbatim>\<open>FIFO_read_index\<close> with \<open>n\<close> slots to go from slot \<open>j\<close>.\<close>

fun read_from :: "nat \<Rightarrow> int \<Rightarrow> ('a, 'b) ptr_ring_scheme \<Rightarrow> 'a option res" where
  "read_from n j f =
     (if j = index_end f then Inr None
      else case n of 0 \<Rightarrow> vec_get (slots f) j | Suc m \<Rightarrow> read_from m (next_index f j) f)"

declare read_from.simps [simp del]

definition FIFO_read_index :: "int \<Rightarrow> ('a, 'b) ptr_ring_scheme \<Rightarrow> 'a option res" where
  "FIFO_read_index index f = (if index < 0 then Inr None else read_from (nat index) (index_start f) f)"

definition FIFO_get_total_files :: "'a FIFO \<Rightarrow> int" where
  "FIFO_get_total_files f = total_files f"


section \<open>The queue with locks\<close>

definition ptFIFO_new :: "'a option \<Rightarrow> int \<Rightarrow> 'a ptFIFO" where
  "ptFIFO_new junk n = \<lparr>ring_size = n, index_start = 0, index_end = 0, slots = replicate (nat n) None @ [junk]\<rparr>"

text \<open>The end of a wait: whether it timed out, and what the other threads have done before the lock is held again.\<close>

record ('a, 'b) wake =
  timedOut :: bool
  others :: "('a, 'b) ptr_ring_scheme \<Rightarrow> ('a, 'b) ptr_ring_scheme"

fun ptFIFO_read ::
  "int \<Rightarrow> ('a, 'b) wake list \<Rightarrow> ('a, 'b) ptr_ring_scheme \<Rightarrow>
   ('a option \<times> ('a, 'b) wake list \<times> ('a, 'b) ptr_ring_scheme) res option"
where
  "ptFIFO_read timeout ws f =
     (if index_start f = index_end f then
        (if timeout = 0 then Some (Inr (None, ws, f))
         else case ws of
             [] \<Rightarrow> None
           | w # ws' \<Rightarrow>
               if timeout > 0 \<and> timedOut w then Some (Inr (None, ws', others w f))
               else ptFIFO_read timeout ws' (others w f))
      else Some (res_bind (ring_take f) (\<lambda>(x, g). Inr (x, ws, g))))"

fun ptFIFO_put ::
  "'a \<Rightarrow> int \<Rightarrow> ('a, 'b) wake list \<Rightarrow> ('a, 'b) ptr_ring_scheme \<Rightarrow>
   (int \<times> ('a, 'b) wake list \<times> ('a, 'b) ptr_ring_scheme) res option"
where
  "ptFIFO_put x timeout ws f =
     (if next_index f (index_end f) = index_start f then
        (if timeout = 0 then Some (Inr (-1, ws, f))
         else case ws of
             [] \<Rightarrow> None
           | w # ws' \<Rightarrow>
               if timeout > 0 \<and> timedOut w then Some (Inr (-1, ws', others w f))
               else ptFIFO_put x timeout ws' (others w f))
      else Some (res_bind (ring_put x f) (\<lambda>g. Inr (0, ws, g))))"

declare ptFIFO_read.simps [simp del] ptFIFO_put.simps [simp del]

definition ptFIFO_write ::
  "'a option \<Rightarrow> int \<Rightarrow> ('a, 'b) wake list \<Rightarrow> ('a, 'b) ptr_ring_scheme \<Rightarrow>
   (int \<times> ('a, 'b) wake list \<times> ('a, 'b) ptr_ring_scheme) res option"
where
  "ptFIFO_write item timeout ws f =
     (case item of None \<Rightarrow> Some (Inr (-1, ws, f)) | Some x \<Rightarrow> ptFIFO_put x timeout ws f)"

text \<open>\<^verbatim>\<open>ptFIFO_space_used\<close> divides two numbers as \<^verbatim>\<open>double\<close> and returns a \<^verbatim>\<open>float\<close>; here the quotient is exact.\<close>

definition ptFIFO_space_used :: "('a, 'b) ptr_ring_scheme \<Rightarrow> rat" where
  "ptFIFO_space_used f = of_int (ring_used f) / of_int (ring_size f)"

definition ptFIFO_is_empty :: "('a, 'b) ptr_ring_scheme \<Rightarrow> int" where
  "ptFIFO_is_empty f = (if index_start f = index_end f then 1 else 0)"


section \<open>Invariant and abstraction\<close>

definition ptr_slice :: "('a, 'b) ptr_ring_scheme \<Rightarrow> 'a option list" where
  "ptr_slice f = ring_slice (slots f) (index_start f) (nat (ring_dist (ring_size f + 1) (index_start f) (index_end f)))"

definition ptr_contents :: "('a, 'b) ptr_ring_scheme \<Rightarrow> 'a list" where
  "ptr_contents f = map the (ptr_slice f)"

definition ptr_capacity :: "('a, 'b) ptr_ring_scheme \<Rightarrow> nat" where
  "ptr_capacity f = nat (ring_size f)"

definition ptr_inv :: "('a, 'b) ptr_ring_scheme \<Rightarrow> bool" where
  "ptr_inv f \<longleftrightarrow> 0 \<le> ring_size f \<and> int (length (slots f)) = ring_size f + 1
     \<and> in_ring (ring_size f + 1) (index_start f) \<and> in_ring (ring_size f + 1) (index_end f) \<and> None \<notin> set (ptr_slice f)"

lemma next_index_ring: "next_index f i = ring_next (ring_size f + 1) i"
  by (simp add: next_index_def ring_next_def)

lemma ptr_shape:
  assumes "ptr_inv f"
  shows "int (length (slots f)) = ring_size f + 1" "0 < ring_size f + 1" "in_ring (ring_size f + 1) (index_start f)"
    "in_ring (ring_size f + 1) (index_end f)" "0 \<le> ring_dist (ring_size f + 1) (index_start f) (index_end f)"
    "ring_dist (ring_size f + 1) (index_start f) (index_end f) < ring_size f + 1"
    "int (length (ptr_contents f)) = ring_dist (ring_size f + 1) (index_start f) (index_end f)"
    "length (ptr_contents f) \<le> ptr_capacity f"
  using assms ring_dist_bounds[of "ring_size f + 1" "index_start f" "index_end f"]
  by (auto simp: ptr_inv_def ptr_contents_def ptr_slice_def ptr_capacity_def)

lemma ptr_empty_iff:
  assumes "ptr_inv f"
  shows "index_start f = index_end f \<longleftrightarrow> ptr_contents f = []"
  using ring_dist_0_iff[OF ptr_shape(3,4)[OF assms]] ptr_shape(7)[OF assms] by auto

lemma ptr_full_iff:
  assumes "ptr_inv f"
  shows "next_index f (index_end f) = index_start f \<longleftrightarrow> length (ptr_contents f) = ptr_capacity f"
  using ring_dist_full[OF ptr_shape(3,4)[OF assms]] ptr_shape(7)[OF assms] assms
  by (auto simp: next_index_ring ptr_capacity_def ptr_inv_def)

lemma ring_used_length: "ptr_inv f \<Longrightarrow> ring_used f = int (length (ptr_contents f))"
  using ptr_shape[of f] ring_dist_alt[of "ring_size f + 1" "index_start f" "index_end f"]
  by (simp add: ring_used_def Let_def)

lemma ring_put_space:
  assumes inv: "ptr_inv f" and space: "next_index f (index_end f) \<noteq> index_start f"
  shows "\<exists>d. ring_put x f = Inr (f\<lparr>slots := d, index_end := next_index f (index_end f)\<rparr>)
    \<and> ptr_inv (f\<lparr>slots := d, index_end := next_index f (index_end f)\<rparr>)
    \<and> ptr_contents (f\<lparr>slots := d, index_end := next_index f (index_end f)\<rparr>) = ptr_contents f @ [x]"
proof -
  let ?n = "ring_size f + 1" and ?s = "index_start f" and ?e = "index_end f"
  let ?d = "(slots f)[nat ?e := Some x]"
  let ?f = "f\<lparr>slots := ?d, index_end := next_index f ?e\<rparr>"
  note sh = ptr_shape[OF inv]
  have ne: "ring_next ?n ?e \<noteq> ?s" using space by (simp add: next_index_ring)
  have "ring_put x f = Inr ?f" using sh by (simp add: ring_put_def vec_set_def in_ring_def)
  moreover have sl: "ptr_slice ?f = ptr_slice f @ [Some x]"
  proof -
    have "nat (ring_dist ?n ?s (ring_next ?n ?e)) = Suc (nat (ring_dist ?n ?s ?e))"
      using ring_dist_next_right[OF sh(3,4) ne] sh(5) by simp
    moreover have "ring_slice ?d ?s (Suc (nat (ring_dist ?n ?s ?e))) = ring_slice (slots f) ?s (nat (ring_dist ?n ?s ?e)) @ [Some x]"
      using sh by (intro ring_slice_snoc) simp_all
    ultimately show ?thesis by (simp del: ring_slice.simps add: ptr_slice_def next_index_ring)
  qed
  moreover have "ptr_inv ?f" using inv sl by (simp add: ptr_inv_def next_index_ring)
  moreover have "ptr_contents ?f = ptr_contents f @ [x]" using sl by (simp add: ptr_contents_def)
  ultimately show ?thesis by blast
qed

lemma ring_take_item:
  assumes inv: "ptr_inv f" and ne: "ptr_contents f = y # ys"
  shows "\<exists>d. ring_take f = Inr (Some y, f\<lparr>slots := d, index_start := next_index f (index_start f)\<rparr>)
    \<and> ptr_inv (f\<lparr>slots := d, index_start := next_index f (index_start f)\<rparr>)
    \<and> ptr_contents (f\<lparr>slots := d, index_start := next_index f (index_start f)\<rparr>) = ys"
proof -
  let ?n = "ring_size f + 1" and ?s = "index_start f" and ?e = "index_end f"
  let ?d = "(slots f)[nat ?s := None]"
  let ?f = "f\<lparr>slots := ?d, index_start := next_index f ?s\<rparr>"
  note sh = ptr_shape[OF inv]
  have sne: "?s \<noteq> ?e" using ptr_empty_iff[OF inv] ne by simp
  have d: "ring_dist ?n (ring_next ?n ?s) ?e = ring_dist ?n ?s ?e - 1" using sh(3,4) sne by (rule ring_dist_next_left)
  have b: "0 \<le> ring_dist ?n (ring_next ?n ?s) ?e" using ring_dist_bounds[OF sh(2)] by blast
  define k where "k = nat (ring_dist ?n (ring_next ?n ?s) ?e)"
  have "nat (ring_dist ?n ?s ?e) = Suc k" using d b by (simp add: k_def)
  then have sl: "ptr_slice f = slots f ! nat ?s # ring_slice (slots f) (ring_next ?n ?s) k"
    using sh(1) by (simp add: ptr_slice_def)
  have "int k \<le> ring_dist ?n (ring_next ?n ?s) ?s"
    using ring_dist_next_self[OF sh(3)] b d sh(6) by (simp add: k_def)
  then have sl': "ptr_slice ?f = ring_slice (slots f) (ring_next ?n ?s) k"
    using sh ring_slice_update_other[of "slots f" "ring_next ?n ?s" ?s k None]
    by (simp add: ptr_slice_def next_index_ring flip: k_def)
  have "slots f ! nat ?s = Some y" using inv ne sl by (auto simp: ptr_contents_def ptr_inv_def)
  then have "ring_take f = Inr (Some y, ?f)" using sh by (simp add: ring_take_def vec_set_def vec_get_def in_ring_def)
  moreover have "ptr_contents ?f = ys" using ne sl sl' by (simp add: ptr_contents_def)
  moreover have "ptr_inv ?f" using inv sl sl' unfolding ptr_inv_def by (simp add: next_index_ring)
  ultimately show ?thesis by blast
qed

lemma read_from_nth:
  assumes "ptr_inv f" "in_ring (ring_size f + 1) j" "m = nat (ring_dist (ring_size f + 1) j (index_end f))"
    "None \<notin> set (ring_slice (slots f) j m)"
  shows "read_from n j f = Inr (if n < m then Some (map the (ring_slice (slots f) j m) ! n) else None)"
  using assms(2-)
proof (induction n arbitrary: j m)
  case 0
  note sh = ptr_shape[OF assms(1)]
  show ?case
  proof (cases "j = index_end f")
    case True
    then show ?thesis using 0 by (simp add: read_from.simps)
  next
    case False
    then have "m \<noteq> 0" using 0 sh ring_dist_0_iff[of "ring_size f + 1" j "index_end f"]
        ring_dist_bounds[OF sh(2), of j "index_end f"] by auto
    then obtain k where k: "m = Suc k" by (cases m) auto
    then show ?thesis using 0 sh False by (auto simp: read_from.simps vec_get_def in_ring_def)
  qed
next
  case (Suc n)
  note sh = ptr_shape[OF assms(1)]
  let ?n = "ring_size f + 1"
  show ?case
  proof (cases "j = index_end f")
    case True
    then show ?thesis using Suc.prems by (simp add: read_from.simps)
  next
    case False
    have d: "ring_dist ?n (ring_next ?n j) (index_end f) = ring_dist ?n j (index_end f) - 1"
      using Suc.prems(1) sh(4) False by (rule ring_dist_next_left)
    have b: "0 \<le> ring_dist ?n (ring_next ?n j) (index_end f)" using ring_dist_bounds[OF sh(2)] by blast
    obtain k where k: "m = Suc k" "k = nat (ring_dist ?n (ring_next ?n j) (index_end f))"
      using Suc.prems(2) d b by (metis Suc_nat_eq_nat_zadd1 diff_add_cancel add.commute)
    have "read_from n (ring_next ?n j) f
        = Inr (if n < k then Some (map the (ring_slice (slots f) (ring_next ?n j) k) ! n) else None)"
      using Suc.prems(1,3) k sh(1) by (intro Suc.IH) simp_all
    then show ?thesis using False k(1) sh(1) by (subst read_from.simps) (simp add: next_index_ring)
  qed
qed

lemma FIFO_read_index_nth:
  assumes "ptr_inv f" "0 \<le> index"
  shows "FIFO_read_index index f = Inr (if nat index < length (ptr_contents f) then Some (ptr_contents f ! nat index) else None)"
  using assms ptr_shape[OF assms(1)] read_from_nth[OF assms(1) _ refl, of "index_start f" "nat index"]
  by (simp add: FIFO_read_index_def ptr_contents_def ptr_slice_def ptr_inv_def)


section \<open>Both queues meet the contract\<close>

definition FIFO_push :: "'a \<Rightarrow> 'a FIFO \<Rightarrow> (int \<times> 'a FIFO) res" where
  "FIFO_push x f = FIFO_write (Some x) f"

definition FIFO_pop :: "'a \<Rightarrow> 'a FIFO \<Rightarrow> (int \<times> 'a \<times> 'a FIFO) res" where
  "FIFO_pop x f = res_bind (FIFO_read f) (\<lambda>(v, g). Inr (case v of None \<Rightarrow> (-1, x, g) | Some y \<Rightarrow> (0, y, g)))"

lemma total_files_kept [simp]:
  "ptr_inv (f\<lparr>total_files := n\<rparr>) = ptr_inv f" "ptr_contents (f\<lparr>total_files := n\<rparr>) = ptr_contents f"
  "ptr_capacity (f\<lparr>total_files := n\<rparr>) = ptr_capacity f"
  by (simp_all add: ptr_inv_def ptr_contents_def ptr_capacity_def ptr_slice_def)

lemma capacity_kept [simp]:
  "ptr_capacity (f\<lparr>slots := d, index_start := i\<rparr>) = ptr_capacity f"
  "ptr_capacity (f\<lparr>slots := d, index_end := i\<rparr>) = ptr_capacity f"
  by (simp_all add: ptr_capacity_def)

lemma FIFO_write_space:
  assumes "ptr_inv f" "length (ptr_contents f) < ptr_capacity f"
  shows "\<exists>f'. FIFO_write (Some x) f = Inr (0, f') \<and> ptr_inv f' \<and> ptr_contents f' = ptr_contents f @ [x]
    \<and> ptr_capacity f' = ptr_capacity f \<and> total_files f' = total_files f + 1"
  using ring_put_space[OF assms(1), of x] assms ptr_full_iff[OF assms(1)]
  by (auto simp: FIFO_write_def)

lemma FIFO_write_full: "ptr_inv f \<Longrightarrow> length (ptr_contents f) = ptr_capacity f \<Longrightarrow> FIFO_write item f = Inr (-1, f)"
  using ptr_full_iff[of f] by (simp add: FIFO_write_def split: option.split)

lemma FIFO_read_item:
  assumes "ptr_inv f" "ptr_contents f = y # ys"
  shows "\<exists>f'. FIFO_read f = Inr (Some y, f') \<and> ptr_inv f' \<and> ptr_contents f' = ys \<and> ptr_capacity f' = ptr_capacity f
    \<and> total_files f' = total_files f"
  using ring_take_item[OF assms] ptr_empty_iff[OF assms(1)] assms(2) by (auto simp: FIFO_read_def)

lemma FIFO_read_empty: "ptr_inv f \<Longrightarrow> ptr_contents f = [] \<Longrightarrow> FIFO_read f = Inr (None, f)"
  using ptr_empty_iff[of f] by (simp add: FIFO_read_def)

interpretation uf: bounded_queue "ptr_inv :: 'a FIFO \<Rightarrow> bool" ptr_contents ptr_capacity FIFO_push FIFO_pop
  "\<lambda>f. FIFO_is_empty f = 1" "\<lambda>f. FIFO_is_full f = 1" 0 "-1"
proof unfold_locales
  fix f :: "'a FIFO" and x y :: 'a and ys
  assume f: "ptr_inv f"
  show "length (ptr_contents f) \<le> ptr_capacity f" using ptr_shape[OF f] by simp
  show "length (ptr_contents f) < ptr_capacity f \<Longrightarrow>
      \<exists>q'. FIFO_push x f = Inr (0, q') \<and> ptr_inv q' \<and> ptr_contents q' = ptr_contents f @ [x] \<and> ptr_capacity q' = ptr_capacity f"
    using FIFO_write_space[OF f] by (auto simp: FIFO_push_def)
  show "length (ptr_contents f) = ptr_capacity f \<Longrightarrow> FIFO_push x f = Inr (-1, f)"
    using FIFO_write_full[OF f] by (simp add: FIFO_push_def)
  show "\<exists>q'. FIFO_pop x f = Inr (0, y, q') \<and> ptr_inv q' \<and> ptr_contents q' = ys \<and> ptr_capacity q' = ptr_capacity f"
    if "ptr_contents f = y # ys"
    using FIFO_read_item[OF f that] by (auto simp: FIFO_pop_def)
  show "ptr_contents f = [] \<Longrightarrow> FIFO_pop x f = Inr (-1, x, f)" using FIFO_read_empty[OF f] by (simp add: FIFO_pop_def)
  show "(FIFO_is_empty f = 1) = (ptr_contents f = [])" using ptr_empty_iff[OF f] by (simp add: FIFO_is_empty_def)
  show "(FIFO_is_full f = 1) = (length (ptr_contents f) = ptr_capacity f)"
    using ptr_full_iff[OF f] by (simp add: FIFO_is_full_def)
qed simp

lemma ptFIFO_put_space:
  assumes "ptr_inv f" "length (ptr_contents f) < ptr_capacity f"
  shows "\<exists>d i. ptFIFO_put x timeout ws f = Some (Inr (0, ws, f\<lparr>slots := d, index_end := i\<rparr>))
    \<and> ptr_inv (f\<lparr>slots := d, index_end := i\<rparr>) \<and> ptr_contents (f\<lparr>slots := d, index_end := i\<rparr>) = ptr_contents f @ [x]"
  using ring_put_space[OF assms(1), of x] assms(2) ptr_full_iff[OF assms(1)] by (subst ptFIFO_put.simps) auto

lemma ptFIFO_put_full:
  assumes "ptr_inv f" "length (ptr_contents f) = ptr_capacity f"
  shows "ptFIFO_put x timeout ws f =
    (if timeout = 0 then Some (Inr (-1, ws, f))
     else case ws of [] \<Rightarrow> None
        | w # ws' \<Rightarrow> if timeout > 0 \<and> timedOut w then Some (Inr (-1, ws', others w f))
                    else ptFIFO_put x timeout ws' (others w f))"
  using assms(2) ptr_full_iff[OF assms(1)] by (subst ptFIFO_put.simps) simp

lemma ptFIFO_read_item:
  assumes "ptr_inv f" "ptr_contents f = y # ys"
  shows "\<exists>d i. ptFIFO_read timeout ws f = Some (Inr (Some y, ws, f\<lparr>slots := d, index_start := i\<rparr>))
    \<and> ptr_inv (f\<lparr>slots := d, index_start := i\<rparr>) \<and> ptr_contents (f\<lparr>slots := d, index_start := i\<rparr>) = ys"
  using ring_take_item[OF assms] ptr_empty_iff[OF assms(1)] assms(2) by (subst ptFIFO_read.simps) auto

lemma ptFIFO_read_empty: "ptr_inv f \<Longrightarrow> ptr_contents f = [] \<Longrightarrow> ptFIFO_read 0 ws f = Some (Inr (None, ws, f))"
  using ptr_empty_iff[of f] by (subst ptFIFO_read.simps) simp

text \<open>Without waiting, the queue with locks meets the same contract.\<close>

definition ptFIFO_push :: "'a \<Rightarrow> 'a ptFIFO \<Rightarrow> (int \<times> 'a ptFIFO) res" where
  "ptFIFO_push x f = res_bind (the (ptFIFO_write (Some x) 0 [] f)) (\<lambda>(r, ws, g). Inr (r, g))"

definition ptFIFO_pop :: "'a \<Rightarrow> 'a ptFIFO \<Rightarrow> (int \<times> 'a \<times> 'a ptFIFO) res" where
  "ptFIFO_pop x f =
     res_bind (the (ptFIFO_read 0 [] f)) (\<lambda>(v, ws, g). Inr (case v of None \<Rightarrow> (-1, x, g) | Some y \<Rightarrow> (0, y, g)))"

interpretation pt: bounded_queue "ptr_inv :: 'a ptFIFO \<Rightarrow> bool" ptr_contents ptr_capacity ptFIFO_push ptFIFO_pop
  "\<lambda>f. ptFIFO_is_empty f = 1" "\<lambda>f. FIFO_is_full f = 1" 0 "-1"
proof unfold_locales
  fix f :: "'a ptFIFO" and x y :: 'a and ys
  assume f: "ptr_inv f"
  show "length (ptr_contents f) \<le> ptr_capacity f" using ptr_shape[OF f] by simp
  show "length (ptr_contents f) < ptr_capacity f \<Longrightarrow>
      \<exists>q'. ptFIFO_push x f = Inr (0, q') \<and> ptr_inv q' \<and> ptr_contents q' = ptr_contents f @ [x] \<and> ptr_capacity q' = ptr_capacity f"
    using ptFIFO_put_space[OF f, of x 0 "[]"] by (auto simp: ptFIFO_push_def ptFIFO_write_def)
  show "length (ptr_contents f) = ptr_capacity f \<Longrightarrow> ptFIFO_push x f = Inr (-1, f)"
    using ptFIFO_put_full[OF f, of x 0 "[]"] by (simp add: ptFIFO_push_def ptFIFO_write_def)
  show "\<exists>q'. ptFIFO_pop x f = Inr (0, y, q') \<and> ptr_inv q' \<and> ptr_contents q' = ys \<and> ptr_capacity q' = ptr_capacity f"
    if "ptr_contents f = y # ys"
    using ptFIFO_read_item[OF f that, of 0 "[]"] by (auto simp: ptFIFO_pop_def)
  show "ptr_contents f = [] \<Longrightarrow> ptFIFO_pop x f = Inr (-1, x, f)" using ptFIFO_read_empty[OF f, of "[]"] by (simp add: ptFIFO_pop_def)
  show "(ptFIFO_is_empty f = 1) = (ptr_contents f = [])" using ptr_empty_iff[OF f] by (simp add: ptFIFO_is_empty_def)
  show "(FIFO_is_full f = 1) = (length (ptr_contents f) = ptr_capacity f)"
    using ptr_full_iff[OF f] by (simp add: FIFO_is_full_def)
qed simp

lemma FIFO_new_inv: "0 \<le> n \<Longrightarrow> ptr_inv (FIFO_new junk n) \<and> ptr_contents (FIFO_new junk n) = [] \<and> ptr_capacity (FIFO_new junk n) = nat n"
  by (simp add: FIFO_new_def ptr_inv_def ptr_contents_def ptr_slice_def ptr_capacity_def in_ring_def)

lemma ptFIFO_new_inv: "0 \<le> n \<Longrightarrow> ptr_inv (ptFIFO_new junk n) \<and> ptr_contents (ptFIFO_new junk n) = [] \<and> ptr_capacity (ptFIFO_new junk n) = nat n"
  by (simp add: ptFIFO_new_def ptr_inv_def ptr_contents_def ptr_slice_def ptr_capacity_def in_ring_def)

end
