(* ===== verification/Transport_Files.thy ===== *)
theory Transport_Files
  imports Util_Fifo Log_Decode
begin

text \<open>
  The files of the log transport (src/InfoLogger/src/transport_files.c, transport_files.h) and the line that announces one
  on the wire, as the client prints it and the server scans it.

  \<^item> Bytes are characters. The memory behind a blob's pointer is \<open>blob_value\<close>; the code allocates one more byte, a zero, behind
    it, and \<open>blob_size\<close> is the number of bytes it believes to be there.
  \<^item> \<open>file_addr\<close> is the address of the structure: the code compares pointers to files. \<open>sender_magic\<close>, a pointer to the
    connection, is the index of the connection in the table of the server.
\<close>

record TR_file_id =
  fileSource :: "string option"
  majId :: int
  minId :: int
  fileSender :: int
  sender_magic :: "nat option"

record TR_blob =
  blob_value :: string
  blob_size :: int

record TR_file =
  file_id :: TR_file_id
  file_blobs :: "TR_blob list"
  file_size :: int
  file_path :: "string option"
  n_user :: int
  file_addr :: nat

definition TR_file_id_compare :: "TR_file_id \<Rightarrow> TR_file_id \<Rightarrow> int" where
  "TR_file_id_compare f1 f2 =
     (if majId f1 < majId f2 then 0
      else if majId f1 > majId f2 then 1
      else if minId f1 \<le> minId f2 then 0
      else 1)"

text \<open>The fields \<^verbatim>\<open>sender\<close> and \<^verbatim>\<open>sender_magic\<close> are left as allocated by the code.\<close>

definition TR_file_new :: "nat \<Rightarrow> TR_file" where
  "TR_file_new addr =
     \<lparr>file_id = \<lparr>fileSource = None, majId = -1, minId = -1, fileSender = 0, sender_magic = None\<rparr>, file_blobs = [],
      file_size = 0, file_path = None, n_user = 1, file_addr = addr\<rparr>"

definition TR_file_inc_usage :: "TR_file \<Rightarrow> TR_file" where
  "TR_file_inc_usage f = f\<lparr>n_user := n_user f + 1\<rparr>"

text \<open>\<open>None\<close>: the last user is gone and the file is destroyed.\<close>

definition TR_file_dec_usage :: "TR_file \<Rightarrow> TR_file option" where
  "TR_file_dec_usage f = (let g = f\<lparr>n_user := n_user f - 1\<rparr> in if n_user g \<le> 0 then None else Some g)"


section \<open>The line before a file\<close>

text \<open>\<^verbatim>\<open>snprintf(buf_val,TR_BUFFER_SIZE,"File %s %d %d %d\n",...)\<close> and the \<^verbatim>\<open>strlen\<close> of what it prints.\<close>

definition TR_BUFFER_SIZE :: nat where "TR_BUFFER_SIZE = 2500"

definition header_text :: "string \<Rightarrow> int \<Rightarrow> int \<Rightarrow> int \<Rightarrow> string" where
  "header_text source min_id maj_id len =
     ''File '' @ source @ '' '' @ print_int min_id @ '' '' @ print_int maj_id @ '' '' @ print_int len @ [newline]"

definition print_header :: "string \<Rightarrow> int \<Rightarrow> int \<Rightarrow> int \<Rightarrow> string" where
  "print_header source min_id maj_id len = take (TR_BUFFER_SIZE - 1) (header_text source min_id maj_id len)"

text \<open>What is behind the number that \<^verbatim>\<open>%d\<close> reads.\<close>

definition behind_int :: "string \<Rightarrow> string" where
  "behind_int s =
     (let t = dropWhile is_space s;
          u = (if t \<noteq> [] \<and> (hd t = CHR ''-'' \<or> hd t = CHR ''+'') then tl t else t)
      in dropWhile is_digit u)"

text \<open>\<^verbatim>\<open>sscanf(parse_ptr,"File %s %d %d %d",...)\<close>; \<open>None\<close> when it does not read four values.\<close>

definition scan_header :: "string \<Rightarrow> (string \<times> int \<times> int \<times> int) option res" where
  "scan_header line =
     (if take 4 line \<noteq> ''File'' then Inr None
      else let t = dropWhile is_space (drop 4 line);
               source = takeWhile (\<lambda>c. \<not> is_space c) t;
               u1 = drop (length source) t; u2 = behind_int u1; u3 = behind_int u2
           in if source = [] then Inr None
              else res_bind (scan_int u1) (\<lambda>r1. case r1 of
                       None \<Rightarrow> Inr None
                     | Some min_id \<Rightarrow> res_bind (scan_int u2) (\<lambda>r2. case r2 of
                           None \<Rightarrow> Inr None
                         | Some maj_id \<Rightarrow> res_bind (scan_int u3) (\<lambda>r3. case r3 of
                               None \<Rightarrow> Inr None
                             | Some len \<Rightarrow> Inr (Some (source, min_id, maj_id, len))))))"

end
