(* ===== verification/Transport_Server.thy ===== *)
theory Transport_Server
  imports Transport_Files
begin

text \<open>
  The server of the log transport (src/InfoLogger/src/transport_server.c): the connection of one client with its reception
  state machine, the acknowledgements, and the loop that serves the table of connections or, in the other mode, datagrams.

  \<^item> What a peer sends is a text \<open>net\<close> that the reads of its socket take from; how many bytes have arrived at each read is an
    input. What the server sends is appended to \<open>sentBack\<close> as far as the socket takes it.
  \<^item> \<open>cx_buffer\<close> holds the first \<^verbatim>\<open>buffer_start\<close> bytes of the receive buffer; the text from \<^verbatim>\<open>parse_ptr\<close> to \<^verbatim>\<open>end_buffer\<close> is an
    argument of the parser.
  \<^item> The output queue is the model of \<^verbatim>\<open>ptFIFO\<close>; \<open>filesTaken\<close> beside it are the files that the threads which call
    \<^verbatim>\<open>TR_server_get_file\<close> have taken out so far. The ends of the waits of the server for a free slot are an input.
  \<^item> Fresh memory holds zeros here. \<^verbatim>\<open>checked_malloc\<close> does not fail. Log output and the set-up of sockets
    are left out; no statistics file is configured, so the counters are not reset, and they do not wrap.
\<close>

definition TR_SERVER_BUFFER_SIZE :: nat where "TR_SERVER_BUFFER_SIZE = 5000"
definition TR_SERVER_ACK_MAX_FILES :: int where "TR_SERVER_ACK_MAX_FILES = 20"
definition TR_SERVER_QUEUE_LENGTH :: int where "TR_SERVER_QUEUE_LENGTH = 1000"

datatype tr_server_state = STATE_INIT | WAITING_FILE_BEGIN | RECEIVING_FILE | WAITING_FILE_END

record TR_data_connection =
  cx_socket :: int
  cx_state :: tr_server_state
  cx_buffer :: string
  current_file :: "TR_file option"
  bytes_received :: int
  cx_id :: int
  ack_file :: TR_file_id
  non_acknowledged :: int
  sentBack :: string

datatype tr_server_type = TR_SERVER_UDP | TR_SERVER_TCP

record file_queue = "TR_file ptr_ring" +
  filesTaken :: "TR_file list"

type_synonym queue_wake = "(TR_file, unit file_queue_ext) wake"

record TR_server =
  server_type :: tr_server_type
  cx_table :: "TR_data_connection list"
  cx_counter :: int
  output_queue :: file_queue
  stat_bytes_received :: int
  stat_files_received :: int
  stat_connected_clients :: int
  nextAddress :: nat

section \<open>Taking files out\<close>

definition TR_server_get_file ::
  "int \<Rightarrow> queue_wake list \<Rightarrow> file_queue \<Rightarrow> (TR_file option \<times> queue_wake list \<times> file_queue) res option"
where
  "TR_server_get_file timeout ws q =
     (case ptFIFO_read timeout ws q of
        Some (Inr (Some f, ws', q')) \<Rightarrow> Some (Inr (Some f, ws', q'\<lparr>filesTaken := filesTaken q' @ [f]\<rparr>))
      | r \<Rightarrow> r)"

text \<open>Other threads take up to \<open>n\<close> files without waiting.\<close>

fun consumers_take :: "nat \<Rightarrow> file_queue \<Rightarrow> file_queue" where
  "consumers_take 0 q = q"
| "consumers_take (Suc n) q =
     (case TR_server_get_file 0 [] q of Some (Inr (Some f, ws, q')) \<Rightarrow> consumers_take n q' | _ \<Rightarrow> q)"


section \<open>One connection\<close>

definition TR_server_connection_close :: "TR_data_connection \<Rightarrow> TR_data_connection" where
  "TR_server_connection_close cx = cx\<lparr>cx_socket := -1, cx_id := -1, current_file := None\<rparr>"

text \<open>A read: it fails, or \<open>n\<close> bytes have arrived, \<open>0\<close> when the peer has closed the connection.\<close>

datatype socket_arrival = ReadFails | Arrived nat

definition socket_read :: "socket_arrival \<Rightarrow> nat \<Rightarrow> string \<Rightarrow> string option \<times> string" where
  "socket_read a want net =
     (case a of ReadFails \<Rightarrow> (None, net) | Arrived n \<Rightarrow> (Some (take (min n want) net), drop (min n want) net))"

definition socket_send :: "int \<Rightarrow> string \<Rightarrow> TR_data_connection \<Rightarrow> TR_data_connection" where
  "socket_send r t cx = cx\<lparr>sentBack := sentBack cx @ take (nat r) t\<rparr>"

definition put_bytes :: "int \<Rightarrow> string \<Rightarrow> string \<Rightarrow> string" where
  "put_bytes i s m = take (nat i) m @ s @ drop (nat i + length s) m"

definition store_bytes :: "int \<Rightarrow> string \<Rightarrow> TR_file \<Rightarrow> TR_file" where
  "store_bytes i s f =
     (case file_blobs f of
        [] \<Rightarrow> f
      | b # bs \<Rightarrow> f\<lparr>file_blobs := b\<lparr>blob_value := put_bytes i s (blob_value b)\<rparr> # bs\<rparr>)"

text \<open>
  The file announced by a header. \<^verbatim>\<open>size+1\<close> bytes are allocated; the sum of the largest \<^verbatim>\<open>int\<close> and one is undefined.
\<close>

definition announced_file :: "nat \<Rightarrow> int \<Rightarrow> nat \<Rightarrow> string \<Rightarrow> int \<Rightarrow> int \<Rightarrow> int \<Rightarrow> TR_file res" where
  "announced_file addr sender magic source min_id maj_id len =
     (if len = 2 ^ 31 - 1 then Inl SignedOverflow
      else Inr ((TR_file_new addr)
        \<lparr>file_id := \<lparr>fileSource = Some source, majId = maj_id, minId = min_id, fileSender = sender, sender_magic = Some magic\<rparr>,
         file_blobs := [\<lparr>blob_value = replicate (nat len) (CHR 0x00), blob_size = len\<rparr>], file_size := len\<rparr>))"

text \<open>
  The line in state \<^verbatim>\<open>WAITING_FILE_BEGIN\<close>; \<open>rest\<close> is what the buffer holds behind it. The number returned is how much of \<open>rest\<close>
  was copied into the file.
\<close>

definition begin_file ::
  "nat \<Rightarrow> string \<Rightarrow> string \<Rightarrow> TR_data_connection \<Rightarrow> TR_server \<Rightarrow> (nat \<times> TR_data_connection \<times> TR_server) res"
where
  "begin_file i line rest cx s =
     res_bind (scan_header line) (\<lambda>h. case h of
       None \<Rightarrow> Inr (0, TR_server_connection_close cx, s)
     | Some (source, min_id, maj_id, len) \<Rightarrow>
         if len \<le> 0 then Inr (0, TR_server_connection_close cx, s)
         else res_bind (announced_file (nextAddress s) (cx_id cx) i source min_id maj_id len) (\<lambda>f.
           let s' = s\<lparr>nextAddress := nextAddress s + 1\<rparr>;
               n = int (length rest)
           in if n > 0 then
                (let k = (if n \<ge> file_size f then file_size f else n)
                 in Inr (nat k, cx\<lparr>cx_state := (if n \<ge> file_size f then WAITING_FILE_END else RECEIVING_FILE),
                                    current_file := Some (store_bytes 0 (take (nat k) rest) f), bytes_received := k\<rparr>, s'))
              else Inr (0, cx\<lparr>cx_state := RECEIVING_FILE, current_file := Some f, bytes_received := 0\<rparr>, s')))"

text \<open>The loop that tries to push a file, with \<open>n\<close> more tries after this one.\<close>

fun push_file :: "nat \<Rightarrow> TR_file \<Rightarrow> queue_wake list \<Rightarrow> TR_server \<Rightarrow> (bool \<times> queue_wake list \<times> TR_server) res option" where
  "push_file n f ws s =
     (let s1 = s\<lparr>stat_bytes_received := stat_bytes_received s + file_size f, stat_files_received := stat_files_received s + 1\<rparr>
      in case ptFIFO_write (Some f) 1 ws (output_queue s1) of
           None \<Rightarrow> None
         | Some (Inl e) \<Rightarrow> Some (Inl e)
         | Some (Inr (r, ws', q)) \<Rightarrow>
             (let s2 = s1\<lparr>output_queue := q\<rparr>
              in if r = 0 then Some (Inr (True, ws', s2))
                 else case n of 0 \<Rightarrow> Some (Inr (False, ws', s2)) | Suc m \<Rightarrow> push_file m f ws' s2))"

declare push_file.simps [simp del]

definition end_file ::
  "string \<Rightarrow> TR_data_connection \<Rightarrow> queue_wake list \<Rightarrow> TR_server \<Rightarrow>
   (int \<times> TR_data_connection \<times> queue_wake list \<times> TR_server) res option"
where
  "end_file line cx ws s =
     (if take 3 line \<noteq> ''END'' then Some (Inr (0, TR_server_connection_close cx, ws, s))
      else case current_file cx of
          None \<Rightarrow> Some (Inl DeadObject)
        | Some f \<Rightarrow>
            (case push_file 10 f ws s of
               None \<Rightarrow> None
             | Some (Inl e) \<Rightarrow> Some (Inl e)
             | Some (Inr (True, ws', s')) \<Rightarrow>
                 Some (Inr (0, cx\<lparr>current_file := None, cx_state := WAITING_FILE_BEGIN\<rparr>, ws', s'))
             | Some (Inr (False, ws', s')) \<Rightarrow> Some (Inr (-1, TR_server_connection_close cx, ws', s'))))"

definition start_reception :: "int \<Rightarrow> TR_data_connection \<Rightarrow> TR_data_connection" where
  "start_reception sent cx =
     (let cx' = socket_send sent (''READY'' @ [newline]) cx
      in if sent \<noteq> 6 then TR_server_connection_close cx' else cx'\<lparr>cx_state := WAITING_FILE_BEGIN\<rparr>)"

text \<open>The switch over the state: result, how much of \<open>rest\<close> is used up, and the new states.\<close>

definition process_line ::
  "nat \<Rightarrow> int \<Rightarrow> string \<Rightarrow> string \<Rightarrow> TR_data_connection \<Rightarrow> queue_wake list \<Rightarrow> TR_server \<Rightarrow>
   (int \<times> nat \<times> TR_data_connection \<times> queue_wake list \<times> TR_server) res option"
where
  "process_line i sent line rest cx ws s =
     (case cx_state cx of
        WAITING_FILE_BEGIN \<Rightarrow> Some (res_bind (begin_file i line rest cx s) (\<lambda>(k, cx', s'). Inr (0, k, cx', ws, s')))
      | WAITING_FILE_END \<Rightarrow>
          map_option (\<lambda>m. res_bind m (\<lambda>(r, cx', ws', s'). Inr (r, 0, cx', ws', s'))) (end_file line cx ws s)
      | STATE_INIT \<Rightarrow> Some (Inr (0, 0, start_reception sent cx, ws, s))
      | RECEIVING_FILE \<Rightarrow> Some (Inr (0, 0, cx, ws, s)))"

lemma c_string_subset: "set (c_string p) \<subseteq> set p"
  by (auto simp: c_string_def dest: set_takeWhileD)

text \<open>The loop over the lines of the buffer; \<open>moved\<close> tells whether \<^verbatim>\<open>parse_ptr\<close> has left the beginning of the buffer.\<close>

function parse_buffer ::
  "nat \<Rightarrow> int \<Rightarrow> bool \<Rightarrow> string \<Rightarrow> TR_data_connection \<Rightarrow> queue_wake list \<Rightarrow> TR_server \<Rightarrow>
   (int \<times> TR_data_connection \<times> queue_wake list \<times> TR_server) res option"
where
  "parse_buffer i sent moved p cx ws s =
     (if cx_socket cx = -1 then Some (Inr (0, cx, ws, s))
      else if newline \<notin> set (c_string p) then
        Some (Inr (0, if moved then cx\<lparr>cx_buffer := p\<rparr>
                      else if length (cx_buffer cx) \<ge> TR_SERVER_BUFFER_SIZE - 1 then TR_server_connection_close cx
                      else cx, ws, s))
      else let line = takeWhile (\<lambda>c. c \<noteq> newline) p; rest = drop (Suc (length line)) p
           in case process_line i sent line rest cx ws s of
                None \<Rightarrow> None
              | Some (Inl e) \<Rightarrow> Some (Inl e)
              | Some (Inr (r, k, cx', ws', s')) \<Rightarrow>
                  if r \<noteq> 0 then Some (Inr (r, cx', ws', s')) else parse_buffer i sent True (drop k rest) cx' ws' s')"
  by pat_completeness auto

termination
proof (relation "measure (\<lambda>(i, sent, moved, p, cx, ws, s). length p)", goal_cases)
  case (2 i sent moved p)
  then have "p \<noteq> []" using c_string_subset[of p] by auto
  then show ?case using 2 by simp
qed simp

declare parse_buffer.simps [simp del]

record cx_input =
  arrival_of :: socket_arrival
  sendResult :: int
  queueWaits :: "queue_wake list"

definition TR_server_connection_read ::
  "nat \<Rightarrow> cx_input \<Rightarrow> string \<Rightarrow> TR_data_connection \<Rightarrow> TR_server \<Rightarrow>
   (int \<times> string \<times> TR_data_connection \<times> TR_server) res option"
where
  "TR_server_connection_read i x net cx s =
     (if cx_state cx = RECEIVING_FILE then
        (case current_file cx of
           None \<Rightarrow> Some (Inl DeadObject)
         | Some f \<Rightarrow>
             (case socket_read (arrival_of x) (nat (file_size f - bytes_received cx)) net of
                (None, net') \<Rightarrow> Some (Inr (0, net', TR_server_connection_close cx, s))
              | (Some t, net') \<Rightarrow>
                  if t = [] then Some (Inr (0, net', TR_server_connection_close cx, s))
                  else let n = bytes_received cx + int (length t)
                       in Some (Inr (0, net', cx\<lparr>current_file := Some (store_bytes (bytes_received cx) t f), bytes_received := n,
                            cx_state := (if n = file_size f then WAITING_FILE_END else RECEIVING_FILE)\<rparr>, s))))
      else
        (case socket_read (arrival_of x) (TR_SERVER_BUFFER_SIZE - length (cx_buffer cx) - 1) net of
           (None, net') \<Rightarrow> Some (Inr (0, net', TR_server_connection_close cx, s))
         | (Some t, net') \<Rightarrow>
             if t = [] then Some (Inr (0, net', TR_server_connection_close cx, s))
             else let cx1 = cx\<lparr>cx_buffer := cx_buffer cx @ t\<rparr>
                  in map_option (\<lambda>m. res_bind m (\<lambda>(r, cx', ws', s'). Inr (r, net', cx', s')))
                       (parse_buffer i (sendResult x) False (cx_buffer cx1) cx1 (queueWaits x) s)))"


section \<open>Acknowledgements\<close>

definition ack_text :: "TR_file_id \<Rightarrow> string" where
  "ack_text d = ''ACK '' @ print_int (minId d) @ '' '' @ print_int (majId d) @ [newline]"

definition TR_server_acknowledge_files :: "int \<Rightarrow> int \<Rightarrow> TR_data_connection \<Rightarrow> TR_data_connection" where
  "TR_server_acknowledge_files sent min_number cx =
     (if cx_socket cx \<noteq> -1 \<and> non_acknowledged cx > min_number then
        (let cx' = socket_send sent (ack_text (ack_file cx)) cx
         in if sent \<noteq> -1 then cx'\<lparr>non_acknowledged := 0\<rparr> else cx')
      else cx)"

definition TR_server_ack_file :: "int \<Rightarrow> TR_file_id option \<Rightarrow> TR_server \<Rightarrow> int \<times> TR_server" where
  "TR_server_ack_file sent fid s =
     (if server_type s = TR_SERVER_UDP then (0, s)
      else case fid of
          None \<Rightarrow> (0, s)
        | Some d \<Rightarrow>
            (case sender_magic d of
               None \<Rightarrow> (0, s)
             | Some i \<Rightarrow>
                 let cx = cx_table s ! i;
                     cx' = (if cx_id cx = fileSender d \<and> TR_file_id_compare d (ack_file cx) \<noteq> 0
                            then cx\<lparr>ack_file := d, non_acknowledged := non_acknowledged cx + 1\<rparr> else cx)
                 in (0, s\<lparr>cx_table := (cx_table s)[i := TR_server_acknowledge_files sent TR_SERVER_ACK_MAX_FILES cx']\<rparr>)))"


section \<open>The loop of the server\<close>

definition no_file_id :: TR_file_id where
  "no_file_id = \<lparr>fileSource = None, majId = 0, minId = 0, fileSender = 0, sender_magic = None\<rparr>"

definition free_connection :: TR_data_connection where
  "free_connection = \<lparr>cx_socket = -1, cx_state = STATE_INIT, cx_buffer = [], current_file = None, bytes_received = 0,
     cx_id = -1, ack_file = no_file_id, non_acknowledged = 0, sentBack = []\<rparr>"

text \<open>The new connection of \<^verbatim>\<open>accept\<close> in the first free slot of the table.\<close>

definition open_connection :: "int \<Rightarrow> int \<Rightarrow> TR_data_connection \<Rightarrow> TR_data_connection" where
  "open_connection sock n cx =
     cx\<lparr>cx_socket := sock, cx_state := STATE_INIT, cx_buffer := [], current_file := None, cx_id := n,
        ack_file := (ack_file cx)\<lparr>minId := 0, majId := 0\<rparr>, non_acknowledged := 0, sentBack := []\<rparr>"

fun place_connection :: "int \<Rightarrow> int \<Rightarrow> TR_data_connection list \<Rightarrow> TR_data_connection list option" where
  "place_connection sock n [] = None"
| "place_connection sock n (cx # cxs) =
     (if cx_socket cx = -1 then Some (open_connection sock n cx # cxs)
      else map_option (Cons cx) (place_connection sock n cxs))"

definition accept_connection :: "int \<Rightarrow> TR_server \<Rightarrow> TR_server" where
  "accept_connection sock s =
     (if sock < 0 then s
      else case place_connection sock (cx_counter s) (cx_table s) of
          None \<Rightarrow> s
        | Some t \<Rightarrow> s\<lparr>cx_table := t, cx_counter := cx_counter s + 1\<rparr>)"

text \<open>
  One turn of the loop. \<open>readyInputs\<close> has an entry for each connection of the table, \<open>None\<close> when its socket is not ready;
  \<open>nets\<close> are the texts the peers have sent. The result of reading is whether the loop was aborted.
\<close>

datatype selected = SelectFailed | SelectTimeout | SocketsReady

record server_input =
  selectResult :: selected
  readyInputs :: "cx_input option list"
  acceptResult :: "int option"
  newSecond :: bool
  ackSends :: "int list"

fun read_connections ::
  "nat \<Rightarrow> cx_input option list \<Rightarrow> string list \<Rightarrow> TR_server \<Rightarrow> (bool \<times> string list \<times> TR_server) res option"
where
  "read_connections i (x # xs) (net # nets) s =
     (if i \<ge> length (cx_table s) then Some (Inr (False, net # nets, s))
      else case x of
          Some y \<Rightarrow>
            if cx_socket (cx_table s ! i) \<noteq> -1 then
              (case TR_server_connection_read i y net (cx_table s ! i) s of
                 None \<Rightarrow> None
               | Some (Inl e) \<Rightarrow> Some (Inl e)
               | Some (Inr (r, net', cx, s')) \<Rightarrow>
                   let s'' = s'\<lparr>cx_table := (cx_table s')[i := cx]\<rparr>
                   in if r \<noteq> 0 then Some (Inr (True, net' # nets, s''))
                      else map_option (\<lambda>m. res_bind m (\<lambda>(a, ns, t). Inr (a, net' # ns, t))) (read_connections (i + 1) xs nets s''))
            else map_option (\<lambda>m. res_bind m (\<lambda>(a, ns, t). Inr (a, net # ns, t))) (read_connections (i + 1) xs nets s)
        | None \<Rightarrow> map_option (\<lambda>m. res_bind m (\<lambda>(a, ns, t). Inr (a, net # ns, t))) (read_connections (i + 1) xs nets s))"
| "read_connections i xs nets s = Some (Inr (False, nets, s))"

fun acknowledge_all :: "int list \<Rightarrow> TR_data_connection list \<Rightarrow> TR_data_connection list" where
  "acknowledge_all rs [] = []"
| "acknowledge_all [] cxs = cxs"
| "acknowledge_all (r # rs) (cx # cxs) =
     (if cx_socket cx \<noteq> -1 then TR_server_acknowledge_files r 0 cx else cx) # acknowledge_all rs cxs"

definition every_second :: "server_input \<Rightarrow> TR_server \<Rightarrow> TR_server" where
  "every_second x s =
     (if newSecond x then
        s\<lparr>cx_table := acknowledge_all (ackSends x) (cx_table s),
          stat_connected_clients := int (length (filter (\<lambda>cx. cx_socket cx \<noteq> -1) (cx_table s)))\<rparr>
      else s)"

definition TR_server_turn :: "server_input \<Rightarrow> string list \<Rightarrow> TR_server \<Rightarrow> (string list \<times> TR_server) res option" where
  "TR_server_turn x nets s =
     (if selectResult x = SocketsReady then
        map_option (\<lambda>m. res_bind m (\<lambda>(abort, nets', s').
          Inr (nets', every_second x
            (case acceptResult x of None \<Rightarrow> s' | Some sock \<Rightarrow> if abort then s' else accept_connection sock s'))))
          (read_connections 0 (readyInputs x) nets s)
      else Some (Inr (nets, every_second x s)))"

text \<open>The other mode: each datagram is a file. \<open>ids\<close> are \<^verbatim>\<open>min_id\<close> and \<^verbatim>\<open>maj_id\<close>; \<open>None\<close> is a failure of \<^verbatim>\<open>recvfrom\<close>.\<close>

definition udp_file :: "nat \<Rightarrow> string \<Rightarrow> int \<Rightarrow> int \<Rightarrow> string \<Rightarrow> TR_file" where
  "udp_file addr peer min_id maj_id t =
     (TR_file_new addr)\<lparr>file_id := \<lparr>fileSource = Some peer, majId = maj_id, minId = min_id, fileSender = 0, sender_magic = None\<rparr>,
       file_blobs := [\<lparr>blob_value = c_string t, blob_size = int (length t)\<rparr>], file_size := int (length t)\<rparr>"

definition udp_receive :: "(string \<times> string) option \<Rightarrow> int \<times> int \<Rightarrow> TR_server \<Rightarrow> ((int \<times> int) \<times> TR_server) res option" where
  "udp_receive d ids s =
     (case d of
        None \<Rightarrow> Some (Inr (ids, s))
      | Some (peer, packet) \<Rightarrow>
          let t = take (TR_SERVER_BUFFER_SIZE - 1) packet;
              s1 = s\<lparr>stat_files_received := stat_files_received s + 1,
                     stat_bytes_received := stat_bytes_received s + int (length t), nextAddress := nextAddress s + 1\<rparr>
          in map_option (\<lambda>m. res_bind m (\<lambda>(r, ws, q). Inr ((fst ids + 1, snd ids), s1\<lparr>output_queue := q\<rparr>)))
               (ptFIFO_write (Some (udp_file (nextAddress s) peer (fst ids) (snd ids) t)) 0 [] (output_queue s1)))"

definition TR_UDP_server_turn ::
  "selected \<Rightarrow> (string \<times> string) option \<Rightarrow> bool \<Rightarrow> int \<times> int \<Rightarrow> TR_server \<Rightarrow> ((int \<times> int) \<times> TR_server) res option"
where
  "TR_UDP_server_turn sel d second ids s =
     map_option (\<lambda>m. res_bind m (\<lambda>(ids', s'). Inr (if second then (1, snd ids' + 1) else ids', s')))
       (if sel = SocketsReady then udp_receive d ids s else Some (Inr (ids, s)))"

text \<open>The handle made by \<^verbatim>\<open>TR_server_start\<close>.\<close>

definition TR_server_start :: "tr_server_type \<Rightarrow> int \<Rightarrow> int \<Rightarrow> TR_file option \<Rightarrow> TR_server" where
  "TR_server_start type max_clients queue_length junk =
     \<lparr>server_type = type, cx_table = replicate (nat max_clients) free_connection, cx_counter = 0,
      output_queue = ptr_ring.extend (ptFIFO_new junk (if queue_length = 0 then TR_SERVER_QUEUE_LENGTH else queue_length))
        (file_queue.fields []),
      stat_bytes_received = 0, stat_files_received = 0, stat_connected_clients = 0, nextAddress = 0\<rparr>"

end
