(* ===== verification/Transport_Reception.thy ===== *)
theory Transport_Reception
  imports Transport_Server Log_Encoding
begin

text \<open>
  Lemmas on the transport server: scanning the header of a file, pushing a file while other threads empty the queue, and the
  invariant of the reception state machine. The invariant says which text the connection still expects; a read takes a piece
  of that text off its front, however long the piece is.
\<close>

section \<open>Scanning a header\<close>

lemma digits_before: "\<forall>c \<in> set ds. is_digit c \<Longrightarrow> rest = [] \<or> \<not> is_digit (hd rest) \<Longrightarrow>
    takeWhile is_digit (ds @ rest) = ds \<and> dropWhile is_digit (ds @ rest) = rest"
  by (cases rest) simp_all

lemma int_token:
  assumes "rest = [] \<or> \<not> is_digit (hd rest)" "- (2 ^ 31) \<le> i" "i < 2 ^ 31"
  shows "scan_int (CHR '' '' # print_int i @ rest) = Inr (Some i)" and "behind_int (CHR '' '' # print_int i @ rest) = rest"
proof -
  have sp: "is_space (CHR '' '')" "\<not> is_space (CHR ''-'')" by (simp_all add: is_space_def)
  obtain t where t: "t = print_nat (nat \<bar>i\<bar>)" by blast
  have w: "takeWhile is_digit t = t" "t \<noteq> []" "digits_value 0 t = nat \<bar>i\<bar>" "hd t \<noteq> CHR ''-''" "hd t \<noteq> CHR ''+''"
    using scan_digits[OF t] by blast+
  have d: "\<forall>c \<in> set t. is_digit c" using w(1) by (metis set_takeWhileD)
  have ds: "takeWhile is_digit (t @ rest) = t" "dropWhile is_digit (t @ rest) = rest"
    using digits_before[OF d assms(1)] by blast+
  have h: "\<not> is_space (hd t)" using d w(2) digit_plain by simp
  have tr: "dropWhile is_space (t @ rest) = t @ rest" using h w(2) by (cases t) simp_all
  have hd: "hd (t @ rest) = hd t" using w(2) by simp
  show "scan_int (CHR '' '' # print_int i @ rest) = Inr (Some i)"
  proof (cases "i < 0")
    case True
    then have "print_int i = CHR ''-'' # t" using t by (simp add: print_int_def)
    then show ?thesis using True assms(2,3) by (simp add: scan_int_def sp ds w Let_def)
  next
    case False
    then have "print_int i = t" using t by (simp add: print_int_def)
    then show ?thesis using False assms(2,3) w by (simp add: scan_int_def sp tr ds hd Let_def)
  qed
  show "behind_int (CHR '' '' # print_int i @ rest) = rest"
  proof (cases "i < 0")
    case True
    then have "print_int i = CHR ''-'' # t" using t by (simp add: print_int_def)
    then show ?thesis by (simp add: behind_int_def sp ds Let_def)
  next
    case False
    then have "print_int i = t" using t by (simp add: print_int_def)
    then show ?thesis using w by (simp add: behind_int_def sp tr ds hd Let_def)
  qed
qed

definition plain_name :: "string \<Rightarrow> bool" where
  "plain_name s \<longleftrightarrow> s \<noteq> [] \<and> (\<forall>c \<in> set s. \<not> is_space c \<and> c \<noteq> CHR 0x00)"

definition header_line :: "string \<Rightarrow> int \<Rightarrow> int \<Rightarrow> int \<Rightarrow> string" where
  "header_line source min_id maj_id len =
     ''File '' @ source @ '' '' @ print_int min_id @ '' '' @ print_int maj_id @ '' '' @ print_int len"

lemma header_text_line: "header_text source a b n = header_line source a b n @ [newline]"
  by (simp add: header_text_def header_line_def)

lemma scan_header_line:
  assumes "plain_name source" "- (2 ^ 31) \<le> a" "a < 2 ^ 31" "- (2 ^ 31) \<le> b" "b < 2 ^ 31" "- (2 ^ 31) \<le> n" "n < 2 ^ 31"
  shows "scan_header (header_line source a b n) = Inr (Some (source, a, b, n))"
proof -
  let ?u3 = "CHR '' '' # print_int n @ []"
  let ?u2 = "CHR '' '' # print_int b @ ?u3"
  let ?u1 = "CHR '' '' # print_int a @ ?u2"
  have nd: "\<not> is_digit (CHR '' '')" by (simp add: is_digit_def)
  have s: "is_space (CHR '' '')" by (simp add: is_space_def)
  obtain c cs where c: "source = c # cs" "\<not> is_space c" using assms(1) by (cases source) (auto simp: plain_name_def)
  have t: "dropWhile is_space (CHR '' '' # source @ ?u1) = source @ ?u1" using c s by simp
  have n: "takeWhile (\<lambda>c. \<not> is_space c) (source @ ?u1) = source"
    using assms(1) s by (simp add: plain_name_def takeWhile_append)
  have f: "take 4 (header_line source a b n) = ''File''" "drop 4 (header_line source a b n) = CHR '' '' # source @ ?u1"
    by (simp_all add: header_line_def)
  have 1: "scan_int ?u1 = Inr (Some a)" "behind_int ?u1 = ?u2" using nd assms(2,3) by (intro int_token; simp)+
  have 2: "scan_int ?u2 = Inr (Some b)" "behind_int ?u2 = ?u3" using nd assms(4,5) by (intro int_token; simp)+
  have 3: "scan_int ?u3 = Inr (Some n)" using assms(6,7) by (intro int_token; simp)
  have ne: "source \<noteq> []" using c by simp
  show ?thesis unfolding scan_header_def f t Let_def n
    using ne 1 2 3 by simp
qed


section \<open>Pushing a file\<close>

text \<open>The files that have gone through the output queue, in order: those taken out and those still in it.\<close>

definition queue_log :: "file_queue \<Rightarrow> TR_file list" where
  "queue_log q = filesTaken q @ ptr_contents q"

text \<open>While the server waits, other threads take files out, at least one for each wait.\<close>

definition taking_waits :: "queue_wake list \<Rightarrow> bool" where
  "taking_waits ws \<longleftrightarrow> (\<forall>w \<in> set ws. \<exists>k. others w = consumers_take (Suc k))"

lemma filesTaken_kept [simp]:
  "ptr_inv (q\<lparr>filesTaken := t\<rparr>) = ptr_inv q" "ptr_contents (q\<lparr>filesTaken := t\<rparr>) = ptr_contents q"
  "ptr_capacity (q\<lparr>filesTaken := t\<rparr>) = ptr_capacity q"
  by (simp_all add: ptr_inv_def ptr_contents_def ptr_capacity_def ptr_slice_def)

lemma get_file_item:
  assumes "ptr_inv q" "ptr_contents q = f # fs"
  shows "\<exists>q'. TR_server_get_file timeout ws q = Some (Inr (Some f, ws, q')) \<and> ptr_inv q' \<and> ptr_contents q' = fs
    \<and> ptr_capacity q' = ptr_capacity q \<and> filesTaken q' = filesTaken q @ [f]"
  using ptFIFO_read_item[OF assms, of timeout ws] by (auto simp: TR_server_get_file_def)

lemma get_file_empty:
  "ptr_inv q \<Longrightarrow> ptr_contents q = [] \<Longrightarrow> TR_server_get_file 0 ws q = Some (Inr (None, ws, q))"
  using ptFIFO_read_empty[of q ws] by (simp add: TR_server_get_file_def)

lemma consumers_take_ok:
  assumes "ptr_inv q"
  shows "ptr_inv (consumers_take k q) \<and> queue_log (consumers_take k q) = queue_log q
    \<and> ptr_capacity (consumers_take k q) = ptr_capacity q
    \<and> length (ptr_contents (consumers_take k q)) = length (ptr_contents q) - k"
  using assms
proof (induction k arbitrary: q)
  case (Suc k)
  show ?case
  proof (cases "ptr_contents q")
    case Nil
    then show ?thesis using get_file_empty[OF Suc.prems] Suc.prems by simp
  next
    case (Cons f fs)
    from get_file_item[OF Suc.prems Cons, of 0 "[]"] obtain q' where
      q': "TR_server_get_file 0 [] q = Some (Inr (Some f, [], q'))" "ptr_inv q'" "ptr_contents q' = fs"
        "ptr_capacity q' = ptr_capacity q" "filesTaken q' = filesTaken q @ [f]" by blast
    have "queue_log q' = queue_log q" using q' Cons by (simp add: queue_log_def)
    then show ?thesis using q' Suc.IH[OF q'(2)] Cons by simp
  qed
qed simp

lemma write_space:
  fixes q :: file_queue
  assumes "ptr_inv q" "length (ptr_contents q) < ptr_capacity q"
  shows "\<exists>q'. ptFIFO_write (Some f) 1 ws q = Some (Inr (0, ws, q')) \<and> ptr_inv q' \<and> queue_log q' = queue_log q @ [f]
    \<and> ptr_capacity q' = ptr_capacity q"
  using ptFIFO_put_space[OF assms, of f 1 ws] by (fastforce simp: ptFIFO_write_def queue_log_def ptr_capacity_def)

text \<open>A try fails only when it has timed out, and then there is room.\<close>

lemma write_cases:
  fixes q :: file_queue
  assumes q: "ptr_inv q" "0 < ptr_capacity q" and ws: "taking_waits ws" "ws \<noteq> []"
  obtains (written) ws' q' where "ptFIFO_write (Some f) 1 ws q = Some (Inr (0, ws', q'))" "ptr_inv q'"
      "queue_log q' = queue_log q @ [f]" "ptr_capacity q' = ptr_capacity q" "ws' = ws \<or> ws' = tl ws"
  | (timed_out) q' where "ptFIFO_write (Some f) 1 ws q = Some (Inr (-1, tl ws, q'))" "ptr_inv q'" "queue_log q' = queue_log q"
      "ptr_capacity q' = ptr_capacity q" "length (ptr_contents q') < ptr_capacity q'"
proof (cases "length (ptr_contents q) < ptr_capacity q")
  case True
  from write_space[OF q(1) True, of f ws] show ?thesis using written by blast
next
  case False
  then have full: "length (ptr_contents q) = ptr_capacity q" using ptr_shape(8)[OF q(1)] by simp
  obtain w ws' where w: "ws = w # ws'" using ws(2) by (cases ws) auto
  obtain k where k: "others w = consumers_take (Suc k)" using ws(1) w by (auto simp: taking_waits_def)
  have c: "ptr_inv (others w q)" "queue_log (others w q) = queue_log q" "ptr_capacity (others w q) = ptr_capacity q"
    "length (ptr_contents (others w q)) = length (ptr_contents q) - Suc k"
    unfolding k using consumers_take_ok[OF q(1), of "Suc k"] by blast+
  have room: "length (ptr_contents (others w q)) < ptr_capacity (others w q)" using c(3,4) full q(2) by simp
  have p: "ptFIFO_write (Some f) 1 ws q
      = (if timedOut w then Some (Inr (-1, ws', others w q)) else ptFIFO_write (Some f) 1 ws' (others w q))"
    using ptFIFO_put_full[OF q(1) full, of f 1 ws] w by (simp add: ptFIFO_write_def)
  show ?thesis
  proof (cases "timedOut w")
    case True
    then show ?thesis using p c(1-3) room w by (intro timed_out[of "others w q"]) simp_all
  next
    case False
    from write_space[OF c(1) room, of f ws'] show ?thesis using False p c w by (auto intro: written)
  qed
qed

lemma push_file_ok:
  assumes q: "ptr_inv (output_queue s)" "0 < ptr_capacity (output_queue s)" and ws: "taking_waits ws" "ws \<noteq> []"
  shows "\<exists>ws' q' nb nf. push_file (Suc n) f ws s
      = Some (Inr (True, ws', s\<lparr>output_queue := q', stat_bytes_received := nb, stat_files_received := nf\<rparr>))
    \<and> ptr_inv q' \<and> queue_log q' = queue_log (output_queue s) @ [f] \<and> ptr_capacity q' = ptr_capacity (output_queue s)
    \<and> taking_waits ws' \<and> length ws \<le> Suc (length ws')"
  using q ws
proof (cases rule: write_cases[where f = f])
  case (written ws' q')
  then have "push_file (Suc n) f ws s = Some (Inr (True, ws', s\<lparr>output_queue := q',
      stat_bytes_received := stat_bytes_received s + file_size f, stat_files_received := stat_files_received s + 1\<rparr>))"
    by (simp add: push_file.simps[of "Suc n"])
  moreover have "taking_waits ws' \<and> length ws \<le> Suc (length ws')"
    using written(5) ws by (cases ws) (auto simp: taking_waits_def)
  ultimately show ?thesis using written(2-4) by blast
next
  case (timed_out q')
  from write_space[OF timed_out(2,5), of f "tl ws"] obtain q'' where
    q'': "ptFIFO_write (Some f) 1 (tl ws) q' = Some (Inr (0, tl ws, q''))" "ptr_inv q''"
      "queue_log q'' = queue_log q' @ [f]" "ptr_capacity q'' = ptr_capacity q'" by blast
  then have "push_file (Suc n) f ws s = Some (Inr (True, tl ws, s\<lparr>output_queue := q'',
      stat_bytes_received := stat_bytes_received s + file_size f + file_size f,
      stat_files_received := stat_files_received s + 1 + 1\<rparr>))"
    using timed_out(1) by (simp add: push_file.simps[of "Suc n"] push_file.simps[of n])
  moreover have "taking_waits (tl ws) \<and> length ws \<le> Suc (length (tl ws))"
    using ws by (cases ws) (auto simp: taking_waits_def)
  ultimately show ?thesis using q''(2-4) timed_out(3,4) by (metis (no_types))
qed


text \<open>When nobody empties the queue, every try times out and is counted.\<close>

lemma push_file_full:
  assumes "ptr_inv (output_queue s)" "length (ptr_contents (output_queue s)) = ptr_capacity (output_queue s)"
  shows "push_file n f (replicate (Suc n) \<lparr>timedOut = True, others = (\<lambda>q. q)\<rparr>) s = Some (Inr (False, [],
      s\<lparr>stat_files_received := stat_files_received s + int (Suc n),
        stat_bytes_received := stat_bytes_received s + int (Suc n) * file_size f\<rparr>))"
  using assms
proof (induction n arbitrary: s)
  case 0
  then show ?case using ptFIFO_put_full[OF 0, of f 1] by (subst push_file.simps) (simp add: ptFIFO_write_def)
next
  case (Suc n)
  let ?w = "\<lparr>timedOut = True, others = (\<lambda>q. q)\<rparr> :: queue_wake"
  let ?s = "s\<lparr>stat_bytes_received := stat_bytes_received s + file_size f, stat_files_received := stat_files_received s + 1\<rparr>"
  have "ptFIFO_write (Some f) 1 (?w # replicate (Suc n) ?w) (output_queue s)
      = Some (Inr (-1, replicate (Suc n) ?w, output_queue s))"
    using ptFIFO_put_full[OF Suc.prems, of f 1] by (simp add: ptFIFO_write_def)
  then have "push_file (Suc n) f (replicate (Suc (Suc n)) ?w) s = push_file n f (replicate (Suc n) ?w) ?s"
    by (subst push_file.simps) (simp add: Let_def)
  also have "\<dots> = Some (Inr (False, [], s\<lparr>stat_files_received := stat_files_received s + int (Suc (Suc n)),
        stat_bytes_received := stat_bytes_received s + int (Suc (Suc n)) * file_size f\<rparr>))"
    using Suc.IH[of ?s] Suc.prems by (simp add: algebra_simps)
  finally show ?case .
qed


section \<open>The text of files\<close>

record wire_file =
  wf_source :: string
  wf_min :: int
  wf_maj :: int
  wf_data :: string

definition header_of :: "wire_file \<Rightarrow> string" where
  "header_of w = header_line (wf_source w) (wf_min w) (wf_maj w) (int (length (wf_data w)))"

definition end_text :: string where "end_text = ''END'' @ [newline]"

definition file_text :: "wire_file \<Rightarrow> string" where
  "file_text w = header_of w @ newline # wf_data w @ end_text"

definition stream :: "wire_file list \<Rightarrow> string" where
  "stream ws = concat (map file_text ws)"

lemma stream_simps [simp]: "stream [] = []" "stream (w # ws) = file_text w @ stream ws" "stream (vs @ ws) = stream vs @ stream ws"
  by (simp_all add: stream_def)

definition wire_file_ok :: "wire_file \<Rightarrow> bool" where
  "wire_file_ok w \<longleftrightarrow> plain_name (wf_source w) \<and> - (2 ^ 31) \<le> wf_min w \<and> wf_min w < 2 ^ 31 \<and> - (2 ^ 31) \<le> wf_maj w \<and> wf_maj w < 2 ^ 31
     \<and> wf_data w \<noteq> [] \<and> int (length (wf_data w)) < 2 ^ 31 - 1 \<and> length (header_of w) < TR_SERVER_BUFFER_SIZE - 1"

definition plain_line :: "string \<Rightarrow> bool" where
  "plain_line g \<longleftrightarrow> newline \<notin> set g \<and> CHR 0x00 \<notin> set g"

lemma plain_end: "plain_line ''END''"
  by (simp add: plain_line_def newline_def)

lemma plain_header_name: "plain_name (wf_source w) \<Longrightarrow> plain_line (header_of w)"
proof -
  assume w: "plain_name (wf_source w)"
  have p: "newline \<notin> set (print_int i)" "CHR 0x00 \<notin> set (print_int i)" for i
    using print_int_chars[of i] number_char_plain by blast+
  have n: "is_space newline" by (simp add: is_space_def newline_def)
  have "newline \<notin> set (wf_source w)" "CHR 0x00 \<notin> set (wf_source w)" using w n by (auto simp: plain_name_def)
  then show ?thesis using p by (auto simp: plain_line_def header_of_def header_line_def newline_def)
qed

lemma plain_header: "wire_file_ok w \<Longrightarrow> plain_line (header_of w)"
  by (simp add: plain_header_name wire_file_ok_def)

text \<open>A piece of a text that starts with a line either ends inside the line or holds the whole line.\<close>

lemma line_split:
  assumes "plain_line g" "p @ R = g @ newline # T"
  obtains (inside) "newline \<notin> set p" "length p \<le> length g"
  | (whole) p' where "p = g @ newline # p'" "p' @ R = T"
proof (cases "length p \<le> length g")
  case True
  then have "p = take (length p) g" using assms(2) by (metis append_eq_append_conv_if append_eq_conv_conj)
  then have "set p \<subseteq> set g" by (metis set_take_subset)
  then show ?thesis using assms(1) True inside by (auto simp: plain_line_def)
next
  case False
  then have "g = take (length g) p" "drop (length g) p @ R = newline # T"
    using assms(2) by (metis append_eq_append_conv_if append_eq_conv_conj nat_le_linear)+
  moreover obtain c p' where "drop (length g) p = c # p'" using False by (cases "drop (length g) p") auto
  ultimately have "p = g @ newline # p'" "p' @ R = T" by (metis append_take_drop_id append_Cons list.inject)+
  then show ?thesis by (rule whole)
qed

lemma whole_line:
  assumes "plain_line g"
  shows "newline \<in> set (c_string (g @ newline # p'))" "takeWhile (\<lambda>c. c \<noteq> newline) (g @ newline # p') = g"
    "drop (Suc (length g)) (g @ newline # p') = p'"
proof -
  have g: "\<forall>c \<in> set g. c \<noteq> CHR 0x00" "\<forall>c \<in> set g. c \<noteq> newline" using assms by (auto simp: plain_line_def)
  have n: "newline \<noteq> CHR 0x00" by (simp add: newline_def)
  show "newline \<in> set (c_string (g @ newline # p'))" using g(1) n by (simp add: c_string_def takeWhile_append)
  show "takeWhile (\<lambda>c. c \<noteq> newline) (g @ newline # p') = g" using g(2) by (simp add: takeWhile_append)
qed simp

lemma no_line: "newline \<notin> set p \<Longrightarrow> newline \<notin> set (c_string p)"
  using c_string_subset by blast


section \<open>What a connection expects\<close>

text \<open>The file under reception has got the first \<open>b\<close> bytes of the data of \<open>w\<close>.\<close>

definition holds_part :: "nat \<Rightarrow> int \<Rightarrow> wire_file \<Rightarrow> nat \<Rightarrow> TR_file \<Rightarrow> bool" where
  "holds_part i n w b f \<longleftrightarrow>
     file_id f = \<lparr>fileSource = Some (wf_source w), majId = wf_maj w, minId = wf_min w, fileSender = n, sender_magic = Some i\<rparr>
     \<and> file_size f = int (length (wf_data w)) \<and> file_path f = None
     \<and> file_blobs f = [\<lparr>blob_value = take b (wf_data w) @ replicate (length (wf_data w) - b) (CHR 0x00), blob_size = int (length (wf_data w))\<rparr>]"

definition received :: "nat \<Rightarrow> int \<Rightarrow> wire_file \<Rightarrow> TR_file \<Rightarrow> bool" where
  "received i n w f \<longleftrightarrow> holds_part i n w (length (wf_data w)) f"

fun state_expects :: "tr_server_state \<Rightarrow> nat \<Rightarrow> TR_data_connection \<Rightarrow> wire_file list \<Rightarrow> string \<Rightarrow> bool" where
  "state_expects STATE_INIT i cx ws T \<longleftrightarrow>
     (\<exists>g. T = g @ newline # stream ws \<and> plain_line g \<and> length g < TR_SERVER_BUFFER_SIZE - 1)"
| "state_expects WAITING_FILE_BEGIN i cx ws T \<longleftrightarrow> T = stream ws"
| "state_expects RECEIVING_FILE i cx ws T \<longleftrightarrow>
     (\<exists>w vs f b. ws = w # vs \<and> current_file cx = Some f \<and> holds_part i (cx_id cx) w b f \<and> bytes_received cx = int b
        \<and> b < length (wf_data w) \<and> T = drop b (wf_data w) @ end_text @ stream vs)"
| "state_expects WAITING_FILE_END i cx ws T \<longleftrightarrow>
     (\<exists>w vs f. ws = w # vs \<and> current_file cx = Some f \<and> received i (cx_id cx) w f \<and> T = end_text @ stream vs)"

definition expects :: "nat \<Rightarrow> TR_data_connection \<Rightarrow> wire_file list \<Rightarrow> string \<Rightarrow> bool" where
  "expects i cx ws T \<longleftrightarrow> cx_socket cx \<noteq> -1 \<and> state_expects (cx_state cx) i cx ws T"

text \<open>What the buffer holds between two reads.\<close>

definition quiet :: "TR_data_connection \<Rightarrow> bool" where
  "quiet cx \<longleftrightarrow> newline \<notin> set (cx_buffer cx) \<and> length (cx_buffer cx) < TR_SERVER_BUFFER_SIZE - 1
     \<and> (cx_state cx = RECEIVING_FILE \<longrightarrow> cx_buffer cx = [])"

lemma expects_line:
  assumes "expects i cx ws T" "cx_state cx \<noteq> RECEIVING_FILE" "\<forall>w \<in> set ws. wire_file_ok w" "T \<noteq> []"
  obtains g T' where "T = g @ newline # T'" "plain_line g" "length g < TR_SERVER_BUFFER_SIZE - 1"
proof (cases "cx_state cx")
  case STATE_INIT
  then show ?thesis using assms(1) that by (auto simp: expects_def)
next
  case WAITING_FILE_BEGIN
  then have T: "T = stream ws" using assms(1) by (simp add: expects_def)
  then obtain w vs where w: "ws = w # vs" using assms(4) by (cases ws) auto
  then show ?thesis
    using that[of "header_of w" "wf_data w @ end_text @ stream vs"] assms(3) plain_header[of w] T
    by (auto simp: file_text_def wire_file_ok_def)
next
  case WAITING_FILE_END
  then obtain vs where "T = end_text @ stream vs" using assms(1) by (auto simp: expects_def)
  then show ?thesis using that[of "''END''" "stream vs"] plain_end by (auto simp: end_text_def TR_SERVER_BUFFER_SIZE_def)
qed (use assms(2) in simp)

end
