(* ===== verification/Transport_Stream.thy ===== *)
theory Transport_Stream
  imports Transport_Reception
begin

text \<open>
  The reception of a stream of files: one line of the buffer, the loop over the lines, one read, and any sequence of reads.
  Each keeps what the connection expects in step with the text that is still to come, and appends to the output queue the
  files that are complete.
\<close>

section \<open>One line\<close>

lemma put_bytes_zeros:
  assumes "b + length t \<le> length d" "t = take (length t) (drop b d)"
  shows "put_bytes (int b) t (take b d @ replicate (length d - b) z) = take (b + length t) d @ replicate (length d - (b + length t)) z"
proof -
  have "take b d @ t = take (b + length t) d" using assms(2) by (simp add: take_add)
  moreover have "length (take b d) = b" using assms(1) by simp
  ultimately show ?thesis using assms(1) by (simp add: put_bytes_def)
qed

lemma holds_more:
  assumes "holds_part i n w b f" "b + length t \<le> length (wf_data w)" "t = take (length t) (drop b (wf_data w))"
  shows "holds_part i n w (b + length t) (store_bytes (int b) t f)" "file_size (store_bytes (int b) t f) = file_size f"
  using assms(1) put_bytes_zeros[OF assms(2,3)] by (auto simp: holds_part_def store_bytes_def)

lemma announced_ok:
  assumes "wire_file_ok w"
  shows "\<exists>f. announced_file addr n i (wf_source w) (wf_min w) (wf_maj w) (int (length (wf_data w))) = Inr f \<and> holds_part i n w 0 f"
  using assms by (simp add: announced_file_def holds_part_def wire_file_ok_def TR_file_new_def)

lemma begin_line:
  assumes w: "wire_file_ok w" and cx: "cx_socket cx \<noteq> -1" "cx_state cx = WAITING_FILE_BEGIN"
    and rest: "rest @ R = wf_data w @ end_text @ stream vs"
  shows "\<exists>k cx' s'. begin_file i (header_of w) rest cx s = Inr (k, cx', s') \<and> expects i cx' (w # vs) (drop k rest @ R)
    \<and> cx_id cx' = cx_id cx \<and> output_queue s' = output_queue s \<and> (cx_state cx' = RECEIVING_FILE \<longrightarrow> drop k rest = [])
    \<and> cx_state cx' \<noteq> STATE_INIT"
proof -
  let ?d = "wf_data w"
  have len: "int (length ?d) < 2 ^ 31" "?d \<noteq> []" using w by (auto simp: wire_file_ok_def)
  have sc: "scan_header (header_of w) = Inr (Some (wf_source w, wf_min w, wf_maj w, int (length ?d)))"
    unfolding header_of_def using w by (intro scan_header_line) (auto simp: wire_file_ok_def)
  from announced_ok[OF w, of "nextAddress s" "cx_id cx" i] obtain f where
    f: "announced_file (nextAddress s) (cx_id cx) i (wf_source w) (wf_min w) (wf_maj w) (int (length ?d)) = Inr f"
      "holds_part i (cx_id cx) w 0 f" by blast
  have sz: "file_size f = int (length ?d)" using f(2) by (simp add: holds_part_def)
  show ?thesis
  proof (cases "length rest \<ge> length ?d")
    case True
    then obtain r where r: "rest = ?d @ r" "r @ R = end_text @ stream vs"
      using rest by (metis append_eq_append_conv_if append_take_drop_id append_eq_conv_conj)
    have "holds_part i (cx_id cx) w (length ?d) (store_bytes 0 ?d f)" using holds_more(1)[OF f(2), of ?d] by simp
    moreover have "0 < int (length ?d) + int (length r)" using len(2) by (cases ?d) simp_all
    ultimately show ?thesis using sc f(1) sz len r cx by (simp add: begin_file_def expects_def received_def Let_def)
  next
    case False
    then have t: "rest = take (length rest) ?d" "R = drop (length rest) ?d @ end_text @ stream vs"
      using rest by (metis append_eq_append_conv_if nat_le_linear)+
    have h: "holds_part i (cx_id cx) w (length rest) (store_bytes 0 rest f)"
      using holds_more(1)[OF f(2), of rest] False t(1) by simp
    have z: "rest = [] \<Longrightarrow> holds_part i (cx_id cx) w 0 f \<and> R = ?d @ end_text @ stream vs" using f(2) t(2) by simp
    show ?thesis using sc f(1) sz len False cx h z t(2) by (auto simp: begin_file_def expects_def Let_def)
  qed
qed

lemma end_line:
  assumes cx: "cx_state cx = WAITING_FILE_END" "current_file cx = Some f"
    and q: "ptr_inv (output_queue s)" "0 < ptr_capacity (output_queue s)" and ws: "taking_waits waits" "waits \<noteq> []"
  shows "\<exists>waits' q' nb nf. end_file ''END'' cx waits s
      = Some (Inr (0, cx\<lparr>current_file := None, cx_state := WAITING_FILE_BEGIN\<rparr>, waits',
          s\<lparr>output_queue := q', stat_bytes_received := nb, stat_files_received := nf\<rparr>))
    \<and> ptr_inv q' \<and> queue_log q' = queue_log (output_queue s) @ [f] \<and> ptr_capacity q' = ptr_capacity (output_queue s)
    \<and> taking_waits waits' \<and> length waits \<le> Suc (length waits')"
proof -
  have ten: "10 = Suc 9" by simp
  from push_file_ok[OF q ws, of 9 f] obtain waits' q' nb nf where
    p: "push_file 10 f waits s = Some (Inr (True, waits', s\<lparr>output_queue := q', stat_bytes_received := nb, stat_files_received := nf\<rparr>))"
      and r: "ptr_inv q'" "queue_log q' = queue_log (output_queue s) @ [f]" "ptr_capacity q' = ptr_capacity (output_queue s)"
      "taking_waits waits'" "length waits \<le> Suc (length waits')"
    unfolding ten[symmetric] by blast
  from p have "end_file ''END'' cx waits s
      = Some (Inr (0, cx\<lparr>current_file := None, cx_state := WAITING_FILE_BEGIN\<rparr>, waits',
          s\<lparr>output_queue := q', stat_bytes_received := nb, stat_files_received := nf\<rparr>))"
    using cx(2) by (simp add: end_file_def)
  then show ?thesis using r by blast
qed

text \<open>The output queue works, and there is an end of a wait for each file that is still to come.\<close>

definition queue_works :: "queue_wake list \<Rightarrow> wire_file list \<Rightarrow> TR_server \<Rightarrow> bool" where
  "queue_works waits ws s \<longleftrightarrow> ptr_inv (output_queue s) \<and> 0 < ptr_capacity (output_queue s) \<and> taking_waits waits
     \<and> length ws \<le> length waits"

text \<open>From one state to another the files \<open>done\<close> have arrived and \<open>ws\<close> are still to come.\<close>

definition progressed ::
  "nat \<Rightarrow> int \<Rightarrow> wire_file list \<Rightarrow> wire_file list \<Rightarrow> TR_server \<Rightarrow> TR_server \<Rightarrow> bool"
where
  "progressed i n all ws s s' \<longleftrightarrow>
     (\<exists>arrived fs. all = arrived @ ws \<and> queue_log (output_queue s') = queue_log (output_queue s) @ fs
        \<and> list_all2 (received i n) arrived fs \<and> ptr_inv (output_queue s')
        \<and> ptr_capacity (output_queue s') = ptr_capacity (output_queue s))"

lemma progressed_refl: "ptr_inv (output_queue s') \<Longrightarrow> output_queue s' = output_queue s \<Longrightarrow> progressed i n ws ws s s'"
  by (simp add: progressed_def)

lemma progressed_trans:
  assumes "progressed i n all vs s s1" "progressed i n vs ws s1 s2"
  shows "progressed i n all ws s s2"
proof -
  obtain a1 f1 where 1: "all = a1 @ vs" "queue_log (output_queue s1) = queue_log (output_queue s) @ f1"
      "list_all2 (received i n) a1 f1" "ptr_capacity (output_queue s1) = ptr_capacity (output_queue s)"
    using assms(1) by (auto simp: progressed_def)
  obtain a2 f2 where 2: "vs = a2 @ ws" "queue_log (output_queue s2) = queue_log (output_queue s1) @ f2"
      "list_all2 (received i n) a2 f2" "ptr_inv (output_queue s2)" "ptr_capacity (output_queue s2) = ptr_capacity (output_queue s1)"
    using assms(2) by (auto simp: progressed_def)
  have "all = (a1 @ a2) @ ws" "queue_log (output_queue s2) = queue_log (output_queue s) @ f1 @ f2" using 1 2 by simp_all
  moreover have "list_all2 (received i n) (a1 @ a2) (f1 @ f2)" using 1(3) 2(3) by (rule list_all2_appendI)
  ultimately show ?thesis using 1(4) 2(4,5) unfolding progressed_def by (metis (no_types))
qed

text \<open>Before the first line no file can have arrived.\<close>

definition init_kept :: "TR_data_connection \<Rightarrow> wire_file list \<Rightarrow> TR_data_connection \<Rightarrow> wire_file list \<Rightarrow> bool" where
  "init_kept cx ws cx' vs \<longleftrightarrow> (cx_state cx' = STATE_INIT \<longrightarrow> cx_state cx = STATE_INIT \<and> vs = ws)"

lemma init_kept_refl [simp]: "cx_state cx' = cx_state cx \<Longrightarrow> init_kept cx ws cx' ws"
  by (simp add: init_kept_def)

lemma init_kept_trans: "init_kept cx ws cx1 vs \<Longrightarrow> init_kept cx1 vs cx2 us \<Longrightarrow> init_kept cx ws cx2 us"
  by (auto simp: init_kept_def)

lemma process_line_ok:
  assumes ex: "expects i cx ws (g @ newline # T)" "cx_state cx \<noteq> RECEIVING_FILE" and g: "plain_line g"
    and ok: "\<forall>w \<in> set ws. wire_file_ok w" and q: "queue_works waits ws s" and rest: "rest @ R = T"
  shows "\<exists>k cx' waits' s' vs. process_line i 6 g rest cx waits s = Some (Inr (0, k, cx', waits', s'))
    \<and> expects i cx' vs (drop k rest @ R) \<and> (cx_state cx' = RECEIVING_FILE \<longrightarrow> drop k rest = []) \<and> cx_id cx' = cx_id cx
    \<and> progressed i (cx_id cx) ws vs s s' \<and> queue_works waits' vs s' \<and> cx_state cx' \<noteq> STATE_INIT"
proof (cases "cx_state cx")
  case STATE_INIT
  then obtain g' where "g @ newline # T = g' @ newline # stream ws" "plain_line g'" using ex(1) by (auto simp: expects_def)
  then have T: "T = stream ws" using g whole_line(2)[of g T] whole_line(2)[of g' "stream ws"] by auto
  show ?thesis
    using STATE_INIT ex(1) T rest q progressed_refl[of s s i "cx_id cx" ws]
    by (fastforce simp: process_line_def start_reception_def socket_send_def expects_def queue_works_def)
next
  case WAITING_FILE_BEGIN
  then have sw: "g @ newline # T = stream ws" "cx_socket cx \<noteq> -1" using ex(1) by (auto simp: expects_def)
  then obtain w vs where w: "ws = w # vs" by (cases ws) auto
  then have e: "g @ newline # T = header_of w @ newline # (wf_data w @ end_text @ stream vs)"
    using sw(1) by (simp add: file_text_def)
  have wok: "wire_file_ok w" using ok w by simp
  have gT: "g = header_of w" "T = wf_data w @ end_text @ stream vs"
    using e whole_line(2)[OF g, of T] whole_line(2)[OF plain_header[OF wok], of "wf_data w @ end_text @ stream vs"] by auto
  have r: "rest @ R = wf_data w @ end_text @ stream vs" using rest gT(2) by simp
  from begin_line[OF wok sw(2) WAITING_FILE_BEGIN r, of i s] obtain k cx' s' where
    b: "begin_file i (header_of w) rest cx s = Inr (k, cx', s')" "expects i cx' (w # vs) (drop k rest @ R)"
      "cx_id cx' = cx_id cx" "output_queue s' = output_queue s" "cx_state cx' = RECEIVING_FILE \<longrightarrow> drop k rest = []"
      "cx_state cx' \<noteq> STATE_INIT" by blast
  then have "process_line i 6 g rest cx waits s = Some (Inr (0, k, cx', waits, s'))"
    using WAITING_FILE_BEGIN gT(1) by (simp add: process_line_def)
  moreover have "progressed i (cx_id cx) ws ws s s'" "queue_works waits ws s'"
    using q b(4) by (auto intro!: progressed_refl simp: queue_works_def)
  ultimately show ?thesis using b w by blast
next
  case WAITING_FILE_END
  then obtain w vs f where w: "ws = w # vs" "current_file cx = Some f" "received i (cx_id cx) w f"
      "g @ newline # T = end_text @ stream vs" "cx_socket cx \<noteq> -1"
    using ex(1) by (auto simp: expects_def)
  have gT: "g = ''END''" "T = stream vs"
    using w(4) whole_line(2)[OF g, of T] whole_line(2)[OF plain_end, of "stream vs"] by (auto simp: end_text_def)
  have q': "ptr_inv (output_queue s)" "0 < ptr_capacity (output_queue s)" "taking_waits waits" "waits \<noteq> []" "length vs < length waits"
    using q w(1) by (auto simp: queue_works_def)
  from end_line[OF WAITING_FILE_END w(2) q'(1-4)] obtain waits' q2 nb nf where
    e: "end_file ''END'' cx waits s = Some (Inr (0, cx\<lparr>current_file := None, cx_state := WAITING_FILE_BEGIN\<rparr>, waits',
          s\<lparr>output_queue := q2, stat_bytes_received := nb, stat_files_received := nf\<rparr>))"
      "ptr_inv q2" "queue_log q2 = queue_log (output_queue s) @ [f]" "ptr_capacity q2 = ptr_capacity (output_queue s)"
      "taking_waits waits'" "length waits \<le> Suc (length waits')" by blast
  let ?s = "s\<lparr>output_queue := q2, stat_bytes_received := nb, stat_files_received := nf\<rparr>"
  let ?cx = "cx\<lparr>current_file := None, cx_state := WAITING_FILE_BEGIN\<rparr>"
  have "process_line i 6 g rest cx waits s = Some (Inr (0, 0, ?cx, waits', ?s))"
    using WAITING_FILE_END gT(1) e(1) by (simp add: process_line_def)
  moreover have "expects i ?cx vs (drop 0 rest @ R)" using w(5) rest gT(2) by (simp add: expects_def)
  moreover have "progressed i (cx_id cx) ws vs s ?s"
    unfolding progressed_def using w(1,3) e(2-4) by (intro exI[of _ "[w]"] exI[of _ "[f]"]) simp
  moreover have "queue_works waits' vs ?s" using q' e by (simp add: queue_works_def)
  ultimately show ?thesis
    by (intro exI[of _ 0] exI[of _ ?cx] exI[of _ waits'] exI[of _ ?s] exI[of _ vs]) simp
qed (use ex(2) in simp)


section \<open>The loop over the lines\<close>

lemma expects_buffer [simp]: "expects i (cx\<lparr>cx_buffer := b\<rparr>) ws T = expects i cx ws T"
  by (cases "cx_state cx") (simp_all add: expects_def)

lemma parse_buffer_stop:
  assumes ex: "expects i cx ws (p @ R)" and sh: "length p < TR_SERVER_BUFFER_SIZE - 1" and nl: "newline \<notin> set p"
    and b: "\<not> moved \<Longrightarrow> cx_buffer cx = p" and rc: "cx_state cx = RECEIVING_FILE \<Longrightarrow> p = []" and q: "queue_works waits ws s"
  shows "\<exists>cx' waits' s' vs. parse_buffer i 6 moved p cx waits s = Some (Inr (0, cx', waits', s'))
    \<and> expects i cx' vs (cx_buffer cx' @ R) \<and> quiet cx' \<and> cx_id cx' = cx_id cx
    \<and> progressed i (cx_id cx) ws vs s s' \<and> queue_works waits' vs s' \<and> init_kept cx ws cx' vs"
proof -
  have "parse_buffer i 6 moved p cx waits s = Some (Inr (0, cx\<lparr>cx_buffer := p\<rparr>, waits, s))"
    using ex sh b no_line[OF nl] by (subst parse_buffer.simps) (auto simp: expects_def)
  moreover have "quiet (cx\<lparr>cx_buffer := p\<rparr>)" using sh nl rc by (simp add: quiet_def)
  moreover have "progressed i (cx_id cx) ws ws s s" using q by (intro progressed_refl) (simp_all add: queue_works_def)
  ultimately show ?thesis using ex q
    by (intro exI[of _ "cx\<lparr>cx_buffer := p\<rparr>"] exI[of _ waits] exI[of _ s] exI[of _ ws]) simp
qed

lemma parse_buffer_ok:
  assumes "expects i cx ws (p @ R)" "\<not> moved \<Longrightarrow> cx_buffer cx = p" "cx_state cx = RECEIVING_FILE \<Longrightarrow> p = []"
    "\<forall>w \<in> set ws. wire_file_ok w" "queue_works waits ws s"
  shows "\<exists>cx' waits' s' vs. parse_buffer i 6 moved p cx waits s = Some (Inr (0, cx', waits', s'))
    \<and> expects i cx' vs (cx_buffer cx' @ R) \<and> quiet cx' \<and> cx_id cx' = cx_id cx
    \<and> progressed i (cx_id cx) ws vs s s' \<and> queue_works waits' vs s' \<and> init_kept cx ws cx' vs"
  using assms
proof (induction "length p" arbitrary: p moved cx ws waits s rule: less_induct)
  case less
  show ?case
  proof (cases "p = []")
    case True
    then show ?thesis using less.prems by (intro parse_buffer_stop) (simp_all add: TR_SERVER_BUFFER_SIZE_def)
  next
    case False
    then have nr: "cx_state cx \<noteq> RECEIVING_FILE" using less.prems(3) by blast
    obtain g T where g: "p @ R = g @ newline # T" "plain_line g" "length g < TR_SERVER_BUFFER_SIZE - 1"
      using expects_line[OF less.prems(1) nr less.prems(4)] False by blast
    from g(2,1) show ?thesis
    proof (cases rule: line_split)
      case inside
      then show ?thesis using less.prems g(3) by (intro parse_buffer_stop) simp_all
    next
      case (whole rest)
      have ex: "expects i cx ws (g @ newline # T)" using less.prems(1) g(1) by simp
      from process_line_ok[OF ex nr g(2) less.prems(4,5) whole(2)] obtain k cx1 waits1 s1 vs where
        one: "process_line i 6 g rest cx waits s = Some (Inr (0, k, cx1, waits1, s1))" "expects i cx1 vs (drop k rest @ R)"
          "cx_state cx1 = RECEIVING_FILE \<longrightarrow> drop k rest = []" "cx_id cx1 = cx_id cx"
          "progressed i (cx_id cx) ws vs s s1" "queue_works waits1 vs s1" "cx_state cx1 \<noteq> STATE_INIT" by blast
      have step: "parse_buffer i 6 moved p cx waits s = parse_buffer i 6 True (drop k rest) cx1 waits1 s1"
        using less.prems(1) one(1) whole_line[OF g(2), of rest] whole(1) by (subst parse_buffer.simps) (simp add: expects_def Let_def)
      have "\<forall>w \<in> set vs. wire_file_ok w" using one(5) less.prems(4) by (auto simp: progressed_def)
      moreover have "length (drop k rest) < length p" using whole(1) by simp
      ultimately obtain cx2 waits2 s2 us where
        two: "parse_buffer i 6 True (drop k rest) cx1 waits1 s1 = Some (Inr (0, cx2, waits2, s2))"
          "expects i cx2 us (cx_buffer cx2 @ R)" "quiet cx2" "cx_id cx2 = cx_id cx1"
          "progressed i (cx_id cx1) vs us s1 s2" "queue_works waits2 us s2" "init_kept cx1 vs cx2 us"
        using less.hyps[of "drop k rest" cx1 vs True waits1 s1] one by blast
      moreover have "init_kept cx ws cx2 us" using one(7) two(7) by (simp add: init_kept_def)
      ultimately show ?thesis using step one(4) progressed_trans[OF one(5), of us s2] by metis
    qed
  qed
qed


section \<open>One read\<close>

text \<open>Something has arrived, the socket takes the reply, and other threads empty the queue.\<close>

definition good_input :: "nat \<Rightarrow> cx_input \<Rightarrow> bool" where
  "good_input n x \<longleftrightarrow> (\<exists>k. arrival_of x = Arrived (Suc k)) \<and> sendResult x = 6 \<and> taking_waits (queueWaits x) \<and> n \<le> length (queueWaits x)"

definition queue_ready :: "TR_server \<Rightarrow> bool" where
  "queue_ready s \<longleftrightarrow> ptr_inv (output_queue s) \<and> 0 < ptr_capacity (output_queue s)"

lemma read_data:
  assumes ex: "expects i cx ws (net @ R)" "cx_state cx = RECEIVING_FILE" and q: "quiet cx"
    and x: "good_input n x" and net: "net \<noteq> []"
  shows "\<exists>cx' net'. TR_server_connection_read i x net cx s = Some (Inr (0, net', cx', s)) \<and> expects i cx' ws (cx_buffer cx' @ net' @ R)
    \<and> quiet cx' \<and> cx_id cx' = cx_id cx \<and> length net' < length net \<and> cx_state cx' \<noteq> STATE_INIT"
proof -
  from ex obtain w vs f b where
    w: "ws = w # vs" "current_file cx = Some f" "holds_part i (cx_id cx) w b f" "bytes_received cx = int b"
      "b < length (wf_data w)" "net @ R = drop b (wf_data w) @ end_text @ stream vs" "cx_socket cx \<noteq> -1"
    by (auto simp: expects_def)
  obtain k where k: "arrival_of x = Arrived (Suc k)" using x by (auto simp: good_input_def)
  define t where "t = take (min (Suc k) (length (wf_data w) - b)) net"
  define net' where "net' = drop (min (Suc k) (length (wf_data w) - b)) net"
  have sz: "file_size f = int (length (wf_data w))" using w(3) by (simp add: holds_part_def)
  have want: "nat (file_size f - bytes_received cx) = length (wf_data w) - b" using sz w(4,5) by simp
  have nt: "net = t @ net'" by (simp add: t_def net'_def)
  have t: "t \<noteq> []" "b + length t \<le> length (wf_data w)" using net w(5) by (auto simp: t_def)
  have sp: "t @ net' @ R = drop b (wf_data w) @ end_text @ stream vs" using w(6) nt by simp
  have tt: "t = take (length t) (drop b (wf_data w))"
    using sp t(2) by (metis append_eq_append_conv_if append_eq_conv_conj length_drop le_diff_conv2 add.commute w(5) less_imp_le_nat)
  have tl: "net' @ R = drop (b + length t) (wf_data w) @ end_text @ stream vs"
    using sp tt t(2) w(5) by (metis add.commute append.assoc append_take_drop_id drop_drop same_append_eq)
  define f' where "f' = store_bytes (int b) t f"
  have f': "holds_part i (cx_id cx) w (b + length t) f'" unfolding f'_def using w(3) t(2) tt by (rule holds_more)
  let ?st = "if b + length t = length (wf_data w) then WAITING_FILE_END else RECEIVING_FILE"
  let ?cx = "cx\<lparr>current_file := Some f', bytes_received := int (b + length t), cx_state := ?st\<rparr>"
  have "(int b + int (length t) = file_size f) = (b + length t = length (wf_data w))" using sz by linarith
  then have "TR_server_connection_read i x net cx s = Some (Inr (0, net', ?cx, s))"
    using ex(2) w(2,4) k t(1) unfolding TR_server_connection_read_def want
    by (simp add: socket_read_def t_def[symmetric] net'_def[symmetric] want[unfolded w(4)] f'_def Let_def)
  moreover have "expects i ?cx ws (net' @ R)"
    using w(1,7) f' tl t(2) by (auto simp: expects_def received_def)
  moreover have "cx_buffer cx = []" using q ex(2) by (simp add: quiet_def)
  moreover have "length net' < length net" using nt t(1) by simp
  ultimately show ?thesis by (intro exI[of _ ?cx] exI[of _ net']) (simp add: quiet_def TR_SERVER_BUFFER_SIZE_def)
qed

lemma read_lines:
  assumes ex: "expects i cx ws (cx_buffer cx @ net @ R)" "cx_state cx \<noteq> RECEIVING_FILE" and q: "quiet cx"
    and x: "good_input n x" "length ws \<le> n" and net: "net \<noteq> []"
    and ok: "\<forall>w \<in> set ws. wire_file_ok w" and s: "queue_ready s"
  shows "\<exists>cx' net' s' vs. TR_server_connection_read i x net cx s = Some (Inr (0, net', cx', s'))
    \<and> expects i cx' vs (cx_buffer cx' @ net' @ R) \<and> quiet cx' \<and> cx_id cx' = cx_id cx \<and> length net' < length net
    \<and> progressed i (cx_id cx) ws vs s s' \<and> queue_ready s' \<and> init_kept cx ws cx' vs"
proof -
  obtain k where k: "arrival_of x = Arrived (Suc k)" "sendResult x = 6" using x by (auto simp: good_input_def)
  define m where "m = min (Suc k) (TR_SERVER_BUFFER_SIZE - length (cx_buffer cx) - 1)"
  have m: "0 < m" using q by (auto simp: m_def quiet_def)
  define t where "t = take m net"
  have rd: "socket_read (arrival_of x) (TR_SERVER_BUFFER_SIZE - length (cx_buffer cx) - 1) net = (Some t, drop m net)"
    by (simp add: socket_read_def k t_def m_def)
  let ?cx = "cx\<lparr>cx_buffer := cx_buffer cx @ t\<rparr>"
  have t: "t \<noteq> []" using m net by (simp add: t_def)
  have e: "cx_buffer cx @ net @ R = (cx_buffer cx @ t) @ drop m net @ R" by (metis append.assoc append_take_drop_id t_def)
  have ex': "expects i ?cx ws ((cx_buffer cx @ t) @ drop m net @ R)" using ex(1) unfolding e expects_buffer .
  have qw: "queue_works (queueWaits x) ws s" using x s by (auto simp: queue_works_def good_input_def queue_ready_def)
  have nr: "cx_state ?cx \<noteq> RECEIVING_FILE" using ex(2) by simp
  from parse_buffer_ok[OF ex' _ _ ok qw, of False] nr obtain cx' waits' s' vs where
    p: "parse_buffer i 6 False (cx_buffer cx @ t) ?cx (queueWaits x) s = Some (Inr (0, cx', waits', s'))"
      "expects i cx' vs (cx_buffer cx' @ drop m net @ R)" "quiet cx'" "cx_id cx' = cx_id ?cx"
      "progressed i (cx_id ?cx) ws vs s s'" "queue_works waits' vs s'" "init_kept ?cx ws cx' vs" by auto
  have "TR_server_connection_read i x net cx s = Some (Inr (0, drop m net, cx', s'))"
    using ex(2) k t p(1) unfolding TR_server_connection_read_def rd by (simp add: Let_def)
  moreover have "length (drop m net) < length net" using m net by simp
  moreover have "queue_ready s'" using p(6) by (simp add: queue_works_def queue_ready_def)
  moreover have "init_kept cx ws cx' vs" using p(7) by (simp add: init_kept_def)
  ultimately show ?thesis using p by auto
qed

lemma connection_read_ok:
  assumes "expects i cx ws (cx_buffer cx @ net @ R)" "quiet cx" "good_input n x" "length ws \<le> n" "net \<noteq> []"
    "\<forall>w \<in> set ws. wire_file_ok w" "queue_ready s"
  shows "\<exists>cx' net' s' vs. TR_server_connection_read i x net cx s = Some (Inr (0, net', cx', s'))
    \<and> expects i cx' vs (cx_buffer cx' @ net' @ R) \<and> quiet cx' \<and> cx_id cx' = cx_id cx \<and> length net' < length net
    \<and> progressed i (cx_id cx) ws vs s s' \<and> queue_ready s' \<and> init_kept cx ws cx' vs"
proof (cases "cx_state cx = RECEIVING_FILE")
  case True
  have "cx_buffer cx = []" using True assms(2) by (simp add: quiet_def)
  then have "expects i cx ws (net @ R)" using assms(1) by simp
  from read_data[OF this True assms(2,3,5)] show ?thesis
    using progressed_refl[of s s i "cx_id cx" ws] assms(7) by (fastforce simp: queue_ready_def init_kept_def)
next
  case False
  from read_lines[OF assms(1) False assms(2-7)] show ?thesis .
qed


section \<open>Any sequence of reads\<close>

text \<open>The socket is ready as long as something has been sent that is not yet read.\<close>

fun serve_connection ::
  "nat \<Rightarrow> cx_input list \<Rightarrow> string \<Rightarrow> TR_data_connection \<Rightarrow> TR_server \<Rightarrow>
   (int \<times> string \<times> TR_data_connection \<times> TR_server) res option"
where
  "serve_connection i [] net cx s = Some (Inr (0, net, cx, s))"
| "serve_connection i (x # xs) net cx s =
     (if net = [] \<or> cx_socket cx = -1 then Some (Inr (0, net, cx, s))
      else case TR_server_connection_read i x net cx s of
          Some (Inr (r, net', cx', s')) \<Rightarrow>
            if r \<noteq> 0 then Some (Inr (r, net', cx', s')) else serve_connection i xs net' cx' s'
        | m \<Rightarrow> m)"

lemma serve_ok:
  assumes "expects i cx ws (cx_buffer cx @ net @ R)" "quiet cx" "\<forall>x \<in> set xs. good_input n x" "length ws \<le> n"
    "\<forall>w \<in> set ws. wire_file_ok w" "queue_ready s"
  shows "\<exists>cx' net' s' vs. serve_connection i xs net cx s = Some (Inr (0, net', cx', s'))
    \<and> expects i cx' vs (cx_buffer cx' @ net' @ R) \<and> quiet cx' \<and> (length net \<le> length xs \<longrightarrow> net' = [])
    \<and> progressed i (cx_id cx) ws vs s s' \<and> init_kept cx ws cx' vs"
  using assms
proof (induction xs arbitrary: net cx ws s)
  case Nil
  then show ?case using progressed_refl[of s s i "cx_id cx" ws] by (fastforce simp: queue_ready_def)
next
  case (Cons x xs)
  show ?case
  proof (cases "net = []")
    case True
    then show ?thesis using Cons.prems progressed_refl[of s s i "cx_id cx" ws] by (fastforce simp: queue_ready_def)
  next
    case False
    have x: "good_input n x" using Cons.prems(3) by simp
    from connection_read_ok[OF Cons.prems(1,2) x Cons.prems(4) False Cons.prems(5,6)] obtain cx1 net1 s1 vs where
      one: "TR_server_connection_read i x net cx s = Some (Inr (0, net1, cx1, s1))" "expects i cx1 vs (cx_buffer cx1 @ net1 @ R)"
        "quiet cx1" "cx_id cx1 = cx_id cx" "length net1 < length net" "progressed i (cx_id cx) ws vs s s1" "queue_ready s1" "init_kept cx ws cx1 vs" by blast
    have vs: "length vs \<le> n" "\<forall>w \<in> set vs. wire_file_ok w" using one(6) Cons.prems(4,5) by (auto simp: progressed_def)
    have xs: "\<forall>x \<in> set xs. good_input n x" using Cons.prems(3) by simp
    from Cons.IH[OF one(2,3) xs vs one(7)] obtain cx2 net2 s2 us where
      two: "serve_connection i xs net1 cx1 s1 = Some (Inr (0, net2, cx2, s2))" "expects i cx2 us (cx_buffer cx2 @ net2 @ R)" "quiet cx2"
        "length net1 \<le> length xs \<longrightarrow> net2 = []" "progressed i (cx_id cx1) vs us s1 s2" "init_kept cx1 vs cx2 us" by blast
    have "serve_connection i (x # xs) net cx s = Some (Inr (0, net2, cx2, s2))"
      using False one(1) two(1) Cons.prems(1) by (simp add: expects_def)
    moreover have "length net \<le> length (x # xs) \<longrightarrow> net2 = []" using one(5) two(4) by auto
    moreover have "progressed i (cx_id cx) ws us s s2" using progressed_trans[OF one(6)] two(5) one(4) by simp
    moreover have "init_kept cx ws cx2 us" using one(8) two(6) by (rule init_kept_trans)
    ultimately show ?thesis using two(2,3) by blast
  qed
qed

text \<open>A connection that has read all that was sent, the files \<open>all\<close> and the beginning of the file \<open>w\<close>, has received exactly \<open>all\<close>.\<close>

lemma expects_length:
  assumes "expects i cx (v # vs) T"
  obtains X where "T = X @ newline # stream vs"
proof (cases "cx_state cx")
  case STATE_INIT
  then obtain g where "T = g @ newline # stream (v # vs)" using assms by (auto simp: expects_def)
  then have "T = (g @ newline # header_of v @ newline # wf_data v @ ''END'') @ newline # stream vs"
    by (simp add: file_text_def end_text_def)
  then show ?thesis by (rule that)
next
  case WAITING_FILE_BEGIN
  then have "T = (header_of v @ newline # wf_data v @ ''END'') @ newline # stream vs"
    using assms by (simp add: expects_def file_text_def end_text_def)
  then show ?thesis by (rule that)
next
  case RECEIVING_FILE
  then obtain b where "T = (drop b (wf_data v) @ ''END'') @ newline # stream vs"
    using assms by (auto simp: expects_def end_text_def)
  then show ?thesis by (rule that)
next
  case WAITING_FILE_END
  then have "T = ''END'' @ newline # stream vs" using assms by (auto simp: expects_def end_text_def)
  then show ?thesis by (rule that)
qed

lemma nothing_left:
  assumes ex: "expects i cx vs (cx_buffer cx @ R)" and q: "quiet cx" and vs: "all @ [w] = arrived @ vs"
    and R: "R \<noteq> []" "length R \<le> length (file_text w)" and st: "cx_state cx = STATE_INIT \<Longrightarrow> vs = all @ [w]"
  shows "vs = [w] \<and> arrived = all"
proof (cases vs)
  case Nil
  then have "cx_buffer cx @ R = []" using ex st Nil by (cases "cx_state cx") (auto simp: expects_def)
  then show ?thesis using R(1) by simp
next
  case (Cons v us)
  show ?thesis
  proof (cases "us = []")
    case True
    then show ?thesis using vs Cons by simp
  next
    case False
    obtain X where X: "cx_buffer cx @ R = X @ newline # stream us" using expects_length ex Cons by blast
    have "last us = w" using vs Cons False by (metis last_append last_ConsR list.distinct(1) last_snoc)
    then obtain us' where "us = us' @ [w]" using False by (metis append_butlast_last_id)
    then have "length R \<le> length (stream us)" using R(2) by simp
    then have "length (X @ [newline]) \<le> length (cx_buffer cx)" using arg_cong[OF X, of length] by simp
    then have "X @ [newline] = take (length (X @ [newline])) (cx_buffer cx)"
      using X by (metis append.assoc append_Cons append_Nil append_eq_append_conv_if append_eq_conv_conj)
    then have "newline \<in> set (cx_buffer cx)" by (metis in_set_conv_decomp in_set_takeD)
    then show ?thesis using q by (simp add: quiet_def)
  qed
qed

end
