(* ===== verification/Transport_Client.thy ===== *)
theory Transport_Client
  imports Transport_Files Perm_Fifo
begin

text \<open>
  The client of the log transport (src/InfoLogger/src/transport_client.c): the queues of files, and the body of the loop that
  is active while the client is connected (\<^verbatim>\<open>STATE_CONNECTED\<close>), step by step: the replies of the server, the removal of
  acknowledged files, the choice of the next file, the send buffer and the socket.

  \<^item> \<open>client_tx\<close> are the local variables of the loop. The current blob is the list of the blobs from it on; an open file on
    disk is the text that is still to be read; \<open>wire\<close> is what the socket has taken so far. A file is compared by its address.
  \<^item> What \<^verbatim>\<open>poll\<close>, \<^verbatim>\<open>send\<close>, \<^verbatim>\<open>fopen\<close>, \<^verbatim>\<open>time\<close> and the server answer in one turn is its input. The lines of the server are those
    that \<^verbatim>\<open>lineBuffer_getLine\<close> returns.
  \<^item> A file without a source gets the name "Unknown" when it is sent; the model leaves the source in the queue empty, so that a
    second transmission prints the same name again.
  \<^item> Connecting, the exchange before \<^verbatim>\<open>READY\<close>, the proxy and the debug file are left out.
\<close>

record TR_client =
  client_name :: string
  input_queue :: "TR_file FIFO"
  sent_queue :: "TR_file FIFO"
  server_shutdown_request :: bool
  input_queue_msg :: "permFIFO option"
  fileAddress :: nat

record client_tx =
  curFile :: "TR_file option"
  curBlobs :: "TR_blob list"
  fileIndex :: int
  sendValue :: string
  sendStart :: int
  sendStop :: int
  transferInit :: bool
  transferDeinit :: bool
  onDisk :: "string option"
  ackId :: TR_file_id
  wdLastIndex :: int
  wdCount :: int
  wdTimer :: int
  wire :: string

datatype socket_outcome = NotWritable | SocketBroken | SendReturns int

record turn_input =
  replies :: "string list option"
  opened :: "string option"
  clock :: int
  outcome :: socket_outcome
  stopCommand :: bool


section \<open>Calls of the user\<close>

definition TR_client_queueAddFile :: "TR_file \<Rightarrow> TR_client \<Rightarrow> (int \<times> TR_client) res" where
  "TR_client_queueAddFile f c =
     res_bind (FIFO_write (Some (TR_file_inc_usage f)) (input_queue c)) (\<lambda>(r, q). Inr (r, c\<lparr>input_queue := q\<rparr>))"

definition TR_client_getLastFileSent :: "TR_client \<Rightarrow> (TR_file option \<times> TR_client) res" where
  "TR_client_getLastFileSent c = res_bind (FIFO_read (sent_queue c)) (\<lambda>(f, q). Inr (f, c\<lparr>sent_queue := q\<rparr>))"

definition TR_client_queueIsFull :: "TR_client \<Rightarrow> int" where
  "TR_client_queueIsFull c = FIFO_is_full (input_queue c)"

definition TR_client_queueGetSpaceLeft :: "TR_client \<Rightarrow> int" where
  "TR_client_queueGetSpaceLeft c = FIFO_get_space_left (input_queue c)"

definition TR_client_get_unacknowledged :: "TR_client \<Rightarrow> (TR_file option \<times> TR_client) res" where
  "TR_client_get_unacknowledged c = res_bind (FIFO_read (input_queue c)) (\<lambda>(f, q). Inr (f, c\<lparr>input_queue := q\<rparr>))"

definition TR_client_send_msg :: "(file_call \<Rightarrow> bool) \<Rightarrow> int \<Rightarrow> u8 list \<Rightarrow> TR_client \<Rightarrow> (int \<times> TR_client) res" where
  "TR_client_send_msg sys now msg c =
     (case input_queue_msg c of
        None \<Rightarrow> Inr (-1, c)
      | Some m \<Rightarrow> res_bind (permFIFO_write sys now (Some msg) 0 m) (\<lambda>(r, m'). Inr (r, c\<lparr>input_queue_msg := Some m'\<rparr>)))"


section \<open>Replies of the server\<close>

definition process_reply :: "string \<Rightarrow> client_tx \<Rightarrow> TR_client \<Rightarrow> (client_tx \<times> TR_client) res" where
  "process_reply l t c =
     (if take 4 l = ''ACK '' then
        res_bind (scan_int (drop 4 l)) (\<lambda>r1. case r1 of
            None \<Rightarrow> Inr (t, c)
          | Some min_id \<Rightarrow> res_bind (scan_int (behind_int (drop 4 l))) (\<lambda>r2. case r2 of
                None \<Rightarrow> Inr (t, c)
              | Some maj_id \<Rightarrow> Inr (t\<lparr>ackId := (ackId t)\<lparr>minId := min_id, majId := maj_id\<rparr>\<rparr>, c)))
      else if take 4 l = ''CLOS'' then Inr (t, c\<lparr>server_shutdown_request := True\<rparr>)
      else Inr (t, c))"

fun process_replies :: "string list \<Rightarrow> client_tx \<Rightarrow> TR_client \<Rightarrow> (client_tx \<times> TR_client) res" where
  "process_replies [] t c = Inr (t, c)"
| "process_replies (l # ls) t c = res_bind (process_reply l t c) (\<lambda>(t', c'). process_replies ls t' c')"


section \<open>Acknowledged files\<close>

text \<open>
  One iteration of the loop that removes acknowledged files; the number is what it adds to the file index, \<open>None\<close> when it
  leaves the loop.
\<close>

definition remove_one :: "(file_call \<Rightarrow> bool) \<Rightarrow> client_tx \<Rightarrow> TR_client \<Rightarrow> TR_client option res" where
  "remove_one sys t c =
     res_bind (FIFO_read_index 0 (input_queue c)) (\<lambda>first. case first of
         None \<Rightarrow> Inr None
       | Some f \<Rightarrow>
           if map_option file_addr (curFile t) = Some (file_addr f) then Inr None
           else if TR_file_id_compare (file_id f) (ackId t) \<noteq> 0 then Inr None
           else (case input_queue_msg c of
               Some m \<Rightarrow>
                 res_bind (FIFO_read (input_queue c)) (\<lambda>(_, q).
                 res_bind (permFIFO_ack sys (nat (minId (file_id f) mod 2 ^ 64)) m) (\<lambda>(_, m').
                   Inr (Some (c\<lparr>input_queue := q, input_queue_msg := Some m'\<rparr>))))
             | None \<Rightarrow>
                 if FIFO_is_full (sent_queue c) \<noteq> 0 then Inr None
                 else res_bind (FIFO_read (input_queue c)) (\<lambda>(_, q).
                      res_bind (FIFO_write (Some f) (sent_queue c)) (\<lambda>(_, q').
                        Inr (Some (c\<lparr>input_queue := q, sent_queue := q'\<rparr>))))))"

text \<open>Each iteration shortens the queue, so one more than its number of slots is enough fuel; the index is adjusted behind the loop.\<close>

fun remove_acked :: "nat \<Rightarrow> (file_call \<Rightarrow> bool) \<Rightarrow> client_tx \<Rightarrow> TR_client \<Rightarrow> (client_tx \<times> TR_client) res option" where
  "remove_acked 0 sys t c = None"
| "remove_acked (Suc n) sys t c =
     (case remove_one sys t c of
        Inl e \<Rightarrow> Some (Inl e)
      | Inr None \<Rightarrow> Some (Inr (t, c))
      | Inr (Some c') \<Rightarrow> remove_acked n sys (t\<lparr>fileIndex := fileIndex t - 1\<rparr>) c')"

definition remove_acknowledged :: "(file_call \<Rightarrow> bool) \<Rightarrow> client_tx \<Rightarrow> TR_client \<Rightarrow> (client_tx \<times> TR_client) res option" where
  "remove_acknowledged sys t c =
     map_option (\<lambda>m. res_bind m (\<lambda>(t', c'). Inr (t'\<lparr>fileIndex := (if fileIndex t' < 0 then 0 else fileIndex t')\<rparr>, c')))
       (remove_acked (Suc (length (slots (input_queue c)))) sys t c)"


section \<open>The next file\<close>

definition message_file :: "nat \<Rightarrow> string \<Rightarrow> FIFO_item \<Rightarrow> TR_file" where
  "message_file addr name item =
     (TR_file_new addr)
       \<lparr>file_id := (file_id (TR_file_new addr))
          \<lparr>fileSource := Some name, majId := 1, minId := sint (word_of_nat (fi_id item) :: 32 word)\<rparr>,
        file_blobs := [\<lparr>blob_value = (case fi_data item of None \<Rightarrow> [] | Some d \<Rightarrow> map (\<lambda>b. char_of (unat b)) d), blob_size = int (fi_size item)\<rparr>],
        file_size := int (fi_size item)\<rparr>"

definition next_message :: "TR_client \<Rightarrow> (TR_file option \<times> TR_client) res option" where
  "next_message c =
     (case input_queue_msg c of
        None \<Rightarrow> Some (Inr (None, c))
      | Some m \<Rightarrow>
          if FIFO_is_full (input_queue c) \<noteq> 0 then Some (Inr (None, c))
          else map_option (\<lambda>r. res_bind r (\<lambda>(code, item, m').
                 let c1 = c\<lparr>input_queue_msg := Some m'\<rparr>
                 in if code \<noteq> 0 then Inr (None, c1)
                    else let f = message_file (fileAddress c) (client_name c) item
                         in res_bind (FIFO_write (Some f) (input_queue c1)) (\<lambda>(_, q).
                              Inr (Some f, c1\<lparr>input_queue := q, fileAddress := fileAddress c + 1\<rparr>))))
               (permFIFO_read (\<lambda>p. (False, p)) 0 m))"

definition next_file :: "client_tx \<Rightarrow> TR_client \<Rightarrow> (client_tx \<times> TR_client) res option" where
  "next_file t c =
     (if curFile t = None \<and> sendStart t = sendStop t then
        (if \<not> transferDeinit t then
           (let chosen = (\<lambda>f. if f = None then t
                              else t\<lparr>curFile := f, fileIndex := fileIndex t + 1, transferInit := False, transferDeinit := True,
                                     wdLastIndex := -1, wdCount := 0\<rparr>)
            in case FIFO_read_index (fileIndex t) (input_queue c) of
                 Inl e \<Rightarrow> Some (Inl e)
               | Inr (Some f) \<Rightarrow> Some (Inr (chosen (Some f), c))
               | Inr None \<Rightarrow> map_option (\<lambda>m. res_bind m (\<lambda>(f, c'). Inr (chosen f, c'))) (next_message c))
         else Some (Inr (t\<lparr>transferDeinit := False, sendValue := ''END'' @ [newline], sendStart := 0, sendStop := 4\<rparr>, c)))
      else Some (Inr (t, c)))"


section \<open>The send buffer\<close>

text \<open>The watchdog: the first component tells whether the connection is to be reset.\<close>

definition watchdog :: "int \<Rightarrow> client_tx \<Rightarrow> bool \<times> client_tx" where
  "watchdog now t =
     (if wdLastIndex t = sendStart t then
        (let t1 = t\<lparr>wdCount := wdCount t + 1\<rparr>
         in if wdCount t1 = 10 then (False, t1\<lparr>wdTimer := now\<rparr>)
            else if wdCount t1 mod 10 = 0 then (now - wdTimer t1 > 30, t1)
            else (False, t1))
      else (False, t\<lparr>wdLastIndex := sendStart t, wdCount := 0\<rparr>))"

definition source_name :: "TR_file \<Rightarrow> string" where
  "source_name f = (case fileSource (file_id f) of None \<Rightarrow> ''Unknown'' | Some s \<Rightarrow> s)"

definition fill_buffer :: "string option \<Rightarrow> client_tx \<Rightarrow> client_tx" where
  "fill_buffer disk t =
     (case curFile t of
        None \<Rightarrow> t
      | Some f \<Rightarrow>
          if \<not> transferInit t then
            (let h = print_header (source_name f) (minId (file_id f)) (majId (file_id f)) (file_size f)
             in t\<lparr>sendValue := h, sendStart := 0, sendStop := int (length h),
                  onDisk := (if file_path f \<noteq> None then disk else None),
                  curBlobs := (if file_path f \<noteq> None then [] else file_blobs f), transferInit := True\<rparr>)
          else (case onDisk t of
              Some s \<Rightarrow>
                if take TR_BUFFER_SIZE s = [] then t\<lparr>sendStart := 0, sendStop := 0, curFile := None, onDisk := None\<rparr>
                else t\<lparr>sendStart := 0, sendStop := int (length (take TR_BUFFER_SIZE s)), sendValue := take TR_BUFFER_SIZE s,
                       onDisk := Some (drop TR_BUFFER_SIZE s)\<rparr>
            | None \<Rightarrow>
                (case curBlobs t of
                   [] \<Rightarrow> t\<lparr>curFile := None\<rparr>
                 | b # bs \<Rightarrow> t\<lparr>sendStart := 0, sendStop := blob_size b, sendValue := blob_value b, curBlobs := bs\<rparr>)))"

text \<open>The idle wait has no effect on the loop: an error on the socket is seen again by the send.\<close>

definition prepare_buffer :: "turn_input \<Rightarrow> client_tx \<Rightarrow> bool \<times> client_tx" where
  "prepare_buffer x t =
     (if curFile t = None \<and> sendStart t = sendStop t then (False, t)
      else let (reset, t1) = watchdog (clock x) t
           in if reset then (True, t1)
              else (False, if sendStart t1 = sendStop t1 then fill_buffer (opened x) t1 else t1))"

text \<open>\<^verbatim>\<open>TR_buffer_send\<close>: a negative result is \<open>False\<close>. The bytes from \<^verbatim>\<open>start\<close> to \<^verbatim>\<open>stop\<close> have to be there.\<close>

definition TR_buffer_send :: "socket_outcome \<Rightarrow> client_tx \<Rightarrow> (bool \<times> client_tx) res" where
  "TR_buffer_send r t =
     (case r of
        NotWritable \<Rightarrow> Inr (True, t)
      | SocketBroken \<Rightarrow> Inr (False, t)
      | SendReturns n \<Rightarrow>
          if sendStop t \<le> sendStart t then Inr (True, t)
          else if sendStop t > int (length (sendValue t)) then Inl OutOfBounds
          else if n > 0 then
            (let k = min n (sendStop t - sendStart t)
             in Inr (True, t\<lparr>sendStart := sendStart t + k,
                             wire := wire t @ take (nat k) (drop (nat (sendStart t)) (sendValue t))\<rparr>))
          else Inr (False, t))"


section \<open>The loop\<close>

text \<open>One turn; the first component tells whether the loop goes on.\<close>

definition client_turn :: "(file_call \<Rightarrow> bool) \<Rightarrow> turn_input \<Rightarrow> client_tx \<Rightarrow> TR_client \<Rightarrow> (bool \<times> client_tx \<times> TR_client) res option" where
  "client_turn sys x t c =
     (case replies x of
        None \<Rightarrow> Some (Inr (False, t, c))
      | Some ls \<Rightarrow>
          (case process_replies ls t c of
             Inl e \<Rightarrow> Some (Inl e)
           | Inr (t1, c1) \<Rightarrow>
               (case remove_acknowledged sys t1 c1 of
                  None \<Rightarrow> None
                | Some (Inl e) \<Rightarrow> Some (Inl e)
                | Some (Inr (t2, c2)) \<Rightarrow>
                    (case next_file t2 c2 of
                       None \<Rightarrow> None
                     | Some (Inl e) \<Rightarrow> Some (Inl e)
                     | Some (Inr (t3, c3)) \<Rightarrow>
                         (let (reset, t4) = prepare_buffer x t3
                          in if reset then Some (Inr (False, t4, c3))
                             else Some (res_bind (TR_buffer_send (outcome x) t4) (\<lambda>(ok, t5).
                                    Inr (ok \<and> \<not> stopCommand x, t5, c3))))))))"

text \<open>The variables at the entry of the state; the last acknowledged identifier stays from the connection before.\<close>

definition connected :: "client_tx \<Rightarrow> client_tx" where
  "connected t =
     t\<lparr>curFile := None, curBlobs := [], fileIndex := 0, sendStart := 0, sendStop := 0, transferInit := False, transferDeinit := False,
       onDisk := None, wire := []\<rparr>"

fun client_run :: "(file_call \<Rightarrow> bool) \<Rightarrow> turn_input list \<Rightarrow> client_tx \<Rightarrow> TR_client \<Rightarrow> (client_tx \<times> TR_client) res option" where
  "client_run sys [] t c = Some (Inr (t, c))"
| "client_run sys (x # xs) t c =
     (case client_turn sys x t c of
        None \<Rightarrow> None
      | Some (Inl e) \<Rightarrow> Some (Inl e)
      | Some (Inr (go, t', c')) \<Rightarrow> if go then client_run sys xs t' c' else Some (Inr (t', c')))"

end
