(* ===== verification/Transport_Sending.thy ===== *)
theory Transport_Sending
  imports Transport_Client "HOL-Library.Sublist"
begin

text \<open>
  Lemmas on the transport client without a message queue: the removal of acknowledged files, and the invariant of the send
  buffer, which says how what the socket has taken, what the buffer still holds and what is left of the current file make up
  the texts of the files started so far.
\<close>

definition client_bytes :: "TR_file \<Rightarrow> string" where
  "client_bytes f = concat (map blob_value (file_blobs f))"

definition end_line_text :: string where "end_line_text = ''END'' @ [newline]"

definition client_text :: "TR_file \<Rightarrow> string" where
  "client_text f =
     print_header (source_name f) (minId (file_id f)) (majId (file_id f)) (file_size f) @ client_bytes f @ end_line_text"

text \<open>A file in memory whose blobs have the sizes they claim.\<close>

definition client_file_ok :: "TR_file \<Rightarrow> bool" where
  "client_file_ok f \<longleftrightarrow> file_path f = None \<and> (\<forall>b \<in> set (file_blobs f). blob_size b = int (length (blob_value b)))"

definition waiting :: "TR_client \<Rightarrow> TR_file list" where
  "waiting c = ptr_contents (input_queue c)"

definition client_ok :: "TR_client \<Rightarrow> bool" where
  "client_ok c \<longleftrightarrow> ptr_inv (input_queue c) \<and> ptr_inv (sent_queue c) \<and> input_queue_msg c = None
     \<and> (\<forall>f \<in> set (waiting c). client_file_ok f)"


section \<open>Acknowledged files\<close>

definition acknowledged :: "TR_file_id \<Rightarrow> TR_file \<Rightarrow> bool" where
  "acknowledged a f \<longleftrightarrow> TR_file_id_compare (file_id f) a = 0"

lemma remove_one_cases:
  assumes c: "client_ok c"
  obtains (stop) "remove_one sys t c = Inr None"
  | (removed) f fs c' where "remove_one sys t c = Inr (Some c')" "waiting c = f # fs" "waiting c' = fs" "acknowledged (ackId t) f"
      "client_ok c'" "ptr_contents (sent_queue c') = ptr_contents (sent_queue c) @ [f]"
proof (cases "waiting c")
  case Nil
  then have "FIFO_read_index 0 (input_queue c) = Inr None"
    using c FIFO_read_index_nth[of "input_queue c" 0] by (simp add: client_ok_def waiting_def)
  then show ?thesis by (intro stop) (simp add: remove_one_def)
next
  case (Cons f fs)
  have iq: "ptr_inv (input_queue c)" "ptr_inv (sent_queue c)" "input_queue_msg c = None" using c by (auto simp: client_ok_def)
  have first: "FIFO_read_index 0 (input_queue c) = Inr (Some f)"
    using FIFO_read_index_nth[OF iq(1), of 0] Cons by (simp add: waiting_def)
  show ?thesis
  proof (cases "map_option file_addr (curFile t) = Some (file_addr f) \<or> TR_file_id_compare (file_id f) (ackId t) \<noteq> 0
      \<or> length (ptr_contents (sent_queue c)) = ptr_capacity (sent_queue c)")
    case True
    then show ?thesis using first iq ptr_full_iff[OF iq(2)] by (intro stop) (auto simp: remove_one_def FIFO_is_full_def)
  next
    case False
    then have room: "length (ptr_contents (sent_queue c)) < ptr_capacity (sent_queue c)" using ptr_shape(8)[OF iq(2)] by simp
    obtain q where q: "FIFO_read (input_queue c) = Inr (Some f, q)" "ptr_inv q" "ptr_contents q = fs"
      using FIFO_read_item[OF iq(1), of f fs] Cons by (auto simp: waiting_def)
    obtain q' where q': "FIFO_write (Some f) (sent_queue c) = Inr (0, q')" "ptr_inv q'"
        "ptr_contents q' = ptr_contents (sent_queue c) @ [f]" using FIFO_write_space[OF iq(2) room, of f] by auto
    have "remove_one sys t c = Inr (Some (c\<lparr>input_queue := q, sent_queue := q'\<rparr>))"
      using False first iq(3) q(1) q'(1) ptr_full_iff[OF iq(2)] by (auto simp: remove_one_def FIFO_is_full_def)
    then show ?thesis using Cons q q' False c
      by (intro removed[of "c\<lparr>input_queue := q, sent_queue := q'\<rparr>" f fs]) (auto simp: waiting_def acknowledged_def client_ok_def)
  qed
qed

lemma remove_acked_ok:
  assumes "client_ok c" "length (waiting c) < n"
  shows "\<exists>k c'. remove_acked n sys t c = Some (Inr (t\<lparr>fileIndex := fileIndex t - int k\<rparr>, c')) \<and> client_ok c'
    \<and> k \<le> length (waiting c) \<and> waiting c' = drop k (waiting c) \<and> (\<forall>f \<in> set (take k (waiting c)). acknowledged (ackId t) f)
    \<and> ptr_contents (sent_queue c') = ptr_contents (sent_queue c) @ take k (waiting c)"
  using assms
proof (induction n arbitrary: t c)
  case 0
  then show ?case by simp
next
  case (Suc n)
  from Suc.prems(1) show ?case
  proof (cases rule: remove_one_cases[where sys = sys and t = t])
    case stop
    then show ?thesis using Suc.prems by (intro exI[of _ 0] exI[of _ c]) simp
  next
    case (removed f fs c1)
    have "length (waiting c1) < n" using removed Suc.prems(2) by simp
    from Suc.IH[OF removed(5) this, of "t\<lparr>fileIndex := fileIndex t - 1\<rparr>"] obtain k c' where
      k: "remove_acked n sys (t\<lparr>fileIndex := fileIndex t - 1\<rparr>) c1 = Some (Inr (t\<lparr>fileIndex := fileIndex t - 1 - int k\<rparr>, c'))"
        "client_ok c'" "k \<le> length (waiting c1)" "waiting c' = drop k (waiting c1)"
        "\<forall>f \<in> set (take k (waiting c1)). acknowledged (ackId t) f"
        "ptr_contents (sent_queue c') = ptr_contents (sent_queue c1) @ take k (waiting c1)" by auto
    have "fileIndex t - 1 - int k = fileIndex t - int (Suc k)" by simp
    then have "remove_acked (Suc n) sys t c = Some (Inr (t\<lparr>fileIndex := fileIndex t - int (Suc k)\<rparr>, c'))"
      using removed(1) k(1) by (metis remove_acked.simps(2) sum.simps(6) option.simps(5))
    then show ?thesis using k removed by (intro exI[of _ "Suc k"] exI[of _ c']) simp
  qed
qed

text \<open>Removal as one step: \<open>k\<close> files leave at the front, and the index follows.\<close>

lemma remove_acknowledged_ok:
  assumes "client_ok c"
  shows "\<exists>k c'. remove_acknowledged sys t c = Some (Inr (t\<lparr>fileIndex := max 0 (fileIndex t - int k)\<rparr>, c')) \<and> client_ok c'
    \<and> k \<le> length (waiting c) \<and> waiting c' = drop k (waiting c) \<and> (\<forall>f \<in> set (take k (waiting c)). acknowledged (ackId t) f)
    \<and> ptr_contents (sent_queue c') = ptr_contents (sent_queue c) @ take k (waiting c)"
proof -
  have "int (length (slots (input_queue c))) = ring_size (input_queue c) + 1"
    "length (waiting c) \<le> ptr_capacity (input_queue c)"
    using assms ptr_shape[of "input_queue c"] by (auto simp: client_ok_def waiting_def)
  then have "length (waiting c) < Suc (length (slots (input_queue c)))" by (simp add: ptr_capacity_def)
  from remove_acked_ok[OF assms this, of sys t] obtain k c' where
    k: "remove_acked (Suc (length (slots (input_queue c)))) sys t c = Some (Inr (t\<lparr>fileIndex := fileIndex t - int k\<rparr>, c'))"
    and r: "client_ok c' \<and> k \<le> length (waiting c) \<and> waiting c' = drop k (waiting c)
      \<and> (\<forall>f \<in> set (take k (waiting c)). acknowledged (ackId t) f)
      \<and> ptr_contents (sent_queue c') = ptr_contents (sent_queue c) @ take k (waiting c)" by blast
  have "remove_acknowledged sys t c = Some (Inr (t\<lparr>fileIndex := max 0 (fileIndex t - int k)\<rparr>, c'))"
    unfolding remove_acknowledged_def k by (simp add: max_def)
  then show ?thesis using r by blast
qed


section \<open>The send buffer\<close>

definition pending_text :: "client_tx \<Rightarrow> string" where
  "pending_text t = drop (nat (sendStart t)) (take (nat (sendStop t)) (sendValue t))"

text \<open>What is still to be sent of the files that have been started.\<close>

definition to_send :: "client_tx \<Rightarrow> string" where
  "to_send t =
     (case curFile t of
        Some f \<Rightarrow>
          if transferInit t then pending_text t @ concat (map blob_value (curBlobs t)) @ end_line_text else client_text f
      | None \<Rightarrow> pending_text t @ (if transferDeinit t then end_line_text else []))"

definition buffer_ok :: "client_tx \<Rightarrow> bool" where
  "buffer_ok t \<longleftrightarrow> 0 \<le> sendStart t \<and> sendStart t \<le> sendStop t \<and> sendStop t \<le> int (length (sendValue t)) \<and> onDisk t = None
     \<and> (\<forall>b \<in> set (curBlobs t). blob_size b = int (length (blob_value b)))
     \<and> (\<forall>f. curFile t = Some f \<longrightarrow> transferDeinit t \<and> client_file_ok f \<and> (transferInit t \<or> sendStart t = sendStop t))
     \<and> (curFile t = None \<and> transferDeinit t \<longrightarrow> sendStart t = sendStop t)"

definition text_of :: "TR_file list \<Rightarrow> string" where
  "text_of fs = concat (map client_text fs)"

definition sending :: "client_tx \<Rightarrow> TR_file list \<Rightarrow> bool" where
  "sending t started \<longleftrightarrow> buffer_ok t \<and> wire t @ to_send t = text_of started"

lemma pending_empty: "sendStart t = sendStop t \<Longrightarrow> pending_text t = []"
  by (simp add: pending_text_def)

lemma to_send_other [simp]:
  "to_send (t\<lparr>fileIndex := i\<rparr>) = to_send t" "to_send (t\<lparr>ackId := a\<rparr>) = to_send t"
  "to_send (t\<lparr>wdCount := i\<rparr>) = to_send t" "to_send (t\<lparr>wdTimer := i\<rparr>) = to_send t" "to_send (t\<lparr>wdLastIndex := i\<rparr>) = to_send t"
  by (auto simp: to_send_def pending_text_def split: option.split)

lemma sending_other [simp]:
  "sending (t\<lparr>fileIndex := i\<rparr>) started = sending t started" "sending (t\<lparr>ackId := a\<rparr>) started = sending t started"
  "sending (t\<lparr>wdCount := i\<rparr>) started = sending t started" "sending (t\<lparr>wdTimer := i\<rparr>) started = sending t started"
  "sending (t\<lparr>wdLastIndex := i\<rparr>) started = sending t started"
  by (simp_all add: sending_def buffer_ok_def)

lemma watchdog_keeps:
  "sending (snd (watchdog now t)) started = sending t started" "fileIndex (snd (watchdog now t)) = fileIndex t"
  "ackId (snd (watchdog now t)) = ackId t"
  by (simp_all add: watchdog_def Let_def)

lemma fill_buffer_ok:
  assumes s: "sending t started" and e: "sendStart t = sendStop t"
  shows "sending (fill_buffer disk t) started \<and> fileIndex (fill_buffer disk t) = fileIndex t \<and> ackId (fill_buffer disk t) = ackId t"
proof (cases "curFile t")
  case None
  then show ?thesis using s by (simp add: fill_buffer_def)
next
  case (Some f)
  have f: "client_file_ok f" "transferDeinit t" "onDisk t = None" using s Some by (auto simp: sending_def buffer_ok_def)
  note defs = fill_buffer_def sending_def buffer_ok_def to_send_def pending_text_def
  show ?thesis
  proof (cases "transferInit t")
    case False
    then show ?thesis using s Some f by (auto simp: defs client_text_def client_bytes_def client_file_ok_def Let_def)
  next
    case True
    show ?thesis
    proof (cases "curBlobs t")
      case Nil
      then show ?thesis using s Some f True e by (auto simp: defs)
    next
      case (Cons b bs)
      then show ?thesis using s Some f True e by (auto simp: defs)
    qed
  qed
qed

lemma prepare_buffer_ok:
  assumes "sending t started" "prepare_buffer x t = (reset, t')"
  shows "sending t' started \<and> fileIndex t' = fileIndex t \<and> ackId t' = ackId t"
proof -
  obtain r t1 where w: "watchdog (clock x) t = (r, t1)" by (cases "watchdog (clock x) t")
  have t1: "sending t1 started" "fileIndex t1 = fileIndex t" "ackId t1 = ackId t"
    using watchdog_keeps[of "clock x" t] assms(1) w by simp_all
  show ?thesis using assms w t1 fill_buffer_ok[OF t1(1), of "opened x"]
    by (auto simp: prepare_buffer_def Let_def split: if_splits)
qed

lemma TR_buffer_send_ok:
  assumes s: "sending t started"
  shows "\<exists>ok t'. TR_buffer_send r t = Inr (ok, t') \<and> sending t' started \<and> fileIndex t' = fileIndex t \<and> ackId t' = ackId t"
proof (cases "\<exists>n > 0. r = SendReturns n \<and> sendStart t < sendStop t")
  case False
  then show ?thesis using s by (cases r) (auto simp: TR_buffer_send_def sending_def buffer_ok_def)
next
  case True
  then obtain n where n: "r = SendReturns n" "n > 0" "sendStart t < sendStop t" by blast
  define k where "k = min n (sendStop t - sendStart t)"
  have b: "buffer_ok t" using s by (simp add: sending_def)
  then have le: "0 \<le> sendStart t" "sendStop t \<le> int (length (sendValue t))" by (auto simp: buffer_ok_def)
  have k: "0 < k" "sendStart t + k \<le> sendStop t" using n by (auto simp: k_def)
  let ?d = "take (nat k) (drop (nat (sendStart t)) (sendValue t))"
  let ?t = "t\<lparr>sendStart := sendStart t + k, wire := wire t @ ?d\<rparr>"
  have send: "TR_buffer_send r t = Inr (True, ?t)" using n le by (simp add: TR_buffer_send_def k_def Let_def)
  have "?d = take (nat k) (pending_text t)"
    using k le(1) by (simp add: pending_text_def drop_take min_def)
  moreover have "pending_text ?t = drop (nat k) (pending_text t)"
    using k le(1) by (simp add: pending_text_def nat_add_distrib add.commute)
  ultimately have p: "?d @ pending_text ?t = pending_text t" by simp
  have init: "curFile t = Some f \<Longrightarrow> transferInit t" for f using b n(3) by (auto simp: buffer_ok_def)
  have de: "curFile t = None \<Longrightarrow> \<not> transferDeinit t" using b n(3) by (auto simp: buffer_ok_def)
  have "wire ?t @ to_send ?t = wire t @ to_send t"
  proof (cases "curFile t")
    case None
    then show ?thesis using p de by (simp add: to_send_def)
  next
    case (Some f)
    then have "to_send ?t = pending_text ?t @ concat (map blob_value (curBlobs t)) @ end_line_text"
      "to_send t = pending_text t @ concat (map blob_value (curBlobs t)) @ end_line_text"
      using init by (simp_all add: to_send_def)
    then show ?thesis using p by (metis (no_types, lifting) append.assoc client_tx.select_convs(14) client_tx.surjective client_tx.update_convs(14))
  qed
  moreover have "buffer_ok ?t" using b k n(3) init de unfolding buffer_ok_def by auto
  ultimately have "sending ?t started" using s by (simp add: sending_def)
  then show ?thesis using send by auto
qed


section \<open>The next file\<close>

lemma next_file_ok:
  assumes s: "sending t started" and c: "client_ok c" and i: "0 \<le> fileIndex t" "nat (fileIndex t) \<le> length (waiting c)"
  shows "\<exists>t'. next_file t c = Some (Inr (t', c)) \<and> ackId t' = ackId t \<and>
    (sending t' started \<and> fileIndex t' = fileIndex t \<or>
     nat (fileIndex t) < length (waiting c) \<and> sending t' (started @ [waiting c ! nat (fileIndex t)]) \<and> fileIndex t' = fileIndex t + 1)"
proof (cases "curFile t = None \<and> sendStart t = sendStop t")
  case False
  have "next_file t c = Some (Inr (t, c))" unfolding next_file_def by (rule if_not_P[OF False])
  then show ?thesis using s by simp
next
  case True
  note defs = sending_def buffer_ok_def to_send_def pending_text_def
  show ?thesis
  proof (cases "transferDeinit t")
    case d: True
    let ?t = "t\<lparr>transferDeinit := False, sendValue := ''END'' @ [newline], sendStart := 0, sendStop := 4\<rparr>"
    have "sending ?t started" using s True d by (auto simp: defs end_line_text_def)
    then show ?thesis using True d by (simp add: next_file_def)
  next
    case d: False
    have iq: "ptr_inv (input_queue c)" "input_queue_msg c = None" using c by (auto simp: client_ok_def)
    note r = FIFO_read_index_nth[OF iq(1) i(1), folded waiting_def]
    show ?thesis
    proof (cases "nat (fileIndex t) < length (waiting c)")
      case False
      then show ?thesis using r True d iq(2) s by (simp add: next_file_def next_message_def)
    next
      case lt: True
      let ?f = "waiting c ! nat (fileIndex t)"
      let ?t = "t\<lparr>curFile := Some ?f, fileIndex := fileIndex t + 1, transferInit := False, transferDeinit := True,
        wdLastIndex := -1, wdCount := 0\<rparr>"
      have n: "next_file t c = Some (Inr (?t, c))" using r lt True d by (simp add: next_file_def)
      have "client_file_ok ?f" using c lt by (simp add: client_ok_def)
      moreover have "wire t = text_of started" using s True d by (simp add: defs)
      ultimately have "sending ?t (started @ [?f])" using s True by (auto simp: sending_def buffer_ok_def to_send_def text_of_def)
      then show ?thesis using n lt by simp
    qed
  qed
qed



section \<open>A session\<close>

text \<open>The acknowledgement in a line of the server.\<close>

definition reply_ack :: "string \<Rightarrow> (int \<times> int) option" where
  "reply_ack l =
     (case (scan_int (drop 4 l), scan_int (behind_int (drop 4 l))) of
        (Inr (Some m), Inr (Some n)) \<Rightarrow> if take 4 l = ''ACK '' then Some (m, n) else None
      | _ \<Rightarrow> None)"

text \<open>The numbers in the line fit an \<^verbatim>\<open>int\<close>.\<close>

definition reply_fits :: "string \<Rightarrow> bool" where
  "reply_fits l \<longleftrightarrow> \<not> isl (scan_int (drop 4 l)) \<and> \<not> isl (scan_int (behind_int (drop 4 l)))"

definition lines_of :: "turn_input \<Rightarrow> string list" where
  "lines_of x = (case replies x of None \<Rightarrow> [] | Some ls \<Rightarrow> ls)"

definition acks_of :: "string list \<Rightarrow> (int \<times> int) list" where
  "acks_of ls = concat (map (\<lambda>l. case reply_ack l of None \<Rightarrow> [] | Some a \<Rightarrow> [a]) ls)"

text \<open>A file is covered by one of the acknowledgements.\<close>

definition covered :: "(int \<times> int) list \<Rightarrow> TR_file \<Rightarrow> bool" where
  "covered A f \<longleftrightarrow> (\<exists>(m, n) \<in> set A. majId (file_id f) < n \<or> majId (file_id f) = n \<and> minId (file_id f) \<le> m)"

definition ack_pair :: "client_tx \<Rightarrow> int \<times> int" where
  "ack_pair t = (minId (ackId t), majId (ackId t))"

lemma covered_ack: "acknowledged (ackId t) f \<Longrightarrow> ack_pair t \<in> set A \<Longrightarrow> covered A f"
  by (force simp: acknowledged_def covered_def TR_file_id_compare_def ack_pair_def split: if_splits)

lemma process_reply_ok:
  assumes "reply_fits l"
  shows "\<exists>a b. process_reply l t c = Inr (t\<lparr>ackId := a\<rparr>, c\<lparr>server_shutdown_request := b\<rparr>)
    \<and> (minId a, majId a) \<in> set (ack_pair t # acks_of [l])"
proof -
  obtain r1 where r1: "scan_int (drop 4 l) = Inr r1" using assms by (cases "scan_int (drop 4 l)") (auto simp: reply_fits_def)
  obtain r2 where r2: "scan_int (behind_int (drop 4 l)) = Inr r2"
    using assms by (cases "scan_int (behind_int (drop 4 l))") (auto simp: reply_fits_def)
  show ?thesis
  proof (cases "take 4 l = ''ACK '' \<and> r1 \<noteq> None \<and> r2 \<noteq> None")
    case True
    then obtain m n where mn: "r1 = Some m" "r2 = Some n" by auto
    have "process_reply l t c = Inr (t\<lparr>ackId := (ackId t)\<lparr>minId := m, majId := n\<rparr>\<rparr>, c)"
      using True r1 r2 mn by (simp add: process_reply_def)
    moreover have "(m, n) \<in> set (acks_of [l])" using True r1 r2 mn by (simp add: acks_of_def reply_ack_def)
    ultimately show ?thesis 
      by (intro exI[of _ "(ackId t)\<lparr>minId := m, majId := n\<rparr>"] exI[of _ "server_shutdown_request c"]) simp
  next
    case False
    then have "process_reply l t c = Inr (t, if take 4 l = ''CLOS'' then c\<lparr>server_shutdown_request := True\<rparr> else c)"
      using r1 r2 by (auto simp: process_reply_def split: option.splits)
    then show ?thesis
      by (intro exI[of _ "ackId t"] exI[of _ "take 4 l = ''CLOS'' \<or> server_shutdown_request c"]) (simp add: ack_pair_def)
  qed
qed

lemma ack_chain: "p \<in> set (q # A) \<Longrightarrow> r \<in> set (p # B) \<Longrightarrow> r \<in> set (q # A @ B)"
  by auto

lemma process_replies_ok:
  assumes "\<forall>l \<in> set ls. reply_fits l"
  shows "\<exists>a b. process_replies ls t c = Inr (t\<lparr>ackId := a\<rparr>, c\<lparr>server_shutdown_request := b\<rparr>)
    \<and> (minId a, majId a) \<in> set (ack_pair t # acks_of ls)"
  using assms
proof (induction ls arbitrary: t c)
  case Nil
  show ?case
    by (intro exI[of _ "ackId t"] exI[of _ "server_shutdown_request c"]) (simp add: ack_pair_def)
next
  case (Cons l ls)
  obtain a b where 1: "process_reply l t c = Inr (t\<lparr>ackId := a\<rparr>, c\<lparr>server_shutdown_request := b\<rparr>)"
      "(minId a, majId a) \<in> set (ack_pair t # acks_of [l])" using process_reply_ok[of l t c] Cons.prems by auto
  obtain a' b' where 2: "process_replies ls (t\<lparr>ackId := a\<rparr>) (c\<lparr>server_shutdown_request := b\<rparr>)
        = Inr (t\<lparr>ackId := a'\<rparr>, c\<lparr>server_shutdown_request := b'\<rparr>)"
      "(minId a', majId a') \<in> set (ack_pair (t\<lparr>ackId := a\<rparr>) # acks_of ls)"
    using Cons.IH[of "t\<lparr>ackId := a\<rparr>" "c\<lparr>server_shutdown_request := b\<rparr>"] Cons.prems by auto
  have e: "acks_of (l # ls) = acks_of [l] @ acks_of ls" "ack_pair (t\<lparr>ackId := a\<rparr>) = (minId a, majId a)"
    by (simp_all add: acks_of_def ack_pair_def)
  have "(minId a', majId a') \<in> set (ack_pair t # acks_of (l # ls))"
    unfolding e(1) by (rule ack_chain[OF 1(2) 2(2)[unfolded e(2)]])
  moreover have "process_replies (l # ls) t c = Inr (t\<lparr>ackId := a'\<rparr>, c\<lparr>server_shutdown_request := b'\<rparr>)"
    using 1(1) 2(1) by simp
  ultimately show ?case by blast
qed

text \<open>
  The state between two turns: of the files \<open>hist\<close> that were waiting at the start, \<open>gone\<close> have been removed, and \<open>started\<close> are the
  files whose transmission has begun.
\<close>

definition session :: "TR_file list \<Rightarrow> client_tx \<Rightarrow> TR_client \<Rightarrow> TR_file list \<Rightarrow> TR_file list \<Rightarrow> bool" where
  "session hist t c started gone \<longleftrightarrow>
     client_ok c \<and> sending t started \<and> 0 \<le> fileIndex t \<and> nat (fileIndex t) \<le> length (waiting c) \<and> hist = gone @ waiting c
     \<and> (\<exists>s0. started = s0 @ take (nat (fileIndex t)) (waiting c) \<and> subseq s0 gone)"

lemma session_remove:
  assumes s: "session hist t c started gone"
  shows "\<exists>t' c' ks. remove_acknowledged sys t c = Some (Inr (t', c')) \<and> session hist t' c' started (gone @ ks)
    \<and> (\<forall>f \<in> set ks. acknowledged (ackId t) f) \<and> ptr_contents (sent_queue c') = ptr_contents (sent_queue c) @ ks \<and> ackId t' = ackId t"
proof -
  let ?i = "nat (fileIndex t)"
  have c: "client_ok c" and i: "0 \<le> fileIndex t" "?i \<le> length (waiting c)" using s by (auto simp: session_def)
  obtain s0 where s0: "started = s0 @ take ?i (waiting c)" "subseq s0 gone" using s by (auto simp: session_def)
  from remove_acknowledged_ok[OF c, of sys t] obtain k c' where
    k: "remove_acknowledged sys t c = Some (Inr (t\<lparr>fileIndex := max 0 (fileIndex t - int k)\<rparr>, c'))" "client_ok c'"
      "k \<le> length (waiting c)" "waiting c' = drop k (waiting c)" "\<forall>f \<in> set (take k (waiting c)). acknowledged (ackId t) f"
      "ptr_contents (sent_queue c') = ptr_contents (sent_queue c) @ take k (waiting c)" by blast
  let ?ks = "take k (waiting c)"
  have j: "nat (max 0 (fileIndex t - int k)) = ?i - k" by linarith
  have "take ?i (waiting c) = take (min k ?i) (waiting c) @ take (?i - k) (drop k (waiting c))"
    using take_add[of k "?i - k" "waiting c"] by (cases "k \<le> ?i") (simp_all add: min_def)
  then have "started = (s0 @ take (min k ?i) (waiting c)) @ take (?i - k) (waiting c')" using s0(1) k(4) by simp
  moreover have "subseq (s0 @ take (min k ?i) (waiting c)) (gone @ ?ks)"
  proof -
    have "prefix (take (min k ?i) (waiting c)) ?ks" by (metis min.commute take_is_prefix take_take)
    then show ?thesis using list_emb_append_mono[OF s0(2) prefix_imp_subseq] by blast
  qed
  moreover have "hist = (gone @ ?ks) @ waiting c'" using s k(4) by (simp add: session_def)
  ultimately have "session hist (t\<lparr>fileIndex := max 0 (fileIndex t - int k)\<rparr>) c' started (gone @ ?ks)"
    using s k(2,3,4) i(2) j by (auto simp: session_def)
  then show ?thesis using k by auto
qed

lemma session_next:
  assumes s: "session hist t c started gone"
  shows "\<exists>t' started'. next_file t c = Some (Inr (t', c)) \<and> session hist t' c started' gone \<and> ackId t' = ackId t"
proof -
  have c: "client_ok c" "sending t started" "0 \<le> fileIndex t" "nat (fileIndex t) \<le> length (waiting c)"
    using s by (auto simp: session_def)
  obtain s0 where s0: "started = s0 @ take (nat (fileIndex t)) (waiting c)" "subseq s0 gone" using s by (auto simp: session_def)
  from next_file_ok[OF c(2,1,3,4)] obtain t' where t': "next_file t c = Some (Inr (t', c))" "ackId t' = ackId t"
    and d: "sending t' started \<and> fileIndex t' = fileIndex t
      \<or> nat (fileIndex t) < length (waiting c) \<and> sending t' (started @ [waiting c ! nat (fileIndex t)]) \<and> fileIndex t' = fileIndex t + 1"
    by blast
  from d show ?thesis
  proof
    assume "sending t' started \<and> fileIndex t' = fileIndex t"
    then have "session hist t' c started gone" using s by (auto simp: session_def)
    then show ?thesis using t' by blast
  next
    assume n: "nat (fileIndex t) < length (waiting c) \<and> sending t' (started @ [waiting c ! nat (fileIndex t)]) \<and> fileIndex t' = fileIndex t + 1"
    then have "nat (fileIndex t') = Suc (nat (fileIndex t))" using c(3) by simp
    then have "session hist t' c (started @ [waiting c ! nat (fileIndex t)]) gone"
      using s s0 n c(3) by (auto simp: session_def take_Suc_conv_app_nth)
    then show ?thesis using t' by blast
  qed
qed

lemma session_tx: "session hist t c started gone \<Longrightarrow> sending t' started \<Longrightarrow> fileIndex t' = fileIndex t \<Longrightarrow> session hist t' c started gone"
  by (auto simp: session_def)

lemma session_turn:
  assumes s: "session hist t c started gone" and f: "\<forall>l \<in> set (lines_of x). reply_fits l"
  shows "\<exists>go t' c' started' ks. client_turn sys x t c = Some (Inr (go, t', c')) \<and> session hist t' c' started' (gone @ ks)
    \<and> (\<forall>f \<in> set ks. covered (ack_pair t # acks_of (lines_of x)) f) \<and> ack_pair t' \<in> set (ack_pair t # acks_of (lines_of x))
    \<and> ptr_contents (sent_queue c') = ptr_contents (sent_queue c) @ ks"
proof (cases "replies x")
  case None
  then show ?thesis using s by (intro exI[of _ False] exI[of _ t] exI[of _ c] exI[of _ started] exI[of _ "[]"])
      (simp add: client_turn_def)
next
  case (Some ls)
  then have ls: "lines_of x = ls" "\<forall>l \<in> set ls. reply_fits l" using f by (simp_all add: lines_of_def)
  from process_replies_ok[OF ls(2), of t c] obtain a b where
    r: "process_replies ls t c = Inr (t\<lparr>ackId := a\<rparr>, c\<lparr>server_shutdown_request := b\<rparr>)"
      "(minId a, majId a) \<in> set (ack_pair t # acks_of ls)" by blast
  let ?t1 = "t\<lparr>ackId := a\<rparr>" and ?c1 = "c\<lparr>server_shutdown_request := b\<rparr>"
  have a1: "ack_pair ?t1 \<in> set (ack_pair t # acks_of ls)" using r(2) by (simp add: ack_pair_def)
  have "session hist ?t1 ?c1 started gone" using s by (auto simp: session_def client_ok_def waiting_def)
  from session_remove[OF this, of sys] obtain t2 c2 ks where
    m: "remove_acknowledged sys ?t1 ?c1 = Some (Inr (t2, c2))" "session hist t2 c2 started (gone @ ks)"
      "\<forall>f \<in> set ks. acknowledged (ackId ?t1) f" "ptr_contents (sent_queue c2) = ptr_contents (sent_queue ?c1) @ ks"
      "ackId t2 = ackId ?t1" by blast
  from session_next[OF m(2)] obtain t3 st where
    n: "next_file t2 c2 = Some (Inr (t3, c2))" "session hist t3 c2 st (gone @ ks)" "ackId t3 = ackId t2" by blast
  obtain reset t4 where p: "prepare_buffer x t3 = (reset, t4)" by (cases "prepare_buffer x t3")
  have s3: "sending t3 st" using n(2) by (simp add: session_def)
  note p4 = prepare_buffer_ok[OF s3 p]
  from TR_buffer_send_ok[of t4 st "outcome x"] p4 obtain ok t5 where
    q: "TR_buffer_send (outcome x) t4 = Inr (ok, t5)" "sending t5 st" "fileIndex t5 = fileIndex t4" "ackId t5 = ackId t4" by blast
  have cov: "\<forall>f \<in> set ks. covered (ack_pair t # acks_of ls) f" using m(3) a1 covered_ack by blast
  have s4: "session hist t4 c2 st (gone @ ks)" "session hist t5 c2 st (gone @ ks)"
    using session_tx[OF n(2)] p4 q by simp_all
  have a4: "ack_pair t4 = ack_pair ?t1" "ack_pair t5 = ack_pair ?t1" using p4 q(4) n(3) m(5) by (simp_all add: ack_pair_def)
  have turn: "client_turn sys x t c = (if reset then Some (Inr (False, t4, c2)) else Some (Inr (ok \<and> \<not> stopCommand x, t5, c2)))"
    using Some r(1) m(1) n(1) p q(1) by (simp add: client_turn_def)
  have e: "ptr_contents (sent_queue c2) = ptr_contents (sent_queue c) @ ks" using m(4) by simp
  show ?thesis
  proof (cases reset)
    case True
    then show ?thesis using turn s4(1) cov a1 a4(1) e unfolding ls(1) by auto
  next
    case False
    then show ?thesis using turn s4(2) cov a1 a4(2) e unfolding ls(1) by auto
  qed
qed

lemma covered_mono: "covered A f \<Longrightarrow> set A \<subseteq> set B \<Longrightarrow> covered B f"
  by (auto simp: covered_def)

lemma acks_of_append [simp]: "acks_of (xs @ ys) = acks_of xs @ acks_of ys"
  by (simp add: acks_of_def)

lemma session_run:
  assumes "session hist t c started gone" "\<forall>x \<in> set xs. \<forall>l \<in> set (lines_of x). reply_fits l"
  shows "\<exists>t' c' started' ks. client_run sys xs t c = Some (Inr (t', c')) \<and> session hist t' c' started' (gone @ ks)
    \<and> (\<forall>f \<in> set ks. covered (ack_pair t # acks_of (concat (map lines_of xs))) f)
    \<and> ptr_contents (sent_queue c') = ptr_contents (sent_queue c) @ ks"
  using assms
proof (induction xs arbitrary: t c started gone)
  case Nil
  then show ?case by (intro exI[of _ t] exI[of _ c] exI[of _ started] exI[of _ "[]"]) simp
next
  case (Cons x xs)
  have fx: "\<forall>l \<in> set (lines_of x). reply_fits l" and fxs: "\<forall>x \<in> set xs. \<forall>l \<in> set (lines_of x). reply_fits l"
    using Cons.prems(2) by simp_all
  from session_turn[OF Cons.prems(1) fx, of sys] obtain go t1 c1 st ks where
    one: "client_turn sys x t c = Some (Inr (go, t1, c1))" "session hist t1 c1 st (gone @ ks)"
      "\<forall>f \<in> set ks. covered (ack_pair t # acks_of (lines_of x)) f" "ack_pair t1 \<in> set (ack_pair t # acks_of (lines_of x))"
      "ptr_contents (sent_queue c1) = ptr_contents (sent_queue c) @ ks" by blast
  let ?A = "ack_pair t # acks_of (concat (map lines_of (x # xs)))"
  have cov: "\<forall>f \<in> set ks. covered ?A f" using one(3) by (auto elim!: covered_mono)
  show ?case
  proof (cases go)
    case False
    then have "client_run sys (x # xs) t c = Some (Inr (t1, c1))" using one(1) by simp
    then show ?thesis using one(2,5) cov by blast
  next
    case True
    from Cons.IH[OF one(2) fxs] obtain t2 c2 st' ms where
      two: "client_run sys xs t1 c1 = Some (Inr (t2, c2))" "session hist t2 c2 st' ((gone @ ks) @ ms)"
        "\<forall>f \<in> set ms. covered (ack_pair t1 # acks_of (concat (map lines_of xs))) f"
        "ptr_contents (sent_queue c2) = ptr_contents (sent_queue c1) @ ms" by blast
    have run: "client_run sys (x # xs) t c = Some (Inr (t2, c2))" using one(1) two(1) True by simp
    have "set (ack_pair t1 # acks_of (concat (map lines_of xs))) \<subseteq> set ?A" using one(4) by auto
    then have "\<forall>f \<in> set (ks @ ms). covered ?A f" using cov two(3) covered_mono by (metis Un_iff set_append)
    then show ?thesis using run two(2,4) one(5) by (metis append.assoc)
  qed
qed

lemma session_start: "client_ok c \<Longrightarrow> session (waiting c) (connected t) c [] []"
  by (simp add: session_def connected_def sending_def buffer_ok_def to_send_def pending_text_def text_of_def)

end
