(* ===== verification/Transport_Properties.thy ===== *)
theory Transport_Properties
  imports Transport_Stream Transport_Sending
begin

text \<open>
  Properties of the log transport between a client and the server.
\<close>

section \<open>The server\<close>

text \<open>A connection that has just been accepted, and the line the client sends first.\<close>

definition greeting :: "string \<Rightarrow> bool" where
  "greeting g \<longleftrightarrow> plain_line g \<and> length g < TR_SERVER_BUFFER_SIZE - 1"

lemma serve_stream:
  assumes s: "queue_ready s" and sock: "sock \<noteq> -1" and g: "greeting g"
    and ok: "\<forall>w \<in> set ws. wire_file_ok w" "wire_file_ok w" and R: "partial @ R = file_text w" "R \<noteq> []"
    and xs: "\<forall>x \<in> set xs. good_input (Suc (length ws)) x"
    and long: "length (g @ newline # stream ws @ partial) \<le> length xs"
  shows "\<exists>cx' s' fs. serve_connection i xs (g @ newline # stream ws @ partial) (open_connection sock n cx) s = Some (Inr (0, [], cx', s'))
    \<and> cx_socket cx' \<noteq> -1 \<and> queue_log (output_queue s') = queue_log (output_queue s) @ fs \<and> list_all2 (received i n) ws fs"
proof -
  let ?cx = "open_connection sock n cx" and ?net = "g @ newline # stream ws @ partial"
  have "expects i ?cx (ws @ [w]) (cx_buffer ?cx @ ?net @ R)"
    using sock g R(1) by (auto simp: expects_def open_connection_def greeting_def)
  moreover have "quiet ?cx" by (simp add: quiet_def open_connection_def TR_SERVER_BUFFER_SIZE_def)
  moreover have "length (ws @ [w]) \<le> Suc (length ws)" "\<forall>v \<in> set (ws @ [w]). wire_file_ok v" using ok by auto
  ultimately obtain cx' net' s' vs where
    r: "serve_connection i xs ?net ?cx s = Some (Inr (0, net', cx', s'))" "expects i cx' vs (cx_buffer cx' @ net' @ R)"
      "quiet cx'" "length ?net \<le> length xs \<longrightarrow> net' = []" "progressed i (cx_id ?cx) (ws @ [w]) vs s s'" "init_kept ?cx (ws @ [w]) cx' vs"
    using serve_ok[OF _ _ xs _ _ s] by blast
  have net': "net' = []" using r(4) long by blast
  obtain arrived fs where a: "ws @ [w] = arrived @ vs" "queue_log (output_queue s') = queue_log (output_queue s) @ fs"
      "list_all2 (received i n) arrived fs"
    using r(5) by (auto simp: progressed_def open_connection_def)
  have "length R \<le> length (file_text w)" using arg_cong[OF R(1), of length] by simp
  from nothing_left[OF r(2)[unfolded net' append_Nil] r(3) a(1) R(2) this] r(6) have "arrived = ws"
    by (auto simp: init_kept_def)
  moreover have "cx_socket cx' \<noteq> -1" using r(2) by (simp add: expects_def)
  ultimately show ?thesis using r(1) a net' by blast
qed

section \<open>The client\<close>

lemma session_summary:
  assumes "client_ok c" "\<forall>x \<in> set xs. \<forall>l \<in> set (lines_of x). reply_fits l"
  shows "\<exists>t' c' started gone. client_run sys xs (connected t) c = Some (Inr (t', c'))
    \<and> waiting c = gone @ waiting c' \<and> ptr_contents (sent_queue c') = ptr_contents (sent_queue c) @ gone
    \<and> (\<forall>f \<in> set gone. covered (ack_pair t # acks_of (concat (map lines_of xs))) f)
    \<and> subseq started (waiting c) \<and> (gone = [] \<longrightarrow> prefix started (waiting c)) \<and> prefix (wire t') (text_of started)"
proof -
  from session_run[OF session_start[OF assms(1)] assms(2), of sys t] obtain t' c' started gone where
    r: "client_run sys xs (connected t) c = Some (Inr (t', c'))" "session (waiting c) t' c' started gone"
      "\<forall>f \<in> set gone. covered (ack_pair (connected t) # acks_of (concat (map lines_of xs))) f"
      "ptr_contents (sent_queue c') = ptr_contents (sent_queue c) @ gone" by (metis append_Nil)
  obtain s0 where s0: "started = s0 @ take (nat (fileIndex t')) (waiting c')" "subseq s0 gone"
    using r(2) by (auto simp: session_def)
  have h: "waiting c = gone @ waiting c'" and w: "wire t' @ to_send t' = text_of started"
    using r(2) by (auto simp: session_def sending_def)
  have "subseq started (waiting c)"
    unfolding h s0(1) by (rule list_emb_append_mono[OF s0(2) prefix_imp_subseq[OF take_is_prefix]])
  moreover have "gone = [] \<longrightarrow> prefix started (waiting c)" 
  proof
    assume "gone = []"
    then have "s0 = []" using s0(2) by (cases s0) auto
    then show "prefix started (waiting c)" using s0(1) h \<open>gone = []\<close> by (simp add: take_is_prefix)
  qed
  moreover have "prefix (wire t') (text_of started)" using w by (metis prefixI)
  moreover have "ack_pair (connected t) = ack_pair t" by (simp add: ack_pair_def connected_def)
  ultimately show ?thesis using r h by metis
qed

section \<open>From client to server\<close>

text \<open>The file as the server sees it on the wire.\<close>

definition on_wire :: "TR_file \<Rightarrow> wire_file" where
  "on_wire f = \<lparr>wf_source = source_name f, wf_min = minId (file_id f), wf_maj = majId (file_id f), wf_data = client_bytes f\<rparr>"

definition transferable :: "TR_file \<Rightarrow> bool" where
  "transferable f \<longleftrightarrow> wire_file_ok (on_wire f) \<and> file_size f = int (length (client_bytes f))
     \<and> length (header_of (on_wire f)) < TR_BUFFER_SIZE - 1"

lemma client_text_on_wire:
  assumes "transferable f"
  shows "client_text f = file_text (on_wire f)"
proof -
  let ?h = "header_text (source_name f) (minId (file_id f)) (majId (file_id f)) (file_size f)"
  have h: "?h = header_of (on_wire f) @ [newline]" using assms by (simp add: transferable_def header_text_line header_of_def on_wire_def)
  have "length ?h \<le> TR_BUFFER_SIZE - 1" using assms unfolding h by (auto simp: transferable_def)
  then have "print_header (source_name f) (minId (file_id f)) (majId (file_id f)) (file_size f) = ?h" by (simp add: print_header_def)
  then show ?thesis unfolding client_text_def file_text_def h by (simp add: on_wire_def end_line_text_def end_text_def)
qed

lemma text_of_stream: "\<forall>f \<in> set fs. transferable f \<Longrightarrow> text_of fs = stream (map on_wire fs)"
  by (induction fs) (simp_all add: text_of_def stream_def client_text_on_wire)

text \<open>A beginning of a sequence of texts is whole texts and a proper beginning of the next.\<close>

lemma prefix_of_texts:
  assumes "prefix p (stream ws)"
  obtains (all) "p = stream ws" | (part) vs w us partial R where "ws = vs @ w # us" "p = stream vs @ partial" "partial @ R = file_text w" "R \<noteq> []"
  using assms
proof (induction ws arbitrary: p thesis)
  case Nil
  then show ?case by simp
next
  case (Cons w ws)
  show ?case
  proof (cases "length p < length (file_text w)")
    case True
    then obtain R where "p @ R = file_text w"
      using Cons.prems(3) by (metis append_eq_append_conv_if less_imp_le_nat prefixE stream_simps(2) append_take_drop_id)
    moreover have "R \<noteq> []" using True calculation by auto
    ultimately show ?thesis by (intro Cons.prems(2)[of "[]" w ws p R]) simp_all
  next
    case False
    then obtain q where q: "p = file_text w @ q" "prefix q (stream ws)"
      using Cons.prems(3) by (metis not_le prefix_append prefix_length_le prefix_order.antisym stream_simps(2) append_Nil2 same_prefix_prefix nat_le_linear prefix_length_prefix prefixE prefixI)
    show ?thesis
    proof (rule Cons.IH[OF _ _ q(2)])
      show ?thesis if "q = stream ws" using that q(1) by (intro Cons.prems(1)) simp
      show ?thesis if "ws = vs @ v # us" "q = stream vs @ partial" "partial @ R = file_text v" "R \<noteq> []" for vs v us partial R
        using that q(1) by (intro Cons.prems(2)[of "w # vs" v us partial R]) simp_all
    qed
  qed
qed


lemma good_input_mono: "good_input n x \<Longrightarrow> m \<le> n \<Longrightarrow> good_input m x"
  by (auto simp: good_input_def)

lemma subseq_text: "subseq fs gs \<Longrightarrow> length (text_of fs) \<le> length (text_of gs)"
  by (induction fs gs rule: list_emb.induct) (simp_all add: text_of_def)

definition any_file :: wire_file where
  "any_file = \<lparr>wf_source = ''a'', wf_min = 0, wf_maj = 0, wf_data = ''a''\<rparr>"

lemma any_file_ok: "wire_file_ok any_file"
  by (simp add: wire_file_ok_def any_file_def plain_name_def is_space_def header_of_def header_line_def TR_SERVER_BUFFER_SIZE_def
      print_int_def print_nat.simps digit_char_def)

lemma complete_files:
  assumes ok: "\<forall>f \<in> set fs. transferable f" and es: "prefix es fs" "prefix (text_of es) p"
    and ds: "prefix ds fs" "map on_wire fs = map on_wire ds @ w # us"
    and p: "length p < length (stream (map on_wire ds)) + length (file_text w)"
  shows "prefix es ds"
proof (rule ccontr)
  assume "\<not> prefix es ds"
  then obtain f gs where f: "es = ds @ f # gs"
    using prefix_same_cases[OF es(1) ds(1)] by (metis append_Nil2 neq_Nil_conv prefixE prefix_order.refl)
  obtain hs where "fs = es @ hs" using es(1) by (rule prefixE)
  then have "on_wire f = w" using ds(2) f by simp
  moreover have "\<forall>f \<in> set es. transferable f" using ok es(1) set_mono_prefix by blast
  ultimately have "length (text_of es) \<ge> length (stream (map on_wire ds)) + length (file_text w)"
    using f by (simp add: text_of_stream)
  then show False using prefix_length_le[OF es(2)] p by simp
qed

text \<open>A beginning of the texts of some files is received as some beginning of the files.\<close>

lemma serve_prefix:
  assumes s: "queue_ready s" and sock: "sock \<noteq> -1" and g: "greeting g" and ok: "\<forall>f \<in> set fs. transferable f"
    and p: "prefix p (text_of fs)" and xs: "\<forall>x \<in> set xs. good_input (Suc (length fs)) x"
    and long: "length (g @ newline # p) \<le> length xs"
  shows "\<exists>cx' s' ds rs. serve_connection i xs (g @ newline # p) (open_connection sock n cx) s = Some (Inr (0, [], cx', s'))
    \<and> cx_socket cx' \<noteq> -1 \<and> prefix ds fs \<and> (\<forall>es. prefix es fs \<and> prefix (text_of es) p \<longrightarrow> prefix es ds)
    \<and> queue_log (output_queue s') = queue_log (output_queue s) @ rs
    \<and> list_all2 (received i n) (map on_wire ds) rs"
proof -
  have wok: "\<forall>w \<in> set (map on_wire fs). wire_file_ok w" using ok by (auto simp: transferable_def)
  from p have "prefix p (stream (map on_wire fs))" by (simp add: text_of_stream[OF ok])
  then show ?thesis
  proof (cases rule: prefix_of_texts)
    case all
    have e: "any_file = any_file" by simp
    have R: "[] @ file_text any_file = file_text any_file" "file_text any_file \<noteq> []" by (simp_all add: file_text_def)
    have x: "\<forall>x \<in> set xs. good_input (Suc (length (map on_wire fs))) x" using xs by simp
    have l: "length (g @ newline # stream (map on_wire fs) @ []) \<le> length xs" using long all by simp
    from serve_stream[OF s sock g wok any_file_ok R x l, of i n cx] all show ?thesis
      by (metis (no_types, lifting) append_Nil2 prefix_order.refl)
  next
    case (part vs w us partial R)
    define ds where "ds = take (length vs) fs"
    have vs: "vs = map on_wire ds" using part(1) by (metis append_eq_conv_conj ds_def take_map)
    have ok': "\<forall>v \<in> set vs. wire_file_ok v" "wire_file_ok w" using wok part(1) by auto
    have "length vs \<le> length fs" using part(1) by (metis length_append length_map le_add1)
    then have x: "\<forall>x \<in> set xs. good_input (Suc (length vs)) x" using xs by (auto elim: good_input_mono)
    have l: "length (g @ newline # stream vs @ partial) \<le> length xs" using long part(2) by simp
    have "prefix es ds" if "prefix es fs" "prefix (text_of es) p" for es
    proof (rule complete_files[OF ok that, where w = w])
      show "prefix ds fs" by (simp add: ds_def take_is_prefix)
      show "map on_wire fs = map on_wire ds @ w # us" using part(1) vs by simp
      show "length p < length (stream (map on_wire ds)) + length (file_text w)"
        using part(2,4) vs arg_cong[OF part(3), of length] by (cases R) simp_all
    qed
    moreover have "prefix ds fs" by (simp add: ds_def take_is_prefix)
    ultimately show ?thesis
      using serve_stream[OF s sock g ok' part(3,4) x l, of i n cx] unfolding vs part(2)[unfolded vs, symmetric] by blast
  qed
qed


section \<open>A small configuration\<close>

definition test_file :: "int \<Rightarrow> string \<Rightarrow> TR_file" where
  "test_file k bytes =
     \<lparr>file_id = \<lparr>fileSource = Some ''flp'', majId = 1, minId = k, fileSender = 0, sender_magic = None\<rparr>,
      file_blobs = [\<lparr>blob_value = bytes, blob_size = int (length bytes)\<rparr>], file_size = int (length bytes), file_path = None,
      n_user = 1, file_addr = nat k\<rparr>"

definition test_client :: "TR_file \<Rightarrow> TR_client" where
  "test_client f =
     \<lparr>client_name = ''flp'', input_queue = \<lparr>ring_size = 1, index_start = 0, index_end = 1, slots = [Some f, None], total_files = 1\<rparr>,
      sent_queue = \<lparr>ring_size = 1, index_start = 0, index_end = 0, slots = [None, None], total_files = 0\<rparr>,
      server_shutdown_request = False, input_queue_msg = None, fileAddress = 2\<rparr>"

definition test_server :: TR_server where
  "test_server = TR_server_start TR_SERVER_TCP 1 1 None"

definition test_tx :: client_tx where
  "test_tx = \<lparr>curFile = None, curBlobs = [], fileIndex = 0, sendValue = [], sendStart = 0, sendStop = 0, transferInit = False,
     transferDeinit = False, onDisk = None, ackId = no_file_id, wdLastIndex = -1, wdCount = -1, wdTimer = 0, wire = []\<rparr>"

definition test_input :: "nat \<Rightarrow> cx_input" where
  "test_input n = \<lparr>arrival_of = Arrived 7, sendResult = 6, queueWaits = replicate n \<lparr>timedOut = False, others = consumers_take 1\<rparr>\<rparr>"

definition test_turn :: "string list \<Rightarrow> turn_input" where
  "test_turn ls = \<lparr>replies = Some ls, opened = None, clock = 0, outcome = SendReturns 5, stopCommand = False\<rparr>"

lemma test_inputs: "\<forall>x \<in> set (replicate m (test_input n)). good_input n x"
  by (auto simp: good_input_def test_input_def taking_waits_def)

lemma test_server_ready: "queue_ready test_server"
  by (simp add: queue_ready_def test_server_def TR_server_start_def ptFIFO_new_def ptr_ring.defs file_queue.defs ptr_inv_def
      ptr_slice_def ptr_capacity_def in_ring_def)

lemma test_waiting: "waiting (test_client f) = [f]"
  by (simp add: waiting_def test_client_def ptr_contents_def ptr_slice_def ring_dist_def)

lemma test_client_ok: "client_file_ok f \<Longrightarrow> client_ok (test_client f)"
  unfolding client_ok_def test_waiting by (simp add: test_client_def ptr_inv_def ptr_slice_def ring_dist_def in_ring_def)

lemma test_file_ok: "client_file_ok (test_file k bytes)"
  by (simp add: client_file_ok_def test_file_def)

lemma test_transferable: "transferable (test_file 1 ''hello'')"
  by (simp add: transferable_def wire_file_ok_def on_wire_def test_file_def client_bytes_def source_name_def plain_name_def is_space_def
      header_of_def header_line_def TR_BUFFER_SIZE_def TR_SERVER_BUFFER_SIZE_def print_int_def print_nat.simps digit_char_def)

lemma test_greeting: "greeting ''INI flp 0''"
  by (simp add: greeting_def plain_line_def newline_def TR_SERVER_BUFFER_SIZE_def)

lemma test_reply: "reply_fits ''ACK 1 1''"
  by code_simp


section \<open>Properties\<close>



text \<open>(C18) The server's reception state machine computes what the stream says: when a client has sent a first line, the texts of
  some files and a part of the text of one more, and all of it has been read, in pieces of any length, the server has put
  exactly these files into its output queue, in order, and the connection is open.
\<close>

theorem server_receives_stream:
  assumes "queue_ready s" "sock \<noteq> -1" "greeting g" "\<forall>w \<in> set ws. wire_file_ok w" "wire_file_ok w"
    and "partial @ R = file_text w" "R \<noteq> []" "\<forall>x \<in> set xs. good_input (Suc (length ws)) x"
    and "length (g @ newline # stream ws @ partial) \<le> length xs"
  shows "\<exists>cx' s' fs. serve_connection i xs (g @ newline # stream ws @ partial) (open_connection sock n cx) s = Some (Inr (0, [], cx', s'))
    \<and> cx_socket cx' \<noteq> -1 \<and> queue_log (output_queue s') = queue_log (output_queue s) @ fs \<and> list_all2 (received i n) ws fs"
  using serve_stream[OF assms] .

theorem server_receives_stream_witness:
  "\<exists>cx' s' fs. serve_connection 0 (replicate 90 (test_input 2)) (''INI flp 0'' @ newline # stream [any_file] @ ''Fil'')
      (open_connection 5 3 free_connection) test_server = Some (Inr (0, [], cx', s'))
    \<and> cx_socket cx' \<noteq> -1 \<and> queue_log (output_queue s') = queue_log (output_queue test_server) @ fs
    \<and> list_all2 (received 0 3) [any_file] fs"
proof (rule server_receives_stream[OF test_server_ready _ test_greeting])
  have t: "file_text any_file = ''File a 0 0 1'' @ newline # ''aEND'' @ [newline]"
    by (simp add: file_text_def any_file_def header_of_def header_line_def end_text_def print_int_def print_nat.simps digit_char_def)
  show "''Fil'' @ ''e a 0 0 1'' @ newline # ''aEND'' @ [newline] = file_text any_file" by (simp add: t)
  show "length (''INI flp 0'' @ newline # stream [any_file] @ ''Fil'') \<le> length (replicate 90 (test_input 2))" by (simp add: t)
  show "\<forall>x \<in> set (replicate 90 (test_input 2)). good_input (Suc (length [any_file])) x"
    using test_inputs[of 90 2] by (simp add: numeral_2_eq_2)
qed (simp_all add: any_file_ok)



text \<open>(C36) An empty file stops the transport: the client announces it with the size 0, and a server that reads this header, with
  whatever follows it, closes the connection and takes nothing from it.
\<close>

theorem empty_file_closes_connection:
  assumes "client_file_ok f" "client_bytes f = []" "file_size f = 0" "plain_name (source_name f)"
    and "- (2 ^ 31) \<le> minId (file_id f)" "minId (file_id f) < 2 ^ 31" "- (2 ^ 31) \<le> majId (file_id f)" "majId (file_id f) < 2 ^ 31"
    and "length (header_of (on_wire f)) < TR_BUFFER_SIZE - 1" "cx_state cx = WAITING_FILE_BEGIN" "cx_socket cx \<noteq> -1"
  shows "parse_buffer i sent moved (client_text f @ rest) cx ws s = Some (Inr (0, TR_server_connection_close cx, ws, s))"
proof -
  let ?h = "header_of (on_wire f)"
  have h: "header_text (source_name f) (minId (file_id f)) (majId (file_id f)) (file_size f) = ?h @ [newline]"
    using assms(2,3) by (simp add: header_text_line header_of_def on_wire_def)
  have "length (?h @ [newline]) \<le> TR_BUFFER_SIZE - 1" using assms(9) by auto
  then have t: "client_text f @ rest = ?h @ newline # end_line_text @ rest"
    using assms(2) unfolding client_text_def print_header_def h by simp
  have sc: "scan_header ?h = Inr (Some (source_name f, minId (file_id f), majId (file_id f), 0))"
    using assms(2,4-8) scan_header_line[of "source_name f" "minId (file_id f)" "majId (file_id f)" 0] by (simp add: header_of_def on_wire_def)
  have p: "plain_line ?h" using assms(4) by (intro plain_header_name) (simp add: on_wire_def)
  have c: "cx_socket (TR_server_connection_close cx) = -1" by (simp add: TR_server_connection_close_def)
  have "process_line i sent ?h (end_line_text @ rest) cx ws s = Some (Inr (0, 0, TR_server_connection_close cx, ws, s))"
    using assms(10) sc by (simp add: process_line_def begin_file_def)
  then show ?thesis
    using assms(11) whole_line[OF p, of "end_line_text @ rest"] c unfolding t
    by (subst parse_buffer.simps) (simp add: Let_def parse_buffer.simps[of i sent True])
qed

theorem empty_file_closes_connection_witness:
  "let cx = (open_connection 5 3 free_connection)\<lparr>cx_state := WAITING_FILE_BEGIN\<rparr> in
   parse_buffer 0 6 True (client_text (test_file 1 []) @ ''File'') cx [] test_server
     = Some (Inr (0, TR_server_connection_close cx, [], test_server))"
  unfolding Let_def
  by (rule empty_file_closes_connection)
    (simp_all add: test_file_ok client_bytes_def test_file_def source_name_def plain_name_def is_space_def on_wire_def header_of_def
      header_line_def TR_BUFFER_SIZE_def print_int_def print_nat.simps digit_char_def open_connection_def client_file_ok_def)

text \<open>(C37) A full output queue that nobody empties costs the file: after eleven tries of a second each the file is dropped with the
  connection, and the statistics have counted it as received eleven times.
\<close>

theorem full_queue_drops_file:
  assumes "ptr_inv (output_queue s)" "length (ptr_contents (output_queue s)) = ptr_capacity (output_queue s)"
    and "current_file cx = Some f" "waits = replicate 11 \<lparr>timedOut = True, others = (\<lambda>q. q)\<rparr>"
  shows "end_file ''END'' cx waits s = Some (Inr (-1, TR_server_connection_close cx, [],
      s\<lparr>stat_files_received := stat_files_received s + 11, stat_bytes_received := stat_bytes_received s + 11 * file_size f\<rparr>))"
proof -
  have "push_file 10 f waits s = Some (Inr (False, [],
      s\<lparr>stat_files_received := stat_files_received s + 11, stat_bytes_received := stat_bytes_received s + 11 * file_size f\<rparr>))"
    using push_file_full[OF assms(1,2), of 10 f] assms(4) by simp
  then show ?thesis using assms(3) by (simp add: end_file_def)
qed


theorem full_queue_drops_file_witness:
  "let cx = (open_connection 5 3 free_connection)\<lparr>cx_state := WAITING_FILE_END, current_file := Some (test_file 2 ''two'')\<rparr>;
       s = test_server\<lparr>output_queue := \<lparr>ring_size = 1, index_start = 0, index_end = 1, slots = [Some (test_file 1 ''one''), None],
             filesTaken = []\<rparr>\<rparr>;
       waits = replicate 11 \<lparr>timedOut = True, others = (\<lambda>q. q)\<rparr> in
   end_file ''END'' cx waits s = Some (Inr (-1, TR_server_connection_close cx, [],
      s\<lparr>stat_files_received := stat_files_received s + 11, stat_bytes_received := stat_bytes_received s + 11 * file_size (test_file 2 ''two'')\<rparr>))"
  unfolding Let_def
  by (rule full_queue_drops_file)
    (simp_all add: ptr_inv_def ptr_slice_def ptr_contents_def ptr_capacity_def ring_dist_def in_ring_def)

end
