(* ===== verification/Spec2Isabelle.thy ===== *)
theory Spec2Isabelle
  imports Queue_Properties Pool_Properties Channel_Properties Card_Properties Readout_Properties Event_Properties
    Consumer_Properties Control_Properties Text_Properties
    Log_Properties Message_Properties Transport_Properties
begin

text \<open>
  Verification of the FLP prototype: the readout chain of the ALICE O2 project.

  \<^bold>\<open>The program.\<close> A readout process (src/Readout) opens readout cards through the ReadoutCard library (src/RORC), gives them
  pages of memory to fill, turns filled pages into data blocks, merges the blocks of several cards into data sets and hands
  them to consumers. It rests on queues, threads and timers (src/Common) and on memory pools (src/DataFormat); its processes
  are controlled by a state machine (src/Control). The other directories hold logging, data
  quality, sampling, a GUI, examples and benchmarks.

  \<^bold>\<open>How code becomes definitions.\<close>
  \<^item> A class is a record with its fields, a member function a definition \<open><Class>_<function>\<close>; loops are functions beside it.
  \<^item> A value of type \<open>'a res\<close> is a result \<open>Inr\<close> or an exception \<open>Inl\<close>; code that works on hardware is of type \<open>io\<close>, a function from a state to a result and the state, so
    that what was done before an exception stays done. Accesses outside a vector, uses of dead objects and signed
    overflow, which are undefined in C++, are exceptions of their own.
  \<^item> Unsigned integers are words of their width; an \<^verbatim>\<open>int\<close> is an \<open>int\<close> with its range written out where it can matter.
  \<^item> Concurrent code is cut at its accesses to shared variables: a step relation or step function per thread, and theorems about
    every interleaving.
  \<^item> What is not in the repository is an argument: the PDA library, the registers of the cards, the clock, the allocator, memory mapped files,
    \<^verbatim>\<open>lexical_cast\<close>, the directory server, user-defined callbacks. Sleeps are left out, log and exception texts are cut to their fixed part, and checks that a release
    build may leave out are compiled in.

  \<^bold>\<open>Theories.\<close>
  \<^item> \<open>Prelude\<close>: words, results, state computations, bounds-checked vectors, ring arithmetic.
  \<^item> \<open>Queue_Interface\<close> (locale \<open>bounded_queue\<close>), interpreted by \<open>Fifo\<close> (Common/Fifo.h) and \<open>ProducerConsumerQueue\<close> (RORC/src/folly); \<open>Fifo_Concurrent\<close>: the
    statements of a writer and a reader thread as a step relation. \<open>Queue_Properties\<close>: first-in first-out behaviour for any calls and for any
    interleaving, freedom from data races, progress, and that \<^verbatim>\<open>clear\<close> leaves an unusable object.
  \<^item> \<open>Page_Pool\<close> (locale \<open>page_pool\<close>), interpreted by \<open>MemPool\<close> (DataFormat/src) and by the queue of offsets in \<open>ReadoutMemory\<close>; \<open>MemPool_Concurrent\<close>: calls of
    any number of threads. \<open>Pool_Properties\<close>: exclusive ownership of pages, construction, hand-out of all pages, and the release that can be lost.
  \<^item> \<open>RocUtil\<close>, \<open>Parameters\<close>, \<open>SuperpageQueue\<close>, \<open>Superpage_Pages\<close>, \<open>Pda\<close>, \<open>Cru_Bar\<close>, \<open>Crorc\<close>: the parts of the ReadoutCard library: bit
    and address helpers, enumerations and link masks, the registry of superpages and its page accounting, BARs and scatter-gather lists, registers of the
    CRU, driver of the C-RORC. \<open>Card_Properties\<close>: layouts, round trips, address translation, parsing, and what the error paths really do.
  \<^item> \<open>Dma_Channel\<close> (locale \<open>dma_channel\<close>), interpreted by \<open>DummyDmaChannel\<close>, \<open>CruDmaChannel\<close> and \<open>CrorcDmaChannel\<close>. \<open>Channel_Properties\<close>: no superpage is
    lost or invented by any of the channels whatever the card answers, the C-RORC keeps the order and never overruns the firmware
    FIFO, the CRU balances its links.
  \<^item> \<open>ReadoutMemory\<close>, \<open>ReadoutEquipment\<close>: the memory and the readout cycle, a client of \<open>dma_channel\<close> and \<open>Fifo\<close>; \<open>DataBlockAggregator\<close>: event building; \<open>Consumers\<close>.
    \<open>Readout_Properties\<close>, \<open>Event_Properties\<close>, \<open>Consumer_Properties\<close>: circulation of the pages through card, queue and consumers, events in order, blocks conserved, the data
    checker against a reference count.
  \<^item> \<open>Thread_Loop\<close>: the looping thread and the timer, with the bound on what a thread does after a request to stop. \<open>ControlStateMachine\<close>,
    \<open>Control_Properties\<close>: the control states against the documented diagram.
  \<^item> \<open>Text_Input\<close>: numbers with a unit and lines from a file descriptor (Common/SuffixNumber.h, Common/src/LineBuffer.cxx). \<open>Text_Properties\<close>: exactness of the
    numbers, uniqueness of the division into lines.
  \<^item> The log transport (InfoLogger/src): \<open>Circular_Table\<close> (again a \<open>bounded_queue\<close>), \<open>Perm_Fifo\<close>, \<open>Perm_Fifo_File\<close>: the FIFO that keeps log messages on disk until they are
    acknowledged (permanentFIFO.c), on the bytes of its files; \<open>Perm_Fifo_Loops\<close>, \<open>Perm_Fifo_Invariant\<close>, \<open>Perm_Fifo_Ops\<close>, \<open>Perm_Fifo_Sessions\<close>, \<open>Perm_Fifo_Reopen\<close>: its loops on
    well-formed files, the invariant, every operation, a client over several runs of the process, cleaning and reopening. \<open>Log_Properties\<close>: no message is lost, repeated or
    reordered over any number of runs, and an interrupted cleaning does no harm.
  \<^item> The log messages (InfoLogger/src): \<open>Log_Message\<close>, \<open>Log_Decode\<close>: protocols, encoder and decoder (infoLoggerMessage.c, infoLoggerMessageDecode.c); \<open>Log_Daemon\<close>: the loop of the
    local daemon that cuts the data of its clients into messages (infoLoggerD.cxx); \<open>Log_Encoding\<close>, \<open>Log_Decoding\<close>, \<open>Log_Protocols\<close>: the bounded print buffer, what is read back
    from a record, conversion and types. \<open>Message_Properties\<close>: a message arrives as it was sent, line by line, the encoder respects its buffer, decoded messages are
    typed, and where messages are lost or merged.
  \<^item> The log transport between processes (InfoLogger/src): \<open>Util_Fifo\<close>: the two pointer queues of utility.c, both again a
    \<open>bounded_queue\<close>, the second with its waits; \<open>Transport_Files\<close>: files, their identifiers and the line that announces one;
    \<open>Transport_Server\<close> (transport_server.c): the reception state machine of a connection, the acknowledgements, a turn of the
    loop for streams and for datagrams; \<open>Transport_Client\<close> (transport_client.c): the loop of the connected client.
    \<open>Transport_Reception\<close> and \<open>Transport_Stream\<close> prove that a connection takes the files off a stream however it is cut into
    reads, \<open>Transport_Sending\<close> that the client puts them on it, \<open>Transport_Properties\<close> joins the two.
    The fuel of the removal of acknowledged files is one more than the slots of the queue, and every iteration removes a file.

  \<^bold>\<open>Loops and fuel.\<close> Loops that the code bounds are structural recursion or functions with a measure. Loops that it does not bound by
  itself are partial functions with \<open>None\<close> for not ending (\<open>drain\<close>, \<open>insert_range\<close>, \<open>give_pages\<close>, \<open>collect_pages\<close>, \<open>check_pages\<close>, the loops over the bytes of a FIFO file), and the properties show that they return
  or, for a link range that ends at the largest number, that they do not. The
  arrival loop of the C-RORC runs at most as often as there are pages in the FIFO, which is its recursion argument.
  Polling loops of the driver have the bounds of the code.

  \<^bold>\<open>Not modelled.\<close> Start-up of the processes from configuration files, logging, the programs of the command line, DIM and FairMQ
  transport, the proxy, the cache and the log server of InfoLogger with its SQL dispatch, the connecting of its client, the ZooKeeper client, firmware programming of the C-RORC flash from a file, the older C driver, and everything
  outside the readout chain: those are calls of libraries and of the operating system, or superseded or generated code.
\<close>

end
